(* ===== verification/Prelude.thy ===== *)
theory Prelude
  imports Main
begin

text \<open>
  Shared vocabulary of the development: the machine-level types that the Go
  sources use, the polling of a Go \<open>context.Context\<close>, and the generic lemmas on
  lists and byte values that several components need.

  A Go \<open>byte\<close> is a HOL \<open>char\<close> (256 values); \<open>[]byte\<close> and Go strings are
  \<open>char list\<close>, so Isabelle string literals denote the same bytes as Go's. The
  number of a byte is \<open>bv c\<close>. Times are nanoseconds since the zero
  \<open>time.Time\<close> (so that \<open>IsZero\<close> is the test for 0) and durations are
  nanoseconds.
\<close>

section \<open>Types and collections\<close>

type_synonym byte = char
type_synonym bytes = "char list"
type_synonym time = int
type_synonym duration = int
type_synonym uint64 = nat

abbreviation bv :: "char \<Rightarrow> nat" where
  "bv c \<equiv> of_char c"

abbreviation MaxUint64 :: nat where
  "MaxUint64 \<equiv> 18446744073709551615"

abbreviation MaxInt64 :: int where
  "MaxInt64 \<equiv> 9223372036854775807"

named_theorems bytes_simps \<open>rewriting on byte strings\<close>
named_theorems ops_defs \<open>definitions of component operations\<close>
named_theorems inv_intros \<open>preservation of component invariants\<close>

section \<open>Contexts\<close>

text \<open>
  The sources poll a \<open>context.Context\<close> at fixed points of an operation and the
  context may be cancelled between two polls. A context is therefore the
  sequence of its poll results: \<open>None\<close> while live, \<open>Some e\<close> once it is done.
\<close>

datatype ctx_err = Canceled | DeadlineExceeded

datatype gocontext = NilContext | Context "nat \<Rightarrow> ctx_err option"

abbreviation background :: gocontext where
  "background \<equiv> Context (\<lambda>_. None)"

section \<open>Bytes\<close>

lemma bv_less_256 [simp]: "bv c < 256"
  by (rule nat_of_char_less_256)

lemma bv_le_255 [simp]: "bv c \<le> 255"
  using nat_of_char_less_256 [of c] by linarith

lemma bv_eq_iff: "bv c = bv d \<longleftrightarrow> c = d"
  by (rule of_char_eq_iff)

section \<open>Lists\<close>

lemma take_drop_split: "n \<le> length xs \<Longrightarrow> xs = take n xs @ drop n xs"
  by simp

lemma drop_nth_Cons: "i < length xs \<Longrightarrow> drop i xs = xs ! i # drop (Suc i) xs"
  by (simp add: Cons_nth_drop_Suc)

lemma last_drop_eq: "n < length xs \<Longrightarrow> last (drop n xs) = last xs"
  by simp

section \<open>Codecs\<close>

text \<open>
  A codec whose decoder reads one encoded item off the front of its input and hands back the
  rest. \<open>canon x\<close> is what the decoder reports for \<open>x\<close>. Such a codec is prefix-free, and a
  concatenation of encodings determines the sequence of items.
\<close>

locale prefix_codec =
  fixes enc :: "'a \<Rightarrow> 'b list option" and dec :: "'b list \<Rightarrow> ('c \<times> 'b list) option"
    and canon :: "'a \<Rightarrow> 'c"
  assumes dec_enc: "enc x = Some y \<Longrightarrow> dec (y @ rest) = Some (canon x, rest)"
    and dec_nil: "dec [] = None"
begin

lemma enc_front:
  assumes "enc x = Some y" and "enc x' = Some y'" and "y @ rest = y' @ rest'"
  shows "canon x = canon x' \<and> rest = rest'"
  using dec_enc [OF assms(1), of rest] dec_enc [OF assms(2), of rest'] assms(3) by simp

lemma enc_nonempty: "enc x = Some y \<Longrightarrow> y \<noteq> []"
  using dec_enc [of x "[]" "[]"] dec_nil by auto

lemma enc_prefix_free: "enc x = Some y \<Longrightarrow> enc x' = Some (y @ z) \<Longrightarrow> z = []"
  using enc_front [of x y x' "y @ z" z "[]"] by simp

lemma enc_sequence:
  assumes "list_all2 (\<lambda>x y. enc x = Some y) xs ys" and "list_all2 (\<lambda>x y. enc x = Some y) xs' ys'"
    and "concat ys = concat ys'"
  shows "map canon xs = map canon xs'"
  using assms
proof (induction xs ys arbitrary: xs' ys' rule: list_all2_induct)
  case Nil
  then show ?case by (cases ys') (auto dest: enc_nonempty simp: list_all2_Cons2)
next
  case (Cons x xs y ys)
  obtain x' zs' y' ws' where c: "xs' = x' # zs'" "ys' = y' # ws'" "enc x' = Some y'"
    "list_all2 (\<lambda>x y. enc x = Some y) zs' ws'"
    using Cons.prems enc_nonempty [OF Cons.hyps(1)] by (cases ys') (auto simp: list_all2_Cons2)
  with Cons.prems enc_front [OF Cons.hyps(1) c(3)] Cons.IH [OF c(4)] show ?case by simp
qed

end

end
