(* ===== verification/Utf8.thy ===== *)
theory Utf8
  imports Prelude
begin

text \<open>
  The part of Go's \<open>unicode/utf8\<close> and \<open>unicode\<close> packages the sources rely on:
  \<open>DecodeRune\<close>, \<open>DecodeLastRune\<close>, \<open>FullRune\<close>, \<open>RuneStart\<close>, \<open>Valid\<close>,
  \<open>unicode.IsSpace\<close>, \<open>unicode.IsControl\<close> and the \<open>TrimSpace\<close> functions. The
  lemmas give what the migration components need: decoding is stable under
  appending bytes once a rune is full, valid text splits at every rune start,
  and validity is closed under concatenation.
\<close>

section \<open>Decoding one rune\<close>

abbreviation RuneError :: nat where
  "RuneError \<equiv> 0xFFFD"

definition utf8_cont :: "byte \<Rightarrow> bool" where
  "utf8_cont c \<longleftrightarrow> 0x80 \<le> bv c \<and> bv c \<le> 0xBF"

text \<open>Size of the encoding a lead byte announces and the range of its second byte.\<close>

definition utf8_lead :: "byte \<Rightarrow> (nat \<times> nat \<times> nat) option" where
  "utf8_lead c =
     (let b = bv c in
      if 0xC2 \<le> b \<and> b \<le> 0xDF then Some (2, 0x80, 0xBF)
      else if b = 0xE0 then Some (3, 0xA0, 0xBF)
      else if b = 0xED then Some (3, 0x80, 0x9F)
      else if 0xE1 \<le> b \<and> b \<le> 0xEF then Some (3, 0x80, 0xBF)
      else if b = 0xF0 then Some (4, 0x90, 0xBF)
      else if b = 0xF4 then Some (4, 0x80, 0x8F)
      else if 0xF1 \<le> b \<and> b \<le> 0xF3 then Some (4, 0x80, 0xBF)
      else None)"

fun decode_rune :: "bytes \<Rightarrow> nat \<times> nat" where
  "decode_rune [] = (RuneError, 0)"
| "decode_rune (c # cs) =
     (if bv c < 0x80 then (bv c, 1)
      else case utf8_lead c of
        None \<Rightarrow> (RuneError, 1)
      | Some (sz, lo, hi) \<Rightarrow>
          if Suc (length cs) < sz then (RuneError, 1)
          else if bv (cs ! 0) < lo \<or> hi < bv (cs ! 0) then (RuneError, 1)
          else if sz \<le> 2 then ((bv c - 0xC0) * 64 + (bv (cs ! 0) - 0x80), 2)
          else if \<not> utf8_cont (cs ! 1) then (RuneError, 1)
          else if sz \<le> 3 then
            ((bv c - 0xE0) * 4096 + (bv (cs ! 0) - 0x80) * 64 + (bv (cs ! 1) - 0x80), 3)
          else if \<not> utf8_cont (cs ! 2) then (RuneError, 1)
          else
            ((bv c - 0xF0) * 262144 + (bv (cs ! 0) - 0x80) * 4096
              + (bv (cs ! 1) - 0x80) * 64 + (bv (cs ! 2) - 0x80), 4))"

abbreviation rune_size :: "bytes \<Rightarrow> nat" where
  "rune_size s \<equiv> snd (decode_rune s)"

definition full_rune :: "bytes \<Rightarrow> bool" where
  "full_rune s =
     (case s of
        [] \<Rightarrow> False
      | c # cs \<Rightarrow>
          if bv c < 0x80 then True
          else case utf8_lead c of
            None \<Rightarrow> True
          | Some (sz, lo, hi) \<Rightarrow>
              if sz \<le> Suc (length cs) then True
              else if 1 \<le> length cs \<and> (bv (cs ! 0) < lo \<or> hi < bv (cs ! 0)) then True
              else 2 \<le> length cs \<and> \<not> utf8_cont (cs ! 1))"

definition rune_start :: "byte \<Rightarrow> bool" where
  "rune_start c \<longleftrightarrow> \<not> (0x80 \<le> bv c \<and> bv c \<le> 0xBF)"

fun utf8_valid :: "bytes \<Rightarrow> bool" where
  "utf8_valid [] = True"
| "utf8_valid (c # cs) =
     (if bv c < 0x80 then utf8_valid cs
      else (let n = rune_size (c # cs) in n \<noteq> 1 \<and> utf8_valid (drop (n - 1) cs)))"

declare utf8_valid.simps(2) [simp del]
declare decode_rune.simps(2) [simp del]

text \<open>A byte string that is exactly the encoding of one rune.\<close>

definition rune_enc :: "bytes \<Rightarrow> bool" where
  "rune_enc s \<longleftrightarrow> s \<noteq> [] \<and> rune_size s = length s \<and> (length s = 1 \<longrightarrow> bv (hd s) < 0x80)"

lemma utf8_leadE:
  assumes "utf8_lead c = Some x"
  obtains (two) lo hi where "x = (2, lo, hi)" "0x80 \<le> lo" "hi \<le> 0xBF" "0xC2 \<le> bv c"
  | (three) lo hi where "x = (3, lo, hi)" "0x80 \<le> lo" "hi \<le> 0xBF" "0xC2 \<le> bv c"
  | (four) lo hi where "x = (4, lo, hi)" "0x80 \<le> lo" "hi \<le> 0xBF" "0xC2 \<le> bv c"
  using assms by (auto simp: utf8_lead_def Let_def split: if_splits)

lemma list_cases_4 [case_names nil one two three four]:
  assumes "xs = [] \<Longrightarrow> P" and "\<And>a. xs = [a] \<Longrightarrow> P" and "\<And>a b. xs = [a, b] \<Longrightarrow> P"
    and "\<And>a b c. xs = [a, b, c] \<Longrightarrow> P" and "\<And>a b c d ys. xs = a # b # c # d # ys \<Longrightarrow> P"
  shows P
  using assms by (metis list.exhaust)

lemma rune_size_pos: "s \<noteq> [] \<Longrightarrow> 1 \<le> rune_size s"
  by (cases s) (auto simp: decode_rune.simps(2) split: option.splits)

lemma rune_size_gt_0 [simp]: "0 < rune_size s \<longleftrightarrow> s \<noteq> []"
  using rune_size_pos [of s] by (cases s) (auto simp: Suc_le_eq)

lemma rune_size_le_4: "rune_size s \<le> 4"
  by (cases s) (auto simp: decode_rune.simps(2) split: option.splits)

lemma rune_size_ascii [simp]: "bv c < 0x80 \<Longrightarrow> decode_rune (c # cs) = (bv c, 1)"
  by (simp add: decode_rune.simps(2))

text \<open>The size of a multi-byte rune is the announced one exactly when every byte fits.\<close>

definition lead_fits :: "nat \<times> nat \<times> nat \<Rightarrow> bytes \<Rightarrow> bool" where
  "lead_fits x cs = (case x of (sz, lo, hi) \<Rightarrow>
     sz \<le> Suc (length cs) \<and> lo \<le> bv (cs ! 0) \<and> bv (cs ! 0) \<le> hi
     \<and> (3 \<le> sz \<longrightarrow> utf8_cont (cs ! 1)) \<and> (4 \<le> sz \<longrightarrow> utf8_cont (cs ! 2)))"

lemma rune_size_lead:
  assumes "\<not> bv c < 0x80" and "utf8_lead c = Some x"
  shows "rune_size (c # cs) = (if lead_fits x cs then fst x else 1)"
  using assms(2)
  by (cases rule: utf8_leadE) (use assms in \<open>auto simp: lead_fits_def decode_rune.simps(2) not_less Suc_le_eq\<close>)

lemma rune_size_no_lead:
  "\<not> bv c < 0x80 \<Longrightarrow> utf8_lead c = None \<Longrightarrow> rune_size (c # cs) = 1"
  by (simp add: decode_rune.simps(2))

lemma rune_size_le: "rune_size s \<le> length s"
proof (cases s)
  case (Cons c cs)
  show ?thesis
  proof (cases "bv c < 0x80 \<or> utf8_lead c = None")
    case False
    then obtain sz lo hi where "\<not> bv c < 0x80" "utf8_lead c = Some (sz, lo, hi)" by auto
    with Cons show ?thesis by (simp add: rune_size_lead lead_fits_def)
  qed (use Cons in \<open>auto simp: decode_rune.simps(2)\<close>)
qed simp

text \<open>Appending bytes after a full rune does not change how it decodes.\<close>

lemma full_rune_lead:
  assumes "\<not> bv c < 0x80" and "utf8_lead c = Some (sz, lo, hi)"
  shows "full_rune (c # cs) \<longleftrightarrow> sz \<le> Suc (length cs)
    \<or> (cs \<noteq> [] \<and> (bv (cs ! 0) < lo \<or> hi < bv (cs ! 0)))
    \<or> (2 \<le> length cs \<and> \<not> utf8_cont (cs ! 1))"
  using assms by (cases cs) (simp_all add: full_rune_def)

lemma full_rune_decode_append:
  assumes "full_rune s" shows "decode_rune (s @ t) = decode_rune s"
proof (cases s)
  case (Cons c cs)
  show ?thesis
  proof (cases "bv c < 0x80 \<or> utf8_lead c = None")
    case True
    with Cons show ?thesis by (auto simp: decode_rune.simps(2))
  next
    case False
    then obtain x where c: "\<not> bv c < 0x80" "utf8_lead c = Some x" by auto
    from c(2) show ?thesis
      by (cases rule: utf8_leadE; cases cs rule: list_cases_4)
         (use assms c Cons in \<open>auto simp: full_rune_lead decode_rune.simps(2)\<close>)
  qed
qed (use assms in \<open>simp add: full_rune_def\<close>)

lemma full_rune_append:
  assumes "full_rune s" shows "full_rune (s @ t)"
proof (cases s)
  case (Cons c cs)
  show ?thesis
  proof (cases "bv c < 0x80 \<or> utf8_lead c = None")
    case True
    with Cons show ?thesis by (auto simp: full_rune_def)
  next
    case False
    then obtain sz lo hi where c: "\<not> bv c < 0x80" "utf8_lead c = Some (sz, lo, hi)" by auto
    with assms Cons show ?thesis by (auto simp: full_rune_lead nth_append)
  qed
qed (use assms in \<open>simp add: full_rune_def\<close>)

lemma rune_enc_full:
  assumes "rune_enc s" shows "full_rune s"
proof (cases s)
  case (Cons c cs)
  show ?thesis
  proof (cases "bv c < 0x80 \<or> utf8_lead c = None")
    case True
    with Cons show ?thesis by (auto simp: full_rune_def)
  next
    case False
    then obtain sz lo hi where c: "\<not> bv c < 0x80" "utf8_lead c = Some (sz, lo, hi)" by auto
    with assms Cons show ?thesis
      by (auto simp: rune_enc_def full_rune_lead rune_size_lead lead_fits_def split: if_splits)
  qed
qed (use assms in \<open>simp add: rune_enc_def\<close>)

lemma rune_enc_decode_append [simp]: "rune_enc s \<Longrightarrow> decode_rune (s @ t) = decode_rune s"
  by (blast intro: full_rune_decode_append rune_enc_full)

lemma rune_size_multiE:
  assumes "rune_size s \<noteq> 1" and "s \<noteq> []"
  obtains c cs x where "s = c # cs" "\<not> bv c < 0x80" "utf8_lead c = Some x" "lead_fits x cs"
    "rune_size s = fst x"
proof -
  obtain c cs where s: "s = c # cs" using assms(2) by (cases s) auto
  with assms(1) have c: "\<not> bv c < 0x80" by auto
  with s assms(1) obtain x where x: "utf8_lead c = Some x"
    using rune_size_no_lead by (cases "utf8_lead c") auto
  with s c assms(1) have "lead_fits x cs" and "rune_size s = fst x"
    by (auto simp: rune_size_lead split: if_splits)
  with s c x that show ?thesis by blast
qed

lemma lead_fits_take:
  "utf8_lead c = Some x \<Longrightarrow> lead_fits x (take (fst x - Suc 0) cs) = lead_fits x cs"
  by (erule utf8_leadE) (auto simp: lead_fits_def min_def)

lemma rune_enc_take:
  assumes "rune_size s \<noteq> 1" and "s \<noteq> []"
  shows "rune_enc (take (rune_size s) s)"
  using assms
proof (cases rule: rune_size_multiE)
  case (1 c cs x)
  then have n: "2 \<le> fst x" "fst x \<le> Suc (length cs)"
    by (auto elim!: utf8_leadE simp: lead_fits_def)
  have "take (rune_size s) s = c # take (fst x - 1) cs"
    using 1 n by (cases "fst x") auto
  with 1 n show ?thesis
    by (auto simp: rune_enc_def rune_size_lead lead_fits_take)
qed

lemma rune_enc_take_first:
  assumes "s \<noteq> []" and "rune_size s \<noteq> 1 \<or> bv (hd s) < 0x80"
  shows "rune_enc (take (rune_size s) s)"
proof (cases "rune_size s = 1")
  case True
  with assms show ?thesis by (cases s) (auto simp: rune_enc_def)
qed (use assms rune_enc_take in blast)

lemma rune_enc_multiE:
  assumes "rune_enc (c # cs)" and "cs \<noteq> []"
  obtains x where "utf8_lead c = Some x" "lead_fits x cs" "fst x = Suc (length cs)" "\<not> bv c < 0x80"
proof -
  have "rune_size (c # cs) \<noteq> 1" using assms by (auto simp: rune_enc_def)
  then show ?thesis
    by (rule rune_size_multiE) (use assms(1) that in \<open>auto simp: rune_enc_def\<close>)
qed

lemma rune_enc_tail_cont:
  assumes "rune_enc (c # cs)" and "x \<in> set cs"
  shows "utf8_cont x"
proof -
  from assms(2) have "cs \<noteq> []" by auto
  with assms(1) obtain y where y: "utf8_lead c = Some y" "lead_fits y cs" "fst y = Suc (length cs)"
    by (rule rune_enc_multiE)
  from y(1) show ?thesis
    by (cases rule: utf8_leadE; cases cs rule: list_cases_4)
       (use y assms(2) in \<open>auto simp: lead_fits_def utf8_cont_def\<close>)
qed

lemma rune_enc_head_start:
  assumes "rune_enc (c # cs)" shows "rune_start c"
proof (cases "cs = []")
  case True
  with assms show ?thesis by (simp add: rune_enc_def rune_start_def)
next
  case False
  with assms obtain x where "utf8_lead c = Some x" by (rule rune_enc_multiE)
  then have "0xC2 \<le> bv c" by (rule utf8_leadE)
  then show ?thesis by (simp add: rune_start_def)
qed

lemma rune_enc_ascii [simp]: "rune_enc [c] \<longleftrightarrow> bv c < 0x80"
  by (auto simp: rune_enc_def)

section \<open>Valid text\<close>

lemma utf8_valid_ascii [simp]: "bv c < 0x80 \<Longrightarrow> utf8_valid (c # cs) = utf8_valid cs"
  by (simp add: utf8_valid.simps(2))

lemma utf8_valid_rune:
  assumes "rune_enc s"
  shows "utf8_valid (s @ t) = utf8_valid t"
proof (cases s)
  case (Cons c cs)
  show ?thesis
  proof (cases "bv c < 0x80")
    case True
    with assms Cons have "cs = []" by (simp add: rune_enc_def)
    with True Cons show ?thesis by simp
  next
    case False
    with assms Cons have n: "rune_size (c # cs) = Suc (length cs)" "cs \<noteq> []"
      by (auto simp: rune_enc_def)
    have "decode_rune (c # (cs @ t)) = decode_rune (c # cs)"
      using rune_enc_decode_append [of "c # cs" t] assms Cons by simp
    with False n Cons show ?thesis
      by (simp add: utf8_valid.simps(2) Let_def)
  qed
qed (use assms in \<open>simp add: rune_enc_def\<close>)

lemma utf8_valid_ConsE:
  assumes "utf8_valid (c # cs)"
  obtains s t where "c # cs = s @ t" "rune_enc s" "utf8_valid t"
proof (cases "bv c < 0x80")
  case True
  with assms that [of "[c]" cs] show ?thesis by simp
next
  case False
  define n where "n = rune_size (c # cs)"
  from False assms have "n \<noteq> 1" "utf8_valid (drop (n - 1) cs)"
    by (auto simp: utf8_valid.simps(2) Let_def n_def)
  moreover have "1 \<le> n" using rune_size_pos [of "c # cs"] by (simp add: n_def)
  ultimately have "rune_enc (take n (c # cs))" "utf8_valid (drop n (c # cs))"
    using rune_enc_take [of "c # cs"] by (auto simp: n_def drop_Cons')
  then show ?thesis by (intro that [of "take n (c # cs)" "drop n (c # cs)"]) auto
qed

lemma utf8_valid_induct [consumes 1, case_names Nil rune]:
  assumes "utf8_valid s" and "P []"
    and step: "\<And>r t. rune_enc r \<Longrightarrow> utf8_valid t \<Longrightarrow> P t \<Longrightarrow> P (r @ t)"
  shows "P s"
  using assms(1)
proof (induction s rule: length_induct)
  case (1 s)
  show ?case
  proof (cases s)
    case (Cons c cs)
    with "1.prems" obtain r t where rt: "s = r @ t" "rune_enc r" "utf8_valid t"
      using utf8_valid_ConsE by metis
    then have "length t < length s" by (auto simp: rune_enc_def)
    with "1.IH" rt step show ?thesis by blast
  qed (use assms(2) in simp)
qed

lemma utf8_valid_append:
  assumes "utf8_valid s" shows "utf8_valid (s @ t) = utf8_valid t"
  using assms by (induction s rule: utf8_valid_induct) (auto simp: utf8_valid_rune)

lemma utf8_valid_concat: "utf8_valid s \<Longrightarrow> utf8_valid t \<Longrightarrow> utf8_valid (s @ t)"
  by (simp add: utf8_valid_append)

text \<open>Valid text splits into valid parts at its ends and at every rune start.\<close>

definition utf8_aligned :: "bytes \<Rightarrow> nat \<Rightarrow> bool" where
  "utf8_aligned s i \<longleftrightarrow> i = 0 \<or> i = length s \<or> (i < length s \<and> rune_start (s ! i))"

lemma cont_not_start: "utf8_cont c \<longleftrightarrow> \<not> rune_start c"
  by (auto simp: utf8_cont_def rune_start_def)

lemma utf8_valid_split:
  assumes "utf8_valid s" and "utf8_aligned s i"
  shows "utf8_valid (take i s) \<and> utf8_valid (drop i s)"
  using assms
proof (induction s arbitrary: i rule: utf8_valid_induct)
  case Nil
  then show ?case by simp
next
  case (rune r t)
  obtain c cs where r: "r = c # cs" using rune.hyps(1) by (cases r) (auto simp: rune_enc_def)
  consider "i = 0" | "0 < i" "i < length r" | "length r \<le> i" by linarith
  then show ?case
  proof cases
    case 1
    with rune.hyps show ?thesis by (simp add: utf8_valid_rune)
  next
    case 2
    then obtain j where j: "i = Suc j" "j < length cs" using r by (cases i) auto
    then have "utf8_cont (cs ! j)"
      using rune_enc_tail_cont [of c cs "cs ! j"] rune.hyps(1) r by simp
    with j r rune.prems have False
      by (auto simp: utf8_aligned_def cont_not_start nth_append)
    then show ?thesis ..
  next
    case 3
    then have "utf8_aligned t (i - length r)"
      using rune.prems by (auto simp: utf8_aligned_def nth_append)
    from rune.IH [OF this] rune.hyps(1) 3 show ?thesis
      by (simp add: utf8_valid_rune)
  qed
qed

lemma utf8_valid_head_start: "utf8_valid (c # cs) \<Longrightarrow> rune_start c"
  by (metis append_is_Nil_conv hd_append2 list.sel(1) neq_Nil_conv rune_enc_def rune_enc_head_start
      utf8_valid_ConsE)

text \<open>A rune start lies within three bytes before any position of valid text.\<close>

lemma utf8_valid_near_start:
  assumes "utf8_valid s" and "i < length s"
  shows "\<exists>j \<le> i. i \<le> j + 3 \<and> rune_start (s ! j)"
  using assms
proof (induction s arbitrary: i rule: utf8_valid_induct)
  case (rune r t)
  show ?case
  proof (cases "i < length r")
    case True
    then obtain c cs where r: "r = c # cs" by (cases r) auto
    have "length r \<le> 4"
      using rune.hyps(1) rune_size_le_4 [of r] by (simp add: rune_enc_def)
    with True r rune_enc_head_start rune.hyps(1) show ?thesis
      by (intro exI [of _ 0]) auto
  next
    case False
    with rune.prems have "i - length r < length t" by auto
    with rune.IH obtain j
      where "j \<le> i - length r" "i - length r \<le> j + 3" "rune_start (t ! j)" by blast
    with False show ?thesis
      by (intro exI [of _ "j + length r"]) (auto simp: nth_append)
  qed
qed simp

section \<open>Spaces, control characters and trimming\<close>

definition unicode_is_space :: "nat \<Rightarrow> bool" where
  "unicode_is_space r \<longleftrightarrow>
     (9 \<le> r \<and> r \<le> 13) \<or> r = 0x20 \<or> r = 0x85 \<or> r = 0xA0 \<or> r = 0x1680
     \<or> (0x2000 \<le> r \<and> r \<le> 0x200A) \<or> r = 0x2028 \<or> r = 0x2029 \<or> r = 0x202F \<or> r = 0x205F
     \<or> r = 0x3000"

definition unicode_is_control :: "nat \<Rightarrow> bool" where
  "unicode_is_control r \<longleftrightarrow> r \<le> 0x1F \<or> (0x7F \<le> r \<and> r \<le> 0x9F)"

text \<open>
  \<open>last_rune_start s lim i\<close> is the loop of \<open>DecodeLastRune\<close> that looks back from
  position \<open>i\<close> for a rune start, down to \<open>lim\<close>, clamped at 0.
\<close>

fun last_rune_start :: "bytes \<Rightarrow> nat \<Rightarrow> nat \<Rightarrow> nat" where
  "last_rune_start s lim 0 = 0"
| "last_rune_start s lim (Suc i) =
     (if lim \<le> i then (if rune_start (s ! i) then i else last_rune_start s lim i) else i)"

definition decode_last_rune :: "bytes \<Rightarrow> nat \<times> nat" where
  "decode_last_rune s =
     (if s = [] then (RuneError, 0)
      else if bv (last s) < 0x80 then (bv (last s), 1)
      else (let st = last_rune_start s (length s - 4) (length s - 1);
                (r, n) = decode_rune (drop st s)
            in if st + n \<noteq> length s then (RuneError, 1) else (r, n)))"

lemma last_rune_start_le: "last_rune_start s lim i \<le> i"
  by (induction s lim i rule: last_rune_start.induct) (auto simp: le_SucI)

lemma decode_last_rune_bounds:
  assumes "s \<noteq> []"
  shows "1 \<le> snd (decode_last_rune s) \<and> snd (decode_last_rune s) \<le> length s"
proof -
  define st where "st = last_rune_start s (length s - 4) (length s - 1)"
  have "st \<le> length s - 1" by (simp add: st_def last_rune_start_le)
  moreover have "0 < length s" using assms by simp
  ultimately have "st < length s" by linarith
  then have "1 \<le> rune_size (drop st s)" "rune_size (drop st s) \<le> length s" "1 \<le> length s"
    using rune_size_pos [of "drop st s"] rune_size_le [of "drop st s"] by simp_all
  with assms show ?thesis
    unfolding decode_last_rune_def Let_def st_def [symmetric] case_prod_unfold by simp
qed

lemma decode_last_rune_shrinks:
  "s \<noteq> [] \<Longrightarrow> length (take (length s - snd (decode_last_rune s)) s) < length s"
  using decode_last_rune_bounds [of s] by simp

function trim_left :: "bytes \<Rightarrow> bytes" where
  "trim_left s =
     (if s \<noteq> [] \<and> unicode_is_space (fst (decode_rune s)) then trim_left (drop (rune_size s) s) else s)"
  by pat_completeness auto
termination
  by (relation "measure length") auto

function trim_right :: "bytes \<Rightarrow> bytes" where
  "trim_right s =
     (if s \<noteq> [] \<and> unicode_is_space (fst (decode_last_rune s))
      then trim_right (take (length s - snd (decode_last_rune s)) s) else s)"
  by pat_completeness auto
termination
  by (relation "measure length") (use decode_last_rune_shrinks in \<open>auto simp del: length_take\<close>)

declare trim_left.simps [simp del] trim_right.simps [simp del]

definition trim_space :: "bytes \<Rightarrow> bytes" where
  "trim_space s = trim_right (trim_left s)"

lemma length_trim_left: "length (trim_left s) \<le> length s"
proof (induction s rule: trim_left.induct)
  case (1 s)
  then show ?case
    by (cases "s \<noteq> [] \<and> unicode_is_space (fst (decode_rune s))")
       (auto simp: trim_left.simps [of s])
qed

lemma length_trim_right: "length (trim_right s) \<le> length s"
proof (induction s rule: trim_right.induct)
  case (1 s)
  then show ?case
    by (cases "s \<noteq> [] \<and> unicode_is_space (fst (decode_last_rune s))")
       (auto simp: trim_right.simps [of s])
qed

lemma length_trim_space: "length (trim_space s) \<le> length s"
  using length_trim_left [of s] length_trim_right [of "trim_left s"] by (simp add: trim_space_def)

end
