(* ===== verification/Utf8_Window.thy ===== *)
theory Utf8_Window
  imports Utf8
begin

text \<open>
  The leading-window buffer of \<open>internal/migrate/utf8buffer.go\<close>. A continuation
  attempt writes arbitrary byte fragments into it until the seam window can be
  cut at a rune boundary. The record mirrors the Go struct; a \<open>nil\<close> buffer behaves
  in every method as the zero record, whose window is not positive.

  The locale \<open>rune_cut\<close> states what a cutting position promises; both the
  buffer and the seam reconciliation rest on it.
\<close>

section \<open>Cutting text at a rune boundary\<close>

text \<open>
  \<open>prefix_text p s\<close>: \<open>s\<close> is valid text \<open>p\<close> followed by at most a rune that is
  not complete yet.
\<close>

definition partial_rest :: "bytes \<Rightarrow> bool" where
  "partial_rest t \<longleftrightarrow> t = [] \<or> (rune_size t = 1 \<and> 0x80 \<le> bv (hd t) \<and> \<not> full_rune t)"

lemma partial_rest_start: "partial_rest (c # cs) \<Longrightarrow> rune_start c"
proof -
  assume "partial_rest (c # cs)"
  then obtain x where "utf8_lead c = Some x"
    by (auto simp: partial_rest_def full_rune_def split: option.splits)
  then have "0xC2 \<le> bv c" by (rule utf8_leadE)
  then show ?thesis by (simp add: rune_start_def)
qed

locale rune_cut =
  fixes cut :: "bytes \<Rightarrow> nat \<Rightarrow> nat"
  assumes cut_whole: "length s \<le> w \<Longrightarrow> cut s w = length s"
    and cut_le: "w < length s \<Longrightarrow> cut s w \<le> w"
    and cut_start: "w < length s \<Longrightarrow> cut s w = 0 \<or> rune_start (s ! cut s w)"
    and cut_skips: "w < length s \<Longrightarrow> cut s w < i \<Longrightarrow> i \<le> w \<Longrightarrow> \<not> rune_start (s ! i)"
begin

lemma cut_le_length: "cut s w \<le> length s"
proof (cases "w < length s")
  case True
  with cut_le [OF True] show ?thesis by linarith
qed (simp add: cut_whole)

lemma cut_pieces: "take (cut s w) s @ drop (cut s w) s = s"
  by simp

text \<open>Cutting inside the valid part of a text gives valid text.\<close>

lemma cut_valid:
  assumes "s = p @ t" and "utf8_valid p" and "partial_rest t" and "w \<le> length p"
  shows "utf8_valid (take (cut s w) s)"
proof (cases "w < length s")
  case True
  then have le: "cut s w \<le> length p" using cut_le assms(4) by (meson le_trans)
  have "utf8_aligned p (cut s w)"
    using cut_start [OF True] le assms(1) by (auto simp: utf8_aligned_def nth_append)
  with assms(2) have "utf8_valid (take (cut s w) p)" by (blast dest: utf8_valid_split)
  with le assms(1) show ?thesis by simp
next
  case False
  then have "length s \<le> w" by simp
  moreover have "length s = length p + length t" using assms(1) by simp
  ultimately have "length t = 0" using assms(4) by linarith
  then have "t = []" by simp
  with False assms(1,2) show ?thesis by (simp add: cut_whole)
qed

text \<open>A cut loses at most three bytes of the window.\<close>

lemma cut_near:
  assumes "s = p @ t" and "utf8_valid p" and "partial_rest t" and "w \<le> length p"
  shows "w \<le> cut s w + 3"
proof (cases "w < length s")
  case True
  obtain j where j: "j \<le> w" "w \<le> j + 3" "rune_start (s ! j)"
  proof (cases "w < length p")
    case True
    with utf8_valid_near_start [OF assms(2) True] that assms(1) show ?thesis
      by (auto simp: nth_append)
  next
    case False
    with True assms(1,4) obtain c cs where "t = c # cs" "w = length p" by (cases t) auto
    with partial_rest_start assms(1,3) that [of w] show ?thesis by auto
  qed
  then have "\<not> cut s w < j" using cut_skips [OF True, of j] by blast
  with j show ?thesis by linarith
next
  case False
  with assms show ?thesis by (simp add: cut_whole)
qed

end

section \<open>The buffer\<close>

datatype migrate_error = ErrInvalidUTF8 | ErrInvalidSeamWindow | ErrUTF8BufferComplete

record UTF8WindowBuffer =
  ub_window :: int
  ub_data :: bytes
  ub_heldLen :: nat
  ub_ready :: bool

definition NewUTF8WindowBuffer :: "int \<Rightarrow> migrate_error + UTF8WindowBuffer" where
  "NewUTF8WindowBuffer w =
     (if w \<le> 0 then Inl ErrInvalidSeamWindow
      else Inr \<lparr>ub_window = w, ub_data = [], ub_heldLen = 0, ub_ready = False\<rparr>)"

text \<open>The loop of \<open>completeUTF8Prefix\<close>: the position reached and whether it is invalid.\<close>

function complete_loop :: "nat \<Rightarrow> bytes \<Rightarrow> nat \<times> bool" where
  "complete_loop position s =
     (if s = [] then (position, False)
      else if rune_size s = 1 \<and> 0x80 \<le> bv (hd s)
        then (position, full_rune s)
      else complete_loop (position + rune_size s) (drop (rune_size s) s))"
  by pat_completeness auto
termination
  by (relation "measure (length \<circ> snd)") auto

declare complete_loop.simps [simp del]

definition completeUTF8Prefix :: "bytes \<Rightarrow> nat \<times> bool" where
  "completeUTF8Prefix data = complete_loop 0 data"

fun boundary_loop :: "bytes \<Rightarrow> nat \<Rightarrow> nat" where
  "boundary_loop data 0 = 0"
| "boundary_loop data (Suc b) =
     (if rune_start (data ! Suc b) then Suc b else boundary_loop data b)"

lemma boundary_loop_numeral [simp]:
  "boundary_loop data (numeral k) =
     (if rune_start (data ! numeral k) then numeral k else boundary_loop data (pred_numeral k))"
  by (simp add: numeral_eq_Suc)

definition utf8BoundaryAtOrBefore :: "bytes \<Rightarrow> nat \<Rightarrow> nat" where
  "utf8BoundaryAtOrBefore data boundary =
     (if length data \<le> boundary then length data else boundary_loop data boundary)"

definition ub_Write :: "UTF8WindowBuffer \<Rightarrow> bytes \<Rightarrow>
    (bool \<times> migrate_error option) \<times> UTF8WindowBuffer" where
  "ub_Write buffer fragment =
     (if ub_window buffer \<le> 0 then ((False, Some ErrInvalidSeamWindow), buffer)
      else if ub_ready buffer then ((True, Some ErrUTF8BufferComplete), buffer)
      else (let data = ub_data buffer @ fragment;
                (completeLength, invalid) = completeUTF8Prefix data
            in if invalid then ((False, Some ErrInvalidUTF8), buffer)
               else if int completeLength < ub_window buffer
                 then ((False, None), buffer\<lparr>ub_data := data\<rparr>)
               else ((True, None),
                     buffer\<lparr>ub_data := data,
                            ub_heldLen := utf8BoundaryAtOrBefore data (nat (ub_window buffer)),
                            ub_ready := True\<rparr>)))"

definition ub_Finish :: "UTF8WindowBuffer \<Rightarrow> migrate_error option \<times> UTF8WindowBuffer" where
  "ub_Finish buffer =
     (if ub_window buffer \<le> 0 then (Some ErrInvalidSeamWindow, buffer)
      else (let (completeLength, invalid) = completeUTF8Prefix (ub_data buffer)
            in if invalid \<or> completeLength \<noteq> length (ub_data buffer)
                 then (Some ErrInvalidUTF8, buffer)
               else if ub_ready buffer then (None, buffer)
               else (None, buffer\<lparr>ub_heldLen := length (ub_data buffer), ub_ready := True\<rparr>)))"

definition ub_Split :: "UTF8WindowBuffer \<Rightarrow> (bytes \<times> bytes) option" where
  "ub_Split buffer =
     (if \<not> ub_ready buffer then None
      else Some (take (ub_heldLen buffer) (ub_data buffer), drop (ub_heldLen buffer) (ub_data buffer)))"

lemmas ub_defs = NewUTF8WindowBuffer_def ub_Write_def ub_Finish_def ub_Split_def

section \<open>Correctness of the two scans\<close>

lemma complete_loop_spec:
  "complete_loop pos s = (k, bad) \<Longrightarrow>
     \<exists>p t. s = p @ t \<and> k = pos + length p \<and> utf8_valid p
       \<and> (if bad then t \<noteq> [] \<and> rune_size t = 1 \<and> 0x80 \<le> bv (hd t) \<and> full_rune t
          else partial_rest t)"
proof (induction pos s arbitrary: k bad rule: complete_loop.induct)
  case (1 pos s)
  show ?case
  proof (cases "s = [] \<or> (rune_size s = 1 \<and> 0x80 \<le> bv (hd s))")
    case True
    with "1.prems" have "k = pos" and "bad \<longleftrightarrow> s \<noteq> [] \<and> full_rune s"
      by (auto simp: complete_loop.simps [of pos s] split: if_splits)
    with True show ?thesis
      by (intro exI [of _ "[]"] exI [of _ s]) (auto simp: partial_rest_def)
  next
    case False
    define n where "n = rune_size s"
    have n: "n \<le> length s" "rune_enc (take n s)"
      using False rune_enc_take_first [of s] rune_size_le [of s] by (auto simp: n_def not_le)
    from False "1.prems" have "complete_loop (pos + n) (drop n s) = (k, bad)"
      by (auto simp: n_def complete_loop.simps [of pos s] split: if_splits)
    with "1.IH" False obtain p t where
      pt: "drop n s = p @ t" "k = pos + n + length p" "utf8_valid p"
        "if bad then t \<noteq> [] \<and> rune_size t = 1 \<and> 0x80 \<le> bv (hd t) \<and> full_rune t
         else partial_rest t"
      unfolding n_def by blast
    have "s = (take n s @ p) @ t" using pt(1) by (metis append.assoc append_take_drop_id)
    moreover have "utf8_valid (take n s @ p)" using n(2) pt(3) by (simp add: utf8_valid_rune)
    ultimately show ?thesis using n(1) pt by (intro exI conjI) auto
  qed
qed

lemma completeUTF8Prefix_spec:
  assumes "completeUTF8Prefix s = (k, False)"
  shows "s = take k s @ drop k s \<and> k \<le> length s \<and> utf8_valid (take k s) \<and> partial_rest (drop k s)"
  using complete_loop_spec [of 0 s k False] assms by (auto simp: completeUTF8Prefix_def)

lemma boundary_loop_spec:
  "boundary_loop data b \<le> b
   \<and> (boundary_loop data b = 0 \<or> rune_start (data ! boundary_loop data b))
   \<and> (\<forall>i. boundary_loop data b < i \<longrightarrow> i \<le> b \<longrightarrow> \<not> rune_start (data ! i))"
  by (induction data b rule: boundary_loop.induct) (auto simp: le_Suc_eq)

interpretation cutter: rune_cut utf8BoundaryAtOrBefore
  by unfold_locales (use boundary_loop_spec in \<open>auto simp: utf8BoundaryAtOrBefore_def\<close>)

lemma utf8_valid_not_partial:
  "utf8_valid y \<Longrightarrow> y \<noteq> [] \<Longrightarrow> \<not> partial_rest (y @ t)"
proof (induction y rule: utf8_valid_induct)
  case (rune r u)
  then have "full_rune ((r @ u) @ t)" by (simp add: full_rune_append rune_enc_full)
  moreover have "(r @ u) @ t \<noteq> []" using rune.hyps(1) by (auto simp: rune_enc_def)
  ultimately show ?case unfolding partial_rest_def by blast
qed simp

text \<open>After a valid prefix the rest of a partial text starts a rune.\<close>

lemma next_byte_starts:
  assumes "utf8_valid d" and "d @ c # e = p @ t" and "utf8_valid p" and "partial_rest t"
  shows "rune_start c"
proof (cases "length p \<le> length d")
  case True
  then obtain y where y: "d = p @ y" "t = y @ c # e"
    using that [of "drop (length p) d"] assms(2)
    by (metis append_eq_append_conv_if append_take_drop_id)
  with assms(1,3) have "utf8_valid y" by (simp add: utf8_valid_append)
  with assms(4) y utf8_valid_not_partial have "y = []" by blast
  with y assms(4) show ?thesis by (simp add: partial_rest_start)
next
  case False
  then obtain x where x: "p = d @ x" "c # e = x @ t" "x \<noteq> []"
    using that [of "drop (length d) p"] assms(2)
    by (metis append_eq_append_conv_if append_take_drop_id drop_eq_Nil)
  with assms(1,3) have "utf8_valid x" by (simp add: utf8_valid_append)
  with x show ?thesis by (cases x) (auto dest: utf8_valid_head_start)
qed

lemma boundary_loop_append:
  "b < length d \<Longrightarrow> boundary_loop (d @ e) b = boundary_loop d b"
  by (induction d b rule: boundary_loop.induct) (auto simp: nth_append)

lemma boundary_loop_at: "b = 0 \<or> rune_start (d ! b) \<Longrightarrow> boundary_loop d b = b"
  by (cases b) auto

text \<open>Extending the text behind a complete window does not move its cut.\<close>

lemma cut_extend:
  assumes d1: "completeUTF8Prefix d = (k, False)" "w \<le> k"
    and d2: "completeUTF8Prefix (d @ e) = (k', False)"
  shows "utf8BoundaryAtOrBefore (d @ e) w = utf8BoundaryAtOrBefore d w"
proof -
  note s1 = completeUTF8Prefix_spec [OF d1(1)] and s2 = completeUTF8Prefix_spec [OF d2]
  consider "w < length d" | "w = length d" using d1(2) s1 by linarith
  then show ?thesis
  proof cases
    case 1
    then show ?thesis by (simp add: utf8BoundaryAtOrBefore_def boundary_loop_append)
  next
    case 2
    with d1(2) s1 have "utf8_valid d" by simp
    show ?thesis
    proof (cases e)
      case (Cons c cs)
      have "rune_start c"
        using next_byte_starts [of d c cs] \<open>utf8_valid d\<close> s2 Cons by metis
      with 2 Cons show ?thesis
        by (simp add: utf8BoundaryAtOrBefore_def boundary_loop_at nth_append)
    qed simp
  qed
qed

section \<open>The buffer keeps its invariant\<close>

definition ub_inv :: "UTF8WindowBuffer \<Rightarrow> bool" where
  "ub_inv b \<longleftrightarrow> 0 < ub_window b \<and>
     (case completeUTF8Prefix (ub_data b) of (k, bad) \<Rightarrow>
        \<not> bad \<and>
        (if ub_ready b
         then (int k < ub_window b \<and> k = length (ub_data b) \<and> ub_heldLen b = k)
            \<or> (ub_window b \<le> int k
               \<and> ub_heldLen b = utf8BoundaryAtOrBefore (ub_data b) (nat (ub_window b)))
         else int k < ub_window b))"

lemma ub_inv_new [inv_intros]: "NewUTF8WindowBuffer w = Inr b \<Longrightarrow> ub_inv b"
  by (auto simp: NewUTF8WindowBuffer_def ub_inv_def completeUTF8Prefix_def
      complete_loop.simps [of 0 "[]"] split: if_splits)

lemma ub_inv_write [inv_intros]:
  "ub_inv b \<Longrightarrow> ub_Write b f = (r, b') \<Longrightarrow> ub_inv b'"
  by (auto simp: ub_Write_def ub_inv_def Let_def split: if_splits prod.splits)

lemma ub_inv_finish [inv_intros]:
  "ub_inv b \<Longrightarrow> ub_Finish b = (r, b') \<Longrightarrow> ub_inv b'"
  by (auto simp: ub_Finish_def ub_inv_def Let_def split: if_splits prod.splits)

text \<open>A sequence of writes, with the fragments that were accepted.\<close>

fun ub_run :: "UTF8WindowBuffer \<Rightarrow> bytes list \<Rightarrow> UTF8WindowBuffer \<times> bytes list" where
  "ub_run b [] = (b, [])"
| "ub_run b (f # fs) =
     (case ub_Write b f of ((_, err), b') \<Rightarrow>
        case ub_run b' fs of (b'', accepted) \<Rightarrow>
          (b'', if err = None then f # accepted else accepted))"

lemma ub_run_inv: "ub_inv b \<Longrightarrow> ub_run b fs = (b', acc) \<Longrightarrow> ub_inv b' \<and> ub_window b' = ub_window b"
proof (induction fs arbitrary: b acc)
  case (Cons f fs)
  obtain r b1 where w: "ub_Write b f = (r, b1)" by (cases "ub_Write b f")
  then have "ub_window b1 = ub_window b"
    by (auto simp: ub_Write_def Let_def split: if_splits prod.splits)
  with Cons.IH [of b1] ub_inv_write [OF Cons.prems(1) w] Cons.prems(2) w show ?case
    by (auto split: prod.splits)
qed simp

lemma ub_run_data: "ub_run b fs = (b', acc) \<Longrightarrow> ub_data b' = ub_data b @ concat acc"
proof (induction fs arbitrary: b acc)
  case (Cons f fs)
  obtain ok err b1 where w: "ub_Write b f = ((ok, err), b1)" by (metis prod.exhaust)
  then have "ub_data b1 = ub_data b @ (if err = None then f else [])"
    by (auto simp: ub_Write_def Let_def split: if_splits prod.splits)
  with Cons.IH [of b1] Cons.prems w show ?case by (auto split: prod.splits if_splits)
qed simp

lemma ub_inv_held:
  assumes "ub_inv b" and "ub_ready b"
  shows "utf8_valid (take (ub_heldLen b) (ub_data b))
    \<and> int (ub_heldLen b) \<le> ub_window b \<and> ub_heldLen b \<le> length (ub_data b)
    \<and> (ub_window b \<le> int (ub_heldLen b) + 3 \<or> ub_heldLen b = length (ub_data b))"
proof -
  obtain k where k: "completeUTF8Prefix (ub_data b) = (k, False)" and w: "0 < ub_window b"
    using assms(1) by (auto simp: ub_inv_def split: prod.splits)
  note sp = completeUTF8Prefix_spec [OF k]
  from assms k consider
      "int k < ub_window b" "k = length (ub_data b)" "ub_heldLen b = k"
    | "ub_window b \<le> int k" "ub_heldLen b = utf8BoundaryAtOrBefore (ub_data b) (nat (ub_window b))"
    by (auto simp: ub_inv_def)
  then show ?thesis
  proof cases
    case 1
    with sp show ?thesis by auto
  next
    case 2
    let ?c = "utf8BoundaryAtOrBefore (ub_data b) (nat (ub_window b))"
    have le: "nat (ub_window b) \<le> length (take k (ub_data b))" using 2 sp by simp
    have "utf8_valid (take ?c (ub_data b))" "nat (ub_window b) \<le> ?c + 3"
      using cutter.cut_valid [OF conjunct1 [OF sp] _ _ le] cutter.cut_near [OF conjunct1 [OF sp] _ _ le] sp
      by blast+
    moreover have "?c \<le> nat (ub_window b)"
      using cutter.cut_le [of "nat (ub_window b)" "ub_data b"]
        cutter.cut_whole [of "ub_data b" "nat (ub_window b)"] le sp by (cases "nat (ub_window b) < length (ub_data b)") auto
    ultimately show ?thesis using 2 w cutter.cut_le_length [of "ub_data b"] by auto
  qed
qed

text \<open>Writes alone make the buffer ready only once the window is covered.\<close>

lemma ub_write_ready:
  assumes "ub_inv b" and "\<not> ub_ready b" and "ub_Write b f = (r, b')" and "ub_ready b'"
  shows "\<exists>k. completeUTF8Prefix (ub_data b') = (k, False) \<and> ub_window b' \<le> int k
    \<and> ub_heldLen b' = utf8BoundaryAtOrBefore (ub_data b') (nat (ub_window b'))"
  using assms by (auto simp: ub_Write_def ub_inv_def Let_def split: if_splits prod.splits)

lemma ub_run_ready: "ub_run b fs = (b', acc) \<Longrightarrow> ub_ready b \<Longrightarrow> b' = b"
  by (induction fs arbitrary: acc) (auto simp: ub_Write_def split: prod.splits if_splits)

lemma ub_run_full:
  assumes "ub_inv b" and "\<not> ub_ready b" and "ub_run b fs = (b', acc)" and "ub_ready b'"
  shows "\<exists>k. completeUTF8Prefix (ub_data b') = (k, False) \<and> ub_window b' \<le> int k
    \<and> ub_heldLen b' = utf8BoundaryAtOrBefore (ub_data b') (nat (ub_window b'))"
  using assms
proof (induction fs arbitrary: b acc)
  case (Cons f fs)
  obtain r b1 where w: "ub_Write b f = (r, b1)" by (cases "ub_Write b f")
  obtain acc1 where r1: "ub_run b1 fs = (b', acc1)"
    using Cons.prems(3) w by (auto split: prod.splits)
  show ?case
  proof (cases "ub_ready b1")
    case True
    with ub_run_ready [OF r1] ub_write_ready [OF Cons.prems(1,2) w] show ?thesis by simp
  qed (use Cons.IH [OF ub_inv_write [OF Cons.prems(1) w] _ r1] Cons.prems(4) in blast)
qed simp

lemma ub_run_near:
  assumes "ub_inv b" and "\<not> ub_ready b" and "ub_run b fs = (b', acc)" and "ub_ready b'"
  shows "ub_window b' \<le> int (ub_heldLen b') + 3"
proof -
  obtain k where k: "completeUTF8Prefix (ub_data b') = (k, False)" "ub_window b' \<le> int k"
    "ub_heldLen b' = utf8BoundaryAtOrBefore (ub_data b') (nat (ub_window b'))"
    using ub_run_full [OF assms] by blast
  note sp = completeUTF8Prefix_spec [OF k(1)]
  have "nat (ub_window b') \<le> length (take k (ub_data b'))" using k sp by simp
  from cutter.cut_near [OF conjunct1 [OF sp] _ _ this] sp k show ?thesis by auto
qed

lemma complete_iff_valid: "completeUTF8Prefix s = (length s, False) \<longleftrightarrow> utf8_valid s"
proof
  assume "utf8_valid s"
  obtain k bad where kb: "completeUTF8Prefix s = (k, bad)" by fastforce
  obtain p t where pt: "s = p @ t" "k = length p" "utf8_valid p"
    and t: "if bad then t \<noteq> [] \<and> rune_size t = 1 \<and> 0x80 \<le> bv (hd t) \<and> full_rune t
            else partial_rest t"
    using complete_loop_spec [of 0 s k bad] kb by (auto simp: completeUTF8Prefix_def)
  have v: "utf8_valid t" using \<open>utf8_valid s\<close> pt by (simp add: utf8_valid_append)
  have "t = []"
  proof (rule ccontr)
    assume "t \<noteq> []"
    with v utf8_valid_not_partial [of t "[]"] t have bad by (auto split: if_splits)
    with t v \<open>t \<noteq> []\<close> show False by (cases t) (auto simp: utf8_valid.simps(2) Let_def)
  qed
  with t pt kb show "completeUTF8Prefix s = (length s, False)" by auto
next
  assume "completeUTF8Prefix s = (length s, False)"
  from completeUTF8Prefix_spec [OF this] show "utf8_valid s" by simp
qed

section \<open>Properties\<close>

text \<open>
  C22: Whatever way the leading continuation bytes are cut into fragments, once the
  buffer is ready \<open>Split\<close> returns the accepted bytes unchanged, as a window of valid
  UTF-8 no longer than the configured size and at most three bytes short of it, and
  the bytes read beyond it.
\<close>

theorem ub_split_window:
  assumes "NewUTF8WindowBuffer w = Inr b0" and "ub_run b0 fs = (b, acc)"
    and "ub_Split b = Some (held, remainder)"
  shows "held @ remainder = concat acc \<and> utf8_valid held \<and> int (length held) \<le> w
    \<and> w \<le> int (length held) + 3"
proof -
  have b0: "ub_inv b0" "ub_data b0 = []" "ub_window b0 = w" "\<not> ub_ready b0"
    using assms(1) ub_inv_new by (auto simp: NewUTF8WindowBuffer_def split: if_splits)
  have b: "ub_inv b" "ub_window b = w" "ub_data b = concat acc"
    using ub_run_inv [OF b0(1) assms(2)] ub_run_data [OF assms(2)] b0 by auto
  have ready: "ub_ready b" and held: "held = take (ub_heldLen b) (ub_data b)"
    and rest: "remainder = drop (ub_heldLen b) (ub_data b)"
    using assms(3) by (auto simp: ub_Split_def split: if_splits)
  have "ub_window b \<le> int (ub_heldLen b) + 3"
    using ub_run_near [OF b0(1,4) assms(2) ready] .
  with ub_inv_held [OF b(1) ready] b held rest show ?thesis by auto
qed

theorem ub_split_window_witness:
  "\<exists>b0 b acc. NewUTF8WindowBuffer 4 = Inr b0 \<and> ub_run b0 [''ab'', [CHR 0xE2, CHR 0x80], [CHR 0xA6] @ ''z''] = (b, acc)
     \<and> ub_Split b = Some (''ab'', [CHR 0xE2, CHR 0x80, CHR 0xA6] @ ''z'')
     \<and> ''ab'' @ ([CHR 0xE2, CHR 0x80, CHR 0xA6] @ ''z'') = concat acc"
proof -
  let ?fs = "[''ab'', [CHR 0xE2, CHR 0x80], [CHR 0xA6] @ ''z'']"
  let ?b0 = "\<lparr>ub_window = 4, ub_data = [], ub_heldLen = 0, ub_ready = False\<rparr>"
  have n: "NewUTF8WindowBuffer 4 = Inr ?b0" by (simp add: NewUTF8WindowBuffer_def)
  have s: "ub_Split (fst (ub_run ?b0 ?fs)) = Some (''ab'', [CHR 0xE2, CHR 0x80, CHR 0xA6] @ ''z'')"
    by (simp add: ub_Split_def ub_Write_def Let_def completeUTF8Prefix_def complete_loop.simps
        decode_rune.simps(2) utf8_lead_def utf8_cont_def full_rune_def utf8BoundaryAtOrBefore_def
        rune_start_def)
  show ?thesis
    using ub_split_window [OF n, of ?fs "fst (ub_run ?b0 ?fs)" "snd (ub_run ?b0 ?fs)"] n s
    by (metis prod.collapse)
qed

text \<open>
  C23: The held window does not depend on how the bytes were fragmented: two runs whose
  accepted bytes agree up to the end of the shorter one hold the same window.
\<close>

theorem ub_held_fragmentation:
  assumes "NewUTF8WindowBuffer w = Inr b0"
    and "ub_run b0 fs = (b, acc)" and "ub_Split b = Some (held, remainder)"
    and "ub_run b0 gs = (b', acc')" and "ub_Split b' = Some (held', remainder')"
    and "concat acc' = concat acc @ extra"
  shows "held' = held"
proof -
  have b0: "ub_inv b0" "\<not> ub_ready b0" "ub_data b0 = []" "ub_window b0 = w"
    using assms(1) ub_inv_new by (auto simp: NewUTF8WindowBuffer_def split: if_splits)
  have win: "ub_window b = w" "ub_window b' = w"
    using ub_run_inv [OF b0(1)] assms(2,4) b0(4) by blast+
  have data: "ub_data b' = ub_data b @ extra"
    using ub_run_data [OF assms(2)] ub_run_data [OF assms(4)] assms(6) b0(3) by simp
  have ready: "ub_ready b" "ub_ready b'" using assms(3,5) by (auto simp: ub_Split_def split: if_splits)
  obtain k where k: "completeUTF8Prefix (ub_data b) = (k, False)" "w \<le> int k"
    "ub_heldLen b = utf8BoundaryAtOrBefore (ub_data b) (nat w)"
    using ub_run_full [OF b0(1,2) assms(2) ready(1)] win by auto
  obtain k' where k': "completeUTF8Prefix (ub_data b @ extra) = (k', False)"
    "ub_heldLen b' = utf8BoundaryAtOrBefore (ub_data b') (nat w)"
    using ub_run_full [OF b0(1,2) assms(4) ready(2)] win data by auto
  have "nat w \<le> k" using k(2) by simp
  with cut_extend [OF k(1) _ k'(1)] k k' data have "ub_heldLen b' = ub_heldLen b" by simp
  moreover have "ub_heldLen b \<le> length (ub_data b)"
    by (simp add: k(3) cutter.cut_le_length)
  ultimately show ?thesis using assms(3,5) data by (auto simp: ub_Split_def split: if_splits)
qed

lemma ub_new_4:
  "NewUTF8WindowBuffer 4 = Inr \<lparr>ub_window = 4, ub_data = [], ub_heldLen = 0, ub_ready = False\<rparr>"
  by (simp add: NewUTF8WindowBuffer_def)

lemmas ub_eval = ub_Split_def ub_Write_def Let_def completeUTF8Prefix_def complete_loop.simps
  decode_rune.simps(2) utf8_lead_def utf8_cont_def full_rune_def utf8BoundaryAtOrBefore_def
  rune_start_def ub_Finish_def

theorem ub_held_fragmentation_witness:
  "\<exists>b b' r r'. fst (ub_run \<lparr>ub_window = 4, ub_data = [], ub_heldLen = 0, ub_ready = False\<rparr>
        [''ab'', ''cd'']) = b
     \<and> fst (ub_run \<lparr>ub_window = 4, ub_data = [], ub_heldLen = 0, ub_ready = False\<rparr> [''abcdef'']) = b'
     \<and> ub_Split b = Some (''abcd'', r) \<and> ub_Split b' = Some (''abcd'', r')"
proof -
  let ?b0 = "\<lparr>ub_window = 4, ub_data = [], ub_heldLen = 0, ub_ready = False\<rparr>"
  define b where "b = fst (ub_run ?b0 [''ab'', ''cd''])"
  define b' where "b' = fst (ub_run ?b0 [''abcdef''])"
  have r: "ub_run ?b0 [''ab'', ''cd''] = (b, [''ab'', ''cd''])" "ub_run ?b0 [''abcdef''] = (b', [''abcdef''])"
    by (simp_all add: b_def b'_def ub_eval)
  have s: "ub_Split b = Some (''abcd'', [])" by (simp add: b_def ub_eval)
  obtain h r' where s': "ub_Split b' = Some (h, r')" by (simp add: b'_def ub_eval)
  have "h = ''abcd''"
    using ub_held_fragmentation [OF ub_new_4 r(1) s r(2) s', of "''ef''"] by simp
  with s s' show ?thesis unfolding b_def b'_def by blast
qed

text \<open>
  C24: \<open>Finish\<close> accepts a shorter attempt exactly when everything written is valid UTF-8,
  and then a buffer that was still waiting holds all of it with nothing left over.
\<close>

theorem ub_finish_iff_valid:
  assumes "ub_inv b"
  shows "(fst (ub_Finish b) = None \<longleftrightarrow> utf8_valid (ub_data b))
    \<and> (utf8_valid (ub_data b) \<and> \<not> ub_ready b \<longrightarrow>
         ub_Split (snd (ub_Finish b)) = Some (ub_data b, []))"
proof -
  obtain k bad where k: "completeUTF8Prefix (ub_data b) = (k, bad)" by fastforce
  with complete_iff_valid [of "ub_data b"] assms show ?thesis
    by (auto simp: ub_Finish_def ub_Split_def ub_inv_def)
qed

theorem ub_finish_iff_valid_witness:
  "fst (ub_Finish \<lparr>ub_window = 8, ub_data = ''ok'', ub_heldLen = 0, ub_ready = False\<rparr>) = None
   \<and> ub_Split (snd (ub_Finish \<lparr>ub_window = 8, ub_data = ''ok'', ub_heldLen = 0, ub_ready = False\<rparr>))
       = Some (''ok'', [])"
proof -
  let ?b = "\<lparr>ub_window = 8, ub_data = ''ok'', ub_heldLen = 0, ub_ready = False\<rparr>"
  have "ub_inv ?b" by (simp add: ub_inv_def completeUTF8Prefix_def complete_loop.simps)
  from ub_finish_iff_valid [OF this] show ?thesis by simp
qed

end
