(* ===== verification/Seam.thy ===== *)
theory Seam
  imports Utf8_Window "HOL-Library.Sublist"
begin

text \<open>
  The seam between the text already delivered to a client and the text of a continuation
  attempt (\<open>internal/migrate/seam.go\<close>). A backend that is asked to continue often repeats the
  end of the text it was given; \<open>ReconcileSeam\<close> removes the longest such repetition
  within a byte window without cutting a rune.

  The table behind \<open>unicode.IsUpper\<close> belongs to the Unicode version of the Go runtime; it is
  the parameter \<open>is_upper\<close>, and nothing here depends on its contents.
\<close>

section \<open>Definitions\<close>

record SeamResult =
  sr_Content :: bytes
  sr_OverlapBytes :: nat
  sr_Anomaly :: bool

definition utf8Boundary :: "bytes \<Rightarrow> nat \<Rightarrow> bool" where
  "utf8Boundary s offset \<longleftrightarrow> offset = 0 \<or> offset = length s \<or> rune_start (s ! offset)"

text \<open>The loop of \<open>longestUTF8Overlap\<close>, counting the candidate length down.\<close>

fun overlap_loop :: "bytes \<Rightarrow> bytes \<Rightarrow> nat \<Rightarrow> nat" where
  "overlap_loop accumulated held 0 = 0"
| "overlap_loop accumulated held (Suc n) =
     (if \<not> utf8Boundary accumulated (length accumulated - Suc n) \<or> \<not> utf8Boundary held (Suc n)
        then overlap_loop accumulated held n
      else if drop (length accumulated - Suc n) accumulated = take (Suc n) held then Suc n
      else overlap_loop accumulated held n)"

definition longestUTF8Overlap :: "bytes \<Rightarrow> bytes \<Rightarrow> nat" where
  "longestUTF8Overlap accumulated held =
     overlap_loop accumulated held (min (length accumulated) (length held))"

definition isClosingQuoteOrBracket :: "nat \<Rightarrow> bool" where
  "isClosingQuoteOrBracket r \<longleftrightarrow>
     r \<in> {0x22, 0x27, 0x29, 0x5D, 0x7D, 0xBB, 0x203A, 0x2019, 0x201D, 0x3009, 0x300B,
          0x300D, 0x300F, 0x3011, 0xFF09, 0xFF3D, 0xFF5D}"

function accumulatedEndsTerminal :: "bytes \<Rightarrow> bool" where
  "accumulatedEndsTerminal s =
     (if s = [] then False
      else (let (r, size) = decode_last_rune s
            in if \<not> isClosingQuoteOrBracket r then r \<in> {0x2E, 0x21, 0x3F, 0x2026}
               else accumulatedEndsTerminal (trim_space (take (length s - size) s))))"
  by pat_completeness auto
termination
proof (relation "measure length", simp)
  fix s :: bytes and x r size
  assume "s \<noteq> []" and x: "x = decode_last_rune s" "(r, size) = x"
  have "length (trim_space (take (length s - size) s)) \<le> length (take (length s - size) s)"
    by (rule length_trim_space)
  moreover have "\<dots> < length s"
    using decode_last_rune_shrinks [OF \<open>s \<noteq> []\<close>] x by (metis snd_conv)
  ultimately show "(trim_space (take (length s - size) s), s) \<in> measure length" by simp
qed

declare accumulatedEndsTerminal.simps [simp del]

definition seamAnomaly :: "(nat \<Rightarrow> bool) \<Rightarrow> bytes \<Rightarrow> bytes \<Rightarrow> bool" where
  "seamAnomaly is_upper accumulated continuation =
     (let left = trim_space accumulated; right = trim_space continuation
      in if left = [] \<or> right = [] \<or> accumulatedEndsTerminal left then False
         else is_upper (fst (decode_rune right)))"

definition ReconcileSeam ::
    "(nat \<Rightarrow> bool) \<Rightarrow> bytes \<Rightarrow> bytes \<Rightarrow> int \<Rightarrow> migrate_error + SeamResult" where
  "ReconcileSeam is_upper accumulated continuation window =
     (if window \<le> 0 then Inl ErrInvalidSeamWindow
      else if \<not> utf8_valid accumulated \<or> \<not> utf8_valid continuation then Inl ErrInvalidUTF8
      else (let heldLength = (if window < int (length continuation)
                              then utf8BoundaryAtOrBefore continuation (nat window)
                              else length continuation);
                held = take heldLength continuation;
                overlap = longestUTF8Overlap accumulated held
            in Inr \<lparr>sr_Content = drop overlap continuation,
                    sr_OverlapBytes = overlap,
                    sr_Anomaly = (overlap = 0 \<and> seamAnomaly is_upper accumulated continuation)\<rparr>))"

section \<open>The overlap search\<close>

definition overlaps :: "bytes \<Rightarrow> bytes \<Rightarrow> nat \<Rightarrow> bool" where
  "overlaps accumulated held n \<longleftrightarrow> n \<le> length held \<and> utf8_valid (take n held)
     \<and> suffix (take n held) accumulated"

lemma suffix_drop_eq:
  assumes "n \<le> length a" and "n \<le> length h"
  shows "suffix (take n h) a \<longleftrightarrow> drop (length a - n) a = take n h"
proof
  assume "suffix (take n h) a"
  then obtain x where "a = x @ take n h" by (auto simp: suffix_def)
  then show "drop (length a - n) a = take n h" using assms(2) by simp
next
  assume "drop (length a - n) a = take n h"
  then show "suffix (take n h) a" by (metis suffix_drop)
qed

lemma valid_prefix_boundary:
  assumes "utf8_valid s" and "utf8_valid (take n s)" and "n \<le> length s"
  shows "utf8Boundary s n"
proof (cases "n < length s")
  case True
  have "utf8_valid (drop n s)"
    using utf8_valid_append [OF assms(2), of "drop n s"] assms(1) by simp
  with True show ?thesis
    by (auto simp: utf8Boundary_def drop_nth_Cons intro: utf8_valid_head_start)
qed (use assms(3) in \<open>simp add: utf8Boundary_def\<close>)

lemma suffix_boundary:
  assumes "utf8_valid p" and "p \<noteq> []"
  shows "utf8Boundary (x @ p) (length (x @ p) - length p)"
  using assms by (cases p) (auto simp: utf8Boundary_def intro: utf8_valid_head_start)

lemma overlap_tests:
  assumes "utf8_valid held" and "n \<le> length a" and "n \<le> length held" and "0 < n"
  shows "overlaps a held n \<longleftrightarrow>
    utf8Boundary a (length a - n) \<and> utf8Boundary held n \<and> drop (length a - n) a = take n held"
proof
  assume o: "overlaps a held n"
  then obtain x where x: "a = x @ take n held" by (auto simp: overlaps_def suffix_def)
  have "take n held \<noteq> []" using assms(3,4) by auto
  then have "utf8Boundary a (length a - n)"
    using suffix_boundary [of "take n held" x] o x assms(3) by (simp add: overlaps_def)
  moreover have "utf8Boundary held n"
    using valid_prefix_boundary assms(1,3) o by (simp add: overlaps_def)
  ultimately show "utf8Boundary a (length a - n) \<and> utf8Boundary held n
      \<and> drop (length a - n) a = take n held"
    using o suffix_drop_eq [OF assms(2,3)] by (simp add: overlaps_def)
next
  assume *: "utf8Boundary a (length a - n) \<and> utf8Boundary held n
    \<and> drop (length a - n) a = take n held"
  then have "utf8_aligned held n" using assms(3) by (auto simp: utf8Boundary_def utf8_aligned_def)
  with assms(1) have "utf8_valid (take n held)" by (blast dest: utf8_valid_split)
  with * assms show "overlaps a held n" by (simp add: overlaps_def suffix_drop_eq)
qed

lemma overlap_loop_spec:
  assumes "utf8_valid held" and "n \<le> length a" and "n \<le> length held"
  shows "overlap_loop a held n \<le> n \<and> overlaps a held (overlap_loop a held n)
    \<and> (\<forall>m \<le> n. overlaps a held m \<longrightarrow> m \<le> overlap_loop a held n)"
  using assms(2,3)
proof (induction n)
  case 0
  then show ?case by (simp add: overlaps_def)
next
  case (Suc n)
  have t: "overlaps a held (Suc n) \<longleftrightarrow> utf8Boundary a (length a - Suc n)
      \<and> utf8Boundary held (Suc n) \<and> drop (length a - Suc n) a = take (Suc n) held"
    using overlap_tests [OF assms(1) Suc.prems] by simp
  show ?case
  proof (cases "overlaps a held (Suc n)")
    case True
    with t have "overlap_loop a held (Suc n) = Suc n" by simp
    with True show ?thesis by simp
  next
    case False
    with t have e: "overlap_loop a held (Suc n) = overlap_loop a held n" by auto
    have IH: "overlap_loop a held n \<le> n \<and> overlaps a held (overlap_loop a held n)
        \<and> (\<forall>m \<le> n. overlaps a held m \<longrightarrow> m \<le> overlap_loop a held n)"
      using Suc by simp
    with False show ?thesis unfolding e by (metis le_SucE le_SucI)
  qed
qed

lemma longest_overlap_spec:
  assumes "utf8_valid held"
  shows "overlaps a held (longestUTF8Overlap a held)
    \<and> (\<forall>m. overlaps a held m \<longrightarrow> m \<le> longestUTF8Overlap a held)"
proof -
  have "m \<le> length a \<and> m \<le> length held" if "overlaps a held m" for m
    using that suffix_length_le [of "take m held" a] by (simp add: overlaps_def)
  with overlap_loop_spec [OF assms, of "min (length a) (length held)" a] show ?thesis
    by (simp add: longestUTF8Overlap_def)
qed

section \<open>The held window\<close>

text \<open>Every valid piece of a valid text that fits into the window lies in the held part.\<close>

lemma valid_piece_held:
  assumes "utf8_valid s" and "utf8_valid (take n s)" and "n \<le> length s" and "n \<le> w"
  shows "n \<le> utf8BoundaryAtOrBefore s w"
proof (cases "w < length s")
  case True
  show ?thesis
  proof (rule ccontr)
    assume "\<not> ?thesis"
    then have "\<not> rune_start (s ! n)" "0 < n" using cutter.cut_skips [OF True] assms(4) by auto
    moreover have "utf8Boundary s n" using valid_prefix_boundary assms(1-3) by blast
    ultimately show False using True assms(4) by (auto simp: utf8Boundary_def)
  qed
qed (use assms in \<open>simp add: cutter.cut_whole\<close>)

lemma held_valid:
  assumes "utf8_valid s"
  shows "utf8_valid (take (utf8BoundaryAtOrBefore s w) s)"
proof (cases "w < length s")
  case True
  then have "utf8_aligned s (utf8BoundaryAtOrBefore s w)"
    using cutter.cut_start [OF True] cutter.cut_le [OF True] by (auto simp: utf8_aligned_def)
  with assms show ?thesis by (blast dest: utf8_valid_split)
qed (use assms in \<open>simp add: cutter.cut_whole\<close>)

lemma held_length_eq:
  "0 < w \<Longrightarrow> (if w < int (length s) then utf8BoundaryAtOrBefore s (nat w) else length s)
     = utf8BoundaryAtOrBefore s (nat w)"
  by (auto simp: cutter.cut_whole)

lemma held_fits: "utf8BoundaryAtOrBefore s w \<le> w"
proof (cases "w < length s")
  case False
  then show ?thesis by (simp add: cutter.cut_whole)
qed (rule cutter.cut_le)

section \<open>Properties\<close>

text \<open>
  C19: For valid texts and a positive window, \<open>ReconcileSeam\<close> removes from the continuation
  exactly the longest valid UTF-8 piece that fits into the window, starts the continuation and
  ends the accumulated text; what it returns is valid UTF-8, and appending it to the
  accumulated text lets the continuation overlay its repeated part.
\<close>

theorem reconcile_longest_overlap:
  assumes "ReconcileSeam is_upper accumulated continuation window = Inr r"
  shows "sr_Content r = drop (sr_OverlapBytes r) continuation
    \<and> sr_OverlapBytes r \<le> nat window
    \<and> utf8_valid (sr_Content r)
    \<and> (\<exists>before. accumulated = before @ take (sr_OverlapBytes r) continuation
         \<and> accumulated @ sr_Content r = before @ continuation)
    \<and> (\<forall>n. n \<le> nat window \<and> n \<le> length continuation \<and> utf8_valid (take n continuation)
         \<and> suffix (take n continuation) accumulated \<longrightarrow> n \<le> sr_OverlapBytes r)"
proof -
  have w: "0 < window" and va: "utf8_valid accumulated" and vc: "utf8_valid continuation"
    using assms by (auto simp: ReconcileSeam_def split: if_splits)
  define h where "h = utf8BoundaryAtOrBefore continuation (nat window)"
  define k where "k = longestUTF8Overlap accumulated (take h continuation)"
  have r: "sr_OverlapBytes r = k" "sr_Content r = drop k continuation"
    using assms w va vc
    by (auto simp: ReconcileSeam_def Let_def held_length_eq h_def k_def)
  have h: "h \<le> length continuation" "h \<le> nat window" "utf8_valid (take h continuation)"
    using held_valid [OF vc] held_fits by (simp_all add: h_def cutter.cut_le_length)
  note sp = longest_overlap_spec [OF h(3), of accumulated, folded k_def]
  then have k: "k \<le> h" "utf8_valid (take k continuation)" "suffix (take k continuation) accumulated"
    by (auto simp: overlaps_def)
  have "utf8_valid (drop k continuation)"
    using utf8_valid_append [OF k(2), of "drop k continuation"] vc by simp
  moreover obtain before where "accumulated = before @ take k continuation"
    using k(3) by (auto simp: suffix_def)
  moreover have "n \<le> k" if "n \<le> nat window" "n \<le> length continuation"
    "utf8_valid (take n continuation)" "suffix (take n continuation) accumulated" for n
  proof -
    have "n \<le> h" using valid_piece_held [OF vc that(3,2,1)] by (simp add: h_def)
    with that sp h(1) show ?thesis by (auto simp: overlaps_def)
  qed
  ultimately show ?thesis using r k h by auto
qed

theorem reconcile_longest_overlap_witness:
  "\<exists>r. ReconcileSeam (\<lambda>_. False) ''abc'' ''bcd'' 8 = Inr r \<and> utf8_valid (sr_Content r)
     \<and> 2 \<le> sr_OverlapBytes r"
proof -
  obtain r where r: "ReconcileSeam (\<lambda>_. False) ''abc'' ''bcd'' 8 = Inr r"
    by (simp add: ReconcileSeam_def Let_def)
  have "suffix (take 2 ''bcd'') ''abc''" by (simp add: suffix_def)
  moreover have "utf8_valid (take 2 ''bcd'')" by simp
  ultimately show ?thesis
    using reconcile_longest_overlap [OF r] r by (intro exI [of _ r]) auto
qed

end
