(* ===== verification/Json_Prefix.thy ===== *)
theory Json_Prefix
  imports Utf8
begin

text \<open>
  The structured-output prefix validator (\<open>internal/migrate/jsonprefix.go\<close>): before a stream
  that must be JSON is migrated, the text delivered so far has to be a prefix of some
  JSON value.

  The Go parser works on positions in one buffer; a position is modelled by the rest of the
  buffer from there on, so \<open>len(data) - length rest\<close> is the Go position. Statuses are returned
  together with that rest.
\<close>

section \<open>The parser\<close>

datatype jsonPrefixStatus = jsonPrefixInvalid | jsonPrefixIncomplete | jsonPrefixComplete

type_synonym parsed = "bytes \<times> jsonPrefixStatus"

definition maxJSONPrefixDepth :: nat where
  "maxJSONPrefixDepth = 10000"

definition isWhitespace :: "byte \<Rightarrow> bool" where
  "isWhitespace c \<longleftrightarrow> c \<in> {CHR '' '', CHR 0x09, CHR 0x0D, CHR 0x0A}"

definition skipWhitespace :: "bytes \<Rightarrow> bytes" where
  "skipWhitespace s = dropWhile isWhitespace s"

definition isDigit :: "byte \<Rightarrow> bool" where
  "isDigit c \<longleftrightarrow> 0x30 \<le> bv c \<and> bv c \<le> 0x39"

definition isHex :: "byte \<Rightarrow> bool" where
  "isHex c \<longleftrightarrow> (0x30 \<le> bv c \<and> bv c \<le> 0x39) \<or> (0x61 \<le> bv c \<and> bv c \<le> 0x66)
     \<or> (0x41 \<le> bv c \<and> bv c \<le> 0x46)"

definition isSimpleJSONEscape :: "byte \<Rightarrow> bool" where
  "isSimpleJSONEscape c \<longleftrightarrow> c \<in> set [CHR 0x22, CHR 0x5C, CHR ''/'', CHR ''b'', CHR ''f'',
     CHR ''n'', CHR ''r'', CHR ''t'']"

text \<open>The inner loop of \<open>parseString\<close> over the hexadecimal digits of an escape.\<close>

fun hex_loop :: "nat \<Rightarrow> bytes \<Rightarrow> parsed" where
  "hex_loop 0 s = (s, jsonPrefixComplete)"
| "hex_loop (Suc n) [] = ([], jsonPrefixIncomplete)"
| "hex_loop (Suc n) (c # cs) =
     (if \<not> isHex c then (c # cs, jsonPrefixInvalid) else hex_loop n cs)"

lemma hex_loop_numeral:
  "hex_loop (numeral k) s = (case s of [] \<Rightarrow> ([], jsonPrefixIncomplete)
     | c # cs \<Rightarrow> if \<not> isHex c then (c # cs, jsonPrefixInvalid) else hex_loop (pred_numeral k) cs)"
  by (simp add: numeral_eq_Suc split: list.split)

lemma hex_loop_le: "length (fst (hex_loop n s)) \<le> length s"
  by (induction n s rule: hex_loop.induct) auto

function string_loop :: "bytes \<Rightarrow> parsed" where
  "string_loop s =
     (case s of [] \<Rightarrow> ([], jsonPrefixIncomplete)
      | c # cs \<Rightarrow>
          if c = CHR 0x22 then (cs, jsonPrefixComplete)
          else if c = CHR 0x5C then
            (case cs of [] \<Rightarrow> ([], jsonPrefixIncomplete)
             | e # es \<Rightarrow>
                 if e = CHR ''u'' then
                   (case hex_loop 4 es of
                      (r, jsonPrefixComplete) \<Rightarrow> string_loop r
                    | (r, st) \<Rightarrow> (r, st))
                 else if \<not> isSimpleJSONEscape e then (cs, jsonPrefixInvalid)
                 else string_loop es)
          else if bv c < 0x20 then (s, jsonPrefixInvalid)
          else if bv c < 0x80 then string_loop cs
          else if rune_size s = 1
            then (if \<not> full_rune s then ([], jsonPrefixIncomplete) else (s, jsonPrefixInvalid))
          else string_loop (drop (rune_size s) s))"
  by pat_completeness auto
termination
  apply (relation "measure length")
       apply (auto)
  apply (metis fst_conv hex_loop_le le_imp_less_Suc less_SucI)
  done

declare string_loop.simps [simp del]

definition parseString :: "bytes \<Rightarrow> parsed" where
  "parseString s = string_loop (tl s)"

fun parseLiteral :: "bytes \<Rightarrow> bytes \<Rightarrow> parsed" where
  "parseLiteral s [] = (s, jsonPrefixComplete)"
| "parseLiteral [] (l # ls) = ([], jsonPrefixIncomplete)"
| "parseLiteral (c # cs) (l # ls) =
     (if c \<noteq> l then (c # cs, jsonPrefixInvalid) else parseLiteral cs ls)"

text \<open>The three stages of \<open>parseNumber\<close>: exponent, fraction, sign and integer part.\<close>

definition number_exponent :: "bytes \<Rightarrow> parsed" where
  "number_exponent s =
     (if s \<noteq> [] \<and> (hd s = CHR ''e'' \<or> hd s = CHR ''E'') then
        (let s = tl s in
         if s = [] then ([], jsonPrefixIncomplete)
         else (let t = (if hd s = CHR ''+'' \<or> hd s = CHR ''-'' then tl s else s) in
               if t = [] then ([], jsonPrefixIncomplete)
               else if \<not> isDigit (hd t) then (t, jsonPrefixInvalid)
               else (dropWhile isDigit t, jsonPrefixComplete)))
      else (s, jsonPrefixComplete))"

definition number_fraction :: "bytes \<Rightarrow> parsed" where
  "number_fraction s =
     (if s \<noteq> [] \<and> hd s = CHR ''.'' then
        (let s = tl s in
         if s = [] then ([], jsonPrefixIncomplete)
         else if \<not> isDigit (hd s) then (s, jsonPrefixInvalid)
         else number_exponent (dropWhile isDigit s))
      else number_exponent s)"

definition number_integer :: "bytes \<Rightarrow> parsed" where
  "number_integer s =
     (if s = [] then ([], jsonPrefixIncomplete)
      else if hd s = CHR ''0'' then number_fraction (tl s)
      else if \<not> isDigit (hd s) then (s, jsonPrefixInvalid)
      else number_fraction (dropWhile isDigit s))"

definition parseNumber :: "bytes \<Rightarrow> parsed" where
  "parseNumber s = number_integer (if s \<noteq> [] \<and> hd s = CHR ''-'' then tl s else s)"

text \<open>
  The parts of \<open>parseValue\<close>, \<open>parseObject\<close> and \<open>parseArray\<close> without recursion. The last three
  either stop with a result (\<open>Inl\<close>) or go on at a position that is not the end of the data
  (\<open>Inr\<close>): \<open>open_item\<close> is the code between an opening bracket and the loop, \<open>next_item\<close> the code
  after a value in the loop, \<open>object_key\<close> the code before the value of a member.
\<close>

definition parse_scalar :: "bytes \<Rightarrow> parsed" where
  "parse_scalar s =
     (if hd s = CHR 0x22 then parseString s
      else if hd s = CHR ''t'' then parseLiteral s ''true''
      else if hd s = CHR ''f'' then parseLiteral s ''false''
      else if hd s = CHR ''n'' then parseLiteral s ''null''
      else if hd s = CHR ''-'' \<or> isDigit (hd s) then parseNumber s
      else (s, jsonPrefixInvalid))"

definition open_item :: "byte \<Rightarrow> bytes \<Rightarrow> parsed + bytes" where
  "open_item close s0 =
     (let s = skipWhitespace (tl s0) in
      if s = [] then Inl ([], jsonPrefixIncomplete)
      else if hd s = close then Inl (tl s, jsonPrefixComplete)
      else Inr s)"

definition object_key :: "bytes \<Rightarrow> parsed + bytes" where
  "object_key s =
     (if s = [] \<or> hd s \<noteq> CHR 0x22 then Inl (s, jsonPrefixInvalid)
      else (let (r, status) = parseString s in
            if status \<noteq> jsonPrefixComplete then Inl (r, status)
            else (let a = skipWhitespace r in
                  if a = [] then Inl ([], jsonPrefixIncomplete)
                  else if hd a \<noteq> CHR '':'' then Inl (a, jsonPrefixInvalid)
                  else Inr (tl a))))"

definition next_item :: "byte \<Rightarrow> bytes \<Rightarrow> parsed + bytes" where
  "next_item close r =
     (let b = skipWhitespace r in
      if b = [] then Inl ([], jsonPrefixIncomplete)
      else if hd b = close then Inl (tl b, jsonPrefixComplete)
      else if hd b = CHR '','' then
        (let n = skipWhitespace (tl b) in
         if n = [] then Inl ([], jsonPrefixIncomplete)
         else if hd n = close then Inl (n, jsonPrefixInvalid)
         else Inr n)
      else Inl (b, jsonPrefixInvalid))"

text \<open>\<open>object_loop\<close> and \<open>array_loop\<close> are the \<open>for\<close> loops of \<open>parseObject\<close> and \<open>parseArray\<close>.\<close>

function parseValue :: "bytes \<Rightarrow> nat \<Rightarrow> parsed"
  and parseObject :: "bytes \<Rightarrow> nat \<Rightarrow> parsed"
  and object_loop :: "bytes \<Rightarrow> nat \<Rightarrow> parsed"
  and parseArray :: "bytes \<Rightarrow> nat \<Rightarrow> parsed"
  and array_loop :: "bytes \<Rightarrow> nat \<Rightarrow> parsed"
where
  "parseValue s0 depth =
     (if depth > maxJSONPrefixDepth then (s0, jsonPrefixInvalid)
      else (let s = skipWhitespace s0 in
        if s = [] then ([], jsonPrefixIncomplete)
        else if hd s = CHR ''{'' then parseObject s (depth + 1)
        else if hd s = CHR ''['' then parseArray s (depth + 1)
        else parse_scalar s))"
| "parseObject s depth =
     (case open_item (CHR ''}'') s of Inl p \<Rightarrow> p | Inr s' \<Rightarrow> object_loop s' depth)"
| "object_loop s depth =
     (case object_key s of Inl p \<Rightarrow> p
      | Inr v \<Rightarrow>
          (case parseValue v depth of (r, status) \<Rightarrow>
             if status \<noteq> jsonPrefixComplete then (r, status)
             else (case next_item (CHR ''}'') r of Inl p \<Rightarrow> p | Inr n \<Rightarrow> object_loop n depth)))"
| "parseArray s depth =
     (case open_item (CHR '']'') s of Inl p \<Rightarrow> p | Inr s' \<Rightarrow> array_loop s' depth)"
| "array_loop s depth =
     (case parseValue s depth of (r, status) \<Rightarrow>
        if status \<noteq> jsonPrefixComplete then (r, status)
        else (case next_item (CHR '']'') r of Inl p \<Rightarrow> p | Inr n \<Rightarrow> array_loop n depth))"
  by pat_completeness auto

section \<open>Termination\<close>

lemma skip_le: "length (skipWhitespace s) \<le> length s"
  by (simp add: skipWhitespace_def length_dropWhile_le)

lemma string_loop_eqs:
  "string_loop [] = ([], jsonPrefixIncomplete)"
  "string_loop (CHR 0x22 # cs) = (cs, jsonPrefixComplete)"
  "string_loop [CHR 0x5C] = ([], jsonPrefixIncomplete)"
  "string_loop (CHR 0x5C # CHR ''u'' # es) =
     (case hex_loop 4 es of (r, jsonPrefixComplete) \<Rightarrow> string_loop r | (r, st) \<Rightarrow> (r, st))"
  "e \<noteq> CHR ''u'' \<Longrightarrow> string_loop (CHR 0x5C # e # es) =
     (if \<not> isSimpleJSONEscape e then (e # es, jsonPrefixInvalid) else string_loop es)"
  "c \<noteq> CHR 0x22 \<Longrightarrow> c \<noteq> CHR 0x5C \<Longrightarrow> bv c < 0x20 \<Longrightarrow> string_loop (c # cs) = (c # cs, jsonPrefixInvalid)"
  "c \<noteq> CHR 0x22 \<Longrightarrow> c \<noteq> CHR 0x5C \<Longrightarrow> 0x20 \<le> bv c \<Longrightarrow> bv c < 0x80 \<Longrightarrow> string_loop (c # cs) = string_loop cs"
  "0x80 \<le> bv c \<Longrightarrow> string_loop (c # cs) =
     (if rune_size (c # cs) = 1
        then (if \<not> full_rune (c # cs) then ([], jsonPrefixIncomplete) else (c # cs, jsonPrefixInvalid))
        else string_loop (drop (rune_size (c # cs)) (c # cs)))"
  by (subst string_loop.simps; force split: list.split)+

text \<open>Induction along the string scanner.\<close>

lemma string_induct [case_names Nil quote slash u esc ctl ascii rune]:
  assumes "P []" and "\<And>cs. P (CHR 0x22 # cs)" and "P [CHR 0x5C]"
    and u: "\<And>es. (\<And>r. hex_loop 4 es = (r, jsonPrefixComplete) \<Longrightarrow> P r) \<Longrightarrow> P (CHR 0x5C # CHR ''u'' # es)"
    and "\<And>e es. e \<noteq> CHR ''u'' \<Longrightarrow> P es \<Longrightarrow> P (CHR 0x5C # e # es)"
    and "\<And>c cs. c \<noteq> CHR 0x22 \<Longrightarrow> c \<noteq> CHR 0x5C \<Longrightarrow> bv c < 0x20 \<Longrightarrow> P (c # cs)"
    and "\<And>c cs. c \<noteq> CHR 0x22 \<Longrightarrow> c \<noteq> CHR 0x5C \<Longrightarrow> 0x20 \<le> bv c \<Longrightarrow> bv c < 0x80 \<Longrightarrow> P cs \<Longrightarrow> P (c # cs)"
    and r: "\<And>c cs. 0x80 \<le> bv c \<Longrightarrow> P (drop (rune_size (c # cs)) (c # cs)) \<Longrightarrow> P (c # cs)"
  shows "P s"
proof (induction s rule: length_induct)
  case (1 s)
  show ?case
  proof (cases s)
    case (Cons c cs)
    consider "c = CHR 0x22" | "c = CHR 0x5C" | "c \<noteq> CHR 0x22" "c \<noteq> CHR 0x5C" "bv c < 0x20"
      | "c \<noteq> CHR 0x22" "c \<noteq> CHR 0x5C" "0x20 \<le> bv c" "bv c < 0x80" | "0x80 \<le> bv c" by linarith
    then show ?thesis
    proof cases
      case 2
      show ?thesis
      proof (cases cs)
        case (Cons e es)
        have "P r" if "hex_loop 4 es = (r, jsonPrefixComplete)" for r
          using 1 hex_loop_le [of 4 es] that 2 Cons \<open>s = c # cs\<close> by simp
        with 1 2 Cons \<open>s = c # cs\<close> assms(5) u show ?thesis by (cases "e = CHR ''u''") simp_all
      qed (use 2 Cons assms(3) in simp)
    next
      case 5
      have "P (drop (rune_size (c # cs)) (c # cs))" using 1 Cons rune_size_gt_0 [of "c # cs"]
        by (metis diff_less length_drop length_greater_0_conv list.distinct(1))
      with r [OF 5] Cons show ?thesis by simp
    qed (use 1 Cons assms in simp_all)
  qed (use assms(1) in simp)
qed

lemma string_loop_le: "length (fst (string_loop s)) \<le> length s"
proof (induction s rule: string_induct)
  case (u es)
  obtain r st where "hex_loop 4 es = (r, st)" by fastforce
  with u hex_loop_le [of 4 es] show ?case
    by (cases st) (force simp: string_loop_eqs)+
next
  case (rune c cs)
  have "length (fst (string_loop (drop (rune_size (c # cs)) (c # cs)))) \<le> length (c # cs)"
    using rune.IH unfolding length_drop by linarith
  with rune.hyps show ?case by (simp add: string_loop_eqs(8) del: drop_Cons)
qed (auto simp: string_loop_eqs)

lemma parseLiteral_le: "length (fst (parseLiteral s l)) \<le> length s"
  by (induction s l rule: parseLiteral.induct) auto

lemma number_exponent_le: "length (fst (number_exponent s)) \<le> length s"
  by (cases s; cases "tl s")
     (auto simp: number_exponent_def Let_def intro: le_SucI order_trans [OF length_dropWhile_le])

lemma number_fraction_le: "length (fst (number_fraction s)) \<le> length s"
proof -
  have "length (fst (number_exponent (dropWhile isDigit t))) \<le> length t" for t
    using number_exponent_le order_trans length_dropWhile_le by blast
  moreover have "length (fst (number_exponent [])) = 0" by (simp add: number_exponent_def)
  ultimately show ?thesis using number_exponent_le [of s]
    by (cases s) (auto simp: number_fraction_def Let_def intro: le_SucI)
qed

lemma number_integer_le: "length (fst (number_integer s)) \<le> length s"
proof -
  have "length (fst (number_fraction (dropWhile isDigit t))) \<le> length t" for t
    using number_fraction_le order_trans length_dropWhile_le by blast
  with number_fraction_le [of "tl s"] show ?thesis
    by (cases s) (auto simp: number_integer_def intro: le_SucI)
qed

lemma parseNumber_le: "length (fst (parseNumber s)) \<le> length s"
  using number_integer_le [of s] number_integer_le [of "tl s"] by (auto simp: parseNumber_def)

lemma skip_tl_less: "skipWhitespace (tl s) \<noteq> [] \<Longrightarrow> length (skipWhitespace (tl s)) < length s"
  using skip_le [of "tl s"] by (cases s) (auto simp: skipWhitespace_def)

text \<open>A stage that stops does not gain bytes; one that goes on loses at least one.\<close>

definition shrinking :: "(bytes \<Rightarrow> parsed + bytes) \<Rightarrow> bool" where
  "shrinking f \<longleftrightarrow> (\<forall>s. case f s of Inl (r, st) \<Rightarrow> length r \<le> length s | Inr n \<Rightarrow> length n < length s)"

lemma shrinkingD:
  "shrinking f \<Longrightarrow> f s = Inl (r, st) \<Longrightarrow> length r \<le> length s"
  "shrinking f \<Longrightarrow> f s = Inr n \<Longrightarrow> length n < length s"
  unfolding shrinking_def by (metis case_prod_conv sum.case)+

lemma shrinking_open: "shrinking (open_item c)"
  unfolding shrinking_def
proof
  fix s
  have "length (skipWhitespace (tl s)) \<le> length s" using skip_le [of "tl s"] by simp
  with skip_tl_less [of s]
  show "case open_item c s of Inl (r, st) \<Rightarrow> length r \<le> length s | Inr n \<Rightarrow> length n < length s"
    by (auto simp: open_item_def Let_def)
qed

lemma shrinking_next: "shrinking (next_item c)"
  unfolding shrinking_def
proof
  fix s
  let ?b = "skipWhitespace s" and ?n = "skipWhitespace (tl (skipWhitespace s))"
  have "length ?b \<le> length s" "length ?n \<le> length ?b" "?n \<noteq> [] \<Longrightarrow> length ?n < length ?b"
    using skip_le [of s] skip_le [of "tl ?b"] skip_tl_less [of ?b] by auto
  then show "case next_item c s of Inl (r, st) \<Rightarrow> length r \<le> length s | Inr n \<Rightarrow> length n < length s"
    by (auto simp: next_item_def Let_def)
qed

lemma shrinking_key: "shrinking object_key"
  unfolding shrinking_def
proof
  fix s
  obtain r st where r: "parseString s = (r, st)" by fastforce
  then have "length r \<le> length s" "length (skipWhitespace r) \<le> length r"
    using string_loop_le [of "tl s"] skip_le [of r] by (auto simp: parseString_def)
  with r show "case object_key s of Inl (r, st) \<Rightarrow> length r \<le> length s | Inr n \<Rightarrow> length n < length s"
    by (cases "skipWhitespace r") (auto simp: object_key_def Let_def)
qed

lemma parse_scalar_le: "length (fst (parse_scalar s)) \<le> length s"
  using string_loop_le [of "tl s"] parseNumber_le [of s] parseLiteral_le [of s]
  by (auto simp: parse_scalar_def parseString_def)

lemma parse_shrinks:
  "parseValue_parseObject_object_loop_parseArray_array_loop_dom (Inl (Inl (s, d))) \<Longrightarrow>
     length (fst (parseValue s d)) \<le> length s"
  "parseValue_parseObject_object_loop_parseArray_array_loop_dom (Inl (Inr (s, d))) \<Longrightarrow>
     length (fst (parseObject s d)) \<le> length s"
  "parseValue_parseObject_object_loop_parseArray_array_loop_dom (Inr (Inl (s, d))) \<Longrightarrow>
     length (fst (object_loop s d)) \<le> length s"
  "parseValue_parseObject_object_loop_parseArray_array_loop_dom (Inr (Inr (Inl (s, d)))) \<Longrightarrow>
     length (fst (parseArray s d)) \<le> length s"
  "parseValue_parseObject_object_loop_parseArray_array_loop_dom (Inr (Inr (Inr (s, d)))) \<Longrightarrow>
     length (fst (array_loop s d)) \<le> length s"
proof (induction s d and s d and s d and s d and s d
    rule: parseValue_parseObject_object_loop_parseArray_array_loop.pinduct)
  case (1 s0 depth)
  with skip_le [of s0] parse_scalar_le [of "skipWhitespace s0"] show ?case
    by (auto simp: parseValue.psimps Let_def)
next
  case (2 s depth)
  with shrinkingD [OF shrinking_open [of "CHR ''}''"], of s] show ?case
    by (auto simp: parseObject.psimps split: sum.split; fastforce)
next
  case (3 s depth)
  note k = shrinkingD [OF shrinking_key, of s]
  show ?case
  proof (cases "object_key s")
    case (Inr v)
    obtain r st where r: "parseValue v depth = (r, st)" by fastforce
    with 3(2) [OF Inr] k(2) [OF Inr] have "length r \<le> length s" by simp
    with 3 k(2) [OF Inr] Inr r shrinkingD [OF shrinking_next [of "CHR ''}''"], of r] show ?thesis
      by (auto simp: object_loop.psimps split: sum.split; fastforce)
  qed (use 3 k in \<open>auto simp: object_loop.psimps\<close>)
next
  case (4 s depth)
  with shrinkingD [OF shrinking_open [of "CHR '']''"], of s] show ?case
    by (auto simp: parseArray.psimps split: sum.split; fastforce)
next
  case (5 s depth)
  obtain r st where r: "parseValue s depth = (r, st)" by fastforce
  with 5(2) have "length r \<le> length s" by simp
  with 5 r shrinkingD [OF shrinking_next [of "CHR '']''"], of r] show ?case
    by (auto simp: array_loop.psimps split: sum.split; fastforce)
qed

termination parseValue
proof (relation "measure (\<lambda>x. case x of Inl (Inl (s, d)) \<Rightarrow> 4 * length s + 1
      | Inl (Inr (s, d)) \<Rightarrow> 4 * length s | Inr (Inl (s, d)) \<Rightarrow> 4 * length s
      | Inr (Inr (Inl (s, d))) \<Rightarrow> 4 * length s | Inr (Inr (Inr (s, d))) \<Rightarrow> 4 * length s + 2)",
    goal_cases)
  case (5 s depth v)
  then have "length v < length s" using shrinkingD(2) [OF shrinking_key] by blast
  then show ?case by simp
next
  case (7 s depth v)
  then have "length v < length s" using shrinkingD(2) [OF shrinking_open] by blast
  then show ?case by simp
next
  case (6 s depth v r st n)
  have "length n < length r" "length v < length s"
    using 6 shrinkingD(2) [OF shrinking_next] shrinkingD(2) [OF shrinking_key] by blast+
  moreover have "length r \<le> length v" using parse_shrinks(1) [OF 6(5)] 6(2) by (metis fst_conv)
  ultimately show ?case by simp
next
  case (9 s depth r st n)
  have "length n < length r" using 9 shrinkingD(2) [OF shrinking_next] by blast
  moreover have "length r \<le> length s" using parse_shrinks(1) [OF 9(4)] 9(1) by (metis fst_conv)
  ultimately show ?case by simp
qed (use skip_le shrinkingD(2) [OF shrinking_open]
      in \<open>auto simp: le_imp_less_Suc\<close>)

declare parseValue.simps [simp del] parseObject.simps [simp del] object_loop.simps [simp del]
  parseArray.simps [simp del] array_loop.simps [simp del]

definition ValidateJSONPrefix :: "bytes \<Rightarrow> nat option" where
  "ValidateJSONPrefix prefix =
     (if skipWhitespace prefix = [] then None
      else (let (rest, status) = parseValue (skipWhitespace prefix) 0 in
            case status of
              jsonPrefixIncomplete \<Rightarrow> None
            | jsonPrefixComplete \<Rightarrow>
                if skipWhitespace rest = [] then None else Some (length prefix - length rest)
            | jsonPrefixInvalid \<Rightarrow> Some (length prefix - length rest)))"

definition IsValidJSONPrefix :: "bytes \<Rightarrow> bool" where
  "IsValidJSONPrefix prefix \<longleftrightarrow> ValidateJSONPrefix prefix = None"

section \<open>Stability under extension\<close>

text \<open>
  What a scan reports does not change when more data arrives, except that an incomplete scan
  may complete or fail and that a number at the end of the data may go on.
\<close>

definition stable_stage :: "(bytes \<Rightarrow> parsed + bytes) \<Rightarrow> bool" where
  "stable_stage f \<longleftrightarrow> (\<forall>s t. s \<noteq> [] \<longrightarrow> (case f s of
       Inr n \<Rightarrow> f (s @ t) = Inr (n @ t)
     | Inl (r, st) \<Rightarrow> if st = jsonPrefixIncomplete then r = [] else f (s @ t) = Inl (r @ t, st)))"

definition stable_at :: "(bytes \<Rightarrow> parsed) \<Rightarrow> bytes \<Rightarrow> bytes \<Rightarrow> bool" where
  "stable_at f s t \<longleftrightarrow> (case f s of (r, st) \<Rightarrow>
      (st = jsonPrefixIncomplete \<longrightarrow> r = [])
    \<and> (st = jsonPrefixInvalid \<or> st = jsonPrefixComplete \<and> r \<noteq> [] \<longrightarrow> f (s @ t) = (r @ t, st)))"

lemma stable_stageD:
  assumes "stable_stage f" and "s \<noteq> []"
  shows "f s = Inr n \<Longrightarrow> f (s @ t) = Inr (n @ t)"
    and "f s = Inl (r, jsonPrefixIncomplete) \<Longrightarrow> r = []"
    and "f s = Inl (r, st) \<Longrightarrow> st \<noteq> jsonPrefixIncomplete \<Longrightarrow> f (s @ t) = Inl (r @ t, st)"
  using assms unfolding stable_stage_def by (fastforce split: sum.splits)+

lemma skip_nil [simp]: "skipWhitespace [] = []"
  by (simp add: skipWhitespace_def)

lemma skip_idem: "skipWhitespace (skipWhitespace s) = skipWhitespace s"
  by (simp add: skipWhitespace_def)

lemma skip_append:
  "skipWhitespace (s @ t) = (if skipWhitespace s = [] then skipWhitespace t else skipWhitespace s @ t)"
  by (induction s) (auto simp: skipWhitespace_def)

lemma hex_loop_stable:
  "hex_loop n s = (r, st) \<Longrightarrow> (st = jsonPrefixIncomplete \<longrightarrow> r = [])
     \<and> (st \<noteq> jsonPrefixIncomplete \<longrightarrow> hex_loop n (s @ t) = (r @ t, st))"
  by (induction n s rule: hex_loop.induct) (auto split: if_splits)

lemma string_loop_stable:
  "string_loop s = (r, st) \<Longrightarrow> (st = jsonPrefixIncomplete \<longrightarrow> r = [])
     \<and> (st \<noteq> jsonPrefixIncomplete \<longrightarrow> string_loop (s @ t) = (r @ t, st))"
proof (induction s arbitrary: r rule: string_induct)
  case (u es)
  obtain r1 st1 where h: "hex_loop 4 es = (r1, st1)" by fastforce
  with u hex_loop_stable [OF h, of t] show ?case
    by (cases st1) (auto simp: string_loop_eqs)
next
  case (rune c cs)
  let ?n = "rune_size (c # cs)"
  show ?case
  proof (cases "?n = 1")
    case True
    with rune.prems rune.hyps full_rune_append [of "c # cs" t] full_rune_decode_append [of "c # cs" t]
    show ?thesis by (auto simp: string_loop_eqs(8) split: if_splits)
  next
    case False
    have e: "rune_enc (take ?n (c # cs))" using False by (intro rune_enc_take) auto
    have d: "decode_rune ((c # cs) @ t) = decode_rune (c # cs)"
      using rune_enc_decode_append [OF e, of "drop ?n (c # cs) @ t"]
        rune_enc_decode_append [OF e, of "drop ?n (c # cs)"] by (metis append.assoc append_take_drop_id)
    have "drop ?n ((c # cs) @ t) = drop ?n (c # cs) @ t"
      unfolding drop_append using rune_size_le [of "c # cs"] by simp
    with rune False d show ?thesis
      using string_loop_eqs(8) [OF rune.hyps, of cs] string_loop_eqs(8) [OF rune.hyps, of "cs @ t"] by simp
  qed
qed (auto simp: string_loop_eqs split: if_splits)

lemma stable_open: "stable_stage (open_item c)"
  by (auto simp: stable_stage_def open_item_def Let_def skip_append)

lemma stable_next: "stable_stage (next_item c)"
  by (auto simp: stable_stage_def next_item_def Let_def skip_append)

lemma stable_key: "stable_stage object_key"
  unfolding stable_stage_def
proof (intro allI impI)
  fix s t :: bytes
  assume "s \<noteq> []"
  obtain r st where r: "string_loop (tl s) = (r, st)" by fastforce
  show "case object_key s of Inr n \<Rightarrow> object_key (s @ t) = Inr (n @ t)
     | Inl (r, st) \<Rightarrow> if st = jsonPrefixIncomplete then r = []
         else object_key (s @ t) = Inl (r @ t, st)"
    using \<open>s \<noteq> []\<close> r string_loop_stable [OF r, of t]
    by (cases st) (auto simp: object_key_def parseString_def Let_def skip_append)
qed

lemma parseLiteral_stable:
  "parseLiteral s l = (r, st) \<Longrightarrow> (st = jsonPrefixIncomplete \<longrightarrow> r = [])
     \<and> (st \<noteq> jsonPrefixIncomplete \<longrightarrow> parseLiteral (s @ t) l = (r @ t, st))"
  by (induction s l rule: parseLiteral.induct) (auto split: if_splits)

lemma dropWhile_append_stop:
  "dropWhile P s \<noteq> [] \<Longrightarrow> dropWhile P (s @ t) = dropWhile P s @ t"
  by (induction s) auto

lemma stable_at_exponent: "stable_at number_exponent s t"
  by (cases s; cases "tl s"; cases "tl (tl s)")
     (auto simp: stable_at_def number_exponent_def Let_def dropWhile_append_stop)

lemma number_exponent_nil [simp]: "number_exponent [] = ([], jsonPrefixComplete)"
  by (simp add: number_exponent_def)

lemma number_fraction_nil [simp]: "number_fraction [] = ([], jsonPrefixComplete)"
  by (simp add: number_fraction_def)

lemma stable_at_fraction: "stable_at number_fraction s t"
proof (cases "s \<noteq> [] \<and> hd s = CHR ''.'' \<and> tl s \<noteq> [] \<and> isDigit (hd (tl s))")
  case True
  let ?d = "dropWhile isDigit (tl s)"
  have "number_fraction s = number_exponent ?d" using True by (simp add: number_fraction_def Let_def)
  moreover have "number_fraction (s @ t) = number_exponent (?d @ t)" if "?d \<noteq> []"
    using True that by (simp add: number_fraction_def Let_def dropWhile_append_stop)
  ultimately show ?thesis using stable_at_exponent [of ?d t]
    by (cases "?d = []") (simp_all add: stable_at_def)
next
  case False
  with stable_at_exponent [of s t] show ?thesis
    by (cases s) (auto simp: stable_at_def number_fraction_def Let_def)
qed

lemma stable_at_integer: "stable_at number_integer s t"
proof (cases "s = [] \<or> hd s \<noteq> CHR ''0'' \<and> \<not> isDigit (hd s)")
  case False
  define d where "d = (if hd s = CHR ''0'' then tl s else dropWhile isDigit s)"
  have "number_integer s = number_fraction d" using False by (auto simp: d_def number_integer_def)
  moreover have "number_integer (s @ t) = number_fraction (d @ t)" if "d \<noteq> []"
    using False that by (auto simp: d_def number_integer_def dropWhile_append_stop)
  ultimately show ?thesis using stable_at_fraction [of d t]
    by (cases "d = []") (simp_all add: stable_at_def)
qed (auto simp: stable_at_def number_integer_def)

lemma stable_at_number: "stable_at parseNumber s t"
proof (cases "s \<noteq> [] \<and> hd s = CHR ''-''")
  case True
  then show ?thesis using stable_at_integer [of "tl s" t] by (simp add: stable_at_def parseNumber_def)
next
  case False
  then show ?thesis using stable_at_integer [of s t]
    by (cases "s = []") (auto simp: stable_at_def parseNumber_def number_integer_def)
qed

lemma stable_at_strong:
  assumes "\<And>r st. f s = (r, st) \<Longrightarrow> (st = jsonPrefixIncomplete \<longrightarrow> r = [])
     \<and> (st \<noteq> jsonPrefixIncomplete \<longrightarrow> f (s @ t) = (r @ t, st))"
  shows "stable_at f s t"
  using assms [of "fst (f s)" "snd (f s)"] by (auto simp: stable_at_def split: prod.split)

lemma stable_at_scalar:
  assumes "s \<noteq> []"
  shows "stable_at parse_scalar s t"
proof -
  have l: "stable_at (\<lambda>s. parseLiteral s l) s t" for l
    by (rule stable_at_strong) (rule parseLiteral_stable)
  have "stable_at parseString s t"
    using assms string_loop_stable [of "tl s"] by (intro stable_at_strong) (simp add: parseString_def)
  with assms l [of "''true''"] l [of "''false''"] l [of "''null''"] stable_at_number [of s t]
  show ?thesis by (auto simp: stable_at_def parse_scalar_def)
qed

lemma next_item_nonempty: "next_item c s = Inr n \<Longrightarrow> n \<noteq> []"
  by (auto simp: next_item_def Let_def split: if_splits)

lemma open_item_nonempty: "open_item c s = Inr n \<Longrightarrow> n \<noteq> []"
  by (auto simp: open_item_def Let_def split: if_splits)

lemma next_item_nil: "next_item c [] = Inl ([], jsonPrefixIncomplete)"
  by (simp add: next_item_def skipWhitespace_def)

text \<open>One iteration of a loop, for both kinds of bracket.\<close>

lemma stable_at_iteration:
  assumes v: "stable_at g v t" and n: "\<And>r n. g v = (r, jsonPrefixComplete) \<Longrightarrow> next_item c r = Inr n \<Longrightarrow> stable_at f n t"
    and f: "\<And>u. f' (v @ u) = (case g (v @ u) of (r, st) \<Rightarrow>
        if st \<noteq> jsonPrefixComplete then (r, st)
        else (case next_item c r of Inl p \<Rightarrow> p | Inr n \<Rightarrow> f n))"
  shows "stable_at f' v t"
proof -
  obtain r st where g: "g v = (r, st)" by fastforce
  have f0: "f' v = (if st \<noteq> jsonPrefixComplete then (r, st)
        else (case next_item c r of Inl p \<Rightarrow> p | Inr n \<Rightarrow> f n))" using f [of "[]"] g by simp
  show ?thesis
  proof (cases "st = jsonPrefixComplete \<and> r \<noteq> []")
    case True
    have gt: "g (v @ t) = (r @ t, st)" using v g True by (simp add: stable_at_def)
    show ?thesis
    proof (cases "next_item c r")
      case (Inl p)
      obtain r' st' where p: "p = (r', st')" by fastforce
      with f0 True Inl stable_stageD [OF stable_next, of r c] f [of t] gt show ?thesis
        by (cases "st' = jsonPrefixIncomplete") (auto simp: stable_at_def)
    next
      case (Inr m)
      with True stable_stageD(1) [OF stable_next] have "next_item c (r @ t) = Inr (m @ t)" by blast
      moreover have "stable_at f m t" using n Inr g True by simp
      ultimately show ?thesis using f0 f [of t] gt True Inr by (simp add: stable_at_def)
    qed
  next
    case False
    with f0 f [of t] v g show ?thesis
      by (auto simp: stable_at_def next_item_nil)
  qed
qed

lemma parseValue_at:
  assumes "\<not> maxJSONPrefixDepth < depth" and "skipWhitespace s = c # cs"
  shows "parseValue s depth = (if c = CHR ''{'' then parseObject (c # cs) (Suc depth)
    else if c = CHR ''['' then parseArray (c # cs) (Suc depth) else parse_scalar (c # cs))"
  using assms by (simp add: parseValue.simps [of _ depth] Let_def)

lemma parse_stable:
  "stable_at (\<lambda>s. parseValue s d) s t"
  "s \<noteq> [] \<Longrightarrow> stable_at (\<lambda>s. parseObject s d) s t"
  "s \<noteq> [] \<Longrightarrow> stable_at (\<lambda>s. object_loop s d) s t"
  "s \<noteq> [] \<Longrightarrow> stable_at (\<lambda>s. parseArray s d) s t"
  "s \<noteq> [] \<Longrightarrow> stable_at (\<lambda>s. array_loop s d) s t"
proof (induction s d and s d and s d and s d and s d
    rule: parseValue_parseObject_object_loop_parseArray_array_loop.induct)
  case (1 s0 depth)
  show ?case
  proof (cases "depth > maxJSONPrefixDepth \<or> skipWhitespace s0 = []")
    case True
    then show ?thesis by (auto simp: stable_at_def parseValue.simps [of _ depth])
  next
    case False
    then obtain c cs where c: "skipWhitespace s0 = c # cs" by (cases "skipWhitespace s0") auto
    have d: "\<not> maxJSONPrefixDepth < depth" using False by simp
    have t: "skipWhitespace (s0 @ t) = c # cs @ t" by (simp add: skip_append c)
    show ?thesis
      using 1(1) [OF d refl] 1(2) [OF d refl] stable_at_scalar [of "c # cs" t] c
      by (simp add: stable_at_def parseValue_at [OF d c] parseValue_at [OF d t])
  qed
next
  case (2 s depth)
  show ?case
  proof (cases "open_item (CHR ''}'') s")
    case (Inl p)
    with stable_stageD [OF stable_open 2(2), of "CHR ''}''"] show ?thesis
      by (cases p) (auto simp: stable_at_def parseObject.simps [of _ depth])
  next
    case (Inr m)
    with 2 stable_stageD(1) [OF stable_open 2(2), of "CHR ''}''"] open_item_nonempty [OF Inr]
    show ?thesis by (simp add: stable_at_def parseObject.simps [of _ depth])
  qed
next
  case (3 s depth)
  show ?case
  proof (cases "object_key s")
    case (Inl p)
    with stable_stageD [OF stable_key 3(3)] show ?thesis
      by (cases p) (auto simp: stable_at_def object_loop.simps [of _ depth])
  next
    case (Inr v)
    have k: "object_key (s @ u) = Inr (v @ u)" for u using stable_stageD(1) [OF stable_key 3(3) Inr] .
    define f' where "f' = (\<lambda>v. (case parseValue v depth of (r, st) \<Rightarrow>
        if st \<noteq> jsonPrefixComplete then (r, st)
        else (case next_item (CHR ''}'') r of Inl p \<Rightarrow> p | Inr n \<Rightarrow> object_loop n depth)))"
    have "stable_at f' v t"
    proof (rule stable_at_iteration [where f = "\<lambda>n. object_loop n depth" and g = "\<lambda>v. parseValue v depth"])
      show "stable_at (\<lambda>v. parseValue v depth) v t" by (rule 3(1) [OF Inr])
      show "stable_at (\<lambda>n. object_loop n depth) n t"
        if "parseValue v depth = (r, jsonPrefixComplete)" "next_item CHR ''}'' r = Inr n" for r n
        by (rule 3(2) [OF Inr _ _ that(2) next_item_nonempty [OF that(2)], of jsonPrefixComplete]) (use that in simp_all)
    qed (simp add: f'_def)
    moreover have "object_loop (s @ t) depth = f' (v @ t)" "object_loop s depth = f' v"
      by (simp_all add: object_loop.simps [of _ depth] k Inr f'_def)
    ultimately show ?thesis by (simp add: stable_at_def)
  qed
next
  case (4 s depth)
  show ?case
  proof (cases "open_item (CHR '']'') s")
    case (Inl p)
    with stable_stageD [OF stable_open 4(2), of "CHR '']''"] show ?thesis
      by (cases p) (auto simp: stable_at_def parseArray.simps [of _ depth])
  next
    case (Inr m)
    with 4 stable_stageD(1) [OF stable_open 4(2), of "CHR '']''"] open_item_nonempty [OF Inr]
    show ?thesis by (simp add: stable_at_def parseArray.simps [of _ depth])
  qed
next
  case (5 s depth)
  show ?case
  proof (rule stable_at_iteration [where f = "\<lambda>n. array_loop n depth" and g = "\<lambda>v. parseValue v depth"])
    show "stable_at (\<lambda>v. parseValue v depth) s t" by (rule 5(1))
    show "stable_at (\<lambda>n. array_loop n depth) n t"
      if "parseValue s depth = (r, jsonPrefixComplete)" "next_item CHR '']'' r = Inr n" for r n
      by (rule 5(2) [OF _ _ that(2) next_item_nonempty [OF that(2)], of jsonPrefixComplete]) (use that in simp_all)
  qed (simp add: array_loop.simps [of _ depth])
qed

lemma parseValue_skip: "parseValue (skipWhitespace s) 0 = parseValue s 0"
  using skip_append [of s "[]"]
  by (simp add: parseValue.simps [of s] parseValue.simps [of "skipWhitespace s"] skip_idem)

lemma IsValid_iff:
  "IsValidJSONPrefix p \<longleftrightarrow> (case parseValue p 0 of (r, st) \<Rightarrow>
     st = jsonPrefixIncomplete \<or> st = jsonPrefixComplete \<and> skipWhitespace r = [])"
proof (cases "skipWhitespace p = []")
  case True
  then show ?thesis
    by (simp add: IsValidJSONPrefix_def ValidateJSONPrefix_def parseValue.simps [of p])
next
  case False
  then show ?thesis
    by (simp add: IsValidJSONPrefix_def ValidateJSONPrefix_def parseValue_skip
        split: prod.split jsonPrefixStatus.split)
qed

lemma IsValid_prefix: "IsValidJSONPrefix (p @ t) \<Longrightarrow> IsValidJSONPrefix p"
  using parse_stable(1) [of 0 p t]
  by (cases "parseValue p 0"; cases "snd (parseValue p 0)")
     (auto simp: IsValid_iff stable_at_def skip_append split: if_splits)

end
