(* ===== verification/Json_Grammar.thy ===== *)
theory Json_Grammar
  imports Json_Prefix
begin

text \<open>
  The JSON grammar of RFC 8259 as inductive predicates on byte strings, and the correctness of
  the prefix validator against it: the validator accepts every prefix of every JSON text that
  is nested at most \<open>maxJSONPrefixDepth\<close> deep (completeness), and everything it accepts can
  be extended to a JSON text (soundness).
\<close>

section \<open>The grammar\<close>

definition ws :: "bytes \<Rightarrow> bool" where
  "ws w \<longleftrightarrow> list_all isWhitespace w"

inductive jchars :: "bytes \<Rightarrow> bool" where
  jc_nil: "jchars []"
| jc_ascii: "c \<noteq> CHR 0x22 \<Longrightarrow> c \<noteq> CHR 0x5C \<Longrightarrow> 0x20 \<le> bv c \<Longrightarrow> bv c < 0x80 \<Longrightarrow> jchars cs \<Longrightarrow> jchars (c # cs)"
| jc_rune: "rune_enc (c # r) \<Longrightarrow> 0x80 \<le> bv c \<Longrightarrow> jchars cs \<Longrightarrow> jchars ((c # r) @ cs)"
| jc_esc: "isSimpleJSONEscape e \<Longrightarrow> jchars cs \<Longrightarrow> jchars (CHR 0x5C # e # cs)"
| jc_u: "length h = 4 \<Longrightarrow> list_all isHex h \<Longrightarrow> jchars cs \<Longrightarrow> jchars (CHR 0x5C # CHR ''u'' # h @ cs)"

definition jstring :: "bytes \<Rightarrow> bool" where
  "jstring s \<longleftrightarrow> (\<exists>b. jchars b \<and> s = CHR 0x22 # b @ [CHR 0x22])"

definition jdigits :: "bytes \<Rightarrow> bool" where
  "jdigits ds \<longleftrightarrow> ds \<noteq> [] \<and> list_all isDigit ds"

definition jint :: "bytes \<Rightarrow> bool" where
  "jint i \<longleftrightarrow> i = ''0'' \<or> jdigits i \<and> hd i \<noteq> CHR ''0''"

definition jfrac :: "bytes \<Rightarrow> bool" where
  "jfrac f \<longleftrightarrow> f = [] \<or> (\<exists>ds. jdigits ds \<and> f = CHR ''.'' # ds)"

definition jexp :: "bytes \<Rightarrow> bool" where
  "jexp e \<longleftrightarrow> e = [] \<or> (\<exists>x sg ds. (x = CHR ''e'' \<or> x = CHR ''E'') \<and> sg \<in> {[], ''+'', ''-''}
     \<and> jdigits ds \<and> e = x # sg @ ds)"

definition jnumber :: "bytes \<Rightarrow> bool" where
  "jnumber s \<longleftrightarrow> (\<exists>sg i f e. sg \<in> {[], ''-''} \<and> jint i \<and> jfrac f \<and> jexp e \<and> s = sg @ i @ f @ e)"

text \<open>The first argument bounds the nesting of objects and arrays.\<close>

inductive jvalue :: "nat \<Rightarrow> bytes \<Rightarrow> bool"
  and jmembers :: "nat \<Rightarrow> bytes \<Rightarrow> bool"
  and jelements :: "nat \<Rightarrow> bytes \<Rightarrow> bool"
where
  jv_string: "jstring s \<Longrightarrow> jvalue n s"
| jv_number: "jnumber s \<Longrightarrow> jvalue n s"
| jv_literal: "s \<in> {''true'', ''false'', ''null''} \<Longrightarrow> jvalue n s"
| jv_object0: "ws w \<Longrightarrow> jvalue (Suc n) (CHR ''{'' # w @ ''}'')"
| jv_object: "ws w \<Longrightarrow> jmembers n m \<Longrightarrow> jvalue (Suc n) (CHR ''{'' # w @ m @ ''}'')"
| jv_array0: "ws w \<Longrightarrow> jvalue (Suc n) (CHR ''['' # w @ '']'')"
| jv_array: "ws w \<Longrightarrow> jelements n m \<Longrightarrow> jvalue (Suc n) (CHR ''['' # w @ m @ '']'')"
| jm_one: "jstring k \<Longrightarrow> ws w1 \<Longrightarrow> ws w2 \<Longrightarrow> jvalue n v \<Longrightarrow> ws w3 \<Longrightarrow>
    jmembers n (k @ w1 @ '':'' @ w2 @ v @ w3)"
| jm_more: "jstring k \<Longrightarrow> ws w1 \<Longrightarrow> ws w2 \<Longrightarrow> jvalue n v \<Longrightarrow> ws w3 \<Longrightarrow> ws w4 \<Longrightarrow> jmembers n m \<Longrightarrow>
    jmembers n (k @ w1 @ '':'' @ w2 @ v @ w3 @ '','' @ w4 @ m)"
| je_one: "jvalue n v \<Longrightarrow> ws w \<Longrightarrow> jelements n (v @ w)"
| je_more: "jvalue n v \<Longrightarrow> ws w1 \<Longrightarrow> ws w2 \<Longrightarrow> jelements n m \<Longrightarrow>
    jelements n (v @ w1 @ '','' @ w2 @ m)"

definition json_text :: "nat \<Rightarrow> bytes \<Rightarrow> bool" where
  "json_text n s \<longleftrightarrow> (\<exists>w v w'. ws w \<and> jvalue n v \<and> ws w' \<and> s = w @ v @ w')"

section \<open>Whitespace\<close>

lemma skip_ws: "ws w \<Longrightarrow> skipWhitespace (w @ t) = skipWhitespace t"
  by (induction w) (auto simp: ws_def skipWhitespace_def)

lemma skip_stop: "\<not> isWhitespace c \<Longrightarrow> skipWhitespace (c # cs) = c # cs"
  by (simp add: skipWhitespace_def)

lemma skip_split: obtains w where "ws w" "s = w @ skipWhitespace s"
proof
  show "ws (takeWhile isWhitespace s)"
    by (auto simp: ws_def list_all_iff dest: set_takeWhileD)
  show "s = takeWhile isWhitespace s @ skipWhitespace s" by (simp add: skipWhitespace_def)
qed

lemma ws_nil [simp]: "ws []"
  by (simp add: ws_def)

section \<open>Completeness\<close>

lemma hex_loop_complete: "list_all isHex h \<Longrightarrow> hex_loop (length h) (h @ t) = (t, jsonPrefixComplete)"
  by (induction h) auto

lemma escape_not_u: "isSimpleJSONEscape e \<Longrightarrow> e \<noteq> CHR ''u''"
  by (auto simp: isSimpleJSONEscape_def)

lemma string_complete: "jchars b \<Longrightarrow> string_loop (b @ CHR 0x22 # t) = (t, jsonPrefixComplete)"
proof (induction rule: jchars.induct)
  case (jc_rune c r cs)
  let ?t = "cs @ CHR 0x22 # t"
  have d: "decode_rune (c # r @ ?t) = decode_rune (c # r)"
    using rune_enc_decode_append [OF jc_rune(1), of ?t] by simp
  have n: "rune_size (c # r) = length (c # r)" "rune_size (c # r) \<noteq> 1"
    using jc_rune(1,2) by (auto simp: rune_enc_def)
  with d jc_rune string_loop_eqs(8) [OF jc_rune(2), of "r @ ?t"] show ?case by simp
next
  case (jc_esc e cs)
  then show ?case using escape_not_u by (simp add: string_loop_eqs(5))
next
  case (jc_u h cs)
  then show ?case using hex_loop_complete [of h "cs @ CHR 0x22 # t"] by (simp add: string_loop_eqs(4))
qed (simp_all add: string_loop_eqs)

text \<open>What may follow a number without extending it.\<close>

definition number_end :: "bytes \<Rightarrow> bool" where
  "number_end t \<longleftrightarrow> t = [] \<or> \<not> isDigit (hd t) \<and> hd t \<notin> {CHR ''.'', CHR ''e'', CHR ''E''}"

lemma drop_digits: "list_all isDigit ds \<Longrightarrow> t = [] \<or> \<not> isDigit (hd t) \<Longrightarrow> dropWhile isDigit (ds @ t) = t"
  by (induction ds) (auto simp: dropWhile_eq_self_iff)

lemma digit_chars [simp]: "isDigit (CHR ''0'')" "\<not> isDigit (CHR ''e'')" "\<not> isDigit (CHR ''E'')"
  "\<not> isDigit (CHR ''.'')" "\<not> isDigit (CHR ''+'')" "\<not> isDigit (CHR ''-'')"
  by (simp_all add: isDigit_def)

lemma jdigits_Cons: "jdigits ds \<Longrightarrow> \<exists>c cs. ds = c # cs \<and> isDigit c \<and> list_all isDigit cs"
  by (cases ds) (auto simp: jdigits_def)

lemma exponent_complete:
  assumes "jexp e" and "number_end t"
  shows "number_exponent (e @ t) = (t, jsonPrefixComplete)"
proof (cases "e = []")
  case True
  with assms(2) show ?thesis by (auto simp: number_exponent_def number_end_def)
next
  case False
  with assms(1) obtain x sg ds where e: "x = CHR ''e'' \<or> x = CHR ''E''" "sg \<in> {[], ''+'', ''-''}"
    "jdigits ds" "e = x # sg @ ds" by (auto simp: jexp_def)
  obtain c cs where ds: "ds = c # cs" "isDigit c" "list_all isDigit cs" using jdigits_Cons [OF e(3)] by blast
  have "c \<noteq> CHR ''+'' \<and> c \<noteq> CHR ''-''" using ds(2) by auto
  moreover have "dropWhile isDigit (ds @ t) = t"
    using drop_digits [of ds t] e(3) assms(2) by (auto simp: jdigits_def number_end_def)
  ultimately show ?thesis using e ds by (auto simp: number_exponent_def Let_def)
qed

lemma jexp_hd: "jexp e \<Longrightarrow> number_end t \<Longrightarrow> e @ t = [] \<or> \<not> isDigit (hd (e @ t)) \<and> hd (e @ t) \<noteq> CHR ''.''"
  by (auto simp: jexp_def number_end_def)

lemma fraction_complete:
  assumes "jfrac f" and "jexp e" and "number_end t"
  shows "number_fraction (f @ e @ t) = (t, jsonPrefixComplete)"
proof (cases "f = []")
  case True
  with jexp_hd [OF assms(2,3)] exponent_complete [OF assms(2,3)] show ?thesis
    by (auto simp: number_fraction_def)
next
  case False
  with assms(1) obtain ds where f: "jdigits ds" "f = CHR ''.'' # ds" by (auto simp: jfrac_def)
  then obtain c cs where ds: "ds = c # cs" "isDigit c" using jdigits_Cons [OF f(1)] by blast
  have "dropWhile isDigit (ds @ e @ t) = e @ t"
    using drop_digits [of ds "e @ t"] f(1) jexp_hd [OF assms(2,3)] by (auto simp: jdigits_def)
  with f ds exponent_complete [OF assms(2,3)] show ?thesis by (simp add: number_fraction_def Let_def)
qed

lemma integer_complete:
  assumes "jint i" and "jfrac f" and "jexp e" and "number_end t"
  shows "number_integer (i @ f @ e @ t) = (t, jsonPrefixComplete)"
proof (cases "i = ''0''")
  case True
  with fraction_complete [OF assms(2-4)] show ?thesis by (simp add: number_integer_def)
next
  case False
  with assms(1) have i: "jdigits i" "hd i \<noteq> CHR ''0''" by (auto simp: jint_def)
  have "f @ e @ t = [] \<or> \<not> isDigit (hd (f @ e @ t))"
    using assms(2) jexp_hd [OF assms(3,4)] by (auto simp: jfrac_def)
  with drop_digits [of i "f @ e @ t"] i have "dropWhile isDigit (i @ f @ e @ t) = f @ e @ t"
    by (simp add: jdigits_def)
  with i fraction_complete [OF assms(2-4)] jdigits_Cons [OF i(1)] show ?thesis
    by (auto simp: number_integer_def)
qed

lemma number_complete:
  assumes "jnumber s" and "number_end t"
  shows "parseNumber (s @ t) = (t, jsonPrefixComplete)"
proof -
  obtain sg i f e where s: "sg \<in> {[], ''-''}" "jint i" "jfrac f" "jexp e" "s = sg @ i @ f @ e"
    using assms(1) by (auto simp: jnumber_def)
  have "i \<noteq> []" "hd i \<noteq> CHR ''-''" using s(2) jdigits_Cons [of i] by (auto simp: jint_def)
  with s integer_complete [OF s(2-4) assms(2)] show ?thesis by (auto simp: parseNumber_def)
qed

lemma jnumber_hd: "jnumber s \<Longrightarrow> \<exists>c cs. s = c # cs \<and> (c = CHR ''-'' \<or> isDigit c)"
  using jdigits_Cons by (fastforce simp: jnumber_def jint_def)

lemma digit_not_special: "isDigit c \<Longrightarrow> c \<notin> {CHR ''{'', CHR ''['', CHR 0x22, CHR ''t'', CHR ''f'',
    CHR ''n'', CHR '']'', CHR ''}'', CHR '',''} \<and> \<not> isWhitespace c"
  by (auto simp: isDigit_def isWhitespace_def)

lemma number_start:
  assumes "c = CHR ''-'' \<or> isDigit c"
  shows "\<not> isWhitespace c" and "c \<noteq> CHR ''{''" and "c \<noteq> CHR ''[''"
  using assms by (auto simp: isDigit_def isWhitespace_def)

lemma jvalue_hd:
  assumes "jvalue n v"
  shows "\<exists>c cs. v = c # cs \<and> \<not> isWhitespace c \<and> c \<notin> {CHR '']'', CHR ''}'', CHR '',''}"
  using assms
proof cases
  case jv_number
  then show ?thesis using jnumber_hd [of v] digit_not_special by (fastforce simp: isWhitespace_def)
qed (auto simp: jstring_def isWhitespace_def)

lemma scalar_string: "jstring s \<Longrightarrow> parse_scalar (s @ t) = (t, jsonPrefixComplete)"
  by (auto simp: jstring_def parse_scalar_def parseString_def string_complete)

lemma scalar_number: "jnumber s \<Longrightarrow> number_end t \<Longrightarrow> parse_scalar (s @ t) = (t, jsonPrefixComplete)"
  using jnumber_hd [of s] digit_not_special number_complete [of s t]
  by (fastforce simp: parse_scalar_def)

lemma parseValue_skip_ws:
  assumes "ws w" and "v = c # cs" and "\<not> isWhitespace c" and "d \<le> maxJSONPrefixDepth"
  shows "parseValue (w @ v @ t) d = (if c = CHR ''{'' then parseObject (v @ t) (Suc d)
    else if c = CHR ''['' then parseArray (v @ t) (Suc d) else parse_scalar (v @ t))"
  using assms parseValue_at [of d "w @ v @ t" c "cs @ t"] by (simp add: skip_ws skip_stop)

lemma number_end_close: "ws w \<Longrightarrow> number_end (w @ CHR ''}'' # t)" "ws w \<Longrightarrow> number_end (w @ CHR '']'' # t)"
  "ws w \<Longrightarrow> number_end (w @ CHR '','' # t)" "ws w \<Longrightarrow> number_end w"
  by (cases w; auto simp: number_end_def isDigit_def ws_def isWhitespace_def)+

lemma open_close: "ws w \<Longrightarrow> \<not> isWhitespace c \<Longrightarrow> open_item c (b # w @ c # t) = Inl (t, jsonPrefixComplete)"
  by (simp add: open_item_def skip_ws skip_stop)

lemma open_go: "ws w \<Longrightarrow> \<not> isWhitespace x \<Longrightarrow> x \<noteq> c \<Longrightarrow> open_item c (b # w @ x # t) = Inr (x # t)"
  by (simp add: open_item_def skip_ws skip_stop)

lemma next_close: "ws w \<Longrightarrow> \<not> isWhitespace c \<Longrightarrow> next_item c (w @ c # t) = Inl (t, jsonPrefixComplete)"
  by (simp add: next_item_def skip_ws skip_stop)

lemma comma_not_ws [simp]: "\<not> isWhitespace (CHR '','')" "\<not> isWhitespace (CHR ''}'')"
  "\<not> isWhitespace (CHR '']'')" "\<not> isWhitespace (CHR '':'')" "\<not> isWhitespace (CHR 0x22)"
  "\<not> isWhitespace (CHR ''{'')" "\<not> isWhitespace (CHR ''['')"
  by (simp_all add: isWhitespace_def)

lemma next_go: "ws w \<Longrightarrow> ws w' \<Longrightarrow> \<not> isWhitespace x \<Longrightarrow> x \<noteq> c \<Longrightarrow> c \<noteq> CHR '','' \<Longrightarrow>
    next_item c (w @ CHR '','' # w' @ x # t) = Inr (x # t)"
  by (simp add: next_item_def skip_ws skip_stop)

lemma key_complete:
  "jstring k \<Longrightarrow> ws w \<Longrightarrow> object_key (k @ w @ CHR '':'' # t) = Inr t"
  by (auto simp: jstring_def object_key_def parseString_def string_complete skip_ws skip_stop)

lemma jmembers_hd: "jmembers n m \<Longrightarrow> \<exists>cs. m = CHR 0x22 # cs"
  by (erule jmembers.cases) (auto simp: jstring_def)

lemma jelements_hd:
  "jelements n m \<Longrightarrow> \<exists>c cs. m = c # cs \<and> \<not> isWhitespace c \<and> c \<noteq> CHR '']''"
  by (erule jelements.cases) (auto dest: jvalue_hd)

lemma parse_complete:
  "jvalue n v \<Longrightarrow> ws w \<Longrightarrow> d + n \<le> maxJSONPrefixDepth \<Longrightarrow> number_end t \<Longrightarrow>
     parseValue (w @ v @ t) d = (t, jsonPrefixComplete)"
  "jmembers n m \<Longrightarrow> d + n \<le> maxJSONPrefixDepth \<Longrightarrow>
     object_loop (m @ CHR ''}'' # t) d = (t, jsonPrefixComplete)"
  "jelements n m \<Longrightarrow> d + n \<le> maxJSONPrefixDepth \<Longrightarrow>
     array_loop (m @ CHR '']'' # t) d = (t, jsonPrefixComplete)"
proof (induction arbitrary: w d t and d t and d t rule: jvalue_jmembers_jelements.inducts)
  case (jv_string s n)
  then obtain cs where s: "s = CHR 0x22 # cs" by (auto simp: jstring_def)
  show ?case using jv_string parseValue_skip_ws [OF jv_string(2) s] scalar_string [OF jv_string(1)] by simp
next
  case (jv_number s n)
  then obtain c cs where s: "s = c # cs" "c = CHR ''-'' \<or> isDigit c" using jnumber_hd by blast
  note c = number_start [OF s(2)]
  with jv_number s(1) show ?case
    using parseValue_skip_ws [OF jv_number(2) s(1)] scalar_number [OF jv_number(1,4)] by simp
next
  case (jv_literal s n)
  then obtain c cs where s: "s = c # cs" "c \<in> {CHR ''t'', CHR ''f'', CHR ''n''}" by auto
  then have "\<not> isWhitespace c" by (auto simp: isWhitespace_def)
  with jv_literal s show ?case
    using parseValue_skip_ws [OF jv_literal(2) s(1)] by (auto simp: parse_scalar_def)
next
  case (jv_object0 u n)
  then show ?case
    using parseValue_skip_ws [OF jv_object0(2), of "CHR ''{'' # u @ ''}''" _ _ d t]
    by (simp add: parseObject.simps [of _ "Suc d"] open_close)
next
  case (jv_object u n m)
  obtain cs where m: "m = CHR 0x22 # cs" using jmembers_hd jv_object by blast
  show ?case
    using parseValue_skip_ws [OF jv_object(4), of "CHR ''{'' # u @ m @ ''}''" _ _ d t] jv_object m
    by (simp add: parseObject.simps [of _ "Suc d"] open_go)
next
  case (jv_array0 u n)
  then show ?case
    using parseValue_skip_ws [OF jv_array0(2), of "CHR ''['' # u @ '']''" _ _ d t]
    by (simp add: parseArray.simps [of _ "Suc d"] open_close)
next
  case (jv_array u n m)
  obtain c cs where m: "m = c # cs" "\<not> isWhitespace c" "c \<noteq> CHR '']''" using jelements_hd jv_array by blast
  show ?case
    using parseValue_skip_ws [OF jv_array(4), of "CHR ''['' # u @ m @ '']''" _ _ d t] jv_array m
    by (simp add: parseArray.simps [of _ "Suc d"] open_go)
next
  case (jm_one k w1 w2 n v w3)
  then show ?case by (simp add: object_loop.simps [of _ d] key_complete number_end_close next_close)
next
  case (jm_more k w1 w2 n v w3 w4 m)
  obtain cs where m: "m = CHR 0x22 # cs" using jmembers_hd jm_more by blast
  with jm_more show ?case
    by (simp add: object_loop.simps [of "k @ _" d] key_complete number_end_close next_go)
next
  case (je_one n v u)
  then show ?case using je_one.IH [of "[]" d] by (simp add: array_loop.simps [of _ d] number_end_close next_close)
next
  case (je_more n v w1 w2 m)
  obtain c cs where m: "m = c # cs" "\<not> isWhitespace c" "c \<noteq> CHR '']''" using jelements_hd je_more by blast
  with je_more show ?case using je_more.IH(1) [of "[]" d]
    by (simp add: array_loop.simps [of "v @ _" d] number_end_close next_go)
qed

section \<open>Soundness\<close>

lemma lead_range: "utf8_lead c = Some (sz, lo, hi) \<Longrightarrow> lo \<le> hi \<and> hi < 256"
  by (auto simp: utf8_lead_def Let_def split: if_splits)

text \<open>A rune cut off by the end of the data can be completed.\<close>

lemma partial_rune_extends:
  assumes "0x80 \<le> bv c" and "\<not> full_rune (c # cs)"
  shows "\<exists>e. rune_enc (c # cs @ e)"
proof -
  have b: "\<not> bv c < 0x80" using assms(1) by simp
  obtain sz lo hi where l: "utf8_lead c = Some (sz, lo, hi)"
    using assms b by (cases "utf8_lead c") (auto simp: full_rune_def)
  define f where "f = (char_of lo :: char)"
  have f: "bv f = lo" using lead_range [OF l] by (simp add: f_def)
  have k: "utf8_cont (CHR 0x80)" by (simp add: utf8_cont_def)
  have nf: "Suc (length cs) < sz" "cs \<noteq> [] \<longrightarrow> lo \<le> bv (cs ! 0) \<and> bv (cs ! 0) \<le> hi"
    "2 \<le> length cs \<longrightarrow> utf8_cont (cs ! 1)"
    using assms(2) full_rune_lead [OF b l, of cs] by auto
  have ok: "rune_enc (c # cs @ e)" if "lead_fits (sz, lo, hi) (cs @ e)" "length (cs @ e) = sz - 1" for e
    using that nf(1) rune_size_lead [OF b l, of "cs @ e"] by (auto simp: rune_enc_def)
  from l show ?thesis
  proof (cases rule: utf8_leadE)
    case (two lo' hi')
    with nf(1) have "cs = []" "sz = 2" by auto
    with ok [of "[f]"] f lead_range [OF l] show ?thesis by (auto simp: lead_fits_def)
  next
    case (three lo' hi')
    with nf(1) have "length cs < 2" "sz = 3" by auto
    with ok [of "[f, CHR 0x80]"] ok [of "[CHR 0x80]"] f k nf lead_range [OF l] show ?thesis
      by (cases cs rule: list_cases_4) (auto simp: lead_fits_def)
  next
    case (four lo' hi')
    with nf(1) have "length cs < 3" "sz = 4" by auto
    with ok [of "[f, CHR 0x80, CHR 0x80]"] ok [of "[CHR 0x80, CHR 0x80]"] ok [of "[CHR 0x80]"] f k nf
      lead_range [OF l] show ?thesis
      by (cases cs rule: list_cases_4) (auto simp: lead_fits_def)
  qed
qed

lemma hex_loop_sound:
  "hex_loop n s = (r, jsonPrefixComplete) \<Longrightarrow> \<exists>h. length h = n \<and> list_all isHex h \<and> s = h @ r"
  "hex_loop n s = (r, jsonPrefixIncomplete) \<Longrightarrow> \<exists>e. length (s @ e) = n \<and> list_all isHex (s @ e)"
proof (induction n s rule: hex_loop.induct)
  case (3 n c cs)
  {
    case 1
    with 3 obtain h where "length h = n" "list_all isHex h" "cs = h @ r" "isHex c" by (auto split: if_splits)
    then show ?case by (intro exI [of _ "c # h"]) simp
  next
    case 2
    with 3 show ?case by (auto split: if_splits)
  }
next
  case (2 n)
  {
    case 2
    show ?case by (intro exI [of _ "replicate (Suc n) (CHR ''0'')"]) (simp add: isHex_def list_all_iff)
  }
qed auto

lemma take_rune_Cons: "\<exists>r. take (rune_size (c # cs)) (c # cs) = c # r"
  using rune_size_pos [of "c # cs"] by (cases "rune_size (c # cs)") auto

lemma jchars_rune_append:
  assumes "rune_size s \<noteq> 1" and "s = c # cs" and "0x80 \<le> bv c" and "jchars (drop (rune_size s) s @ e)"
  shows "jchars (s @ e)"
proof -
  obtain r where r: "take (rune_size s) s = c # r"
    using assms(2) take_rune_Cons by blast
  have "rune_enc (c # r)" using rune_enc_take [OF assms(1)] assms(2) r by simp
  from jc_rune [OF this assms(3,4)] show ?thesis
    using r by (metis append.assoc append_take_drop_id)
qed

lemma string_sound:
  "string_loop s = (r, jsonPrefixComplete) \<Longrightarrow> \<exists>b. jchars b \<and> s = b @ CHR 0x22 # r"
  "string_loop s = (r, jsonPrefixIncomplete) \<Longrightarrow> \<exists>e. jchars (s @ e)"
proof (induction s rule: string_induct)
  case Nil
  { case 2 show ?case using jc_nil by auto }
next
  case (quote cs)
  { case 1 then show ?case using jc_nil by (auto simp: string_loop_eqs) }
next
  case slash
  { case 2 show ?case using jc_esc [of "CHR ''n''" "[]"] jc_nil
      by (intro exI [of _ "''n''"]) (simp add: isSimpleJSONEscape_def) }
next
  case (u es)
  obtain r1 st where h: "hex_loop 4 es = (r1, st)" by fastforce
  {
    case 1
    then have st: "st = jsonPrefixComplete" "string_loop r1 = (r, jsonPrefixComplete)"
      using h by (auto simp: string_loop_eqs split: jsonPrefixStatus.splits)
    with u(1) h obtain b where "jchars b" "r1 = b @ CHR 0x22 # r" by blast
    moreover obtain x where "length x = 4" "list_all isHex x" "es = x @ r1"
      using hex_loop_sound(1) h st by blast
    ultimately show ?case using jc_u [of x b] by (intro exI [of _ "CHR 0x5C # CHR ''u'' # x @ b"]) simp
  next
    case 2
    show ?case
    proof (cases "st = jsonPrefixComplete")
      case True
      then have "string_loop r1 = (r, jsonPrefixIncomplete)" using 2 h by (simp add: string_loop_eqs)
      with u(2) h True obtain e where "jchars (r1 @ e)" by blast
      moreover obtain x where "length x = 4" "list_all isHex x" "es = x @ r1"
        using hex_loop_sound(1) h True by blast
      ultimately show ?thesis using jc_u [of x "r1 @ e"] by auto
    next
      case False
      then have "st = jsonPrefixIncomplete"
        using 2 h by (auto simp: string_loop_eqs split: jsonPrefixStatus.splits)
      with hex_loop_sound(2) h obtain e where "length (es @ e) = 4" "list_all isHex (es @ e)" by blast
      from jc_u [OF this jc_nil] show ?thesis by auto
    qed
  }
next
  case (esc e es)
  {
    case 1
    with esc obtain b where "jchars b" "es = b @ CHR 0x22 # r" "isSimpleJSONEscape e"
      by (auto simp: string_loop_eqs split: if_splits)
    then show ?case using jc_esc [of e b] by (intro exI [of _ "CHR 0x5C # e # b"]) simp
  next
    case 2
    with esc show ?case using jc_esc [of e "es @ _"] by (auto simp: string_loop_eqs split: if_splits)
  }
next
  case (ascii c cs)
  {
    case 1
    with ascii obtain b where "jchars b" "cs = b @ CHR 0x22 # r" by (auto simp: string_loop_eqs)
    then show ?case using ascii jc_ascii [of c b] by (intro exI [of _ "c # b"]) simp
  next
    case 2
    with ascii show ?case using jc_ascii [of c "cs @ _"] by (auto simp: string_loop_eqs)
  }
next
  case (rune c cs)
  {
    case 1
    then have n: "rune_size (c # cs) \<noteq> 1"
      and l: "string_loop (drop (rune_size (c # cs)) (c # cs)) = (r, jsonPrefixComplete)"
      using string_loop_eqs(8) [OF rune(1), of cs] by (auto split: if_splits)
    from rune(2) [OF l] obtain b where b: "jchars b" "drop (rune_size (c # cs)) (c # cs) = b @ CHR 0x22 # r"
      by blast
    obtain x where x: "take (rune_size (c # cs)) (c # cs) = c # x"
      using take_rune_Cons by blast
    have "rune_enc (c # x)" using rune_enc_take [OF n] x by simp
    from jc_rune [OF this rune(1) b(1)] b(2) x show ?case
      by (metis append.assoc append_take_drop_id)
  next
    case 2
    show ?case
    proof (cases "rune_size (c # cs) = 1")
      case True
      then have "\<not> full_rune (c # cs)"
        using 2 string_loop_eqs(8) [OF rune(1), of cs] by (auto split: if_splits)
      with partial_rune_extends [OF rune(1)] obtain e where "rune_enc (c # cs @ e)" by blast
      from jc_rune [OF this rune(1) jc_nil] show ?thesis by auto
    next
      case False
      then have "string_loop (drop (rune_size (c # cs)) (c # cs)) = (r, jsonPrefixIncomplete)"
        using 2 string_loop_eqs(8) [OF rune(1), of cs] by simp
      from rune(3) [OF this] jchars_rune_append [OF False refl rune(1)] show ?thesis by blast
    qed
  }
qed (auto simp: string_loop_eqs)

lemma digits_split:
  assumes "t \<noteq> []" and "isDigit (hd t)"
  obtains ds where "jdigits ds" "t = ds @ dropWhile isDigit t" "hd ds = hd t"
proof
  show "jdigits (takeWhile isDigit t)"
    using assms by (cases t) (auto simp: jdigits_def list_all_iff dest: set_takeWhileD)
  show "hd (takeWhile isDigit t) = hd t" using assms by (cases t) auto
qed simp

lemma jdigits_0: "jdigits ''0''"
  by (simp add: jdigits_def)

lemma exponent_sound:
  "number_exponent s = (r, jsonPrefixComplete) \<Longrightarrow> \<exists>e. jexp e \<and> s = e @ r"
  "number_exponent s = (r, jsonPrefixIncomplete) \<Longrightarrow> \<exists>x. jexp (s @ x)"
proof -
  let ?sg = "\<lambda>u. if u \<noteq> [] \<and> (hd u = CHR ''+'' \<or> hd u = CHR ''-'') then [hd u] else []"
  have sg: "?sg u \<in> {[], ''+'', ''-''}" "u = ?sg u @ (if ?sg u = [] then u else tl u)" for u
    by (cases u; auto)+
  show "\<exists>e. jexp e \<and> s = e @ r" if c: "number_exponent s = (r, jsonPrefixComplete)"
  proof (cases "s \<noteq> [] \<and> (hd s = CHR ''e'' \<or> hd s = CHR ''E'')")
    case True
    define t where "t = (if ?sg (tl s) = [] then tl s else tl (tl s))"
    have t: "t \<noteq> []" "isDigit (hd t)" "r = dropWhile isDigit t"
      using c True by (auto simp: t_def number_exponent_def Let_def split: if_splits)
    from digits_split [OF t(1,2)] obtain ds where "jdigits ds" "t = ds @ r" using t(3) by metis
    with True sg [of "tl s"] have "s = (hd s # ?sg (tl s) @ ds) @ r" unfolding t_def [symmetric]
      by (metis append.assoc append_Cons list.collapse)
    with True sg(1) [of "tl s"] \<open>jdigits ds\<close> show ?thesis unfolding jexp_def by blast
  next
    case False
    with c show ?thesis by (auto simp: number_exponent_def jexp_def)
  qed
  show "\<exists>x. jexp (s @ x)" if c: "number_exponent s = (r, jsonPrefixIncomplete)"
  proof -
    have s: "s \<noteq> []" "hd s = CHR ''e'' \<or> hd s = CHR ''E''" "tl s = ?sg (tl s)"
      using c by (cases s; cases "tl s"; auto simp: number_exponent_def Let_def split: if_splits)+
    have "tl s \<in> {[], ''+'', ''-''}" using sg(1) [of "tl s"] unfolding s(3) [symmetric] .
    moreover have "s @ ''0'' = hd s # tl s @ ''0''" using s(1) by (cases s) simp_all
    ultimately show ?thesis using s(2) jdigits_0 unfolding jexp_def by blast
  qed
qed

lemma fraction_sound:
  "number_fraction s = (r, jsonPrefixComplete) \<Longrightarrow> \<exists>f e. jfrac f \<and> jexp e \<and> s = f @ e @ r"
  "number_fraction s = (r, jsonPrefixIncomplete) \<Longrightarrow> \<exists>f e x. jfrac f \<and> jexp e \<and> s @ x = f @ e"
proof -
  show "\<exists>f e. jfrac f \<and> jexp e \<and> s = f @ e @ r" if c: "number_fraction s = (r, jsonPrefixComplete)"
  proof (cases "s \<noteq> [] \<and> hd s = CHR ''.''")
    case True
    then have t: "tl s \<noteq> []" "isDigit (hd (tl s))"
      "number_exponent (dropWhile isDigit (tl s)) = (r, jsonPrefixComplete)"
      using c by (auto simp: number_fraction_def Let_def split: if_splits)
    from digits_split [OF t(1,2)] obtain ds where ds: "jdigits ds" "tl s = ds @ dropWhile isDigit (tl s)" .
    from exponent_sound(1) [OF t(3)] obtain e where "jexp e" "dropWhile isDigit (tl s) = e @ r" by blast
    moreover have "s = CHR ''.'' # tl s" using True by (cases s) auto
    ultimately show ?thesis using ds unfolding jfrac_def by (metis append_Cons append.assoc)
  next
    case False
    with c exponent_sound(1) [of s r] show ?thesis by (auto simp: number_fraction_def jfrac_def)
  qed
  show "\<exists>f e x. jfrac f \<and> jexp e \<and> s @ x = f @ e" if c: "number_fraction s = (r, jsonPrefixIncomplete)"
  proof (cases "s \<noteq> [] \<and> hd s = CHR ''.''")
    case True
    then have s: "s = CHR ''.'' # tl s" by (cases s) auto
    show ?thesis
    proof (cases "tl s = []")
      case True
      with s have "s @ ''0'' = (CHR ''.'' # ''0'') @ []" by (metis append_Cons append_Nil append_Nil2)
      with jdigits_0 show ?thesis unfolding jfrac_def jexp_def by blast
    next
      case False
      then have t: "isDigit (hd (tl s))"
        "number_exponent (dropWhile isDigit (tl s)) = (r, jsonPrefixIncomplete)"
        using c True by (auto simp: number_fraction_def Let_def split: if_splits)
      from digits_split [OF False t(1)] obtain ds where ds: "jdigits ds" "tl s = ds @ dropWhile isDigit (tl s)" .
      from exponent_sound(2) [OF t(2)] obtain x where "jexp (dropWhile isDigit (tl s) @ x)" by blast
      moreover have "s @ x = (CHR ''.'' # ds) @ dropWhile isDigit (tl s) @ x"
        using s ds(2) by (metis append_Cons append.assoc)
      ultimately show ?thesis using ds(1) unfolding jfrac_def by blast
    qed
  next
    case False
    with c have "number_exponent s = (r, jsonPrefixIncomplete)" by (auto simp: number_fraction_def)
    with exponent_sound(2) show ?thesis unfolding jfrac_def by (metis append_Nil)
  qed
qed

lemma integer_sound:
  assumes "number_integer s = (r, st)" and "st \<noteq> jsonPrefixInvalid"
  shows "\<exists>x i f e. jint i \<and> jfrac f \<and> jexp e \<and> (if st = jsonPrefixComplete then s = i @ f @ e @ r
    else s @ x = i @ f @ e)"
proof (cases "s = []")
  case True
  with assms have "jint ''0'' \<and> jfrac [] \<and> jexp [] \<and> (if st = jsonPrefixComplete
      then s = ''0'' @ [] @ [] @ r else s @ ''0'' = ''0'' @ [] @ [])"
    by (auto simp: number_integer_def jint_def jfrac_def jexp_def)
  then show ?thesis by blast
next
  case False
  have z: "hd s = CHR ''0'' \<or> isDigit (hd s)" using assms False by (auto simp: number_integer_def split: if_splits)
  obtain i t where i: "jint i" "s = i @ t" "number_fraction t = (r, st)"
  proof (cases "hd s = CHR ''0''")
    case True
    with False have "s = ''0'' @ tl s" by (cases s) auto
    with that [of "''0''" "tl s"] True assms(1) False show ?thesis by (simp add: jint_def number_integer_def)
  next
    case nz: False
    with z False digits_split [of s] obtain ds where "jdigits ds" "s = ds @ dropWhile isDigit s" "hd ds = hd s" by blast
    with that [of ds "dropWhile isDigit s"] nz z assms(1) False show ?thesis
      by (auto simp: jint_def number_integer_def)
  qed
  show ?thesis
  proof (cases "st = jsonPrefixComplete")
    case True
    with fraction_sound(1) [of t r] i show ?thesis by auto
  next
    case nc: False
    with assms(2) have "st = jsonPrefixIncomplete" by (cases st) auto
    with fraction_sound(2) [of t r] i nc show ?thesis by (metis append.assoc)
  qed
qed

lemma number_sound:
  assumes "parseNumber s = (r, st)" and "st \<noteq> jsonPrefixInvalid"
  shows "\<exists>x v. jnumber v \<and> (if st = jsonPrefixComplete then s = v @ r else s @ x = v)"
proof -
  define sg where "sg = (if s \<noteq> [] \<and> hd s = CHR ''-'' then ''-'' else [])"
  define t where "t = (if s \<noteq> [] \<and> hd s = CHR ''-'' then tl s else s)"
  have s: "s = sg @ t" "sg \<in> {[], ''-''}" by (cases s; auto simp: sg_def t_def)+
  have "number_integer t = (r, st)" using assms(1) by (simp add: parseNumber_def t_def)
  from integer_sound [OF this assms(2)] obtain x i f e where
    n: "jint i" "jfrac f" "jexp e" "if st = jsonPrefixComplete then t = i @ f @ e @ r else t @ x = i @ f @ e"
    by blast
  have "jnumber (sg @ i @ f @ e)" using n s(2) unfolding jnumber_def by blast
  with n(4) s(1) show ?thesis by (intro exI [of _ x] exI [of _ "sg @ i @ f @ e"]) auto
qed

lemma literal_sound:
  "parseLiteral s l = (r, st) \<Longrightarrow> st \<noteq> jsonPrefixInvalid \<Longrightarrow>
     \<exists>x. if st = jsonPrefixComplete then s = l @ r else s @ x = l"
  by (induction s l rule: parseLiteral.induct) (auto split: if_splits)

lemma nesting_mono:
  "jvalue n v \<Longrightarrow> jvalue (n + k) v" "jmembers n m \<Longrightarrow> jmembers (n + k) m"
  "jelements n e \<Longrightarrow> jelements (n + k) e"
proof (induction rule: jvalue_jmembers_jelements.inducts)
  case (jm_more k' w1 w2 n v w3 w4 m)
  then show ?case using jvalue_jmembers_jelements.jm_more by metis
next
  case (je_more n v w1 w2 m)
  then show ?case using jvalue_jmembers_jelements.je_more by metis
next
  case (jm_one k' w1 w2 n v w3)
  then show ?case using jvalue_jmembers_jelements.jm_one by metis
next
  case (jv_object w n m)
  then show ?case using jvalue_jmembers_jelements.jv_object by (metis add_Suc)
next
  case (jv_array w n m)
  then show ?case using jvalue_jmembers_jelements.jv_array by (metis add_Suc)
next
  case (jv_object0 w n)
  then show ?case using jvalue_jmembers_jelements.jv_object0 by (metis add_Suc)
next
  case (jv_array0 w n)
  then show ?case using jvalue_jmembers_jelements.jv_array0 by (metis add_Suc)
qed (simp_all add: jv_string jv_number jv_literal je_one)

text \<open>
  \<open>yields P f s\<close>: a completed scan of \<open>s\<close> has consumed a text of kind \<open>P\<close>, and an
  incomplete one can be extended to such a text.
\<close>

definition yields :: "(bytes \<Rightarrow> bool) \<Rightarrow> parsed \<Rightarrow> bytes \<Rightarrow> bool" where
  "yields P x s \<longleftrightarrow> (case x of (r, st) \<Rightarrow>
      (st = jsonPrefixComplete \<longrightarrow> (\<exists>v. P v \<and> s = v @ r))
    \<and> (st = jsonPrefixIncomplete \<longrightarrow> (\<exists>e. P (s @ e))))"

lemma yields_mono: "yields P x s \<Longrightarrow> (\<And>v. P v \<Longrightarrow> Q v) \<Longrightarrow> yields Q x s"
  by (fastforce simp: yields_def)

lemma yields_prepend:
  assumes "yields P x s" and "\<And>v. P v \<Longrightarrow> Q (u @ v)"
  shows "yields Q x (u @ s)"
  using assms by (fastforce simp: yields_def)

lemma key_sound:
  "object_key s = Inr t \<Longrightarrow> \<exists>k w. jstring k \<and> ws w \<and> s = k @ w @ CHR '':'' # t"
  "object_key s = Inl (r, jsonPrefixIncomplete) \<Longrightarrow> \<exists>k w e. jstring k \<and> ws w \<and> s @ e = k @ w @ '':''"
  "object_key s = Inl (r, st) \<Longrightarrow> st \<noteq> jsonPrefixComplete"
proof -
  obtain r0 st0 where p: "string_loop (tl s) = (r0, st0)" by fastforce
  obtain w where w: "ws w" "r0 = w @ skipWhitespace r0" using skip_split by blast
  have k: "\<exists>k. jstring k \<and> s = k @ r0" if c: "st0 = jsonPrefixComplete" "s \<noteq> []" "hd s = CHR 0x22"
  proof -
    obtain b where b: "jchars b" "tl s = b @ CHR 0x22 # r0" using string_sound(1) p c(1) by blast
    have "s = (CHR 0x22 # b @ [CHR 0x22]) @ r0" using b(2) c(2,3) by (cases s) auto
    with b(1) show ?thesis unfolding jstring_def by blast
  qed
  show "\<exists>k w. jstring k \<and> ws w \<and> s = k @ w @ CHR '':'' # t" if "object_key s = Inr t"
  proof -
    have *: "s \<noteq> []" "hd s = CHR 0x22" "st0 = jsonPrefixComplete" "skipWhitespace r0 = CHR '':'' # t"
      using that p by (auto simp: object_key_def parseString_def Let_def neq_Nil_conv split: if_splits)
    with k w show ?thesis by metis
  qed
  show "\<exists>k w e. jstring k \<and> ws w \<and> s @ e = k @ w @ '':''" if i: "object_key s = Inl (r, jsonPrefixIncomplete)"
  proof -
    have q: "s \<noteq> []" "hd s = CHR 0x22"
      using i by (auto simp: object_key_def split: if_splits)
    consider "st0 = jsonPrefixIncomplete" | "st0 = jsonPrefixComplete" "skipWhitespace r0 = []"
      using i p by (auto simp: object_key_def parseString_def Let_def split: if_splits)
    then show ?thesis
    proof cases
      case 1
      with string_sound(2) p obtain e where "jchars (tl s @ e)" by blast
      moreover have "s @ (e @ [CHR 0x22] @ '':'') = (CHR 0x22 # (tl s @ e) @ [CHR 0x22]) @ [] @ '':''"
        using q by (cases s) auto
      ultimately show ?thesis unfolding jstring_def using ws_nil by blast
    next
      case 2
      with k q w show ?thesis by (metis append.assoc append_Nil2)
    qed
  qed
  show "st \<noteq> jsonPrefixComplete" if "object_key s = Inl (r, st)"
    using that by (auto simp: object_key_def Let_def split: if_splits prod.splits)
qed

lemma next_sound:
  "next_item c s = Inr n \<Longrightarrow> \<exists>w w'. ws w \<and> ws w' \<and> s = w @ CHR '','' # w' @ n"
  "next_item c s = Inl (r, jsonPrefixComplete) \<Longrightarrow> \<exists>w. ws w \<and> s = w @ c # r"
  "next_item c s = Inl (r, jsonPrefixIncomplete) \<Longrightarrow>
     ws s \<or> (\<exists>w w'. ws w \<and> ws w' \<and> s = w @ CHR '','' # w')"
proof -
  obtain w where w: "ws w" "s = w @ skipWhitespace s" using skip_split by blast
  obtain w' where w': "ws w'" "tl (skipWhitespace s) = w' @ skipWhitespace (tl (skipWhitespace s))"
    using skip_split by blast
  show "\<exists>w w'. ws w \<and> ws w' \<and> s = w @ CHR '','' # w' @ n" if "next_item c s = Inr n"
  proof -
    have "skipWhitespace s = CHR '','' # w' @ n"
      using that w'(2) by (cases "skipWhitespace s") (auto simp: next_item_def Let_def split: if_splits)
    with w w'(1) show ?thesis by metis
  qed
  show "\<exists>w. ws w \<and> s = w @ c # r" if "next_item c s = Inl (r, jsonPrefixComplete)"
  proof -
    have "skipWhitespace s = c # r"
      using that by (cases "skipWhitespace s") (auto simp: next_item_def Let_def split: if_splits)
    with w show ?thesis by metis
  qed
  show "ws s \<or> (\<exists>w w'. ws w \<and> ws w' \<and> s = w @ CHR '','' # w')"
    if "next_item c s = Inl (r, jsonPrefixIncomplete)"
  proof (cases "skipWhitespace s = []")
    case True
    with w show ?thesis by simp
  next
    case False
    then have "skipWhitespace s = CHR '','' # w'"
      using that w'(2) by (cases "skipWhitespace s") (auto simp: next_item_def Let_def split: if_splits)
    with w w'(1) show ?thesis by metis
  qed
qed

lemma open_sound:
  "open_item c (b # s) = Inr n \<Longrightarrow> \<exists>w. ws w \<and> s = w @ n"
  "open_item c (b # s) = Inl (r, jsonPrefixComplete) \<Longrightarrow> \<exists>w. ws w \<and> s = w @ c # r"
  "open_item c (b # s) = Inl (r, jsonPrefixIncomplete) \<Longrightarrow> ws s"
proof -
  obtain w where w: "ws w" "s = w @ skipWhitespace s" using skip_split by blast
  show "open_item c (b # s) = Inr n \<Longrightarrow> \<exists>w. ws w \<and> s = w @ n"
    using w by (auto simp: open_item_def Let_def split: if_splits)
  show "open_item c (b # s) = Inl (r, jsonPrefixComplete) \<Longrightarrow> \<exists>w. ws w \<and> s = w @ c # r"
    using w by (cases "skipWhitespace s") (auto simp: open_item_def Let_def split: if_splits)
  show "open_item c (b # s) = Inl (r, jsonPrefixIncomplete) \<Longrightarrow> ws s"
    using w by (cases "skipWhitespace s") (auto simp: open_item_def Let_def split: if_splits)
qed

lemma scalar_sound:
  assumes "s \<noteq> []"
  shows "yields (jvalue 0) (parse_scalar s) s"
proof -
  obtain r st where p: "parse_scalar s = (r, st)" by fastforce
  have lit: "yields (jvalue 0) (parseLiteral s l) s" if "l \<in> {''true'', ''false'', ''null''}" for l
    using literal_sound [of s l] jv_literal [OF that] by (fastforce simp: yields_def)
  have num: "yields (jvalue 0) (parseNumber s) s"
    using number_sound [of s] jv_number by (fastforce simp: yields_def)
  have str: "yields (jvalue 0) (parseString s) s" if h: "hd s = CHR 0x22"
  proof -
    have s: "s = CHR 0x22 # tl s" using assms h by (cases s) auto
    have "\<exists>v. jvalue 0 v \<and> s = v @ r" if q: "string_loop (tl s) = (r, jsonPrefixComplete)" for r
    proof -
      from string_sound(1) [OF q] obtain b where b: "jchars b" "tl s = b @ CHR 0x22 # r" by blast
      then have "jvalue 0 (CHR 0x22 # b @ [CHR 0x22])" by (auto intro: jv_string simp: jstring_def)
      moreover have "s = (CHR 0x22 # b @ [CHR 0x22]) @ r" using s b(2) by simp
      ultimately show ?thesis by blast
    qed
    moreover have "\<exists>e. jvalue 0 (s @ e)" if q: "string_loop (tl s) = (r, jsonPrefixIncomplete)" for r
    proof -
      from string_sound(2) [OF q] obtain e where e: "jchars (tl s @ e)" by blast
      then have "jvalue 0 (CHR 0x22 # (tl s @ e) @ [CHR 0x22])" by (auto intro: jv_string simp: jstring_def)
      moreover have "s @ (e @ [CHR 0x22]) = CHR 0x22 # (tl s @ e) @ [CHR 0x22]" using s by (cases s) auto
      ultimately show ?thesis by metis
    qed
    ultimately show ?thesis by (auto simp: yields_def parseString_def split: prod.split)
  qed
  show ?thesis using lit num str by (auto simp: parse_scalar_def yields_def)
qed

definition value_text :: "bytes \<Rightarrow> bool" where
  "value_text s \<longleftrightarrow> (\<exists>n w v. ws w \<and> jvalue n v \<and> s = w @ v)"

definition members_text :: "bytes \<Rightarrow> bool" where
  "members_text s \<longleftrightarrow> (\<exists>n m. jmembers n m \<and> s = m @ ''}'')"

definition elements_text :: "bytes \<Rightarrow> bool" where
  "elements_text s \<longleftrightarrow> (\<exists>n w m. ws w \<and> jelements n m \<and> s = w @ m @ '']'')"

lemma null_text: "value_text ''null''"
  using jv_literal [of "''null''" 0] ws_nil unfolding value_text_def by (metis append_Nil insertCI)

text \<open>One iteration of the loops, for both kinds of bracket.\<close>

lemma yields_iteration:
  assumes x: "yields value_text x s"
    and step: "\<And>r n. x = (r, jsonPrefixComplete) \<Longrightarrow> next_item c r = Inr n \<Longrightarrow> yields Q (f n) n"
    and one: "\<And>v w. value_text v \<Longrightarrow> ws w \<Longrightarrow> Q' (v @ w @ [c])"
    and more: "\<And>v w w' q. value_text v \<Longrightarrow> ws w \<Longrightarrow> ws w' \<Longrightarrow> Q q \<Longrightarrow> Q' (v @ w @ CHR '','' # w' @ q)"
    and some: "Q q0"
  shows "yields Q' (case x of (r, st) \<Rightarrow> if st \<noteq> jsonPrefixComplete then (r, st)
      else (case next_item c r of Inl p \<Rightarrow> p | Inr n \<Rightarrow> f n)) s"
proof -
  obtain r st where xr: "x = (r, st)" by fastforce
  show ?thesis
  proof (cases "st = jsonPrefixComplete")
    case False
    have "\<exists>e. Q' (s @ e)" if "st = jsonPrefixIncomplete"
    proof -
      from x xr that obtain e where "value_text (s @ e)" by (auto simp: yields_def)
      from one [OF this ws_nil] show ?thesis by auto
    qed
    with False xr show ?thesis by (simp add: yields_def)
  next
    case True
    with x xr obtain v where v: "value_text v" "s = v @ r" by (auto simp: yields_def)
    show ?thesis
    proof (cases "next_item c r")
      case (Inr n)
      from next_sound(1) [OF Inr] obtain w w' where w: "ws w" "ws w'" "r = w @ CHR '','' # w' @ n" by blast
      have "yields Q' (f n) ((v @ w @ CHR '','' # w') @ n)"
        using yields_prepend [OF step, of r n Q' "v @ w @ CHR '','' # w'"] xr True Inr more [OF v(1) w(1,2)]
        by simp
      with v w True Inr xr show ?thesis by simp
    next
      case (Inl p)
      obtain r' st' where p: "p = (r', st')" by fastforce
      have "\<exists>v. Q' v \<and> s = v @ r'" if st: "st' = jsonPrefixComplete"
      proof -
        obtain w where w: "ws w" "r = w @ c # r'" using next_sound(2) [of c r r'] Inl p st by blast
        with one [OF v(1) w(1)] v show ?thesis by (intro exI [of _ "v @ w @ [c]"]) simp
      qed
      moreover have "\<exists>e. Q' (s @ e)" if st: "st' = jsonPrefixIncomplete"
      proof -
        from next_sound(3) [of c r r'] Inl p st
        consider "ws r" | w w' where "ws w" "ws w'" "r = w @ CHR '','' # w'" by blast
        then show ?thesis
        proof cases
          case 1
          with one [OF v(1) 1] v show ?thesis by (intro exI [of _ "[c]"]) simp
        next
          case 2
          with more [OF v(1) 2(1,2) some] v show ?thesis by (intro exI [of _ q0]) simp
        qed
      qed
      ultimately show ?thesis using True Inl xr p by (simp add: yields_def)
    qed
  qed
qed

lemma members_one:
  assumes "jstring k" and "ws w1" and "value_text v" and "ws w"
  shows "members_text (k @ w1 @ CHR '':'' # v @ w @ ''}'')"
proof -
  obtain n w2 u where "ws w2" "jvalue n u" "v = w2 @ u" using assms(3) by (auto simp: value_text_def)
  with jm_one [OF assms(1,2) _ _ assms(4), of w2 n u] show ?thesis
    unfolding members_text_def by (intro exI conjI) (assumption | simp)+
qed

lemma members_more:
  assumes "jstring k" and "ws w1" and "value_text v" and "ws w" and "ws w'" and "members_text q"
  shows "members_text (k @ w1 @ CHR '':'' # v @ w @ CHR '','' # w' @ q)"
proof -
  obtain n w2 u where v: "ws w2" "jvalue n u" "v = w2 @ u" using assms(3) by (auto simp: value_text_def)
  obtain n' m where q: "jmembers n' m" "q = m @ ''}''" using assms(6) by (auto simp: members_text_def)
  have "jvalue (n + n') u" "jmembers (n + n') m"
    using nesting_mono(1) [OF v(2), of n'] nesting_mono(2) [OF q(1), of n] by (simp_all add: add.commute)
  from jm_more [OF assms(1,2) v(1) this(1) assms(4,5) this(2)] v q show ?thesis
    unfolding members_text_def by (intro exI conjI) (assumption | simp)+
qed

lemma elements_one: "value_text v \<Longrightarrow> ws w \<Longrightarrow> elements_text (v @ w @ '']'')"
  unfolding value_text_def elements_text_def by (metis append.assoc je_one)

lemma elements_more:
  assumes "value_text v" and "ws w" and "ws w'" and "elements_text q"
  shows "elements_text (v @ w @ CHR '','' # w' @ q)"
proof -
  obtain n w2 u where v: "ws w2" "jvalue n u" "v = w2 @ u" using assms(1) by (auto simp: value_text_def)
  obtain n' w3 m where q: "ws w3" "jelements n' m" "q = w3 @ m @ '']''" using assms(4) by (auto simp: elements_text_def)
  have m: "jvalue (n + n') u" "jelements (n + n') m"
    using nesting_mono(1) [OF v(2), of n'] nesting_mono(3) [OF q(2), of n] by (simp_all add: add.commute)
  have "ws (w' @ w3)" using assms(3) q(1) by (simp add: ws_def)
  from je_more [OF m(1) assms(2) this m(2)] v q show ?thesis
    unfolding elements_text_def by (intro exI [of _ "n + n'"] exI [of _ w2] exI conjI) (assumption | simp)+
qed

lemma empty_key: "jstring (CHR 0x22 # [CHR 0x22])"
  using jc_nil by (auto simp: jstring_def)

lemma open_yields:
  assumes "\<And>n. open_item c (b # s) = Inr n \<Longrightarrow> yields Q (f n) n"
    and zero: "\<And>w. ws w \<Longrightarrow> P (b # w @ [c])" and go: "\<And>w q. ws w \<Longrightarrow> Q q \<Longrightarrow> P (b # w @ q)"
  shows "yields P (case open_item c (b # s) of Inl p \<Rightarrow> p | Inr n \<Rightarrow> f n) (b # s)"
proof (cases "open_item c (b # s)")
  case (Inl p)
  obtain r st where p: "p = (r, st)" by fastforce
  have "\<exists>v. P v \<and> b # s = v @ r" if st: "st = jsonPrefixComplete"
  proof -
    obtain w where "ws w" "s = w @ c # r" using open_sound(2) [of c b s r] Inl p st by blast
    with zero show ?thesis by (intro exI [of _ "b # w @ [c]"]) simp
  qed
  moreover have "\<exists>e. P (b # s @ e)" if "st = jsonPrefixIncomplete"
    using zero [of s] open_sound(3) [of c b s r] Inl p that by auto
  ultimately show ?thesis using Inl p by (simp add: yields_def)
next
  case (Inr n)
  obtain w where w: "ws w" "s = w @ n" using open_sound(1) [OF Inr] by blast
  with yields_prepend [OF assms(1) [OF Inr], of P "b # w"] go Inr show ?thesis by simp
qed

lemma parse_sound:
  "yields value_text (parseValue s d) s"
  "s \<noteq> [] \<Longrightarrow> hd s = CHR ''{'' \<Longrightarrow> yields (\<lambda>v. \<exists>n. jvalue n v) (parseObject s d) s"
  "yields members_text (object_loop s d) s"
  "s \<noteq> [] \<Longrightarrow> hd s = CHR ''['' \<Longrightarrow> yields (\<lambda>v. \<exists>n. jvalue n v) (parseArray s d) s"
  "yields elements_text (array_loop s d) s"
proof (induction s d and s d and s d and s d and s d
    rule: parseValue_parseObject_object_loop_parseArray_array_loop.induct)
  case (1 s0 depth)
  obtain w where w: "ws w" "s0 = w @ skipWhitespace s0" using skip_split by blast
  show ?case
  proof (cases "depth > maxJSONPrefixDepth \<or> skipWhitespace s0 = []")
    case True
    have "value_text (w @ ''null'')"
      using w(1) jv_literal [of "''null''" 0] unfolding value_text_def by blast
    then have "\<exists>e. value_text (s0 @ e)" if "skipWhitespace s0 = []" using w that by auto
    with True show ?thesis by (auto simp: yields_def parseValue.simps [of s0 depth])
  next
    case False
    then obtain c cs where c: "skipWhitespace s0 = c # cs" by (cases "skipWhitespace s0") auto
    have d: "\<not> maxJSONPrefixDepth < depth" using False by simp
    have "yields (\<lambda>v. \<exists>n. jvalue n v) (parseValue s0 depth) (skipWhitespace s0)"
      using 1(1) [OF d refl] 1(2) [OF d refl] yields_mono [OF scalar_sound [of "c # cs"], of "\<lambda>v. \<exists>n. jvalue n v"] c
      by (auto simp: parseValue_at [OF d c])
    from yields_prepend [OF this, of value_text w] w show ?thesis
      unfolding value_text_def by metis
  qed
next
  case (2 s depth)
  then obtain s' where s: "s = CHR ''{'' # s'" by (cases s) auto
  have "yields (\<lambda>v. \<exists>n. jvalue n v) (case open_item (CHR ''}'') (CHR ''{'' # s') of
      Inl p \<Rightarrow> p | Inr n \<Rightarrow> object_loop n depth) (CHR ''{'' # s')"
  proof (rule open_yields [where Q = members_text])
    show "yields members_text (object_loop n depth) n" if "open_item CHR ''}'' (CHR ''{'' # s') = Inr n" for n
      using 2(1) that s by simp
  qed (auto simp: members_text_def intro: jv_object0 jv_object)
  then show ?case using s by (simp add: parseObject.simps [of _ depth])
next
  case (3 s depth)
  show ?case
  proof (cases "object_key s")
    case (Inl p)
    obtain r st where p: "p = (r, st)" by fastforce
    have "\<exists>e. members_text (s @ e)" if st: "st = jsonPrefixIncomplete"
    proof -
      obtain k w e where k: "jstring k" "ws w" "s @ e = k @ w @ '':''" using key_sound(2) Inl p st by blast
      with members_one [OF k(1,2) null_text ws_nil] show ?thesis
        by (intro exI [of _ "e @ ''null'' @ [] @ ''}''"]) (metis append.assoc append_Cons append_Nil)
    qed
    with Inl p key_sound(3) [of s r st] show ?thesis
      by (auto simp: yields_def object_loop.simps [of s depth])
  next
    case (Inr v)
    obtain k w where k: "jstring k" "ws w" "s = k @ w @ CHR '':'' # v" using key_sound(1) [OF Inr] by blast
    have "yields (\<lambda>x. members_text (k @ w @ CHR '':'' # x)) (object_loop s depth) v"
      unfolding object_loop.simps [of s depth] Inr sum.case
    proof (rule yields_iteration [where Q = members_text])
      show "yields value_text (parseValue v depth) v" using 3(1) [OF Inr] .
      show "yields members_text (object_loop n depth) n"
        if "parseValue v depth = (r, jsonPrefixComplete)" "next_item CHR ''}'' r = Inr n" for r n
        by (rule 3(2) [OF Inr _ _ that(2), of jsonPrefixComplete]) (use that in simp_all)
      show "members_text ((CHR 0x22 # [CHR 0x22]) @ [] @ CHR '':'' # ''null'' @ [] @ ''}'')"
        by (rule members_one [OF empty_key ws_nil null_text ws_nil])
    qed (use members_one members_more k in simp_all)
    from yields_prepend [OF this, of members_text "k @ w @ '':''"] k(3) show ?thesis by simp
  qed
next
  case (4 s depth)
  then obtain s' where s: "s = CHR ''['' # s'" by (cases s) auto
  have "yields (\<lambda>v. \<exists>n. jvalue n v) (case open_item (CHR '']'') (CHR ''['' # s') of
      Inl p \<Rightarrow> p | Inr n \<Rightarrow> array_loop n depth) (CHR ''['' # s')"
  proof (rule open_yields [where Q = elements_text])
    show "yields elements_text (array_loop n depth) n" if "open_item CHR '']'' (CHR ''['' # s') = Inr n" for n
      using 4(1) that s by simp
    show "\<exists>n. jvalue n (CHR ''['' # w @ q)" if t: "ws w" "elements_text q" for w q
    proof -
      obtain n w' m where q: "ws w'" "jelements n m" "q = w' @ m @ '']''" using t(2) by (auto simp: elements_text_def)
      have "ws (w @ w')" using t(1) q(1) by (simp add: ws_def)
      from jv_array [OF this q(2)] q(3) show ?thesis by auto
    qed
  qed (auto intro: jv_array0)
  then show ?case using s by (simp add: parseArray.simps [of _ depth])
next
  case (5 s depth)
  show ?case
    unfolding array_loop.simps [of s depth]
  proof (rule yields_iteration [where Q = elements_text])
    show "yields elements_text (array_loop n depth) n"
      if "parseValue s depth = (r, jsonPrefixComplete)" "next_item CHR '']'' r = Inr n" for r n
      by (rule 5(2) [OF _ _ that(2), of jsonPrefixComplete]) (use that in simp_all)
    show "elements_text (''null'' @ [] @ '']'')" by (rule elements_one [OF null_text ws_nil])
  qed (use elements_one elements_more 5(1) in auto)
qed

section \<open>Properties\<close>

lemma accepts_prefix:
  assumes "json_text n (p @ rest)" and "n \<le> maxJSONPrefixDepth"
  shows "IsValidJSONPrefix p"
proof (rule IsValid_prefix)
  obtain w v w' where t: "ws w" "jvalue n v" "ws w'" "p @ rest = w @ v @ w'"
    using assms(1) by (auto simp: json_text_def)
  have "parseValue (p @ rest) 0 = (w', jsonPrefixComplete)"
    using parse_complete(1) [OF t(2,1), of 0 w'] assms(2) number_end_close(4) [OF t(3)] t(4) by simp
  moreover have "skipWhitespace w' = []" using skip_ws [OF t(3), of "[]"] by simp
  ultimately show "IsValidJSONPrefix (p @ rest)" by (simp add: IsValid_iff)
qed

lemma prefix_extends:
  assumes "IsValidJSONPrefix p"
  shows "\<exists>rest n. json_text n (p @ rest)"
proof -
  obtain r st where x: "parseValue p 0 = (r, st)" by fastforce
  note y = parse_sound(1) [of p 0]
  have ext: "\<exists>rest n. json_text n (p @ rest)" if t: "value_text v" "p @ e = v @ w" "ws w" for v e w
  proof -
    obtain n u w0 where "ws w0" "jvalue n u" "v = w0 @ u" using t(1) by (auto simp: value_text_def)
    with t(2,3) show ?thesis unfolding json_text_def by (metis append.assoc)
  qed
  consider "st = jsonPrefixIncomplete" | "st = jsonPrefixComplete" "skipWhitespace r = []"
    using assms x by (auto simp: IsValid_iff)
  then show ?thesis
  proof cases
    case 1
    with y x obtain e where "value_text (p @ e)" by (auto simp: yields_def)
    with ext [of "p @ e" e "[]"] show ?thesis by simp
  next
    case 2
    with y x obtain v where "value_text v" "p = v @ r" by (auto simp: yields_def)
    moreover have "ws r" using 2(2) skip_split [of r] by (metis append_Nil2)
    ultimately show ?thesis using ext [of v "[]" r] by simp
  qed
qed

lemma open_bracket_valid: "IsValidJSONPrefix ''[''"
  by (simp add: IsValid_iff parseValue.simps [of "''[''"] parseArray.simps [of "''[''"]
      open_item_def skip_stop maxJSONPrefixDepth_def)

text \<open>
  C17: Every prefix of a JSON text nested at most \<open>maxJSONPrefixDepth\<close> deep is accepted: a
  stream that is on its way to a JSON value is never refused migration.
\<close>

theorem json_prefix_complete:
  assumes "json_text n (p @ rest)" and "n \<le> maxJSONPrefixDepth"
  shows "IsValidJSONPrefix p"
  using assms by (rule accepts_prefix)

theorem json_prefix_complete_witness: "IsValidJSONPrefix ''[1''"
proof -
  have "jint ''1''" "jfrac []" "jexp []" "''1'' = [] @ ''1'' @ [] @ []"
    by (simp_all add: jint_def jdigits_def isDigit_def jfrac_def jexp_def)
  then have "jnumber ''1''" unfolding jnumber_def by blast
  from jv_array [OF ws_nil je_one [OF jv_number [OF this] ws_nil], of 0]
  have "jvalue 1 ''[1]''" by simp
  then have "json_text 1 (''[1'' @ '']'')" unfolding json_text_def using ws_nil by fastforce
  from json_prefix_complete [OF this] show ?thesis by (simp add: maxJSONPrefixDepth_def)
qed

text \<open>
  C18: Everything the validator accepts can be completed to a JSON text by appending bytes.
\<close>

theorem json_prefix_sound:
  assumes "IsValidJSONPrefix p"
  shows "\<exists>rest n. json_text n (p @ rest)"
  using assms by (rule prefix_extends)

theorem json_prefix_sound_witness: "\<exists>rest n. json_text n (''['' @ rest)"
  by (rule json_prefix_sound [OF open_bracket_valid])

text \<open>
  A refusal is final and its reported byte offset lies within the data: whatever bytes
  arrive later, the longer text is refused at the same offset.
\<close>

theorem json_prefix_refusal_final:
  assumes "ValidateJSONPrefix p = Some i"
  shows "i \<le> length p \<and> ValidateJSONPrefix (p @ rest) = Some i"
proof -
  have ne: "skipWhitespace p \<noteq> []" using assms by (auto simp: ValidateJSONPrefix_def)
  obtain r st where x: "parseValue p 0 = (r, st)" by fastforce
  have s: "parseValue (skipWhitespace (p @ rest)) 0 = parseValue (p @ rest) 0" by (rule parseValue_skip)
  have y: "st = jsonPrefixInvalid \<or> st = jsonPrefixComplete \<and> skipWhitespace r \<noteq> []" "i = length p - length r"
    using assms ne x by (auto simp: ValidateJSONPrefix_def parseValue_skip split: jsonPrefixStatus.splits if_splits)
  then have "parseValue (p @ rest) 0 = (r @ rest, st)"
    using parse_stable(1) [of 0 p rest] x by (auto simp: stable_at_def)
  with y ne s show ?thesis
    by (auto simp: ValidateJSONPrefix_def skip_append)
qed

theorem json_prefix_refusal_final_witness:
  "ValidateJSONPrefix ''}'' = Some 0 \<and> ValidateJSONPrefix (''}'' @ ''1'') = Some 0"
proof -
  have "ValidateJSONPrefix ''}'' = Some 0"
    by (simp add: ValidateJSONPrefix_def skip_stop parseValue.simps [of "''}''"] maxJSONPrefixDepth_def
        parse_scalar_def isDigit_def)
  with json_prefix_refusal_final [OF this, of "''1''"] show ?thesis by blast
qed

end
