(* ===== verification/Migration_Policy.thy ===== *)
theory Migration_Policy
  imports Json_Grammar "HOL-Library.Sublist" "HOL-Library.List_Lexorder" "HOL-Library.Char_ord"
begin

text \<open>
  The decision whether a broken stream may be continued on another backend: conformance
  verdicts (\<open>internal/conformance/verdict.go\<close>), the migration policy and its eligibility predicates
  (\<open>internal/migrate/policy.go\<close>, \<open>eligibility.go\<close>), the request-shape gates
  (\<open>internal/migrate/correctness.go\<close>), and the policy resource of the Kubernetes API with its
  defaults, validation and probe cache (\<open>internal/apis/v1alpha1\<close>).
  Go's string-based enumerations stay strings, since the code meets undefined values.
\<close>

section \<open>Verdicts and template modes\<close>

type_synonym Verdict = string
type_synonym TemplateMode = string

definition VerdictUnknown :: Verdict where "VerdictUnknown = ''UNKNOWN''"
definition VerdictSafe :: Verdict where "VerdictSafe = ''SAFE''"
definition VerdictDegraded :: Verdict where "VerdictDegraded = ''DEGRADED''"
definition VerdictUnsafe :: Verdict where "VerdictUnsafe = ''UNSAFE''"

definition verdict_Valid :: "Verdict \<Rightarrow> bool" where
  "verdict_Valid v \<longleftrightarrow> v = VerdictUnknown \<or> v = VerdictSafe \<or> v = VerdictDegraded \<or> v = VerdictUnsafe"

definition TemplateStrict :: TemplateMode where "TemplateStrict = ''strict''"
definition TemplatePermissive :: TemplateMode where "TemplatePermissive = ''permissive''"

definition mode_Validate :: "TemplateMode \<Rightarrow> bool" where
  "mode_Validate m \<longleftrightarrow> m = TemplateStrict \<or> m = TemplatePermissive"

lemmas verdict_defs = VerdictUnknown_def VerdictSafe_def VerdictDegraded_def VerdictUnsafe_def
  TemplateStrict_def TemplatePermissive_def

section \<open>Policy\<close>

record Policy =
  MaxMigrations :: uint64
  MaxMigrationTokens :: uint64
  MaxStreamDuration :: duration
  AllowStructuredResume :: bool
  AllowCrossVersion :: bool
  SeamWindowBytes :: int
  PolicyTemplateMode :: TemplateMode

definition minute :: duration where "minute = 60 * 1000000000"

definition DefaultPolicy :: Policy where
  "DefaultPolicy = \<lparr>MaxMigrations = 3, MaxMigrationTokens = 8192, MaxStreamDuration = 15 * minute,
     AllowStructuredResume = False, AllowCrossVersion = False, SeamWindowBytes = 64,
     PolicyTemplateMode = TemplateStrict\<rparr>"

text \<open>The problems \<open>Policy.Validate\<close> joins into one error; none when the policy is valid.\<close>

datatype policy_problem = BadStreamDuration | BadSeamWindow | BadTemplateMode

definition policy_Validate :: "Policy \<Rightarrow> policy_problem list" where
  "policy_Validate p =
     (if MaxStreamDuration p \<le> 0 then [BadStreamDuration] else [])
     @ (if SeamWindowBytes p \<le> 0 then [BadSeamWindow] else [])
     @ (if \<not> mode_Validate (PolicyTemplateMode p) then [BadTemplateMode] else [])"

section \<open>Eligibility\<close>

datatype Predicate = PredicateMaxMigrations | PredicateMaxMigrationTokens
  | PredicateMaxStreamDuration | PredicateTemplateVerdict | PredicateStructuredResume
  | PredicateModelVersion | PredicateBackendAvailable

datatype WarningCode = WarningTemplateDegraded | WarningTemplateUnsafePermissive

record EligibilitySnapshot =
  MigrationsUsed :: uint64
  AccumulatedTokens :: uint64
  Elapsed :: duration
  SnapshotVerdict :: Verdict
  StructuredResponse :: bool
  OriginModelVersion :: string
  TargetModelVersion :: string
  TargetBackendAvailable :: bool

record EligibilityResult =
  er_Failures :: "Predicate list"
  er_Warnings :: "WarningCode list"

definition er_Eligible :: "EligibilityResult \<Rightarrow> bool" where
  "er_Eligible r \<longleftrightarrow> length (er_Failures r) = 0"

datatype eligibility_error = ErrInvalidPolicy "policy_problem list" | ErrInvalidSnapshot

definition evaluateTemplate :: "TemplateMode \<Rightarrow> Verdict \<Rightarrow> bool \<times> WarningCode option" where
  "evaluateTemplate mode verdict =
     (if verdict = VerdictSafe then (True, None)
      else if verdict = VerdictDegraded then (True, Some WarningTemplateDegraded)
      else if verdict = VerdictUnsafe then
        (if mode = TemplatePermissive then (True, Some WarningTemplateUnsafePermissive)
         else (False, None))
      else (False, None))"

text \<open>The predicates of \<open>EvaluateEligibility\<close>, evaluated one after the other.\<close>

definition eligibility_failures :: "Policy \<Rightarrow> EligibilitySnapshot \<Rightarrow> Predicate list" where
  "eligibility_failures p s =
     (let templateAllowed = fst (evaluateTemplate (PolicyTemplateMode p) (SnapshotVerdict s));
          versionsMatch = (OriginModelVersion s \<noteq> [] \<and> TargetModelVersion s \<noteq> []
            \<and> OriginModelVersion s = TargetModelVersion s)
      in (if MigrationsUsed s \<ge> MaxMigrations p then [PredicateMaxMigrations] else [])
         @ (if AccumulatedTokens s \<ge> MaxMigrationTokens p then [PredicateMaxMigrationTokens] else [])
         @ (if Elapsed s \<ge> MaxStreamDuration p then [PredicateMaxStreamDuration] else [])
         @ (if \<not> templateAllowed then [PredicateTemplateVerdict] else [])
         @ (if StructuredResponse s \<and> \<not> AllowStructuredResume p then [PredicateStructuredResume] else [])
         @ (if \<not> versionsMatch \<and> \<not> AllowCrossVersion p then [PredicateModelVersion] else [])
         @ (if \<not> TargetBackendAvailable s then [PredicateBackendAvailable] else []))"

definition EvaluateEligibility ::
    "Policy \<Rightarrow> EligibilitySnapshot \<Rightarrow> eligibility_error + EligibilityResult" where
  "EvaluateEligibility p s =
     (if policy_Validate p \<noteq> [] then Inl (ErrInvalidPolicy (policy_Validate p))
      else if Elapsed s < 0 then Inl ErrInvalidSnapshot
      else if \<not> verdict_Valid (SnapshotVerdict s) then Inl ErrInvalidSnapshot
      else Inr \<lparr>er_Failures = eligibility_failures p s,
                er_Warnings = (case snd (evaluateTemplate (PolicyTemplateMode p) (SnapshotVerdict s)) of
                  None \<Rightarrow> [] | Some w \<Rightarrow> [w])\<rparr>)"

section \<open>Request-shape gates\<close>

datatype CorrectnessFailure = FailureToolCallBoundary | FailureStructuredPrefixInvalid
  | FailureUnsupportedContinuationShape | FailureTokenBudgetExhausted

record CorrectnessSnapshot =
  ToolCallInProgress :: bool
  cs_StructuredResponse :: bool
  AccumulatedText :: bytes
  MultipleChoices :: bool

definition EvaluateCorrectness :: "CorrectnessSnapshot \<Rightarrow> CorrectnessFailure list" where
  "EvaluateCorrectness s =
     (if ToolCallInProgress s then [FailureToolCallBoundary] else [])
     @ (if cs_StructuredResponse s \<and> ValidateJSONPrefix (AccumulatedText s) \<noteq> None
        then [FailureStructuredPrefixInvalid] else [])
     @ (if MultipleChoices s then [FailureUnsupportedContinuationShape] else [])"

section \<open>The DurabilityPolicy resource\<close>

text \<open>A Go pointer field is an option; \<open>int32\<close>, \<open>int64\<close> and durations are integers.\<close>

record DurabilityPolicySpec =
  ds_MaxMigrations :: "int option"
  ds_MaxMigrationTokens :: "int option"
  ds_MaxStreamDuration :: "duration option"
  ds_OrphanPolicy :: string
  ds_OrphanTimeout :: "duration option"
  ds_AllowCrossVersion :: bool
  ds_AllowStructuredResume :: bool
  ds_SeamWindowBytes :: "int option"
  ds_JournalTTL :: "duration option"

definition orphan_Valid :: "string \<Rightarrow> bool" where
  "orphan_Valid p \<longleftrightarrow> p = ''continue'' \<or> p = ''cancel_after'' \<or> p = ''cancel''"

definition orElse :: "'a option \<Rightarrow> 'a \<Rightarrow> 'a option" where
  "orElse x d = (case x of None \<Rightarrow> Some d | Some y \<Rightarrow> Some y)"

definition spec_ApplyDefaults :: "DurabilityPolicySpec \<Rightarrow> DurabilityPolicySpec" where
  "spec_ApplyDefaults spec = spec\<lparr>
     ds_MaxMigrations := orElse (ds_MaxMigrations spec) 3,
     ds_MaxMigrationTokens := orElse (ds_MaxMigrationTokens spec) 8192,
     ds_MaxStreamDuration := orElse (ds_MaxStreamDuration spec) (15 * minute),
     ds_OrphanPolicy := (if ds_OrphanPolicy spec = [] then ''continue'' else ds_OrphanPolicy spec),
     ds_OrphanTimeout := orElse (ds_OrphanTimeout spec) minute,
     ds_SeamWindowBytes := orElse (ds_SeamWindowBytes spec) 64,
     ds_JournalTTL := orElse (ds_JournalTTL spec) (10 * minute)\<rparr>"

definition DefaultDurabilityPolicySpec :: DurabilityPolicySpec where
  "DefaultDurabilityPolicySpec = spec_ApplyDefaults
     \<lparr>ds_MaxMigrations = None, ds_MaxMigrationTokens = None, ds_MaxStreamDuration = None,
      ds_OrphanPolicy = [], ds_OrphanTimeout = None, ds_AllowCrossVersion = False,
      ds_AllowStructuredResume = False, ds_SeamWindowBytes = None, ds_JournalTTL = None\<rparr>"

text \<open>\<open>WithDefaults\<close> on a nil receiver gives the defaults.\<close>

definition spec_WithDefaults :: "DurabilityPolicySpec option \<Rightarrow> DurabilityPolicySpec" where
  "spec_WithDefaults spec =
     (case spec of None \<Rightarrow> DefaultDurabilityPolicySpec | Some s \<Rightarrow> spec_ApplyDefaults s)"

datatype field_error = Required string | Invalid string | NotSupported string

definition policy_ValidationErrors :: "DurabilityPolicySpec option \<Rightarrow> field_error list" where
  "policy_ValidationErrors policy =
     (case policy of None \<Rightarrow> [Required ''object'']
      | Some raw \<Rightarrow>
          (let spec = spec_WithDefaults (Some raw) in
           (if the (ds_MaxMigrations spec) < 0 then [Invalid ''maxMigrations''] else [])
           @ (if the (ds_MaxMigrationTokens spec) < 0 then [Invalid ''maxMigrationTokens''] else [])
           @ (if the (ds_MaxStreamDuration spec) \<le> 0 then [Invalid ''maxStreamDuration''] else [])
           @ (if \<not> orphan_Valid (ds_OrphanPolicy spec) then [NotSupported ''orphanPolicy''] else [])
           @ (if the (ds_OrphanTimeout spec) \<le> 0 then [Invalid ''orphanTimeout''] else [])
           @ (if the (ds_SeamWindowBytes spec) \<le> 0 then [Invalid ''seamWindowBytes''] else [])
           @ (if the (ds_JournalTTL spec) \<le> 0 then [Invalid ''journalTTL''] else [])))"

section \<open>The probe cache of a route\<close>

record BackendStatus =
  bs_ID :: string
  bs_Address :: string
  bs_Ready :: bool
  bs_Draining :: bool
  bs_TemplateVerdict :: Verdict
  bs_Message :: string
  bs_LastProbedAt :: "time option"
  bs_ImageDigest :: string
  bs_TokenizerHash :: string

record InferenceRoute =
  ir_Model :: string
  ir_Generation :: int
  ir_ObservedGeneration :: int
  ir_Backends :: "BackendStatus list"

definition probe_matches :: "string \<Rightarrow> string \<Rightarrow> BackendStatus \<Rightarrow> bool" where
  "probe_matches imageDigest tokenizerHash b \<longleftrightarrow>
     \<not> (bs_ImageDigest b \<noteq> imageDigest \<or> bs_TokenizerHash b \<noteq> tokenizerHash
        \<or> bs_LastProbedAt b = None \<or> bs_LastProbedAt b = Some 0
        \<or> bs_TemplateVerdict b = VerdictUnknown \<or> \<not> verdict_Valid (bs_TemplateVerdict b))"

abbreviation probed_at :: "BackendStatus \<Rightarrow> time" where
  "probed_at b \<equiv> the (bs_LastProbedAt b)"

definition probe_newer :: "BackendStatus \<Rightarrow> BackendStatus \<Rightarrow> bool" where
  "probe_newer b newest \<longleftrightarrow> probed_at b > probed_at newest
     \<or> (probed_at b = probed_at newest \<and> bs_ID b < bs_ID newest)"

text \<open>The loop over the persisted backends.\<close>

fun newest_probe :: "string \<Rightarrow> string \<Rightarrow> BackendStatus list \<Rightarrow> BackendStatus option \<Rightarrow> BackendStatus option" where
  "newest_probe digest hash [] newest = newest"
| "newest_probe digest hash (b # bs) newest =
     (if \<not> probe_matches digest hash b then newest_probe digest hash bs newest
      else if newest = None \<or> probe_newer b (the newest) then newest_probe digest hash bs (Some b)
      else newest_probe digest hash bs newest)"

definition FindCachedBackendProbe ::
    "InferenceRoute option \<Rightarrow> string \<Rightarrow> string \<Rightarrow> string \<Rightarrow> BackendStatus option" where
  "FindCachedBackendProbe route model imageDigest tokenizerHash =
     (case route of None \<Rightarrow> None
      | Some r \<Rightarrow>
          if model = [] \<or> imageDigest = [] \<or> tokenizerHash = [] \<or> model \<noteq> ir_Model r
             \<or> ir_ObservedGeneration r \<noteq> ir_Generation r then None
          else (case newest_probe imageDigest tokenizerHash (ir_Backends r) None of
              None \<Rightarrow> None
            | Some b \<Rightarrow> Some (b\<lparr>bs_ID := [], bs_Address := [], bs_Ready := False, bs_Draining := False\<rparr>)))"

section \<open>Properties\<close>

definition protocol_order :: "Predicate list" where
  "protocol_order = [PredicateMaxMigrations, PredicateMaxMigrationTokens, PredicateMaxStreamDuration,
     PredicateTemplateVerdict, PredicateStructuredResume, PredicateModelVersion,
     PredicateBackendAvailable]"

lemma subseq_guard: "subseq xs ys \<Longrightarrow> subseq ((if b then [x] else []) @ xs) (x # ys)"
  by (cases b) auto

lemma subseq_guard_last: "subseq (if b then [x] else []) [x]"
  by simp

text \<open>The predicates of an eligible stream.\<close>

lemma eligible_iff:
  assumes "EvaluateEligibility p s = Inr r"
  shows "er_Failures r = eligibility_failures p s"
    and "er_Eligible r \<longleftrightarrow>
      MigrationsUsed s < MaxMigrations p \<and> AccumulatedTokens s < MaxMigrationTokens p
      \<and> Elapsed s < MaxStreamDuration p
      \<and> (SnapshotVerdict s = VerdictSafe \<or> SnapshotVerdict s = VerdictDegraded
          \<or> SnapshotVerdict s = VerdictUnsafe \<and> PolicyTemplateMode p = TemplatePermissive)
      \<and> (StructuredResponse s \<longrightarrow> AllowStructuredResume p)
      \<and> (AllowCrossVersion p \<or> OriginModelVersion s = TargetModelVersion s \<and> OriginModelVersion s \<noteq> [])
      \<and> TargetBackendAvailable s"
proof -
  define allowed where "allowed = fst (evaluateTemplate (PolicyTemplateMode p) (SnapshotVerdict s))"
  have al: "allowed \<longleftrightarrow> (SnapshotVerdict s = VerdictSafe \<or> SnapshotVerdict s = VerdictDegraded
      \<or> SnapshotVerdict s = VerdictUnsafe \<and> PolicyTemplateMode p = TemplatePermissive)"
    by (auto simp: allowed_def evaluateTemplate_def verdict_defs)
  define ok where "ok \<longleftrightarrow> (OriginModelVersion s \<noteq> [] \<and> TargetModelVersion s \<noteq> []
    \<and> OriginModelVersion s = TargetModelVersion s)"
  show f: "er_Failures r = eligibility_failures p s"
    using assms by (auto simp: EvaluateEligibility_def split: if_splits)
  have "er_Eligible r \<longleftrightarrow> MigrationsUsed s < MaxMigrations p
      \<and> AccumulatedTokens s < MaxMigrationTokens p \<and> Elapsed s < MaxStreamDuration p \<and> allowed
      \<and> (StructuredResponse s \<longrightarrow> AllowStructuredResume p) \<and> (AllowCrossVersion p \<or> ok)
      \<and> TargetBackendAvailable s"
    by (auto simp: er_Eligible_def f [unfolded eligibility_failures_def Let_def allowed_def [symmetric] ok_def [symmetric]])
  then show "er_Eligible r \<longleftrightarrow>
      MigrationsUsed s < MaxMigrations p \<and> AccumulatedTokens s < MaxMigrationTokens p
      \<and> Elapsed s < MaxStreamDuration p
      \<and> (SnapshotVerdict s = VerdictSafe \<or> SnapshotVerdict s = VerdictDegraded
          \<or> SnapshotVerdict s = VerdictUnsafe \<and> PolicyTemplateMode p = TemplatePermissive)
      \<and> (StructuredResponse s \<longrightarrow> AllowStructuredResume p)
      \<and> (AllowCrossVersion p \<or> OriginModelVersion s = TargetModelVersion s \<and> OriginModelVersion s \<noteq> [])
      \<and> TargetBackendAvailable s" by (auto simp: al ok_def)
qed

text \<open>
  C27: A stream is eligible exactly when every protocol predicate holds (strictly below each
  limit, a template that is safe, degraded or tolerated as unsafe, structured output only if
  allowed, equal known model versions unless cross-version resume is allowed, a backend), and
  the failures are reported once each in protocol order; an unknown verdict is never eligible.
\<close>

theorem eligibility_exact:
  assumes "EvaluateEligibility p s = Inr r"
  shows "(er_Eligible r \<longleftrightarrow>
      MigrationsUsed s < MaxMigrations p \<and> AccumulatedTokens s < MaxMigrationTokens p
      \<and> Elapsed s < MaxStreamDuration p
      \<and> (SnapshotVerdict s = VerdictSafe \<or> SnapshotVerdict s = VerdictDegraded
          \<or> SnapshotVerdict s = VerdictUnsafe \<and> PolicyTemplateMode p = TemplatePermissive)
      \<and> (StructuredResponse s \<longrightarrow> AllowStructuredResume p)
      \<and> (AllowCrossVersion p \<or> OriginModelVersion s = TargetModelVersion s \<and> OriginModelVersion s \<noteq> [])
      \<and> TargetBackendAvailable s)
    \<and> subseq (er_Failures r) protocol_order
    \<and> (SnapshotVerdict s = VerdictUnknown \<longrightarrow> PredicateTemplateVerdict \<in> set (er_Failures r))"
proof -
  note f = eligible_iff(1) [OF assms, unfolded eligibility_failures_def Let_def]
  have "subseq (er_Failures r) protocol_order"
    unfolding f protocol_order_def by (intro subseq_guard subseq_guard_last)
  moreover have "SnapshotVerdict s = VerdictUnknown \<longrightarrow> PredicateTemplateVerdict \<in> set (er_Failures r)"
    by (auto simp: f evaluateTemplate_def verdict_defs)
  ultimately show ?thesis using eligible_iff(2) [OF assms] by blast
qed

theorem eligibility_exact_witness:
  "\<exists>r. EvaluateEligibility DefaultPolicy
      \<lparr>MigrationsUsed = 0, AccumulatedTokens = 10, Elapsed = 5, SnapshotVerdict = VerdictSafe,
       StructuredResponse = False, OriginModelVersion = ''v1'', TargetModelVersion = ''v1'',
       TargetBackendAvailable = True\<rparr> = Inr r \<and> er_Eligible r"
proof -
  let ?s = "\<lparr>MigrationsUsed = 0, AccumulatedTokens = 10, Elapsed = 5, SnapshotVerdict = VerdictSafe,
       StructuredResponse = False, OriginModelVersion = ''v1'', TargetModelVersion = ''v1'',
       TargetBackendAvailable = True\<rparr>"
  obtain r where r: "EvaluateEligibility DefaultPolicy ?s = Inr r"
    by (simp add: EvaluateEligibility_def DefaultPolicy_def policy_Validate_def mode_Validate_def
        minute_def verdict_Valid_def)
  have "er_Eligible r" using eligibility_exact [OF r] by (simp add: DefaultPolicy_def minute_def)
  with r show ?thesis by blast
qed

text \<open>The gate in terms of the grammar: structured text it lets through can be completed to a JSON text.\<close>

lemma open_gate:
  assumes "EvaluateCorrectness s = []"
  shows "\<not> ToolCallInProgress s" and "\<not> MultipleChoices s"
    and "cs_StructuredResponse s \<Longrightarrow> \<exists>rest n. json_text n (AccumulatedText s @ rest)"
proof -
  show "\<not> ToolCallInProgress s" "\<not> MultipleChoices s" using assms by (auto simp: EvaluateCorrectness_def split: if_splits)
  show "\<exists>rest n. json_text n (AccumulatedText s @ rest)" if "cs_StructuredResponse s"
    using assms that prefix_extends by (auto simp: EvaluateCorrectness_def IsValidJSONPrefix_def split: if_splits)
qed

text \<open>
  Applying the defaults of a policy resource materialises every optional field, changes no
  explicit one, is idempotent, and leaves the default resource without validation errors.
\<close>

theorem defaults_materialize:
  "spec_ApplyDefaults (spec_ApplyDefaults spec) = spec_ApplyDefaults spec
   \<and> ds_MaxMigrations (spec_ApplyDefaults spec) = Some (case ds_MaxMigrations spec of None \<Rightarrow> 3 | Some x \<Rightarrow> x)
   \<and> ds_MaxMigrationTokens (spec_ApplyDefaults spec) = Some (case ds_MaxMigrationTokens spec of None \<Rightarrow> 8192 | Some x \<Rightarrow> x)
   \<and> ds_SeamWindowBytes (spec_ApplyDefaults spec) = Some (case ds_SeamWindowBytes spec of None \<Rightarrow> 64 | Some x \<Rightarrow> x)
   \<and> ds_OrphanPolicy (spec_ApplyDefaults spec) \<noteq> []
   \<and> policy_ValidationErrors (Some spec) = policy_ValidationErrors (Some (spec_ApplyDefaults spec))
   \<and> policy_ValidationErrors (Some DefaultDurabilityPolicySpec) = []"
proof -
  have i: "spec_ApplyDefaults (spec_ApplyDefaults x) = spec_ApplyDefaults x" for x
    by (simp add: spec_ApplyDefaults_def orElse_def split: option.split)
  have "policy_ValidationErrors (Some DefaultDurabilityPolicySpec) = []"
    by (simp add: policy_ValidationErrors_def DefaultDurabilityPolicySpec_def spec_WithDefaults_def i)
       (simp add: spec_ApplyDefaults_def orElse_def minute_def orphan_Valid_def)
  then show ?thesis
    by (simp add: i policy_ValidationErrors_def spec_WithDefaults_def)
       (simp add: spec_ApplyDefaults_def orElse_def split: option.split)
qed

text \<open>The result of the probe loop is the newest matching entry, smallest identity first.\<close>

definition probe_best :: "string \<Rightarrow> string \<Rightarrow> BackendStatus set \<Rightarrow> BackendStatus \<Rightarrow> bool" where
  "probe_best digest hash B b \<longleftrightarrow> b \<in> B \<and> probe_matches digest hash b
     \<and> (\<forall>b' \<in> B. probe_matches digest hash b' \<longrightarrow> \<not> probe_newer b' b)"

lemma probe_newer_trans: "probe_newer a b \<Longrightarrow> \<not> probe_newer c b \<Longrightarrow> \<not> probe_newer c a"
  by (auto simp: probe_newer_def)

lemma newest_probe_spec:
  assumes "case newest of None \<Rightarrow> \<forall>b \<in> B. \<not> probe_matches digest hash b | Some b \<Rightarrow> probe_best digest hash B b"
  shows "case newest_probe digest hash bs newest of
      None \<Rightarrow> \<forall>b \<in> B \<union> set bs. \<not> probe_matches digest hash b
    | Some b \<Rightarrow> probe_best digest hash (B \<union> set bs) b"
  using assms
proof (induction bs arbitrary: B newest)
  case (Cons b bs)
  have irr: "\<not> probe_newer b b" by (simp add: probe_newer_def)
  let ?n = "if probe_matches digest hash b \<and> (newest = None \<or> probe_newer b (the newest)) then Some b else newest"
  have "case ?n of None \<Rightarrow> \<forall>x \<in> insert b B. \<not> probe_matches digest hash x
      | Some x \<Rightarrow> probe_best digest hash (insert b B) x"
    using Cons.prems irr probe_newer_trans [of b]
    by (cases newest) (auto simp: probe_best_def)
  note IH = Cons.IH [OF this]
  have "newest_probe digest hash (b # bs) newest = newest_probe digest hash bs ?n" by auto
  moreover have "B \<union> set (b # bs) = insert b B \<union> set bs" by auto
  ultimately show ?case using IH by (simp only:)
qed (simp only: newest_probe.simps list.set Un_empty_right)

text \<open>
  \<open>FindCachedBackendProbe\<close> serves only probes of the current route generation and the
  exact model, image and tokenizer key, and among them the newest one (ties by smallest
  identity), with the identity and serving state of the old backend cleared.
\<close>

theorem cached_probe_newest:
  assumes "FindCachedBackendProbe (Some r) model digest hash = Some b"
  shows "ir_ObservedGeneration r = ir_Generation r \<and> model = ir_Model r
    \<and> bs_ID b = [] \<and> bs_Address b = [] \<and> \<not> bs_Ready b \<and> \<not> bs_Draining b
    \<and> (\<exists>c \<in> set (ir_Backends r). probe_matches digest hash c
        \<and> b = c\<lparr>bs_ID := [], bs_Address := [], bs_Ready := False, bs_Draining := False\<rparr>
        \<and> (\<forall>c' \<in> set (ir_Backends r). probe_matches digest hash c' \<longrightarrow> \<not> probe_newer c' c))"
proof -
  have k: "ir_ObservedGeneration r = ir_Generation r" "model = ir_Model r"
    using assms by (auto simp: FindCachedBackendProbe_def split: if_splits)
  obtain c where c: "newest_probe digest hash (ir_Backends r) None = Some c"
    "b = c\<lparr>bs_ID := [], bs_Address := [], bs_Ready := False, bs_Draining := False\<rparr>"
    using assms by (auto simp: FindCachedBackendProbe_def split: if_splits option.splits)
  with newest_probe_spec [where newest = None and B = "{}" and bs = "ir_Backends r" and digest = digest and hash = hash]
  have "probe_best digest hash (set (ir_Backends r)) c" by simp
  with k c show ?thesis unfolding probe_best_def by (auto intro!: bexI [of _ c])
qed

theorem cached_probe_newest_witness:
  "\<exists>b. FindCachedBackendProbe (Some \<lparr>ir_Model = ''m'', ir_Generation = 1, ir_ObservedGeneration = 1,
      ir_Backends = [\<lparr>bs_ID = ''x'', bs_Address = ''y'', bs_Ready = True, bs_Draining = False,
        bs_TemplateVerdict = VerdictSafe, bs_Message = [], bs_LastProbedAt = Some 7,
        bs_ImageDigest = ''d'', bs_TokenizerHash = ''h''\<rparr>]\<rparr>) ''m'' ''d'' ''h'' = Some b \<and> \<not> bs_Ready b"
proof -
  let ?r = "\<lparr>ir_Model = ''m'', ir_Generation = 1, ir_ObservedGeneration = 1,
      ir_Backends = [\<lparr>bs_ID = ''x'', bs_Address = ''y'', bs_Ready = True, bs_Draining = False,
        bs_TemplateVerdict = VerdictSafe, bs_Message = [], bs_LastProbedAt = Some 7,
        bs_ImageDigest = ''d'', bs_TokenizerHash = ''h''\<rparr>]\<rparr>"
  obtain b where "FindCachedBackendProbe (Some ?r) ''m'' ''d'' ''h'' = Some b"
    by (simp add: FindCachedBackendProbe_def probe_matches_def verdict_Valid_def verdict_defs)
  with cached_probe_newest [OF this] show ?thesis by blast
qed

end
