(* ===== verification/Sse.thy ===== *)
theory Sse
  imports Utf8
begin

text \<open>
  The server-sent-events codec (\<open>internal/proxy/sse\<close>): the incremental \<open>Decoder\<close> that cuts a byte
  stream into frames, with CR, LF and CRLF line ends, a leading byte-order mark and a size limit
  per frame, and the \<open>Encoder\<close> that writes canonical frames.

  The reader behind a decoder is the bytes that are still to come together with how it ends;
  \<open>bufio.Reader.ReadByte\<close> hides how the bytes are divided into reads. Go's nil slice is \<open>None\<close> and
  an empty one \<open>Some []\<close>, because the encoder distinguishes them.
\<close>

section \<open>Events\<close>

record Event =
  ev_Data :: "bytes option"
  ev_Type :: bytes
  ev_ID :: bytes
  ev_Retry :: duration
  ev_Comments :: "bytes list"
  ev_HasData :: bool
  ev_HasType :: bool
  ev_HasID :: bool
  ev_HasRetry :: bool

definition emptyEvent :: Event where
  "emptyEvent = \<lparr>ev_Data = None, ev_Type = [], ev_ID = [], ev_Retry = 0, ev_Comments = [],
     ev_HasData = False, ev_HasType = False, ev_HasID = False, ev_HasRetry = False\<rparr>"

abbreviation LF :: byte where "LF \<equiv> CHR 0x0A"
abbreviation CR :: byte where "CR \<equiv> CHR 0x0D"

section \<open>Decimal numbers\<close>

text \<open>\<open>strconv.AppendInt\<close> for numbers that are not negative, and \<open>strconv.ParseUint\<close> on digits.\<close>

fun append_dec :: "nat \<Rightarrow> bytes" where
  "append_dec n = (if n < 10 then [char_of (48 + n)] else append_dec (n div 10) @ [char_of (48 + n mod 10)])"

declare append_dec.simps [simp del]

definition dec_digit :: "byte \<Rightarrow> bool" where
  "dec_digit c \<longleftrightarrow> 0x30 \<le> bv c \<and> bv c \<le> 0x39"

definition dec_value :: "bytes \<Rightarrow> nat" where
  "dec_value s = foldl (\<lambda>v c. 10 * v + (bv c - 48)) 0 s"

definition ParseUint :: "bytes \<Rightarrow> nat option" where
  "ParseUint s = (if dec_value s \<le> MaxUint64 then Some (dec_value s) else None)"

section \<open>The encoder\<close>

datatype sse_error =
    ErrInvalidEvent
  | ErrInvalidUTF8At int
  | ErrIncompleteEventAt int
  | ErrEventTooLarge int int
  | EndOfFile
  | ReadFailed

definition contains :: "byte \<Rightarrow> bytes \<Rightarrow> bool" where
  "contains c s \<longleftrightarrow> c \<in> set s"

definition validateSingleLine :: "bytes \<Rightarrow> bool \<Rightarrow> bool" where
  "validateSingleLine s rejectNUL \<longleftrightarrow>
     utf8_valid s \<and> \<not> (contains CR s \<or> contains LF s) \<and> \<not> (rejectNUL \<and> contains (CHR 0x00) s)"

abbreviation millisecond :: int where "millisecond \<equiv> 1000000"

definition validateEvent :: "Event \<Rightarrow> bool \<Rightarrow> bool \<Rightarrow> bool \<Rightarrow> bool \<Rightarrow> bool" where
  "validateEvent event hasData hasType hasID hasRetry \<longleftrightarrow>
     (hasData \<longrightarrow> utf8_valid (case ev_Data event of None \<Rightarrow> [] | Some d \<Rightarrow> d)
        \<and> \<not> contains CR (case ev_Data event of None \<Rightarrow> [] | Some d \<Rightarrow> d))
     \<and> (hasType \<longrightarrow> validateSingleLine (ev_Type event) False)
     \<and> (hasID \<longrightarrow> validateSingleLine (ev_ID event) True)
     \<and> (hasRetry \<longrightarrow> 0 \<le> ev_Retry event \<and> ev_Retry event mod millisecond = 0)
     \<and> list_all (\<lambda>c. validateSingleLine c False) (ev_Comments event)"

definition writeField :: "bytes \<Rightarrow> bytes \<Rightarrow> bytes" where
  "writeField name v = name @ '':'' @ (if 0 < length v then CHR '' '' # v else []) @ [LF]"

text \<open>\<open>bytes.Split\<close> at line feeds; splitting the empty string gives one empty piece.\<close>

fun split_lf :: "bytes \<Rightarrow> bytes list" where
  "split_lf [] = [[]]"
| "split_lf (c # cs) = (if c = LF then [] # split_lf cs
     else (case split_lf cs of [] \<Rightarrow> [[c]] | l # ls \<Rightarrow> (c # l) # ls))"

definition hasData :: "Event \<Rightarrow> bool" where "hasData e \<longleftrightarrow> ev_HasData e \<or> ev_Data e \<noteq> None"
definition hasType :: "Event \<Rightarrow> bool" where "hasType e \<longleftrightarrow> ev_HasType e \<or> ev_Type e \<noteq> []"
definition hasID :: "Event \<Rightarrow> bool" where "hasID e \<longleftrightarrow> ev_HasID e \<or> ev_ID e \<noteq> []"
definition hasRetry :: "Event \<Rightarrow> bool" where "hasRetry e \<longleftrightarrow> ev_HasRetry e \<or> ev_Retry e \<noteq> 0"

text \<open>The frame \<open>Encode\<close> builds before it writes it.\<close>

definition encode_frame :: "Event \<Rightarrow> sse_error + bytes" where
  "encode_frame e =
     (if \<not> hasData e \<and> \<not> hasType e \<and> \<not> hasID e \<and> \<not> hasRetry e \<and> length (ev_Comments e) = 0
        then Inl ErrInvalidEvent
      else if \<not> validateEvent e (hasData e) (hasType e) (hasID e) (hasRetry e) then Inl ErrInvalidEvent
      else Inr (concat (map (writeField []) (ev_Comments e))
        @ (if hasType e then writeField ''event'' (ev_Type e) else [])
        @ (if hasID e then writeField ''id'' (ev_ID e) else [])
        @ (if hasRetry e then writeField ''retry'' (append_dec (nat (ev_Retry e div millisecond))) else [])
        @ (if hasData e then concat (map (writeField ''data'')
             (split_lf (case ev_Data e of None \<Rightarrow> [] | Some d \<Rightarrow> d))) else [])
        @ [LF]))"

text \<open>
  A writer answers its \<open>i\<close>-th call with the number of bytes taken and possibly an error.
  \<open>writeAll\<close> returns what was written and the error, \<open>io.ErrShortWrite\<close> being \<open>ShortWrite\<close>.
\<close>

datatype write_error = ShortWrite | WriteFailed

type_synonym writer = "nat \<Rightarrow> bytes \<Rightarrow> nat \<times> write_error option"

function writeAll :: "writer \<Rightarrow> nat \<Rightarrow> bytes \<Rightarrow> bytes \<times> write_error option" where
  "writeAll w i data =
     (if data = [] then ([], None)
      else (let (n, err) = w i data in
            case err of
              Some x \<Rightarrow> (take n data, Some x)
            | None \<Rightarrow> if n = 0 then ([], Some ShortWrite)
                      else (let (out, x) = writeAll w (Suc i) (drop n data) in (take n data @ out, x))))"
  by pat_completeness auto
termination
  by (relation "measure (\<lambda>(w, i, data). length data)") auto

declare writeAll.simps [simp del]

definition Encode :: "writer \<Rightarrow> Event \<Rightarrow> bytes \<times> (sse_error + write_error) option" where
  "Encode w e =
     (case encode_frame e of
        Inl x \<Rightarrow> ([], Some (Inl x))
      | Inr frame \<Rightarrow> (case writeAll w 0 frame of (out, x) \<Rightarrow> (out, map_option Inr x)))"

section \<open>The decoder\<close>

record Decoder =
  d_input :: bytes
  d_ends_with_eof :: bool
  d_frame :: Event
  d_recognized :: bool
  d_blockStarted :: bool
  d_firstLine :: bool
  d_skipLF :: bool
  d_offset :: int
  d_frameBytes :: int
  d_maxEventBytes :: int

definition DefaultMaxEventBytes :: int where
  "DefaultMaxEventBytes = 1048576"

definition newDecoder :: "bytes \<Rightarrow> bool \<Rightarrow> Decoder" where
  "newDecoder input eof = \<lparr>d_input = input, d_ends_with_eof = eof, d_frame = emptyEvent,
     d_recognized = False, d_blockStarted = False, d_firstLine = True, d_skipLF = False,
     d_offset = 0, d_frameBytes = 0, d_maxEventBytes = DefaultMaxEventBytes\<rparr>"

text \<open>\<open>WithMaxEventBytes\<close>, applied by \<open>NewDecoderWithOptions\<close>; \<open>None\<close> is the error.\<close>

definition WithMaxEventBytes :: "int \<Rightarrow> Decoder \<Rightarrow> Decoder option" where
  "WithMaxEventBytes maxBytes d = (if maxBytes \<le> 0 then None else Some (d\<lparr>d_maxEventBytes := maxBytes\<rparr>))"

definition utf8BOM :: bytes where
  "utf8BOM = [CHR 0xEF, CHR 0xBB, CHR 0xBF]"

definition stripInitialBOM :: "Decoder \<Rightarrow> bytes \<Rightarrow> bytes \<times> Decoder" where
  "stripInitialBOM d line =
     (if \<not> d_firstLine d then (line, d)
      else (if take 3 line = utf8BOM then drop 3 line else line, d\<lparr>d_firstLine := False\<rparr>))"

definition completeLine :: "Decoder \<Rightarrow> bytes \<Rightarrow> int \<Rightarrow> (sse_error + bytes) \<times> Decoder" where
  "completeLine d line lineStart =
     (let (line, d) = stripInitialBOM d line in
      (if \<not> utf8_valid line then Inl (ErrInvalidUTF8At lineStart) else Inr line, d))"

definition read_end :: "Decoder \<Rightarrow> bytes \<Rightarrow> int \<Rightarrow> (sse_error + bytes) \<times> Decoder" where
  "read_end d line lineStart =
     (let (line, d) = stripInitialBOM d line in
      (if 0 < length line \<and> \<not> utf8_valid line then Inl (ErrInvalidUTF8At lineStart)
       else if d_ends_with_eof d then
         (if length line = 0 \<and> \<not> d_blockStarted d then Inl EndOfFile
          else Inl (ErrIncompleteEventAt lineStart))
       else if 0 < length line \<or> d_blockStarted d then Inl (ErrIncompleteEventAt lineStart)
       else Inl ReadFailed, d))"

text \<open>The loop of \<open>readLine\<close> over the bytes of the input; the bytes behind it stay in the state.\<close>

fun read_loop :: "bytes \<Rightarrow> Decoder \<Rightarrow> bytes \<Rightarrow> int \<Rightarrow> (sse_error + bytes) \<times> Decoder" where
  "read_loop [] d line lineStart = read_end (d\<lparr>d_input := []\<rparr>) line lineStart"
| "read_loop (b # bs) d0 line lineStart0 =
     (let d1 = d0\<lparr>d_offset := d_offset d0 + 1, d_input := bs\<rparr>;
          d = d1\<lparr>d_skipLF := False\<rparr>;
          lineStart = (if d_skipLF d1 then d_offset d1 - 1 else lineStart0)
      in if d_skipLF d1 \<and> b = LF then read_loop bs d line (d_offset d1)
         else if b = CR then completeLine (d\<lparr>d_skipLF := True\<rparr>) line lineStart
         else if b = LF then completeLine d line lineStart
         else if d_frameBytes d \<ge> d_maxEventBytes d
           then (Inl (ErrEventTooLarge (d_maxEventBytes d) (d_offset d - 1)), d)
         else read_loop bs (d\<lparr>d_frameBytes := d_frameBytes d + 1\<rparr>) (line @ [b]) lineStart)"

definition readLine :: "Decoder \<Rightarrow> (sse_error + bytes) \<times> Decoder" where
  "readLine d = read_loop (d_input d) d [] (d_offset d)"

definition fieldValue :: "bytes \<Rightarrow> bytes" where
  "fieldValue v = (if 0 < length v \<and> hd v = CHR '' '' then tl v else v)"

definition parseRetry :: "bytes \<Rightarrow> duration option" where
  "parseRetry v =
     (if length v = 0 then None
      else if \<not> list_all dec_digit v then None
      else (case ParseUint v of None \<Rightarrow> None
            | Some ms \<Rightarrow> if ms > nat (MaxInt64 div millisecond) then None
                        else Some (int ms * millisecond)))"

definition nonNil :: "bytes option \<Rightarrow> bytes" where
  "nonNil d = (case d of None \<Rightarrow> [] | Some x \<Rightarrow> x)"

lemma nonNil_simps [simp]: "nonNil None = []" "nonNil (Some x) = x"
  by (simp_all add: nonNil_def)

text \<open>What \<open>consumeLine\<close> does to the frame and the \<open>recognized\<close> flag.\<close>

definition consume_field :: "Event \<times> bool \<Rightarrow> bytes \<Rightarrow> Event \<times> bool" where
  "consume_field x line =
     (let (frame, recognized) = x;
          name = takeWhile (\<lambda>c. c \<noteq> CHR '':'') line;
          colon = name \<noteq> line
      in if colon \<and> length name = 0 then
           (frame\<lparr>ev_Comments := ev_Comments frame @ [fieldValue (tl line)]\<rparr>, True)
         else
           (let v = (if colon then fieldValue (drop (length name + 1) line) else []) in
            if name = ''data'' then
              (frame\<lparr>ev_Data := Some (nonNil (ev_Data frame) @ v @ [LF]), ev_HasData := True\<rparr>, True)
            else if name = ''event'' then (frame\<lparr>ev_Type := v, ev_HasType := True\<rparr>, True)
            else if name = ''id'' then
              (if \<not> contains (CHR 0x00) v then (frame\<lparr>ev_ID := v, ev_HasID := True\<rparr>, True) else x)
            else if name = ''retry'' then
              (case parseRetry v of
                 Some retry \<Rightarrow> (frame\<lparr>ev_Retry := retry, ev_HasRetry := True\<rparr>, True)
               | None \<Rightarrow> x)
            else x))"

definition consumeLine :: "Decoder \<Rightarrow> bytes \<Rightarrow> Decoder" where
  "consumeLine d line =
     (case consume_field (d_frame d, d_recognized d) line of
        (frame, recognized) \<Rightarrow> d\<lparr>d_frame := frame, d_recognized := recognized\<rparr>)"

text \<open>Every data field contributed exactly one trailing line feed.\<close>

definition close_frame :: "Event \<Rightarrow> Event" where
  "close_frame event =
     (if ev_HasData event
      then event\<lparr>ev_Data := Some (take (length (nonNil (ev_Data event)) - 1) (nonNil (ev_Data event)))\<rparr>
      else event)"

definition finishFrame :: "Decoder \<Rightarrow> (Event \<times> bool) \<times> Decoder" where
  "finishFrame d =
     ((close_frame (d_frame d), d_recognized d),
      d\<lparr>d_frame := emptyEvent, d_recognized := False, d_blockStarted := False, d_frameBytes := 0\<rparr>)"

lemma stripInitialBOM_input [simp]: "d_input (snd (stripInitialBOM d line)) = d_input d"
  by (simp add: stripInitialBOM_def)

lemma completeLine_input: "completeLine d line ls = (x, d') \<Longrightarrow> d_input d' = d_input d"
  by (auto simp: completeLine_def stripInitialBOM_def Let_def split: if_splits)

lemma read_end_error: "\<exists>x. fst (read_end d line ls) = Inl x"
  by (auto simp: read_end_def stripInitialBOM_def Let_def)

lemma read_loop_shrinks:
  "read_loop s d line ls = (Inr l, d') \<Longrightarrow> length (d_input d') < length s"
proof (induction s arbitrary: d line ls)
  case Nil
  then show ?case using read_end_error [of "d\<lparr>d_input := []\<rparr>" line ls] by auto
next
  case (Cons b bs)
  note IH = Cons.IH [THEN less_SucI]
  show ?case
    using Cons.prems
    by (auto simp: Let_def dest: IH completeLine_input split: if_splits)
qed

function Decode :: "Decoder \<Rightarrow> (sse_error + Event) \<times> Decoder" where
  "Decode d =
     (case readLine d of
        (Inl x, d') \<Rightarrow> (Inl x, d')
      | (Inr line, d') \<Rightarrow>
          if length line = 0 then
            (case finishFrame d' of ((event, ok), d'') \<Rightarrow> if ok then (Inr event, d'') else Decode d'')
          else Decode (consumeLine (d'\<lparr>d_blockStarted := True\<rparr>) line))"
  by pat_completeness auto

lemma finishFrame_input: "d_input (snd (finishFrame d)) = d_input d"
  by (simp add: finishFrame_def Let_def)

lemma consumeLine_input: "d_input (consumeLine d line) = d_input d"
  by (simp add: consumeLine_def split: prod.split)

lemma readLine_shrinks: "readLine d = (Inr l, d') \<Longrightarrow> length (d_input d') < length (d_input d)"
  unfolding readLine_def by (rule read_loop_shrinks)

termination Decode
proof (relation "measure (length \<circ> d_input)", goal_cases)
  case 2
  then show ?case using readLine_shrinks finishFrame_input by (metis comp_apply in_measure snd_conv)
next
  case 3
  then show ?case using readLine_shrinks by (simp add: consumeLine_input) metis
qed simp

declare Decode.simps [simp del]

section \<open>Reading canonical lines\<close>

definition plain_line :: "bytes \<Rightarrow> bool" where
  "plain_line l \<longleftrightarrow> CR \<notin> set l \<and> LF \<notin> set l \<and> utf8_valid l \<and> take 3 l \<noteq> utf8BOM"

definition advance :: "Decoder \<Rightarrow> bytes \<Rightarrow> bytes \<Rightarrow> Decoder" where
  "advance d l rest = d\<lparr>d_input := rest, d_skipLF := False, d_firstLine := False,
     d_offset := d_offset d + int (length l) + 1, d_frameBytes := d_frameBytes d + int (length l)\<rparr>"

lemma read_loop_line:
  assumes "CR \<notin> set l" and "LF \<notin> set l" and "d_skipLF d \<longrightarrow> l \<noteq> []"
    and "d_frameBytes d + int (length l) \<le> d_maxEventBytes d"
  shows "\<exists>ls'. read_loop (l @ LF # rest) d acc ls =
    completeLine (d\<lparr>d_input := rest, d_skipLF := False, d_offset := d_offset d + int (length l) + 1,
      d_frameBytes := d_frameBytes d + int (length l)\<rparr>) (acc @ l) ls'"
  using assms
proof (induction l arbitrary: d acc ls)
  case Nil
  then show ?case by (cases d) (auto simp: Let_def)
next
  case (Cons b bs)
  let ?d = "d\<lparr>d_offset := d_offset d + 1, d_input := bs @ LF # rest, d_skipLF := False,
    d_frameBytes := d_frameBytes d + 1\<rparr>"
  have "\<exists>ls'. read_loop (bs @ LF # rest) ?d (acc @ [b]) (if d_skipLF d then d_offset d else ls) =
      completeLine (?d\<lparr>d_input := rest, d_skipLF := False, d_offset := d_offset ?d + int (length bs) + 1,
      d_frameBytes := d_frameBytes ?d + int (length bs)\<rparr>) ((acc @ [b]) @ bs) ls'"
    using Cons.prems by (intro Cons.IH) auto
  with Cons.prems show ?case by (cases d) (auto simp: Let_def algebra_simps)
qed

lemma readLine_plain:
  assumes "plain_line l" and "d_input d = l @ LF # rest" and "d_skipLF d \<longrightarrow> l \<noteq> []"
    and "d_frameBytes d + int (length l) \<le> d_maxEventBytes d"
  shows "readLine d = (Inr l, advance d l rest)"
proof -
  obtain ls' where "readLine d = completeLine (d\<lparr>d_input := rest, d_skipLF := False,
      d_offset := d_offset d + int (length l) + 1, d_frameBytes := d_frameBytes d + int (length l)\<rparr>) l ls'"
    using read_loop_line [of l d rest "[]" "d_offset d"] assms by (auto simp: readLine_def plain_line_def)
  with assms(1) show ?thesis
    by (simp add: completeLine_def stripInitialBOM_def plain_line_def advance_def Let_def)
qed

definition between_frames :: "Decoder \<Rightarrow> bool" where
  "between_frames d \<longleftrightarrow> d_frame d = emptyEvent \<and> \<not> d_recognized d \<and> \<not> d_blockStarted d
     \<and> d_frameBytes d = 0"

abbreviation unlines :: "bytes list \<Rightarrow> bytes" where
  "unlines ls \<equiv> concat (map (\<lambda>l. l @ [LF]) ls)"

lemma decode_frame:
  assumes "list_all (\<lambda>l. plain_line l \<and> l \<noteq> []) ls"
    and "d_input d = unlines ls @ LF # rest" and "d_skipLF d \<longrightarrow> ls \<noteq> []"
    and "d_frameBytes d + int (sum_list (map length ls)) \<le> d_maxEventBytes d"
    and "foldl consume_field (d_frame d, d_recognized d) ls = (f, True)"
  shows "\<exists>d'. Decode d = (Inr (close_frame f), d') \<and> d_input d' = rest \<and> between_frames d'
    \<and> \<not> d_skipLF d' \<and> d_maxEventBytes d' = d_maxEventBytes d \<and> d_ends_with_eof d' = d_ends_with_eof d"
  using assms
proof (induction ls arbitrary: d)
  case Nil
  have "plain_line []" by (simp add: plain_line_def utf8BOM_def)
  with Nil have "readLine d = (Inr [], advance d [] rest)" by (intro readLine_plain) auto
  with Nil.prems(5) show ?case
    by (simp add: Decode.simps [of d] finishFrame_def advance_def between_frames_def)
next
  case (Cons l ls)
  let ?d = "consumeLine ((advance d l (unlines ls @ LF # rest))\<lparr>d_blockStarted := True\<rparr>) l"
  have r: "readLine d = (Inr l, advance d l (unlines ls @ LF # rest))"
    using Cons.prems by (intro readLine_plain) auto
  have "\<exists>d'. Decode ?d = (Inr (close_frame f), d') \<and> d_input d' = rest \<and> between_frames d'
    \<and> \<not> d_skipLF d' \<and> d_maxEventBytes d' = d_maxEventBytes ?d \<and> d_ends_with_eof d' = d_ends_with_eof ?d"
    using Cons.prems
    by (intro Cons.IH) (auto simp: consumeLine_def advance_def split: prod.split)
  moreover have "Decode d = Decode ?d" using r Cons.prems(1) by (simp add: Decode.simps [of d])
  ultimately show ?case by (simp add: consumeLine_def advance_def split: prod.splits)
qed

section \<open>The encoder writes canonical lines\<close>

definition field_line :: "bytes \<Rightarrow> bytes \<Rightarrow> bytes" where
  "field_line name v = name @ '':'' @ (if 0 < length v then CHR '' '' # v else [])"

definition event_lines :: "Event \<Rightarrow> bytes list" where
  "event_lines e = map (field_line []) (ev_Comments e)
     @ (if hasType e then [field_line ''event'' (ev_Type e)] else [])
     @ (if hasID e then [field_line ''id'' (ev_ID e)] else [])
     @ (if hasRetry e then [field_line ''retry'' (append_dec (nat (ev_Retry e div millisecond)))] else [])
     @ (if hasData e then map (field_line ''data'') (split_lf (nonNil (ev_Data e))) else [])"

lemma writeField_line: "writeField name = (\<lambda>v. field_line name v @ [LF])"
  by (rule ext) (simp add: writeField_def field_line_def)

lemma encode_frame_lines:
  assumes "encode_frame e = Inr frame"
  shows "frame = unlines (event_lines e) @ [LF]"
    and "validateEvent e (hasData e) (hasType e) (hasID e) (hasRetry e)"
    and "hasData e \<or> hasType e \<or> hasID e \<or> hasRetry e \<or> ev_Comments e \<noteq> []"
proof -
  show v: "validateEvent e (hasData e) (hasType e) (hasID e) (hasRetry e)"
    using assms unfolding encode_frame_def by (meson Inl_Inr_False)
  show n: "hasData e \<or> hasType e \<or> hasID e \<or> hasRetry e \<or> ev_Comments e \<noteq> []"
    using assms unfolding encode_frame_def by (metis Inl_Inr_False length_0_conv)
  have "frame = concat (map (writeField []) (ev_Comments e))
        @ (if hasType e then writeField ''event'' (ev_Type e) else [])
        @ (if hasID e then writeField ''id'' (ev_ID e) else [])
        @ (if hasRetry e then writeField ''retry'' (append_dec (nat (ev_Retry e div millisecond))) else [])
        @ (if hasData e then concat (map (writeField ''data'') (split_lf (nonNil (ev_Data e)))) else [])
        @ [LF]"
    using assms v n unfolding encode_frame_def nonNil_def by (simp only: if_True if_False simp_thms length_0_conv sum.inject) auto
  then show "frame = unlines (event_lines e) @ [LF]"
    by (simp only: event_lines_def writeField_line) (simp add: comp_def)
qed

lemma ascii_valid_split:
  assumes "utf8_valid (a @ c # b)" and "bv c < 0x80"
  shows "utf8_valid a \<and> utf8_valid b"
proof -
  have "utf8_aligned (a @ c # b) (length a)"
    using assms(2) by (simp add: utf8_aligned_def nth_append rune_start_def)
  from utf8_valid_split [OF assms(1) this] assms(2) show ?thesis by simp
qed

lemma split_lf_join: "unlines (split_lf s) = s @ [LF]"
  by (induction s) (auto split: list.split)

lemma split_lf_nonempty: "split_lf s \<noteq> []"
  by (induction s) (auto split: list.splits)

lemma split_lf_chars: "l \<in> set (split_lf s) \<Longrightarrow> set l \<subseteq> set s - {LF}"
  by (induction s arbitrary: l) (fastforce split: list.splits if_splits)+

lemma valid_unlines: "utf8_valid (unlines ls) \<Longrightarrow> l \<in> set ls \<Longrightarrow> utf8_valid l"
proof (induction ls)
  case (Cons x xs)
  from ascii_valid_split [of x LF "unlines xs"] Cons show ?case by auto
qed simp

lemma split_lf_valid:
  assumes "utf8_valid s" and "l \<in> set (split_lf s)"
  shows "utf8_valid l"
proof (rule valid_unlines [OF _ assms(2)])
  show "utf8_valid (unlines (split_lf s))" using assms(1) by (simp add: split_lf_join utf8_valid_append)
qed

lemma utf8_valid_all_ascii: "list_all (\<lambda>c. bv c < 0x80) s \<Longrightarrow> utf8_valid s"
  by (induction s) auto

lemma field_line_plain:
  assumes "name \<in> set [[], ''event'', ''id'', ''retry'', ''data'']" and "utf8_valid v"
    and "CR \<notin> set v" and "LF \<notin> set v"
  shows "plain_line (field_line name v) \<and> field_line name v \<noteq> []"
proof -
  have "utf8_valid (name @ '':'')" using assms(1) by auto
  then have "utf8_valid ((name @ '':'') @ (if 0 < length v then CHR '' '' # v else []))"
    by (rule utf8_valid_concat) (use assms(2) in auto)
  then have "utf8_valid (field_line name v)" by (simp add: field_line_def)
  moreover have "hd (field_line name v) \<noteq> CHR 0xEF" "field_line name v \<noteq> []"
    using assms(1) by (auto simp: field_line_def)
  ultimately show ?thesis using assms
    by (cases "field_line name v") (auto simp: plain_line_def utf8BOM_def field_line_def)
qed

lemma dec_chars: "n < 10 \<Longrightarrow> bv (char_of (48 + n) :: char) = 48 + n"
  by simp

lemma append_dec_props:
  "append_dec n \<noteq> [] \<and> list_all dec_digit (append_dec n) \<and> dec_value (append_dec n) = n"
proof (induction n rule: append_dec.induct)
  case (1 n)
  have "bv (char_of (48 + n mod 10) :: char) = 48 + n mod 10" by (rule dec_chars) simp
  with 1 dec_chars [of n] show ?case
    by (cases "n < 10") (auto simp: append_dec.simps [of n] dec_digit_def dec_value_def)
qed

lemma parseRetry_append:
  assumes "0 \<le> r" and "r mod millisecond = 0" and "r \<le> MaxInt64"
  shows "parseRetry (append_dec (nat (r div millisecond))) = Some r"
proof -
  let ?n = "nat (r div millisecond)"
  have "r div millisecond \<le> MaxInt64 div millisecond" using assms(3) by (rule zdiv_mono1) simp
  then have n: "?n \<le> nat (MaxInt64 div millisecond)" by simp
  have "int ?n * millisecond = r" using assms(1,2) by auto
  with append_dec_props [of ?n] n show ?thesis by (auto simp: parseRetry_def ParseUint_def)
qed

lemma validate_plain:
  assumes "validateEvent e (hasData e) (hasType e) (hasID e) (hasRetry e)"
  shows "list_all (\<lambda>l. plain_line l \<and> l \<noteq> []) (event_lines e)"
proof -
  have d: "utf8_valid l \<and> CR \<notin> set l \<and> LF \<notin> set l"
    if "hasData e" "l \<in> set (split_lf (nonNil (ev_Data e)))" for l
    using assms that split_lf_valid [OF _ that(2)] split_lf_chars [OF that(2)]
    by (auto simp: validateEvent_def nonNil_def contains_def)
  have "dec_digit c \<Longrightarrow> bv c < 0x80 \<and> c \<noteq> CR \<and> c \<noteq> LF" for c by (auto simp: dec_digit_def)
  then have r: "utf8_valid (append_dec n) \<and> CR \<notin> set (append_dec n) \<and> LF \<notin> set (append_dec n)" for n
    using append_dec_props [of n] utf8_valid_all_ascii [of "append_dec n"] by (auto simp: list_all_iff)
  let ?ok = "\<lambda>l. plain_line l \<and> l \<noteq> []"
  note v = assms [unfolded validateEvent_def validateSingleLine_def contains_def]
  have "list_all ?ok (map (field_line []) (ev_Comments e))"
    using v field_line_plain [of "[]"] by (simp add: list_all_iff)
  moreover have "hasType e \<Longrightarrow> ?ok (field_line ''event'' (ev_Type e))"
    using v field_line_plain [of "''event''" "ev_Type e"] by simp
  moreover have "hasID e \<Longrightarrow> ?ok (field_line ''id'' (ev_ID e))"
    using v field_line_plain [of "''id''" "ev_ID e"] by simp
  moreover have "?ok (field_line ''retry'' (append_dec n))" for n
    using r [of n] field_line_plain [of "''retry''" "append_dec n"] by simp
  moreover have "hasData e \<Longrightarrow> list_all ?ok (map (field_line ''data'') (split_lf (nonNil (ev_Data e))))"
    using d field_line_plain [of "''data''"] by (simp add: list_all_iff)
  ultimately show ?thesis by (simp add: event_lines_def)
qed

section \<open>The decoder reads them back\<close>

text \<open>The event a decoder reports: presence flags are exact and absent fields are empty.\<close>

definition normal_event :: "Event \<Rightarrow> Event" where
  "normal_event e = e\<lparr>ev_Data := (if hasData e then Some (nonNil (ev_Data e)) else None),
     ev_HasData := hasData e, ev_HasType := hasType e, ev_HasID := hasID e, ev_HasRetry := hasRetry e\<rparr>"

lemma fieldValue_line: "fieldValue (if 0 < length v then CHR '' '' # v else []) = v"
  by (simp add: fieldValue_def)

lemma consume_named:
  assumes "CHR '':'' \<notin> set name" and "name \<noteq> []"
  shows "takeWhile (\<lambda>c. c \<noteq> CHR '':'') (field_line name v) = name"
    and "field_line name v \<noteq> name"
    and "fieldValue (drop (Suc (length name)) (field_line name v)) = v"
proof -
  have "takeWhile (\<lambda>c. c \<noteq> CHR '':'') (name @ CHR '':'' # x) = name" for x
    using assms(1) by (induction name) auto
  then show "takeWhile (\<lambda>c. c \<noteq> CHR '':'') (field_line name v) = name" by (simp add: field_line_def)
  show "field_line name v \<noteq> name" by (simp add: field_line_def)
  show "fieldValue (drop (Suc (length name)) (field_line name v)) = v"
    using fieldValue_line [of v] by (simp add: field_line_def)
qed

lemma consume_comment:
  "consume_field (f, b) (field_line [] c) = (f\<lparr>ev_Comments := ev_Comments f @ [c]\<rparr>, True)"
  using fieldValue_line [of c] by (simp add: consume_field_def field_line_def)

lemma consume_type:
  "consume_field (f, b) (field_line ''event'' v) = (f\<lparr>ev_Type := v, ev_HasType := True\<rparr>, True)"
  using consume_named [of "''event''" v] by (simp add: consume_field_def)

lemma consume_id:
  "CHR 0x00 \<notin> set v \<Longrightarrow> consume_field (f, b) (field_line ''id'' v) = (f\<lparr>ev_ID := v, ev_HasID := True\<rparr>, True)"
  using consume_named [of "''id''" v] by (simp add: consume_field_def contains_def)

lemma consume_retry:
  "parseRetry v = Some r \<Longrightarrow>
     consume_field (f, b) (field_line ''retry'' v) = (f\<lparr>ev_Retry := r, ev_HasRetry := True\<rparr>, True)"
  using consume_named [of "''retry''" v] by (simp add: consume_field_def)

lemma consume_data:
  "consume_field (f, b) (field_line ''data'' v)
     = (f\<lparr>ev_Data := Some (nonNil (ev_Data f) @ v @ [LF]), ev_HasData := True\<rparr>, True)"
  using consume_named [of "''data''" v] by (simp add: consume_field_def)

lemma consume_comments:
  "foldl consume_field (f, b) (map (field_line []) cs)
     = (f\<lparr>ev_Comments := ev_Comments f @ cs\<rparr>, b \<or> cs \<noteq> [])"
  by (induction cs arbitrary: f b) (simp_all add: consume_comment)

lemma consume_data_lines:
  "ls \<noteq> [] \<Longrightarrow> foldl consume_field (f, b) (map (field_line ''data'') ls)
     = (f\<lparr>ev_Data := Some (nonNil (ev_Data f) @ unlines ls), ev_HasData := True\<rparr>, True)"
proof (induction ls arbitrary: f b)
  case (Cons l ls)
  let ?f = "f\<lparr>ev_Data := Some (nonNil (ev_Data f) @ l @ [LF]), ev_HasData := True\<rparr>"
  show ?case
  proof (cases "ls = []")
    case False
    with Cons.IH [of ?f True] show ?thesis by (simp add: consume_data)
  qed (simp add: consume_data)
qed simp

lemma foldl_guard: "foldl g x (if p then [l] else []) = (if p then g x l else x)"
  by simp

lemma consume_event_lines:
  assumes "validateEvent e (hasData e) (hasType e) (hasID e) (hasRetry e)" and "ev_Retry e \<le> MaxInt64"
    and "hasData e \<or> hasType e \<or> hasID e \<or> hasRetry e \<or> ev_Comments e \<noteq> []"
  shows "\<exists>f. foldl consume_field (emptyEvent, False) (event_lines e) = (f, True) \<and> close_frame f = normal_event e"
proof -
  define f0 where "f0 = (emptyEvent\<lparr>ev_Comments := ev_Comments e\<rparr>, ev_Comments e \<noteq> [])"
  define f1 where "f1 = (if hasType e then ((fst f0)\<lparr>ev_Type := ev_Type e, ev_HasType := True\<rparr>, True) else f0)"
  define f2 where "f2 = (if hasID e then ((fst f1)\<lparr>ev_ID := ev_ID e, ev_HasID := True\<rparr>, True) else f1)"
  define f3 where "f3 = (if hasRetry e then ((fst f2)\<lparr>ev_Retry := ev_Retry e, ev_HasRetry := True\<rparr>, True) else f2)"
  define f4 where "f4 = (if hasData e then ((fst f3)\<lparr>ev_Data := Some (nonNil (ev_Data e) @ [LF]), ev_HasData := True\<rparr>, True) else f3)"
  have s0: "foldl consume_field (emptyEvent, False) (map (field_line []) (ev_Comments e)) = f0"
    by (simp add: consume_comments f0_def) (simp add: emptyEvent_def)
  have s1: "foldl consume_field f0 (if hasType e then [field_line ''event'' (ev_Type e)] else []) = f1"
    by (simp add: f1_def f0_def consume_type)
  have s2: "foldl consume_field f1 (if hasID e then [field_line ''id'' (ev_ID e)] else []) = f2"
    using assms(1) by (cases f1) (simp add: f2_def consume_id validateEvent_def validateSingleLine_def contains_def)
  have s3: "foldl consume_field f2 (if hasRetry e
      then [field_line ''retry'' (append_dec (nat (ev_Retry e div millisecond)))] else []) = f3"
    using assms(1,2) parseRetry_append [of "ev_Retry e"]
    by (cases f2) (simp add: f3_def consume_retry validateEvent_def)
  have n3: "ev_Data (fst f3) = None" by (simp add: f3_def f2_def f1_def f0_def emptyEvent_def)
  have s4: "foldl consume_field f3 (if hasData e then map (field_line ''data'') (split_lf (nonNil (ev_Data e))) else []) = f4"
    using consume_data_lines [OF split_lf_nonempty, of "fst f3" "snd f3" "nonNil (ev_Data e)"] n3
    by (simp add: f4_def split_lf_join nonNil_def)
  have "foldl consume_field (emptyEvent, False) (event_lines e) = f4"
    unfolding event_lines_def foldl_append s0 s1 s2 s3 s4 ..
  moreover have "snd f4" using assms(3) by (auto simp: f4_def f3_def f2_def f1_def f0_def)
  moreover have "close_frame (fst f4) = normal_event e"
    by (cases e) (auto simp: close_frame_def f4_def f3_def f2_def f1_def f0_def emptyEvent_def normal_event_def
        nonNil_def hasData_def hasType_def hasID_def hasRetry_def)
  ultimately show ?thesis by (metis prod.collapse)
qed

definition wire_bytes :: "bytes \<Rightarrow> nat" where
  "wire_bytes frame = length (filter (\<lambda>c. c \<noteq> LF) frame)"

lemma wire_bytes_unlines:
  "list_all (\<lambda>l. LF \<notin> set l) ls \<Longrightarrow> wire_bytes (unlines ls @ [LF]) = sum_list (map length ls)"
proof (induction ls)
  case (Cons l ls)
  have "filter (\<lambda>c. c \<noteq> LF) l = l" using Cons.prems by (auto simp: filter_id_conv)
  with Cons show ?case by (simp add: wire_bytes_def)
qed (simp add: wire_bytes_def)

lemma decode_encoded:
  assumes e: "encode_frame e = Inr frame" and "ev_Retry e \<le> MaxInt64"
    and d: "between_frames d" "d_input d = frame @ rest"
    and "int (wire_bytes frame) \<le> d_maxEventBytes d"
  shows "\<exists>d'. Decode d = (Inr (normal_event e), d') \<and> between_frames d' \<and> d_input d' = rest
    \<and> d_maxEventBytes d' = d_maxEventBytes d \<and> d_ends_with_eof d' = d_ends_with_eof d"
proof -
  note l = encode_frame_lines [OF e]
  have p: "list_all (\<lambda>l. plain_line l \<and> l \<noteq> []) (event_lines e)" using validate_plain [OF l(2)] .
  have w: "wire_bytes frame = sum_list (map length (event_lines e))"
    unfolding l(1) by (rule wire_bytes_unlines) (use p in \<open>auto simp: list_all_iff plain_line_def\<close>)
  have "event_lines e \<noteq> []" using l(3) split_lf_nonempty by (auto simp: event_lines_def)
  moreover obtain f where f: "foldl consume_field (emptyEvent, False) (event_lines e) = (f, True)"
    "close_frame f = normal_event e"
    using consume_event_lines [OF l(2) assms(2) l(3)] by blast
  ultimately show ?thesis
    using decode_frame [OF p, of d rest f] d w assms(5) l(1) by (auto simp: between_frames_def)
qed

section \<open>What a decoder accepts\<close>

text \<open>
  Facts about the frame under construction after \<open>n\<close> wire bytes: every field could be encoded
  again, and the fields hold no more than these bytes.
\<close>

definition frame_ok :: "Event \<Rightarrow> bool \<Rightarrow> int \<Rightarrow> bool" where
  "frame_ok f recognized n \<longleftrightarrow>
     (ev_Data f \<noteq> None \<longleftrightarrow> ev_HasData f) \<and> (\<not> ev_HasType f \<longrightarrow> ev_Type f = [])
     \<and> (\<not> ev_HasID f \<longrightarrow> ev_ID f = []) \<and> (\<not> ev_HasRetry f \<longrightarrow> ev_Retry f = 0)
     \<and> (recognized \<longleftrightarrow> ev_HasData f \<or> ev_HasType f \<or> ev_HasID f \<or> ev_HasRetry f \<or> ev_Comments f \<noteq> [])
     \<and> (ev_HasData f \<longrightarrow> (\<exists>x. ev_Data f = Some (x @ [LF]))) \<and> utf8_valid (nonNil (ev_Data f))
     \<and> CR \<notin> set (nonNil (ev_Data f))
     \<and> validateSingleLine (ev_Type f) False \<and> validateSingleLine (ev_ID f) True
     \<and> 0 \<le> ev_Retry f \<and> ev_Retry f \<le> MaxInt64 \<and> ev_Retry f mod millisecond = 0
     \<and> list_all (\<lambda>c. validateSingleLine c False) (ev_Comments f)
     \<and> 0 \<le> n \<and> int (length (nonNil (ev_Data f))) \<le> n \<and> int (length (ev_Type f)) \<le> n
     \<and> int (length (ev_ID f)) \<le> n \<and> int (sum_list (map length (ev_Comments f))) \<le> n"

lemma frame_ok_empty: "frame_ok emptyEvent False 0"
  by (simp add: frame_ok_def emptyEvent_def nonNil_def validateSingleLine_def contains_def)

definition text_line :: "bytes \<Rightarrow> bool" where
  "text_line l \<longleftrightarrow> utf8_valid l \<and> CR \<notin> set l \<and> LF \<notin> set l"

lemma text_line_after:
  assumes "text_line (a @ c # b)" and "bv c < 0x80"
  shows "text_line b"
  using assms ascii_valid_split [of a c b] by (simp add: text_line_def)

lemma text_line_fieldValue: "text_line v \<Longrightarrow> text_line (fieldValue v)"
  using text_line_after [of "[]" "CHR '' ''" "tl v"] by (cases v) (auto simp: fieldValue_def)

lemma length_fieldValue: "length (fieldValue v) \<le> length v"
  by (simp add: fieldValue_def)

lemma text_line_single: "text_line v \<Longrightarrow> validateSingleLine v False"
  by (simp add: text_line_def validateSingleLine_def contains_def)

lemma line_value:
  fixes line :: bytes
  defines "name \<equiv> takeWhile (\<lambda>c. c \<noteq> CHR '':'') line"
  assumes "text_line line"
  shows "text_line (if name \<noteq> line then fieldValue (drop (length name + 1) line) else [])"
    and "length name + length (if name \<noteq> line then fieldValue (drop (length name + 1) line) else []) \<le> length line"
    and "name \<noteq> line \<Longrightarrow> line = name @ CHR '':'' # drop (length name + 1) line"
proof -
  show c: "line = name @ CHR '':'' # drop (length name + 1) line" if "name \<noteq> line"
  proof -
    have ne: "dropWhile (\<lambda>c. c \<noteq> CHR '':'') line \<noteq> []"
      using that takeWhile_dropWhile_id [of "\<lambda>c. c \<noteq> CHR '':''" line] unfolding name_def by auto
    then obtain x xs where x: "dropWhile (\<lambda>c. c \<noteq> CHR '':'') line = x # xs" by (cases "dropWhile (\<lambda>c. c \<noteq> CHR '':'') line") auto
    with hd_dropWhile [OF ne] have "x = CHR '':''" by simp
    with x takeWhile_dropWhile_id [of "\<lambda>c. c \<noteq> CHR '':''" line]
    have l: "line = name @ CHR '':'' # xs" unfolding name_def by simp
    then show ?thesis by (metis add.commute append_eq_conv_conj drop_Suc_Cons drop_drop plus_1_eq_Suc self_append_conv2 drop0)
  qed
  show "text_line (if name \<noteq> line then fieldValue (drop (length name + 1) line) else [])"
    using c assms(2) text_line_after [of name "CHR '':''" "drop (length name + 1) line"]
    by (auto simp: text_line_fieldValue) (simp add: text_line_def)
  have "length name \<le> length line" unfolding name_def by (rule length_takeWhile_le)
  moreover have "length name + length (fieldValue (drop (length name + 1) line)) \<le> length line" if "name \<noteq> line"
  proof -
    have "length line = length (name @ CHR '':'' # drop (length name + 1) line)"
      using arg_cong [OF c [OF that], of length] .
    then have "length line = length name + (1 + length (drop (length name + 1) line))" by (simp only: length_append list.size)
    with length_fieldValue [of "drop (length name + 1) line"] show ?thesis by linarith
  qed
  ultimately show "length name + length (if name \<noteq> line then fieldValue (drop (length name + 1) line) else []) \<le> length line"
    by simp
qed

lemma frame_ok_consume:
  assumes ok: "frame_ok f b n" and t: "text_line line"
  shows "case consume_field (f, b) line of (f', b') \<Rightarrow> frame_ok f' b' (n + int (length line))"
proof -
  define name where "name = takeWhile (\<lambda>c. c \<noteq> CHR '':'') line"
  define v where "v = (if name \<noteq> line then fieldValue (drop (length name + 1) line) else [])"
  note lv = line_value [OF t, folded name_def, folded v_def]
  have mono: "frame_ok f b (n + int (length line))" using ok by (auto simp: frame_ok_def)
  have single: "validateSingleLine v False" using text_line_single [OF lv(1)] .
  have vlen: "int (length v) \<le> int (length line)" using lv(2) by simp
  consider (comment) "name \<noteq> line" "name = []" | (named) "\<not> (name \<noteq> line \<and> name = [])" by blast
  then show ?thesis
  proof cases
    case comment
    have "drop (length name + 1) line = tl line" using comment by (cases line) auto
    then have "v = fieldValue (tl line)" using comment by (simp add: v_def)
    then have "consume_field (f, b) line = (f\<lparr>ev_Comments := ev_Comments f @ [v]\<rparr>, True)"
      using comment by (simp add: consume_field_def name_def [symmetric] Let_def)
    with ok single vlen show ?thesis by (auto simp: frame_ok_def)
  next
    case named
    have c: "consume_field (f, b) line =
        (if name = ''data'' then (f\<lparr>ev_Data := Some (nonNil (ev_Data f) @ v @ [LF]), ev_HasData := True\<rparr>, True)
         else if name = ''event'' then (f\<lparr>ev_Type := v, ev_HasType := True\<rparr>, True)
         else if name = ''id'' then
           (if \<not> contains (CHR 0x00) v then (f\<lparr>ev_ID := v, ev_HasID := True\<rparr>, True) else (f, b))
         else if name = ''retry'' then
           (case parseRetry v of Some r \<Rightarrow> (f\<lparr>ev_Retry := r, ev_HasRetry := True\<rparr>, True) | None \<Rightarrow> (f, b))
         else (f, b))"
      using named by (auto simp: consume_field_def name_def [symmetric] v_def Let_def)
    consider "name = ''data''" | "name = ''event''" | "name = ''id''" | "name = ''retry''"
      | "name \<notin> {''data'', ''event'', ''id'', ''retry''}" by auto
    then show ?thesis
    proof cases
      case 1
      have "utf8_valid (nonNil (ev_Data f) @ v @ [LF])"
        using ok lv(1) by (simp add: frame_ok_def text_line_def utf8_valid_append)
      moreover have "int (length (v @ [LF])) \<le> int (length line)" using lv(2) 1 by simp
      ultimately show ?thesis unfolding c using 1 ok lv(1)
        by (simp add: frame_ok_def text_line_def)
    next
      case 2
      with ok single vlen show ?thesis unfolding c by (auto simp: frame_ok_def)
    next
      case 3
      with ok single vlen mono show ?thesis unfolding c by (auto simp: frame_ok_def validateSingleLine_def)
    next
      case 4
      have "0 \<le> r \<and> r \<le> MaxInt64 \<and> r mod millisecond = 0" if "parseRetry v = Some r" for r
        using that by (auto simp: parseRetry_def split: if_splits option.splits)
      with 4 ok mono show ?thesis unfolding c by (auto simp: frame_ok_def split: option.split)
    next
      case 5
      with mono show ?thesis unfolding c by simp
    qed
  qed
qed

lemma stripInitialBOM_spec:
  "stripInitialBOM d line = (l, d') \<Longrightarrow> d' = d\<lparr>d_firstLine := False\<rparr> \<and> length l \<le> length line
     \<and> set l \<subseteq> set line"
  by (auto simp: stripInitialBOM_def split: if_splits dest: in_set_dropD)

lemma read_loop_spec:
  assumes "read_loop s d acc ls = (Inr l, d')" and "CR \<notin> set acc" and "LF \<notin> set acc"
    and "d_frameBytes d \<le> d_maxEventBytes d"
  shows "text_line l \<and> int (length l) \<le> int (length acc) + (d_frameBytes d' - d_frameBytes d)
    \<and> d_frameBytes d \<le> d_frameBytes d' \<and> d_frameBytes d' \<le> d_maxEventBytes d
    \<and> d_frame d' = d_frame d \<and> d_recognized d' = d_recognized d \<and> d_maxEventBytes d' = d_maxEventBytes d"
  using assms
proof (induction s arbitrary: d acc ls)
  case Nil
  then show ?case using read_end_error [of "d\<lparr>d_input := []\<rparr>" acc ls] by auto
next
  case (Cons b bs)
  have fin: "text_line l \<and> int (length l) \<le> int (length acc) \<and> d_frameBytes d' = d_frameBytes x
      \<and> d_frame d' = d_frame x \<and> d_recognized d' = d_recognized x \<and> d_maxEventBytes d' = d_maxEventBytes x"
    if c: "completeLine x acc y = (Inr l, d')" for x y
  proof -
    obtain l0 d0 where s: "stripInitialBOM x acc = (l0, d0)" by fastforce
    with c have "l = l0" "d' = d0" "utf8_valid l" by (auto simp: completeLine_def split: if_splits)
    with stripInitialBOM_spec [OF s] Cons.prems(2,3) show ?thesis by (auto simp: text_line_def)
  qed
  define d1 where "d1 = d\<lparr>d_offset := d_offset d + 1, d_input := bs\<rparr>"
  have same: "d_frameBytes d1 = d_frameBytes d" "d_frame d1 = d_frame d" "d_recognized d1 = d_recognized d"
    "d_maxEventBytes d1 = d_maxEventBytes d" by (simp_all add: d1_def)
  define start where "start = (if d_skipLF d1 then d_offset d1 - 1 else ls)"
  have rl: "read_loop (b # bs) d acc ls =
      (if d_skipLF d1 \<and> b = LF then read_loop bs (d1\<lparr>d_skipLF := False\<rparr>) acc (d_offset d1)
       else if b = CR then completeLine (d1\<lparr>d_skipLF := True\<rparr>) acc start
       else if b = LF then completeLine (d1\<lparr>d_skipLF := False\<rparr>) acc start
       else if d_frameBytes d1 \<ge> d_maxEventBytes d1
         then (Inl (ErrEventTooLarge (d_maxEventBytes d1) (d_offset d1 - 1)), d1\<lparr>d_skipLF := False\<rparr>)
       else read_loop bs (d1\<lparr>d_skipLF := False, d_frameBytes := d_frameBytes d1 + 1\<rparr>) (acc @ [b]) start)"
    by (simp add: Let_def d1_def start_def)
  show ?case
  proof (cases "d_skipLF d1 \<and> b = LF")
    case True
    with Cons.prems rl have "read_loop bs (d1\<lparr>d_skipLF := False\<rparr>) acc (d_offset d1) = (Inr l, d')" by simp
    from Cons.IH [OF this Cons.prems(2,3)] Cons.prems(4) same show ?thesis by simp
  next
    case False
    show ?thesis
    proof (cases "b = CR \<or> b = LF")
      case True
      with Cons.prems(1) rl False fin [of "d1\<lparr>d_skipLF := True\<rparr>" start] fin [of "d1\<lparr>d_skipLF := False\<rparr>" start]
        same Cons.prems(4) show ?thesis by (auto split: if_splits)
    next
      case nb: False
      with Cons.prems(1) rl False have r: "read_loop bs (d1\<lparr>d_skipLF := False, d_frameBytes := d_frameBytes d1 + 1\<rparr>)
          (acc @ [b]) start = (Inr l, d')" and m: "d_frameBytes d1 < d_maxEventBytes d1"
        by (auto split: if_splits)
      from Cons.IH [OF r] nb Cons.prems(2,3) m same show ?thesis by auto
    qed
  qed
qed

lemma Decode_frame_ok:
  assumes "Decode d = (Inr e, d')"
    and "frame_ok (d_frame d) (d_recognized d) (d_frameBytes d)" and "d_frameBytes d \<le> d_maxEventBytes d"
  shows "\<exists>f n. e = close_frame f \<and> frame_ok f True n \<and> n \<le> d_maxEventBytes d \<and> between_frames d'
    \<and> d_maxEventBytes d' = d_maxEventBytes d"
  using assms
proof (induction d rule: Decode.induct)
  case (1 d)
  obtain l d1 where r: "readLine d = (Inr l, d1)"
    using "1.prems"(1) by (cases "readLine d"; cases "fst (readLine d)") (auto simp: Decode.simps [of d])
  have sp: "text_line l" "int (length l) \<le> d_frameBytes d1 - d_frameBytes d" "d_frameBytes d1 \<le> d_maxEventBytes d"
    "d_frame d1 = d_frame d" "d_recognized d1 = d_recognized d" "d_maxEventBytes d1 = d_maxEventBytes d"
    using read_loop_spec [of "d_input d" d "[]" "d_offset d" l d1] r "1.prems"(3) by (auto simp: readLine_def)
  show ?case
  proof (cases "length l = 0")
    case True
    define d2 where "d2 = snd (finishFrame d1)"
    have f: "finishFrame d1 = ((close_frame (d_frame d), d_recognized d), d2)"
      by (simp add: d2_def finishFrame_def sp)
    have b: "between_frames d2" "d_maxEventBytes d2 = d_maxEventBytes d"
      by (simp_all add: d2_def finishFrame_def between_frames_def sp)
    show ?thesis
    proof (cases "d_recognized d")
      case True
      with r f \<open>length l = 0\<close> "1.prems"(1) have "e = close_frame (d_frame d)" "d' = d2"
        by (auto simp: Decode.simps [of d])
      with b True "1.prems"(2,3) show ?thesis by auto
    next
      case False
      have "Decode d2 = (Inr e, d')" using False r f \<open>length l = 0\<close> "1.prems"(1) by (simp add: Decode.simps [of d])
      moreover have "0 \<le> d_frameBytes d" using "1.prems"(2) by (simp add: frame_ok_def)
      moreover note "1.IH"(1) [OF r [symmetric] refl _ f [symmetric] refl]
      ultimately show ?thesis
        using False \<open>length l = 0\<close> b frame_ok_empty "1.prems"(3) r f
        by (auto simp: between_frames_def dest!: "1.IH"(1))
    qed
  next
    case False
    let ?d = "consumeLine (d1\<lparr>d_blockStarted := True\<rparr>) l"
    have "frame_ok (d_frame ?d) (d_recognized ?d) (d_frameBytes d + int (length l))"
      using frame_ok_consume [OF "1.prems"(2) sp(1)] sp by (simp add: consumeLine_def split: prod.splits)
    then have "frame_ok (d_frame ?d) (d_recognized ?d) (d_frameBytes ?d)"
      using sp(2) by (auto simp: frame_ok_def consumeLine_def split: prod.splits)
    moreover have "Decode ?d = (Inr e, d')" using False r "1.prems"(1) by (simp add: Decode.simps [of d])
    moreover have "d_frameBytes ?d \<le> d_maxEventBytes ?d" "d_maxEventBytes ?d = d_maxEventBytes d"
      using sp by (simp_all add: consumeLine_def split: prod.splits)
    ultimately show ?thesis using "1.IH"(2) [OF r [symmetric] refl False] by simp
  qed
qed

lemma between_frames_ok: "between_frames d \<Longrightarrow> frame_ok (d_frame d) (d_recognized d) (d_frameBytes d)"
  using frame_ok_empty by (simp add: between_frames_def)

lemma close_frame_encodable:
  assumes "frame_ok f True n"
  shows "\<exists>frame. encode_frame (close_frame f) = Inr frame"
    and "normal_event (close_frame f) = close_frame f" and "ev_Retry (close_frame f) \<le> MaxInt64"
    and "int (length (nonNil (ev_Data (close_frame f)))) \<le> n"
proof -
  let ?e = "close_frame f"
  have fields: "ev_Type ?e = ev_Type f" "ev_ID ?e = ev_ID f" "ev_Retry ?e = ev_Retry f"
    "ev_Comments ?e = ev_Comments f" "ev_HasData ?e = ev_HasData f" "ev_HasType ?e = ev_HasType f"
    "ev_HasID ?e = ev_HasID f" "ev_HasRetry ?e = ev_HasRetry f" by (simp_all add: close_frame_def)
  obtain x where x: "ev_HasData f \<Longrightarrow> ev_Data f = Some (x @ [LF])" using assms by (auto simp: frame_ok_def)
  have dat: "ev_Data ?e = (if ev_HasData f then Some x else None)"
    using x assms by (auto simp: close_frame_def frame_ok_def)
  have flags: "hasData ?e = ev_HasData f" "hasType ?e = ev_HasType f" "hasID ?e = ev_HasID f"
    "hasRetry ?e = ev_HasRetry f"
    using assms by (auto simp: hasData_def hasType_def hasID_def hasRetry_def dat fields frame_ok_def)
  have xs: "utf8_valid x \<and> CR \<notin> set x \<and> int (length x) \<le> n" if h: "ev_HasData f"
    using ascii_valid_split [of x LF "[]"] x [OF h] assms by (auto simp: frame_ok_def)
  have "validateEvent ?e (hasData ?e) (hasType ?e) (hasID ?e) (hasRetry ?e)"
    using assms xs by (auto simp: validateEvent_def flags dat fields contains_def frame_ok_def)
  moreover have "hasData ?e \<or> hasType ?e \<or> hasID ?e \<or> hasRetry ?e \<or> ev_Comments ?e \<noteq> []"
    using assms by (auto simp: flags fields frame_ok_def)
  ultimately show "\<exists>frame. encode_frame ?e = Inr frame" unfolding encode_frame_def by auto
  show "normal_event ?e = ?e"
    by (cases ?e) (use flags dat fields in \<open>auto simp: normal_event_def\<close>)
  show "ev_Retry ?e \<le> MaxInt64" using assms by (simp add: fields frame_ok_def)
  show "int (length (nonNil (ev_Data ?e))) \<le> n" using xs assms by (auto simp: dat frame_ok_def)
qed

section \<open>Properties\<close>

text \<open>The codec as a prefix codec: frames within the default limit, decoded by a new decoder.\<close>

definition sse_enc :: "Event \<Rightarrow> bytes option" where
  "sse_enc e = (case encode_frame e of Inl _ \<Rightarrow> None
     | Inr frame \<Rightarrow> if ev_Retry e \<le> MaxInt64 \<and> int (wire_bytes frame) \<le> DefaultMaxEventBytes
                    then Some frame else None)"

definition sse_dec :: "bytes \<Rightarrow> (Event \<times> bytes) option" where
  "sse_dec s = (case Decode (newDecoder s True) of
     (Inr e, d) \<Rightarrow> Some (e, d_input d) | (Inl _, _) \<Rightarrow> None)"

interpretation sse: prefix_codec sse_enc sse_dec normal_event
proof
  fix e y rest
  assume "sse_enc e = Some y"
  then have y: "encode_frame e = Inr y" "ev_Retry e \<le> MaxInt64" "int (wire_bytes y) \<le> DefaultMaxEventBytes"
    by (auto simp: sse_enc_def split: sum.splits if_splits)
  have "between_frames (newDecoder (y @ rest) True)" "d_input (newDecoder (y @ rest) True) = y @ rest"
    "int (wire_bytes y) \<le> d_maxEventBytes (newDecoder (y @ rest) True)"
    using y(3) by (simp_all add: newDecoder_def between_frames_def)
  from decode_encoded [OF y(1,2) this] show "sse_dec (y @ rest) = Some (normal_event e, rest)"
    by (auto simp: sse_dec_def)
next
  show "sse_dec [] = None"
    by (simp add: sse_dec_def newDecoder_def Decode.simps readLine_def read_end_def stripInitialBOM_def utf8BOM_def)
qed

text \<open>
  C20: Decoding inverts encoding: a decoder between two frames that meets an encoded event
  reports that event, with exact presence flags, consumes exactly its frame and is between two
  frames again, whatever follows in the stream.
\<close>

theorem sse_roundtrip:
  assumes "encode_frame e = Inr frame" and "ev_Retry e \<le> MaxInt64"
    and "between_frames d" and "d_input d = frame @ rest"
    and "int (wire_bytes frame) \<le> d_maxEventBytes d"
  shows "\<exists>d'. Decode d = (Inr (normal_event e), d') \<and> between_frames d' \<and> d_input d' = rest"
  using decode_encoded [OF assms] by blast

definition sample_event :: Event where
  "sample_event = emptyEvent\<lparr>ev_Data := Some (''a'' @ [LF] @ ''b''), ev_ID := ''7''\<rparr>"

lemma sample_frame: "encode_frame sample_event = Inr (''id: 7'' @ [LF] @ ''data: a'' @ [LF] @ ''data: b'' @ [LF, LF])"
  by (simp add: encode_frame_def sample_event_def emptyEvent_def hasData_def hasType_def hasID_def
      hasRetry_def validateEvent_def validateSingleLine_def contains_def writeField_def)

theorem sse_roundtrip_witness:
  "\<exists>d'. Decode (newDecoder (''id: 7'' @ [LF] @ ''data: a'' @ [LF] @ ''data: b'' @ [LF, LF]) True)
     = (Inr (normal_event sample_event), d') \<and> d_input d' = []"
proof -
  let ?f = "''id: 7'' @ [LF] @ ''data: a'' @ [LF] @ ''data: b'' @ [LF, LF]"
  have "ev_Retry sample_event \<le> MaxInt64" by (simp add: sample_event_def emptyEvent_def)
  moreover have "between_frames (newDecoder ?f True)" by (simp add: newDecoder_def between_frames_def)
  moreover have "d_input (newDecoder ?f True) = ?f @ []" by (simp add: newDecoder_def)
  moreover have "int (wire_bytes ?f) \<le> d_maxEventBytes (newDecoder ?f True)"
    by (simp add: wire_bytes_def newDecoder_def DefaultMaxEventBytes_def)
  ultimately show ?thesis using sse_roundtrip [OF sample_frame] by blast
qed

text \<open>
  C25: What a decoder reports can always be relayed: the event encodes without error, it is its
  own canonical form, so decoding the relayed frame gives the same event again, and its data is
  no longer than the frame limit of the decoder that read it.
\<close>

theorem sse_relay:
  assumes "between_frames d" and "0 \<le> d_maxEventBytes d" and "Decode d = (Inr e, d')"
  shows "between_frames d' \<and> normal_event e = e \<and> int (length (nonNil (ev_Data e))) \<le> d_maxEventBytes d
    \<and> (\<exists>frame. encode_frame e = Inr frame \<and>
        (\<forall>r rest. between_frames r \<and> d_input r = frame @ rest \<and> int (wire_bytes frame) \<le> d_maxEventBytes r
          \<longrightarrow> (\<exists>r'. Decode r = (Inr e, r') \<and> d_input r' = rest)))"
proof -
  have "d_frameBytes d \<le> d_maxEventBytes d" using assms(1,2) by (simp add: between_frames_def)
  from Decode_frame_ok [OF assms(3) between_frames_ok [OF assms(1)] this]
  obtain f n where f: "e = close_frame f" "frame_ok f True n" "n \<le> d_maxEventBytes d" "between_frames d'" by blast
  note c = close_frame_encodable [OF f(2), folded f(1)]
  obtain frame where fr: "encode_frame e = Inr frame" using c(1) by blast
  have "\<exists>r'. Decode r = (Inr e, r') \<and> d_input r' = rest"
    if "between_frames r" "d_input r = frame @ rest" "int (wire_bytes frame) \<le> d_maxEventBytes r" for r rest
    using decode_encoded [OF fr c(3) that] c(2) by auto
  with fr f c show ?thesis by auto
qed

lemma decode_keepalive: "\<exists>e d'. Decode (newDecoder ('':hi'' @ [LF, LF]) True) = (Inr e, d')"
  by (simp add: newDecoder_def Decode.simps readLine_def completeLine_def stripInitialBOM_def utf8BOM_def
      consumeLine_def consume_field_def finishFrame_def DefaultMaxEventBytes_def)

theorem sse_relay_witness:
  "\<exists>e d'. Decode (newDecoder ('':hi'' @ [LF, LF]) True) = (Inr e, d') \<and> normal_event e = e"
proof -
  obtain e d' where e: "Decode (newDecoder ('':hi'' @ [LF, LF]) True) = (Inr e, d')" using decode_keepalive by blast
  have "between_frames (newDecoder ('':hi'' @ [LF, LF]) True)" by (simp add: newDecoder_def between_frames_def)
  from sse_relay [OF this _ e] e show ?thesis by (simp add: newDecoder_def DefaultMaxEventBytes_def)
qed

text \<open>
  A stream of frames determines its events: two sequences of encodable events whose frames
  concatenate to the same bytes have the same events, however the frames are cut.
\<close>

theorem sse_stream_unambiguous:
  assumes "list_all2 (\<lambda>e f. sse_enc e = Some f) es fs" and "list_all2 (\<lambda>e f. sse_enc e = Some f) es' fs'"
    and "concat fs = concat fs'"
  shows "map normal_event es = map normal_event es'"
  using assms by (rule sse.enc_sequence)

theorem sse_stream_unambiguous_witness: "map normal_event [sample_event] = map normal_event [sample_event]"
proof -
  have "sse_enc sample_event = Some (''id: 7'' @ [LF] @ ''data: a'' @ [LF] @ ''data: b'' @ [LF, LF])"
    using sample_frame
    by (simp add: sse_enc_def wire_bytes_def DefaultMaxEventBytes_def sample_event_def emptyEvent_def)
  then have l: "list_all2 (\<lambda>e f. sse_enc e = Some f) [sample_event]
      [''id: 7'' @ [LF] @ ''data: a'' @ [LF] @ ''data: b'' @ [LF, LF]]" by simp
  show ?thesis by (rule sse_stream_unambiguous [OF l l refl])
qed

lemma writeAll_prefix: "writeAll w i data = (out, x) \<Longrightarrow> (\<exists>rest. data = out @ rest) \<and> (x = None \<longrightarrow> out = data)"
proof (induction w i data arbitrary: out x rule: writeAll.induct)
  case (1 w i data)
  show ?case
  proof (cases "data = []")
    case False
    obtain n err where w: "w i data = (n, err)" by fastforce
    show ?thesis
    proof (cases "err = None \<and> n \<noteq> 0")
      case True
      obtain o1 x1 where r: "writeAll w (Suc i) (drop n data) = (o1, x1)" by fastforce
      have "(\<exists>rest. drop n data = o1 @ rest) \<and> (x1 = None \<longrightarrow> o1 = drop n data)"
        using "1.IH" [OF False w [symmetric] refl] True r by auto
      moreover have "out = take n data @ o1" "x = x1" using 1(2) False w True r by (auto simp: writeAll.simps [of w i data])
      ultimately show ?thesis by (metis append.assoc append_take_drop_id)
    next
      case nf: False
      have "\<exists>rest. data = take n data @ rest" by (metis append_take_drop_id)
      then show ?thesis using 1(2) False w nf by (cases err) (auto simp: writeAll.simps [of w i data])
    qed
  qed (use 1(2) in \<open>simp add: writeAll.simps [of w i]\<close>)
qed

lemma writeAll_live:
  assumes "\<And>i s. s \<noteq> [] \<Longrightarrow> \<exists>n. w i s = (Suc n, None)"
  shows "writeAll w i data = (data, None)"
proof (induction "length data" arbitrary: i data rule: less_induct)
  case less
  show ?case
  proof (cases "data = []")
    case False
    with assms [of data i] obtain n where n: "w i data = (Suc n, None)" by blast
    have "writeAll w (Suc i) (drop (Suc n) data) = (drop (Suc n) data, None)"
      by (rule less) (use False in simp)
    with n False show ?thesis by (simp add: writeAll.simps [of w i data])
  qed (simp add: writeAll.simps [of w i])
qed

text \<open>
  \<open>Encode\<close> writes all or reports an error: without an error exactly the frame has been
  written, an invalid event writes nothing, after a write error a prefix of the frame was
  written, and a writer that always makes progress without error never fails.
\<close>

theorem encode_write_outcomes:
  "(\<forall>out. Encode w e = (out, None) \<longrightarrow> encode_frame e = Inr out)
   \<and> (\<forall>out x. Encode w e = (out, Some (Inl x)) \<longrightarrow> out = [] \<and> encode_frame e = Inl x)
   \<and> (\<forall>out x. Encode w e = (out, Some (Inr x)) \<longrightarrow> (\<exists>rest. encode_frame e = Inr (out @ rest)))
   \<and> (\<forall>frame. encode_frame e = Inr frame \<and> (\<forall>i s. s \<noteq> [] \<longrightarrow> (\<exists>n. w i s = (Suc n, None)))
        \<longrightarrow> Encode w e = (frame, None))"
proof (cases "encode_frame e")
  case (Inr frame)
  obtain out x where o: "writeAll w 0 frame = (out, x)" by fastforce
  from writeAll_prefix [OF o] writeAll_live [of w 0 frame] o Inr show ?thesis
    by (cases x) (auto simp: Encode_def)
qed (simp add: Encode_def)

theorem encode_write_outcomes_witness:
  "Encode (\<lambda>i s. (1, None)) sample_event
     = (''id: 7'' @ [LF] @ ''data: a'' @ [LF] @ ''data: b'' @ [LF, LF], None)"
proof -
  let ?w = "\<lambda>(i::nat) (s::bytes). (1::nat, None :: write_error option)"
  have "encode_frame sample_event = Inr (''id: 7'' @ [LF] @ ''data: a'' @ [LF] @ ''data: b'' @ [LF, LF])
      \<and> (\<forall>i s. s \<noteq> [] \<longrightarrow> (\<exists>n. ?w i s = (Suc n, None)))"
    using sample_frame by simp
  with encode_write_outcomes [of ?w sample_event] show ?thesis by blast
qed

end
