(* ===== verification/Ulid.thy ===== *)
theory Ulid
  imports Prelude "HOL-Library.List_Lexorder" "HOL-Library.Char_ord"
begin

text \<open>
  Stream identifiers (\<open>internal/journal/id.go\<close>): canonical lowercase ULIDs, 16 raw bytes (48 bits of
  milliseconds, 80 bits of entropy) written as 26 Crockford base-32 characters, and the monotonic
  generator. Raw bytes are naturals below 256; shifts that can leave a byte are reduced modulo
  256 as Go's \<open>byte\<close> arithmetic does. The clock reading (\<open>UnixMilli\<close>) and the result of
  \<open>io.ReadFull\<close> on the entropy source are inputs of a generator step.
\<close>

unbundle bit_operations_syntax

section \<open>Encoding\<close>

definition StreamIDLength :: nat where "StreamIDLength = 26"
definition ulidByteLength :: nat where "ulidByteLength = 16"
definition ulidTimeBytes :: nat where "ulidTimeBytes = 6"
definition ulidEntropyLen :: nat where "ulidEntropyLen = 10"
definition maxULIDTime :: nat where "maxULIDTime = 2 ^ 48 - 1"

lemmas ulid_lengths = StreamIDLength_def ulidByteLength_def ulidTimeBytes_def ulidEntropyLen_def

definition crockfordLower :: bytes where
  "crockfordLower = ''0123456789abcdefghjkmnpqrstvwxyz''"

text \<open>One character of the encoding: the inner loop over five bits.\<close>

definition ulid_bit_step :: "nat list \<Rightarrow> nat \<Rightarrow> nat \<Rightarrow> nat \<Rightarrow> nat" where
  "ulid_bit_step raw charIndex v bitOffset =
     (let v = (2 * v) mod 256 in
      if charIndex * 5 + bitOffset < 2 then v
      else (let inputBit = charIndex * 5 + bitOffset - 2
            in v OR (drop_bit (7 - inputBit mod 8) (raw ! (inputBit div 8)) AND 1)))"

definition ulid_char :: "nat list \<Rightarrow> nat \<Rightarrow> nat" where
  "ulid_char raw charIndex = foldl (ulid_bit_step raw charIndex) 0 [0..<5]"

definition encodeULID :: "nat list \<Rightarrow> bytes" where
  "encodeULID raw = map (\<lambda>charIndex. crockfordLower ! ulid_char raw charIndex) [0..<StreamIDLength]"

section \<open>Decoding\<close>

datatype id_error = ErrInvalidStreamID | ErrStreamIDEntropyExhausted | ErrEntropyRead

text \<open>\<open>strings.IndexByte\<close>.\<close>

fun index_byte :: "bytes \<Rightarrow> byte \<Rightarrow> nat option" where
  "index_byte [] c = None"
| "index_byte (x # xs) c = (if x = c then Some 0 else map_option Suc (index_byte xs c))"

definition decode_bit_step :: "nat \<Rightarrow> nat \<Rightarrow> nat list \<Rightarrow> nat \<Rightarrow> nat list" where
  "decode_bit_step charIndex decoded raw bitOffset =
     (let encodedBit = charIndex * 5 + bitOffset in
      if encodedBit < 2 then raw
      else if decoded AND 2 ^ (4 - bitOffset) = 0 then raw
      else (let outputBit = encodedBit - 2
            in raw[outputBit div 8 := raw ! (outputBit div 8) OR 2 ^ (7 - outputBit mod 8)]))"

fun decode_chars :: "bytes \<Rightarrow> nat \<Rightarrow> nat list \<Rightarrow> id_error + nat list" where
  "decode_chars [] charIndex raw = Inr raw"
| "decode_chars (c # cs) charIndex raw =
     (case index_byte crockfordLower c of
        None \<Rightarrow> Inl ErrInvalidStreamID
      | Some decoded \<Rightarrow>
          if charIndex = 0 \<and> decoded > 7 then Inl ErrInvalidStreamID
          else decode_chars cs (Suc charIndex) (foldl (decode_bit_step charIndex decoded) raw [0..<5]))"

definition decodeStreamID :: "bytes \<Rightarrow> id_error + nat list" where
  "decodeStreamID s =
     (if length s \<noteq> StreamIDLength then Inl ErrInvalidStreamID
      else decode_chars s 0 (replicate ulidByteLength 0))"

definition id_Validate :: "bytes \<Rightarrow> bool" where
  "id_Validate s \<longleftrightarrow> \<not> isl (decodeStreamID s)"

definition ParseStreamID :: "bytes \<Rightarrow> id_error + bytes" where
  "ParseStreamID s = (case decodeStreamID s of Inl x \<Rightarrow> Inl x | Inr _ \<Rightarrow> Inr s)"

text \<open>\<open>Timestamp\<close> in Unix milliseconds.\<close>

definition id_Timestamp :: "bytes \<Rightarrow> id_error + nat" where
  "id_Timestamp s = (case decodeStreamID s of Inl x \<Rightarrow> Inl x
     | Inr raw \<Rightarrow> Inr (foldl (\<lambda>ms index. ms * 256 + raw ! index) 0 [0..<ulidTimeBytes]))"

section \<open>The generator\<close>

record IDGenerator =
  g_initialized :: bool
  g_lastMillis :: nat
  g_lastEntropy :: "nat list"

definition NewIDGenerator :: IDGenerator where
  "NewIDGenerator = \<lparr>g_initialized = False, g_lastMillis = 0, g_lastEntropy = replicate ulidEntropyLen 0\<rparr>"

text \<open>The loop of \<open>incrementEntropy\<close> from the last byte down; \<open>n\<close> bytes are still to visit.\<close>

fun increment_loop :: "nat list \<Rightarrow> nat \<Rightarrow> nat list \<times> bool" where
  "increment_loop e 0 = (e, False)"
| "increment_loop e (Suc n) =
     (let e = e[n := (e ! n + 1) mod 256] in if e ! n \<noteq> 0 then (e, True) else increment_loop e n)"

definition incrementEntropy :: "nat list \<Rightarrow> nat list \<times> bool" where
  "incrementEntropy e = increment_loop e (length e)"

text \<open>The time bytes, filled from index 5 down.\<close>

fun time_loop :: "nat \<Rightarrow> nat \<Rightarrow> nat list \<Rightarrow> nat list" where
  "time_loop 0 milliseconds raw = raw"
| "time_loop (Suc index) milliseconds raw =
     time_loop index (milliseconds div 256) (raw[index := milliseconds mod 256])"

definition ulid_raw :: "nat \<Rightarrow> nat list \<Rightarrow> nat list" where
  "ulid_raw milliseconds entropy =
     take ulidTimeBytes (time_loop ulidTimeBytes milliseconds (replicate ulidByteLength 0)) @ entropy"

definition id_New :: "IDGenerator \<Rightarrow> int \<Rightarrow> nat list option \<Rightarrow> (id_error + bytes) \<times> IDGenerator" where
  "id_New g nowMillis readFull =
     (if nowMillis < 0 \<or> nat nowMillis > maxULIDTime then (Inl ErrInvalidStreamID, g)
      else if \<not> g_initialized g \<or> nat nowMillis > g_lastMillis g then
        (case readFull of
           None \<Rightarrow> (Inl ErrEntropyRead, g)
         | Some entropy \<Rightarrow>
             (Inr (encodeULID (ulid_raw (nat nowMillis) entropy)),
              \<lparr>g_initialized = True, g_lastMillis = nat nowMillis, g_lastEntropy = entropy\<rparr>))
      else
        (let (entropy, ok) = incrementEntropy (g_lastEntropy g) in
         if \<not> ok then (Inl ErrStreamIDEntropyExhausted, g)
         else (Inr (encodeULID (ulid_raw (g_lastMillis g) entropy)),
               g\<lparr>g_initialized := True, g_lastEntropy := entropy\<rparr>)))"

section \<open>Bits\<close>

definition raw_ok :: "nat list \<Rightarrow> bool" where
  "raw_ok raw \<longleftrightarrow> length raw = ulidByteLength \<and> list_all (\<lambda>b. b < 256) raw"

definition raw_bit :: "nat list \<Rightarrow> nat \<Rightarrow> bool" where
  "raw_bit raw i \<longleftrightarrow> bit (raw ! (i div 8)) (7 - i mod 8)"

text \<open>Bit \<open>e\<close> of the 130 encoded bits: two leading zeros, then the raw bits.\<close>

definition enc_bit :: "nat list \<Rightarrow> nat \<Rightarrow> bool" where
  "enc_bit raw e \<longleftrightarrow> 2 \<le> e \<and> raw_bit raw (e - 2)"

lemma drop_and_1: "drop_bit n a AND 1 = of_bool (bit a n)" for a :: nat
  by (simp add: bit_iff_odd drop_bit_eq_div and_one_eq mod_2_eq_odd)

lemma or_bit: "(2 * v) OR of_bool b = 2 * v + of_bool b" for v :: nat
  by (cases b) (simp_all add: or_Suc_0_eq)

lemma ulid_bit_step:
  assumes "v < 128"
  shows "ulid_bit_step raw k v j = 2 * v + of_bool (enc_bit raw (k * 5 + j))"
proof -
  have m: "(2 * v) mod 256 = 2 * v" using assms by simp
  show ?thesis
    unfolding ulid_bit_step_def Let_def m drop_and_1 enc_bit_def raw_bit_def
    by (simp only: or_bit) (auto simp: not_less)
qed

lemma ulid_char_bits:
  "ulid_char raw k = 16 * of_bool (enc_bit raw (k * 5)) + 8 * of_bool (enc_bit raw (k * 5 + 1))
     + 4 * of_bool (enc_bit raw (k * 5 + 2)) + 2 * of_bool (enc_bit raw (k * 5 + 3))
     + of_bool (enc_bit raw (k * 5 + 4))"
proof -
  have b: "of_bool x \<le> (1::nat)" for x by simp
  let ?s = "ulid_bit_step raw k" and ?b = "\<lambda>j. of_bool (enc_bit raw (k * 5 + j)) :: nat"
  have 1: "?s 0 0 = ?b 0" by (simp add: ulid_bit_step)
  have 2: "?s (?b 0) 1 = 2 * ?b 0 + ?b 1" by (rule ulid_bit_step) simp
  have 3: "?s (2 * ?b 0 + ?b 1) 2 = 4 * ?b 0 + 2 * ?b 1 + ?b 2"
    using ulid_bit_step [of "2 * ?b 0 + ?b 1" raw k 2] b [of "enc_bit raw (k * 5 + 0)"] b [of "enc_bit raw (k * 5 + 1)"] by simp
  have 4: "?s (4 * ?b 0 + 2 * ?b 1 + ?b 2) 3 = 8 * ?b 0 + 4 * ?b 1 + 2 * ?b 2 + ?b 3"
    using ulid_bit_step [of "4 * ?b 0 + 2 * ?b 1 + ?b 2" raw k 3] by simp
  have 5: "?s (8 * ?b 0 + 4 * ?b 1 + 2 * ?b 2 + ?b 3) 4 = 16 * ?b 0 + 8 * ?b 1 + 4 * ?b 2 + 2 * ?b 3 + ?b 4"
    using ulid_bit_step [of "8 * ?b 0 + 4 * ?b 1 + 2 * ?b 2 + ?b 3" raw k 4] by simp
  have u: "[0..<5] = [0, 1, 2, 3, 4::nat]" by (simp add: upt_conv_Cons)
  show ?thesis unfolding ulid_char_def u using 1 2 3 4 5 by simp
qed

lemma ulid_char_less: "ulid_char raw k < 32"
  unfolding ulid_char_bits by (simp add: of_bool_def)

lemma ulid_char_bit: "j < 5 \<Longrightarrow> bit (ulid_char raw k) (4 - j) \<longleftrightarrow> enc_bit raw (k * 5 + j)"
proof -
  have five: "bit (16 * of_bool a + 8 * of_bool b + 4 * of_bool c + 2 * of_bool d + of_bool e :: nat) n
      \<longleftrightarrow> n = 4 \<and> a \<or> n = 3 \<and> b \<or> n = 2 \<and> c \<or> n = 1 \<and> d \<or> n = 0 \<and> e" if "n < 5" for a b c d e n
  proof -
    consider "n = 0" | "n = 1" | "n = 2" | "n = 3" | "n = 4" using \<open>n < 5\<close> by linarith
    then show ?thesis by cases (cases a; cases b; cases c; cases d; cases e; simp add: bit_iff_odd)+
  qed
  assume "j < 5"
  then consider "j = 0" | "j = 1" | "j = 2" | "j = 3" | "j = 4" by linarith
  then show ?thesis unfolding ulid_char_bits by cases (simp_all add: five)
qed

lemma bits5_eqI:
  fixes a b :: nat
  assumes "a < 32" and "b < 32" and "\<And>j. j < 5 \<Longrightarrow> bit a (4 - j) \<longleftrightarrow> bit b (4 - j)"
  shows "a = b"
proof (rule bit_eqI)
  fix n
  have hi: "\<not> bit x n" if "x < 32" "\<not> n < 5" for x :: nat
  proof -
    have "x div 2 ^ n = 0" using that power_increasing [of 5 n "2::nat"] by (intro div_less) simp
    then show ?thesis by (simp add: bit_iff_odd)
  qed
  show "bit a n \<longleftrightarrow> bit b n"
  proof (cases "n < 5")
    case True
    then have "4 - n < 5" "4 - (4 - n) = n" by auto
    with assms(3) [of "4 - n"] show ?thesis by simp
  qed (use hi assms(1,2) in blast)
qed

lemma raw_eqI:
  assumes "raw_ok a" and "raw_ok b" and "\<And>i. i < 128 \<Longrightarrow> raw_bit a i \<longleftrightarrow> raw_bit b i"
  shows "a = b"
proof (rule nth_equalityI)
  show "length a = length b" using assms(1,2) by (simp add: raw_ok_def)
  fix j assume "j < length a"
  then have j: "j < 16" "a ! j < 256" "b ! j < 256"
    using assms(1,2) by (auto simp: raw_ok_def ulidByteLength_def list_all_length)
  show "a ! j = b ! j"
  proof (rule bit_eqI)
    fix n
    have hi: "\<not> bit x n" if "x < 256" "\<not> n < 8" for x :: nat
    proof -
      have "x div 2 ^ n = 0" using that power_increasing [of 8 n "2::nat"] by (intro div_less) simp
      then show ?thesis by (simp add: bit_iff_odd)
    qed
    show "bit (a ! j) n \<longleftrightarrow> bit (b ! j) n"
    proof (cases "n < 8")
      case True
      define m where "m = 7 - n"
      have m: "m < 8" "7 - m = n" using True by (auto simp: m_def)
      have "(8 * j + m) div 8 = j" "(8 * j + m) mod 8 = m" using m(1) by simp_all
      with assms(3) [of "8 * j + m"] m j(1) show ?thesis by (simp add: raw_bit_def)
    qed (use hi j in blast)
  qed
qed

section \<open>The decoder's loops\<close>

lemma index_byte_nth: "distinct xs \<Longrightarrow> n < length xs \<Longrightarrow> index_byte xs (xs ! n) = Some n"
  by (induction xs arbitrary: n) (auto simp: less_Suc_eq_0_disj)

lemma index_byte_Some: "index_byte xs c = Some n \<Longrightarrow> n < length xs \<and> xs ! n = c"
  by (induction xs arbitrary: n) (auto split: if_splits)

lemma crockford_facts: "distinct crockfordLower" "length crockfordLower = 32"
  by (simp_all add: crockfordLower_def)

definition bytes_ok :: "nat list \<Rightarrow> bool" where
  "bytes_ok raw \<longleftrightarrow> list_all (\<lambda>b. b < 256) raw"

lemma bytes_ok_update: "bytes_ok raw \<Longrightarrow> x < 256 \<Longrightarrow> bytes_ok (raw[i := x])"
  using set_update_subset_insert [of raw i x] by (auto simp: bytes_ok_def list_all_iff)

lemma byte_or: "a < 256 \<Longrightarrow> n < 8 \<Longrightarrow> a OR 2 ^ n < (256 :: nat)"
proof -
  assume "a < 256" "n < 8"
  then have "take_bit 8 a = a" "take_bit 8 (2 ^ n :: nat) = 2 ^ n"
    by (simp_all add: take_bit_nat_eq_self_iff power_strict_increasing [of n 8 "2::nat", simplified])
  then have "take_bit 8 (a OR 2 ^ n) = a OR 2 ^ n" by (simp add: take_bit_or)
  then show ?thesis using take_bit_nat_eq_self_iff [of 8 "a OR 2 ^ n"] by simp
qed

lemma same_bit: "i div 8 = j div 8 \<Longrightarrow> 7 - i mod 8 = 7 - j mod 8 \<Longrightarrow> i = (j :: nat)"
proof -
  assume d: "i div 8 = j div 8" and m: "7 - i mod 8 = 7 - j mod 8"
  have "i mod 8 < 8" "j mod 8 < 8" by simp_all
  with m have "i mod 8 = j mod 8" by linarith
  with d show "i = j" by (metis div_mult_mod_eq)
qed

lemma decode_bit_step_spec:
  assumes "length raw = 16" and "bytes_ok raw" and "k * 5 + j < 130" and "o' < 128"
  shows "length (decode_bit_step k d raw j) = 16" and "bytes_ok (decode_bit_step k d raw j)"
    and "raw_bit (decode_bit_step k d raw j) o' \<longleftrightarrow> raw_bit raw o' \<or> k * 5 + j = o' + 2 \<and> bit d (4 - j)"
proof -
  let ?i = "k * 5 + j - 2"
  show "length (decode_bit_step k d raw j) = 16" using assms(1) by (simp add: decode_bit_step_def Let_def)
  have i: "?i div 8 < 16" using assms(3) by linarith
  then have "raw ! (?i div 8) < 256" using assms(1,2) by (simp add: bytes_ok_def list_all_length)
  then have "raw ! (?i div 8) OR 2 ^ (7 - ?i mod 8) < 256" by (rule byte_or) simp
  then show "bytes_ok (decode_bit_step k d raw j)"
    using assms(2) by (simp add: decode_bit_step_def Let_def bytes_ok_update)
  have ne: "raw_bit (raw[?i div 8 := raw ! (?i div 8) OR 2 ^ (7 - ?i mod 8)]) o' \<longleftrightarrow> raw_bit raw o' \<or> ?i = o'"
    using i assms(1) same_bit [of o' ?i]
    by (auto simp: raw_bit_def nth_list_update bit_or_iff bit_exp_iff)
  show "raw_bit (decode_bit_step k d raw j) o' \<longleftrightarrow> raw_bit raw o' \<or> k * 5 + j = o' + 2 \<and> bit d (4 - j)"
    using ne by (auto simp: decode_bit_step_def Let_def and_exp_eq_0_iff_not_bit)
qed

lemma decode_fold_spec:
  assumes "length raw = 16" and "bytes_ok raw" and "k < 26" and "n \<le> 5"
  shows "length (foldl (decode_bit_step k d) raw [0..<n]) = 16
    \<and> bytes_ok (foldl (decode_bit_step k d) raw [0..<n])
    \<and> (\<forall>o' < 128. raw_bit (foldl (decode_bit_step k d) raw [0..<n]) o'
        \<longleftrightarrow> raw_bit raw o' \<or> (\<exists>j < n. k * 5 + j = o' + 2 \<and> bit d (4 - j)))"
  using assms(4)
proof (induction n)
  case 0
  then show ?case using assms by simp
next
  case (Suc n)
  let ?r = "foldl (decode_bit_step k d) raw [0..<n]"
  have IH: "length ?r = 16" "bytes_ok ?r"
    "\<forall>o' < 128. raw_bit ?r o' \<longleftrightarrow> raw_bit raw o' \<or> (\<exists>j < n. k * 5 + j = o' + 2 \<and> bit d (4 - j))"
    using Suc by simp_all
  have lim: "k * 5 + n < 130" using assms(3) Suc.prems by linarith
  note st = decode_bit_step_spec [OF IH(1,2) lim]
  show ?case using st(1) [of 0 d] st(2) [of 0 d] st(3) [of _ d] IH(3) by (auto simp: less_Suc_eq)
qed

definition digit_of :: "byte \<Rightarrow> nat" where
  "digit_of c = (case index_byte crockfordLower c of None \<Rightarrow> 0 | Some n \<Rightarrow> n)"

definition chars_ok :: "bytes \<Rightarrow> nat \<Rightarrow> bool" where
  "chars_ok s k \<longleftrightarrow> list_all (\<lambda>c. index_byte crockfordLower c \<noteq> None) s \<and> (k = 0 \<and> s \<noteq> [] \<longrightarrow> digit_of (hd s) \<le> 7)"

lemma decode_chars_spec:
  assumes "length raw = 16" and "bytes_ok raw" and "k + length s \<le> 26"
  shows "(\<exists>r. decode_chars s k raw = Inr r) \<longleftrightarrow> chars_ok s k"
    and "decode_chars s k raw = Inr r \<Longrightarrow> length r = 16 \<and> bytes_ok r \<and> (\<forall>o' < 128. raw_bit r o'
        \<longleftrightarrow> raw_bit raw o' \<or> (\<exists>i < length s. \<exists>j < 5. (k + i) * 5 + j = o' + 2 \<and> bit (digit_of (s ! i)) (4 - j)))"
  using assms
proof (induction s arbitrary: k raw)
  case Nil
  { case 1 then show ?case by (simp add: chars_ok_def) }
  { case 2 then show ?case by simp }
next
  case (Cons c cs)
  {
    case 1
    have k: "k < 26" using 1 by simp
    show ?case
    proof (cases "index_byte crockfordLower c")
      case None
      then show ?thesis by (simp add: chars_ok_def)
    next
      case (Some d)
      have f: "length (foldl (decode_bit_step k d) raw [0..<5]) = 16" "bytes_ok (foldl (decode_bit_step k d) raw [0..<5])" using decode_fold_spec [OF 1(1,2) k order_refl, of d] by blast+
      have "Suc k + length cs \<le> 26" using 1(3) by simp
      from Cons.IH(1) [OF f this] Some show ?thesis by (auto simp: chars_ok_def digit_of_def)
    qed
  next
    case 2
    then have k: "k < 26" by simp
    obtain d where d: "index_byte crockfordLower c = Some d" using 2(1) by (auto split: option.splits)
    have r: "decode_chars cs (Suc k) (foldl (decode_bit_step k d) raw [0..<5]) = Inr r" using 2(1) d by (auto split: if_splits)
    note fs = decode_fold_spec [OF 2(2,3) k order_refl, of d]
    have f: "length (foldl (decode_bit_step k d) raw [0..<5]) = 16" "bytes_ok (foldl (decode_bit_step k d) raw [0..<5])" using fs by blast+
    have lim: "Suc k + length cs \<le> 26" using 2(4) by simp
    have dd: "digit_of c = d" using d by (simp add: digit_of_def)
    have ex: "(\<exists>i < length (c # cs). \<exists>j < 5. (k + i) * 5 + j = o' + 2 \<and> bit (digit_of ((c # cs) ! i)) (4 - j))
        \<longleftrightarrow> (\<exists>j < 5. k * 5 + j = o' + 2 \<and> bit d (4 - j))
          \<or> (\<exists>i < length cs. \<exists>j < 5. (Suc k + i) * 5 + j = o' + 2 \<and> bit (digit_of (cs ! i)) (4 - j))" for o'
      unfolding length_Cons Ex_less_Suc2 by (simp add: dd)
    show ?case using Cons.IH(2) [OF r f lim] fs unfolding ex by metis
  }
qed

section \<open>The encoding is a bijection\<close>

lemma char_pos_unique: "i * 5 + j = e \<and> j < 5 \<longleftrightarrow> i = e div 5 \<and> j = e mod (5 :: nat)"
  by auto

lemma decode_spec:
  "decodeStreamID s = Inr r \<longleftrightarrow> length s = 26 \<and> chars_ok s 0 \<and> raw_ok r
     \<and> (\<forall>o' < 128. raw_bit r o' \<longleftrightarrow> bit (digit_of (s ! ((o' + 2) div 5))) (4 - (o' + 2) mod 5))"
proof (cases "length s = 26")
  case True
  let ?z = "replicate 16 (0 :: nat)"
  have z: "length ?z = 16" "bytes_ok ?z" "0 + length s \<le> 26" using True by (simp_all add: bytes_ok_def list_all_iff)
  have zb: "\<not> raw_bit ?z o'" if "o' < 128" for o' using that by (simp add: raw_bit_def)
  note sp = decode_chars_spec [OF z]
  have pos: "(\<exists>i < length s. \<exists>j < 5. (0 + i) * 5 + j = o' + 2 \<and> bit (digit_of (s ! i)) (4 - j))
      \<longleftrightarrow> bit (digit_of (s ! ((o' + 2) div 5))) (4 - (o' + 2) mod 5)" if "o' < 128" for o'
  proof -
    have "(o' + 2) div 5 < length s" using that True by linarith
    then show ?thesis using char_pos_unique [of _ _ "o' + 2"] by (metis add_0)
  qed
  have fwd: "raw_ok x \<and> (\<forall>o' < 128. raw_bit x o' \<longleftrightarrow> bit (digit_of (s ! ((o' + 2) div 5))) (4 - (o' + 2) mod 5))"
    if "decode_chars s 0 ?z = Inr x" for x
    using sp(2) [OF that] zb pos by (simp add: raw_ok_def ulidByteLength_def bytes_ok_def)
  have d: "decodeStreamID s = decode_chars s 0 ?z"
    using True by (simp add: decodeStreamID_def StreamIDLength_def ulidByteLength_def)
  show ?thesis
  proof
    assume "decodeStreamID s = Inr r"
    then have c: "decode_chars s 0 ?z = Inr r" using d by simp
    then have "chars_ok s 0" using sp(1) by blast
    with fwd [OF c] True show "length s = 26 \<and> chars_ok s 0 \<and> raw_ok r
      \<and> (\<forall>o' < 128. raw_bit r o' \<longleftrightarrow> bit (digit_of (s ! ((o' + 2) div 5))) (4 - (o' + 2) mod 5))" by blast
  next
    assume *: "length s = 26 \<and> chars_ok s 0 \<and> raw_ok r
      \<and> (\<forall>o' < 128. raw_bit r o' \<longleftrightarrow> bit (digit_of (s ! ((o' + 2) div 5))) (4 - (o' + 2) mod 5))"
    then obtain x where x: "decode_chars s 0 ?z = Inr x" using sp(1) by blast
    have "x = r" by (rule raw_eqI) (use fwd [OF x] * in auto)
    with x d show "decodeStreamID s = Inr r" by simp
  qed
qed (simp add: decodeStreamID_def StreamIDLength_def)

lemma length_encode [simp]: "length (encodeULID raw) = 26"
  by (simp add: encodeULID_def StreamIDLength_def)

lemma nth_encode: "k < 26 \<Longrightarrow> encodeULID raw ! k = crockfordLower ! ulid_char raw k"
  by (simp add: encodeULID_def StreamIDLength_def)

lemma digit_of_crockford: "n < 32 \<Longrightarrow> index_byte crockfordLower (crockfordLower ! n) = Some n"
  using index_byte_nth [OF crockford_facts(1)] crockford_facts(2) by simp

lemma digit_of_encode: "k < 26 \<Longrightarrow> digit_of (encodeULID raw ! k) = ulid_char raw k"
  using digit_of_crockford [OF ulid_char_less] by (simp add: digit_of_def nth_encode)

lemma first_char: "ulid_char raw 0 \<le> 7"
  unfolding ulid_char_bits by (simp add: enc_bit_def of_bool_def)

lemma encode_chars_ok: "chars_ok (encodeULID raw) 0"
proof -
  have "index_byte crockfordLower (encodeULID raw ! k) \<noteq> None" if "k < 26" for k
    using digit_of_crockford [OF ulid_char_less] that by (simp add: nth_encode)
  moreover have "encodeULID raw \<noteq> []" by (metis length_encode list.size(3) zero_neq_numeral)
  then have "hd (encodeULID raw) = encodeULID raw ! 0" by (rule hd_conv_nth)
  ultimately show ?thesis
    using first_char digit_of_encode [of 0 raw] by (simp add: chars_ok_def list_all_length)
qed

lemma decode_encode:
  assumes "raw_ok raw"
  shows "decodeStreamID (encodeULID raw) = Inr raw"
proof -
  have "raw_bit raw o' \<longleftrightarrow> bit (digit_of (encodeULID raw ! ((o' + 2) div 5))) (4 - (o' + 2) mod 5)" if "o' < 128" for o'
  proof -
    have k: "(o' + 2) div 5 < 26" using that by linarith
    have "enc_bit raw ((o' + 2) div 5 * 5 + (o' + 2) mod 5) \<longleftrightarrow> raw_bit raw o'"
      unfolding div_mult_mod_eq by (simp add: enc_bit_def)
    then show ?thesis using ulid_char_bit [of "(o' + 2) mod 5" raw "(o' + 2) div 5"] digit_of_encode [OF k] by simp
  qed
  with assms encode_chars_ok show ?thesis by (simp add: decode_spec)
qed

lemma digit_of_less: "index_byte crockfordLower c \<noteq> None \<Longrightarrow> digit_of c < 32 \<and> crockfordLower ! digit_of c = c"
  using index_byte_Some [of crockfordLower c] crockford_facts(2) by (auto simp: digit_of_def)

lemma encode_decode:
  assumes "decodeStreamID s = Inr raw"
  shows "encodeULID raw = s"
proof (rule nth_equalityI)
  note sp = iffD1 [OF decode_spec assms]
  show "length (encodeULID raw) = length s" using sp by simp
  fix k assume "k < length (encodeULID raw)"
  then have k: "k < 26" by simp
  have ok: "digit_of (s ! k) < 32" "crockfordLower ! digit_of (s ! k) = s ! k"
    using sp k digit_of_less [of "s ! k"] by (auto simp: chars_ok_def list_all_length)
  have "ulid_char raw k = digit_of (s ! k)"
  proof (rule bits5_eqI [OF ulid_char_less ok(1)])
    fix j :: nat assume j: "j < 5"
    show "bit (ulid_char raw k) (4 - j) \<longleftrightarrow> bit (digit_of (s ! k)) (4 - j)"
    proof (cases "2 \<le> k * 5 + j")
      case True
      define o' where "o' = k * 5 + j - 2"
      have "o' < 128" "o' + 2 = k * 5 + j" using True k j by (auto simp: o'_def)
      moreover have "(k * 5 + j) div 5 = k" "(k * 5 + j) mod 5 = j" using j by simp_all
      ultimately have "raw_bit raw o' \<longleftrightarrow> bit (digit_of (s ! k)) (4 - j)" using sp by simp
      with True ulid_char_bit [OF j] show ?thesis by (simp add: enc_bit_def o'_def)
    next
      case False
      then have kj: "k = 0" "j < 2" by auto
      have "hd s = s ! 0" using sp by (cases s) auto
      then have "digit_of (s ! 0) \<le> 7" using sp by (auto simp: chars_ok_def)
      then have "\<not> bit (digit_of (s ! 0)) (4 - j)" using kj(2) by (auto simp: bit_iff_odd less_2_cases_iff div_eq_0_iff)
      with False ulid_char_bit [OF j, of raw k] kj show ?thesis by (simp add: enc_bit_def)
    qed
  qed
  with ok(2) k show "encodeULID raw ! k = s ! k" by (simp add: nth_encode)
qed

section \<open>Positional values and order\<close>

definition val :: "nat \<Rightarrow> nat list \<Rightarrow> nat" where
  "val B xs = foldl (\<lambda>v x. v * B + x) 0 xs"

lemma val_snoc: "val B (xs @ [x]) = val B xs * B + x"
  by (simp add: val_def)

lemma val_append: "val B (xs @ ys) = val B xs * B ^ length ys + val B ys"
proof (induction ys rule: rev_induct)
  case (snoc y ys)
  have "val B (xs @ ys @ [y]) = val B (xs @ ys) * B + y" using val_snoc [of B "xs @ ys" y] by simp
  with snoc show ?case by (simp add: val_snoc algebra_simps)
qed (simp add: val_def)

lemma val_Cons: "val B (x # xs) = x * B ^ length xs + val B xs"
  using val_append [of B "[x]" xs] by (simp add: val_def)

lemma val_less: "list_all (\<lambda>x. x < B) xs \<Longrightarrow> val B xs < B ^ length xs"
proof (induction xs rule: rev_induct)
  case (snoc x xs)
  then have "val B xs + 1 \<le> B ^ length xs" "x < B" by simp_all
  then have "(val B xs + 1) * B \<le> B ^ length xs * B" by (intro mult_right_mono) auto
  with \<open>x < B\<close> show ?case by (simp add: val_snoc algebra_simps)
qed (simp add: val_def)

lemma val_chunks:
  "val (B ^ k) (map (\<lambda>j. val B (map f [k * j..<k * j + k])) [0..<n]) = val B (map f [0..<k * n])"
proof (induction n)
  case (Suc n)
  have "[0..<k * Suc n] = [0..<k * n] @ [k * n..<k * n + k]"
    by (metis add.commute le_add1 mult_Suc_right upt_add_eq_append zero_le)
  then show ?case by (simp add: Suc val_append val_snoc) (simp add: val_def)
qed (simp add: val_def)

lemma val_bits: "val 2 (map of_bool bs) = horner_sum of_bool 2 (rev bs)"
proof (induction bs rule: rev_induct)
  case (snoc b bs)
  then show ?case by (simp add: val_snoc mult.commute)
qed (simp add: val_def)

lemma val_byte:
  assumes "x < 256"
  shows "val 2 (map (\<lambda>i. of_bool (bit x (7 - i))) [0..<8]) = x"
proof -
  have r: "rev (map (\<lambda>i. bit x (7 - i)) [0..<8]) = map (bit x) [0..<8]"
    by (rule nth_equalityI) (auto simp: rev_nth)
  have "val 2 (map of_bool (map (\<lambda>i. bit x (7 - i)) [0..<8])) = take_bit 8 x"
    unfolding val_bits r horner_sum_bit_eq_take_bit ..
  also have "take_bit 8 x = x" using assms by (simp add: take_bit_nat_eq_self_iff)
  finally show ?thesis by (simp add: comp_def del: upt_Suc upt_rec_numeral)
qed

lemma raw_value:
  assumes "raw_ok raw"
  shows "val 256 raw = val 2 (map (\<lambda>i. of_bool (raw_bit raw i)) [0..<128])"
proof -
  have l: "length raw = 16" using assms by (simp add: raw_ok_def ulidByteLength_def)
  have b: "val 2 (map (\<lambda>i. of_bool (raw_bit raw i)) [8 * j..<8 * j + 8]) = raw ! j" if "j < 16" for j
  proof -
    have "map (\<lambda>i. of_bool (raw_bit raw i) :: nat) [8 * j..<8 * j + 8] = map (\<lambda>i. of_bool (bit (raw ! j) (7 - i))) [0..<8]"
      by (rule nth_equalityI) (auto simp: raw_bit_def)
    moreover have "raw ! j < 256" using assms that l by (simp add: raw_ok_def list_all_length)
    ultimately show ?thesis using val_byte [of "raw ! j"] by argo
  qed
  have "map (\<lambda>j. val 2 (map (\<lambda>i. of_bool (raw_bit raw i)) [8 * j..<8 * j + 8])) [0..<16] = map ((!) raw) [0..<16]"
    by (rule map_cong) (use b in auto)
  also have "\<dots> = raw" using map_nth [of raw] l by simp
  finally show ?thesis using val_chunks [of 2 8 "\<lambda>i. of_bool (raw_bit raw i)" 16] by simp
qed

lemma digits_value: "val 32 (map (ulid_char raw) [0..<26]) = val 2 (map (\<lambda>i. of_bool (raw_bit raw i)) [0..<128])"
proof -
  let ?e = "\<lambda>i. of_bool (enc_bit raw i) :: nat"
  have c: "ulid_char raw k = val 2 (map ?e [5 * k..<5 * k + 5])" for k
  proof -
    have "map ?e [5 * k..<5 * k + 5] = [?e (k * 5), ?e (k * 5 + 1), ?e (k * 5 + 2), ?e (k * 5 + 3), ?e (k * 5 + 4)]"
      by (simp add: upt_conv_Cons mult.commute eval_nat_numeral)
    then show ?thesis by (simp only: ulid_char_bits) (simp add: val_def)
  qed
  have "val 32 (map (ulid_char raw) [0..<26]) = val 2 (map ?e [0..<130])"
    using val_chunks [of 2 5 ?e 26] by (simp add: c [abs_def] del: upt_Suc upt_rec_numeral)
  also have "[0..<130] = [0, 1] @ map (\<lambda>i. i + 2) [0..<128 :: nat]"
    by (rule nth_equalityI) (auto simp: nth_Cons' simp del: upt_Suc upt_rec_numeral)
  also have "map ?e ([0, 1] @ map (\<lambda>i. i + 2) [0..<128]) = [0, 0] @ map (\<lambda>i. of_bool (raw_bit raw i)) [0..<128]"
    by (simp add: enc_bit_def comp_def del: upt_Suc upt_rec_numeral)
  also have "val 2 \<dots> = val 2 (map (\<lambda>i. of_bool (raw_bit raw i)) [0..<128])"
    by (simp only: val_append) (simp add: val_def)
  finally show ?thesis .
qed

lemma lex_of_val:
  assumes "length xs = length ys" and "list_all (\<lambda>x. x < B) xs" and "list_all (\<lambda>x. x < B) ys"
    and "val B xs < val B ys"
  shows "xs < ys"
  using assms
proof (induction xs ys rule: list_induct2)
  case (Cons x xs y ys)
  show ?case
  proof (cases "x = y")
    case True
    with Cons show ?thesis by (simp add: val_Cons)
  next
    case False
    have "x < y"
    proof (rule ccontr)
      assume "\<not> x < y"
      with False have "(y + 1) * B ^ length ys \<le> x * B ^ length ys" by (intro mult_right_mono) auto
      with Cons val_less [of B ys] show False by (simp add: val_Cons algebra_simps)
    qed
    then show ?thesis by simp
  qed
qed (simp add: val_def)

lemma map_lex_mono:
  fixes f :: "nat \<Rightarrow> char"
  assumes "length xs = length ys" and "xs < ys" and "list_all (\<lambda>x. x < B) xs" and "list_all (\<lambda>x. x < B) ys"
    and "\<And>x y. x < y \<Longrightarrow> y < B \<Longrightarrow> f x < f y"
  shows "map f xs < map f ys"
  using assms(1-4) by (induction xs ys rule: list_induct2) (auto simp: assms(5))

lemma crockford_sorted: "sorted_wrt (<) crockfordLower"
  by (simp add: crockfordLower_def less_char_def)

lemma encode_mono:
  assumes "raw_ok a" and "raw_ok b" and "val 256 a < val 256 b"
  shows "encodeULID a < encodeULID b"
proof -
  let ?d = "\<lambda>r. map (ulid_char r) [0..<26]"
  have e: "encodeULID r = map ((!) crockfordLower) (?d r)" for r
    by (simp add: encodeULID_def StreamIDLength_def del: upt_Suc upt_rec_numeral)
  have l: "list_all (\<lambda>x. x < 32) (?d r)" for r by (simp add: list_all_iff ulid_char_less)
  have "?d a < ?d b"
    by (rule lex_of_val [OF _ l l]) (use assms raw_value digits_value in simp_all)
  then show ?thesis unfolding e
    by (intro map_lex_mono [OF _ _ l l]) (use sorted_wrt_nth_less [OF crockford_sorted] crockford_facts in auto)
qed

section \<open>The generator's steps\<close>

lemma increment_spec:
  assumes "list_all (\<lambda>b. b < 256) e" and "n \<le> length e"
  shows "let (e', ok) = increment_loop e n in
     length e' = length e \<and> list_all (\<lambda>b. b < 256) e' \<and> drop n e' = drop n e
     \<and> (ok \<longrightarrow> val 256 (take n e') = val 256 (take n e) + 1)
     \<and> (\<not> ok \<longleftrightarrow> take n e = replicate n 255)"
  using assms
proof (induction n arbitrary: e)
  case (Suc n)
  let ?e = "e[n := (e ! n + 1) mod 256]"
  have rs: "replicate (Suc n) (255 :: nat) = replicate n 255 @ [255]" by (simp add: replicate_append_same)
  have n: "n < length e" and b: "e ! n < 256" using Suc.prems by (auto simp: list_all_length)
  have t: "take (Suc n) e = take n e @ [e ! n]" using n by (simp add: take_Suc_conv_app_nth)
  have ok: "list_all (\<lambda>b. b < 256) ?e"
    using Suc.prems n by (auto simp: list_all_length nth_list_update)
  show ?case
  proof (cases "e ! n = 255")
    case False
    then have x: "(e ! n + 1) mod 256 = e ! n + 1" using b by simp
    have "take (Suc n) ?e = take n e @ [e ! n + 1]" using n x by (simp add: take_Suc_conv_app_nth)
    moreover have "take n e @ [e ! n] \<noteq> replicate (Suc n) 255"
      using False unfolding rs by simp
    ultimately show ?thesis using ok n x t by (simp add: val_snoc Let_def)
  next
    case True
    obtain e' k where r: "increment_loop ?e n = (e', k)" by fastforce
    with Suc.IH [OF ok] n have ih: "length e' = length e" "list_all (\<lambda>b. b < 256) e'" "drop n e' = drop n ?e"
      "k \<Longrightarrow> val 256 (take n e') = val 256 (take n e) + 1" "\<not> k \<longleftrightarrow> take n e = replicate n 255" by simp_all
    have z: "e' ! n = 0"
      using arg_cong [OF ih(3), of hd] n True ih(1) by (simp add: hd_drop_conv_nth)
    have "take (Suc n) e' = take n e' @ [0]" using n z ih(1) by (simp add: take_Suc_conv_app_nth)
    moreover have "drop (Suc n) e' = drop (Suc n) e"
      using arg_cong [OF ih(3), of "drop 1"] by (simp add: drop_drop)
    moreover have "take n e @ [255] = replicate (Suc n) 255 \<longleftrightarrow> take n e = replicate n 255"
      unfolding rs by simp
    ultimately show ?thesis using True r ih n t by (simp add: val_snoc Let_def)
  qed
qed simp

lemma time_loop_spec:
  assumes "list_all (\<lambda>b. b < 256) raw" and "n \<le> length raw"
  shows "length (time_loop n ms raw) = length raw \<and> list_all (\<lambda>b. b < 256) (time_loop n ms raw)
     \<and> drop n (time_loop n ms raw) = drop n raw \<and> val 256 (take n (time_loop n ms raw)) = ms mod 256 ^ n"
  using assms
proof (induction n arbitrary: ms raw)
  case (Suc n)
  let ?r = "raw[n := ms mod 256]"
  let ?t = "time_loop n (ms div 256) ?r"
  have n: "n < length raw" using Suc.prems by simp
  have ok: "list_all (\<lambda>b. b < 256) ?r" using Suc.prems n by (auto simp: list_all_length nth_list_update)
  have ih: "length ?t = length raw" "list_all (\<lambda>b. b < 256) ?t" "drop n ?t = drop n ?r"
    "val 256 (take n ?t) = ms div 256 mod 256 ^ n" using Suc.IH [OF ok, of "ms div 256"] n by simp_all
  have "hd (drop n ?t) = hd (drop n ?r)" using ih(3) by simp
  then have "?t ! n = ms mod 256" using n ih(1) by (simp add: hd_drop_conv_nth)
  then have "take (Suc n) ?t = take n ?t @ [ms mod 256]" using n ih(1) by (simp add: take_Suc_conv_app_nth)
  moreover have "drop (Suc n) ?t = drop (Suc n) raw"
    using arg_cong [OF ih(3), of "drop 1"] by (simp add: drop_drop)
  moreover have "ms div 256 mod 256 ^ n * 256 + ms mod 256 = ms mod 256 ^ Suc n"
    using mod_mult2_eq [of ms 256 "256 ^ n"] by simp
  ultimately show ?case using ih by (simp add: val_snoc)
qed (simp add: val_def)

lemma ulid_raw_spec:
  assumes "ms \<le> maxULIDTime" and "length e = ulidEntropyLen" and "list_all (\<lambda>b. b < 256) e"
  shows "raw_ok (ulid_raw ms e)" and "val 256 (ulid_raw ms e) = ms * 2 ^ 80 + val 256 e"
    and "val 256 (take ulidTimeBytes (ulid_raw ms e)) = ms"
proof -
  let ?t = "take ulidTimeBytes (time_loop ulidTimeBytes ms (replicate ulidByteLength 0))"
  have t: "length ?t = 6" "list_all (\<lambda>b. b < 256) ?t" "val 256 ?t = ms mod 256 ^ 6"
    using time_loop_spec [of "replicate ulidByteLength 0" ulidTimeBytes ms]
    by (auto simp: ulid_lengths list_all_iff dest: in_set_takeD)
  have m: "ms mod 256 ^ 6 = ms" using assms(1) by (simp add: maxULIDTime_def)
  show "raw_ok (ulid_raw ms e)" using t assms by (simp add: ulid_raw_def raw_ok_def ulid_lengths)
  have u: "ulid_raw ms e = ?t @ e" by (simp add: ulid_raw_def)
  show "val 256 (ulid_raw ms e) = ms * 2 ^ 80 + val 256 e"
    unfolding u val_append t(3) m using assms(2) by (simp add: ulid_lengths)
  have "take ulidTimeBytes (ulid_raw ms e) = ?t" using t(1) by (simp add: u ulid_lengths)
  then show "val 256 (take ulidTimeBytes (ulid_raw ms e)) = ms" using t(3) m by simp
qed

lemma timestamp_encode:
  assumes "raw_ok raw"
  shows "id_Timestamp (encodeULID raw) = Inr (val 256 (take ulidTimeBytes raw))"
proof -
  have "map ((!) raw) [0..<ulidTimeBytes] = take ulidTimeBytes raw"
    using assms by (intro nth_equalityI) (auto simp: raw_ok_def ulid_lengths)
  then have "foldl (\<lambda>v x. v * 256 + x) 0 (take ulidTimeBytes raw) = foldl (\<lambda>ms index. ms * 256 + raw ! index) 0 [0..<ulidTimeBytes]"
    by (metis foldl_map)
  then show ?thesis using decode_encode [OF assms] by (simp add: id_Timestamp_def val_def)
qed

text \<open>A generator whose fields are in range, and the number its last identifier spells.\<close>

definition gen_ok :: "IDGenerator \<Rightarrow> bool" where
  "gen_ok g \<longleftrightarrow> g_lastMillis g \<le> maxULIDTime \<and> length (g_lastEntropy g) = ulidEntropyLen
     \<and> list_all (\<lambda>b. b < 256) (g_lastEntropy g)"

definition gen_last :: "IDGenerator \<Rightarrow> nat list" where
  "gen_last g = ulid_raw (g_lastMillis g) (g_lastEntropy g)"

definition read_ok :: "nat list option \<Rightarrow> bool" where
  "read_ok r \<longleftrightarrow> (case r of None \<Rightarrow> True | Some e \<Rightarrow> length e = ulidEntropyLen \<and> list_all (\<lambda>b. b < 256) e)"

lemma gen_last_spec:
  assumes "gen_ok g"
  shows "raw_ok (gen_last g)" and "val 256 (gen_last g) = g_lastMillis g * 2 ^ 80 + val 256 (g_lastEntropy g)"
    and "id_Timestamp (encodeULID (gen_last g)) = Inr (g_lastMillis g)"
  using assms ulid_raw_spec timestamp_encode unfolding gen_ok_def gen_last_def by auto

lemma id_New_step:
  assumes "gen_ok g" and "read_ok r" and "id_New g now r = (res, g')"
  shows "gen_ok g'" and "\<And>x. res = Inl x \<Longrightarrow> g' = g"
    and "\<And>s. res = Inr s \<Longrightarrow> s = encodeULID (gen_last g') \<and> g_initialized g' \<and> now \<le> int (g_lastMillis g')
           \<and> (g_initialized g \<longrightarrow> val 256 (gen_last g) < val 256 (gen_last g'))"
proof -
  obtain e k where inc: "incrementEntropy (g_lastEntropy g) = (e, k)" by fastforce
  have i: "length e = ulidEntropyLen" "list_all (\<lambda>b. b < 256) e" "k \<Longrightarrow> val 256 e = val 256 (g_lastEntropy g) + 1"
    using increment_spec [of "g_lastEntropy g" "length (g_lastEntropy g)"] assms(1) inc
    by (auto simp: incrementEntropy_def gen_ok_def)
  consider (bad) "now < 0 \<or> nat now > maxULIDTime"
    | (fresh) "0 \<le> now" "nat now \<le> maxULIDTime" "\<not> g_initialized g \<or> nat now > g_lastMillis g"
    | (again) "0 \<le> now" "nat now \<le> maxULIDTime" "g_initialized g" "nat now \<le> g_lastMillis g" by linarith
  then have "gen_ok g' \<and> (\<forall>x. res = Inl x \<longrightarrow> g' = g)
      \<and> (\<forall>s. res = Inr s \<longrightarrow> s = encodeULID (gen_last g') \<and> g_initialized g' \<and> now \<le> int (g_lastMillis g')
           \<and> (g_initialized g \<longrightarrow> val 256 (gen_last g) < val 256 (gen_last g')))"
  proof cases
    case bad
    with assms show ?thesis by (auto simp: id_New_def)
  next
    case fresh
    show ?thesis
    proof (cases r)
      case None
      with fresh assms show ?thesis by (auto simp: id_New_def)
    next
      case (Some ent)
      with fresh assms have g: "g' = \<lparr>g_initialized = True, g_lastMillis = nat now, g_lastEntropy = ent\<rparr>"
          "res = Inr (encodeULID (gen_last g'))" by (auto simp: id_New_def gen_last_def)
      with fresh Some assms(2) have ok: "gen_ok g'" by (simp add: gen_ok_def read_ok_def)
      have "val 256 (gen_last g) < val 256 (gen_last g')" if "g_initialized g"
      proof -
        have "g_lastMillis g + 1 \<le> nat now" using fresh that by simp
        then have "(g_lastMillis g + 1) * 2 ^ 80 \<le> nat now * 2 ^ 80" by (rule mult_right_mono) simp
        moreover have "val 256 (g_lastEntropy g) < 2 ^ 80"
          using val_less [of 256 "g_lastEntropy g"] assms(1) by (simp add: gen_ok_def ulid_lengths)
        ultimately show ?thesis using gen_last_spec(2) [OF ok] gen_last_spec(2) [OF assms(1)] g(1) by simp
      qed
      with g ok fresh show ?thesis by simp
    qed
  next
    case again
    show ?thesis
    proof (cases k)
      case True
      with again assms inc have g: "g' = g\<lparr>g_initialized := True, g_lastEntropy := e\<rparr>"
          "res = Inr (encodeULID (gen_last g'))" by (auto simp: id_New_def gen_last_def)
      have ok: "gen_ok g'" using g i assms(1) by (simp add: gen_ok_def)
      show ?thesis
        using gen_last_spec(2) [OF ok] gen_last_spec(2) [OF assms(1)] g i(3) [OF True] ok again by simp
    next
      case False
      with again assms inc show ?thesis by (auto simp: id_New_def)
    qed
  qed
  then show "gen_ok g'" and "\<And>x. res = Inl x \<Longrightarrow> g' = g"
    and "\<And>s. res = Inr s \<Longrightarrow> s = encodeULID (gen_last g') \<and> g_initialized g' \<and> now \<le> int (g_lastMillis g')
           \<and> (g_initialized g \<longrightarrow> val 256 (gen_last g) < val 256 (gen_last g'))" by blast+
qed

text \<open>A sequence of calls of \<open>New\<close> on one generator (they are serialised by its mutex): each
  takes a clock reading and the outcome of reading the entropy source. The identifiers it returns, in
  order.\<close>

fun id_run :: "IDGenerator \<Rightarrow> (int \<times> nat list option) list \<Rightarrow> bytes list" where
  "id_run g [] = []"
| "id_run g ((now, r) # calls) =
     (case id_New g now r of
        (Inl _, g') \<Rightarrow> id_run g' calls
      | (Inr s, g') \<Rightarrow> s # id_run g' calls)"

lemma encode_valid: "raw_ok raw \<Longrightarrow> id_Validate (encodeULID raw)"
  using decode_encode by (simp add: id_Validate_def)

lemma id_run_ordered:
  assumes "gen_ok g" and "list_all (\<lambda>(now, r). read_ok r) calls"
  shows "sorted_wrt (<) (id_run g calls) \<and> list_all id_Validate (id_run g calls)
     \<and> (g_initialized g \<longrightarrow> list_all (\<lambda>s. encodeULID (gen_last g) < s) (id_run g calls))"
  using assms
proof (induction g calls rule: id_run.induct)
  case (2 g now r calls)
  obtain res g' where n: "id_New g now r = (res, g')" by fastforce
  have r: "read_ok r" and rest: "list_all (\<lambda>(now, r). read_ok r) calls" using 2 by simp_all
  note st = id_New_step [OF \<open>gen_ok g\<close> r n]
  show ?case
  proof (cases res)
    case (Inl x)
    with 2 n st rest show ?thesis by simp
  next
    case (Inr s)
    have ih: "sorted_wrt (<) (id_run g' calls)" "list_all id_Validate (id_run g' calls)"
        "list_all (\<lambda>t. s < t) (id_run g' calls)"
      using 2 n st rest Inr by auto
    have s: "s = encodeULID (gen_last g')" using st(3) Inr by blast
    have v: "id_Validate s" unfolding s by (intro encode_valid gen_last_spec(1) st(1))
    have lt: "encodeULID (gen_last g) < s" if "g_initialized g"
      unfolding s using st(3) [OF Inr] that by (intro encode_mono gen_last_spec(1) st(1) \<open>gen_ok g\<close>) auto
    have "list_all (\<lambda>t. encodeULID (gen_last g) < t) (id_run g' calls)" if "g_initialized g"
      using ih(3) lt [OF that] by (auto simp: list_all_iff)
    with ih v lt n Inr show ?thesis by (auto simp: list_all_iff)
  qed
qed simp

lemma gen_ok_new: "gen_ok NewIDGenerator"
  by (simp add: gen_ok_def NewIDGenerator_def ulid_lengths list_all_iff)

lemma decode_chars_error: "decode_chars s k raw = Inl x \<Longrightarrow> x = ErrInvalidStreamID"
  by (induction s arbitrary: k raw) (auto split: option.splits if_splits)

lemma decode_error: "decodeStreamID s = Inl x \<Longrightarrow> x = ErrInvalidStreamID"
  by (auto simp: decodeStreamID_def dest: decode_chars_error split: if_splits)

lemma increment_loop_numeral:
  "increment_loop e (numeral k) =
     (let n = pred_numeral k; e = e[n := (e ! n + 1) mod 256] in if e ! n \<noteq> 0 then (e, True) else increment_loop e n)"
  unfolding numeral_eq_Suc [of k] increment_loop.simps(2) Let_def ..

text \<open>C26: the accepted stream identifiers are exactly the encodings of 16-byte values, and decoding
  and encoding are inverse: every identifier has one spelling, which \<open>ParseStreamID\<close> returns unchanged.\<close>

theorem stream_id_canonical:
  "(id_Validate s \<longleftrightarrow> (\<exists>raw. raw_ok raw \<and> encodeULID raw = s))
     \<and> (raw_ok raw \<longrightarrow> decodeStreamID (encodeULID raw) = Inr raw)
     \<and> (ParseStreamID s = (if id_Validate s then Inr s else Inl ErrInvalidStreamID))"
proof -
  have "raw_ok q" if "decodeStreamID s = Inr q" for q
    using decode_spec that by blast
  then have v: "id_Validate s \<longleftrightarrow> (\<exists>raw. raw_ok raw \<and> encodeULID raw = s)"
    using encode_decode [of s] decode_encode by (cases "decodeStreamID s") (auto simp: id_Validate_def)
  have "ParseStreamID s = (if id_Validate s then Inr s else Inl ErrInvalidStreamID)"
    using decode_error [of s] by (auto simp: ParseStreamID_def id_Validate_def split: sum.splits)
  with v decode_encode show ?thesis by blast
qed

theorem stream_id_canonical_witness:
  "decodeStreamID (encodeULID (replicate 16 255)) = Inr (replicate 16 255)
     \<and> ParseStreamID ''01arz3ndektsv4rrffq69g5fau'' = Inl ErrInvalidStreamID"
proof -
  have "raw_ok (replicate 16 255)" by (simp add: raw_ok_def ulidByteLength_def list_all_iff)
  moreover have "\<not> id_Validate ''01arz3ndektsv4rrffq69g5fau''"
    by (simp add: id_Validate_def decodeStreamID_def ulid_lengths crockfordLower_def)
  ultimately show ?thesis
    using stream_id_canonical [of "''01arz3ndektsv4rrffq69g5fau''" "replicate 16 255"] by metis
qed

text \<open>C21: whatever the clock does (repeating, stepping back, leaving the range) and whichever entropy
  reads fail, the identifiers one generator returns are valid and strictly increasing as strings; in
  particular no identifier is issued twice.\<close>

theorem generated_ids_increase:
  assumes "list_all (\<lambda>(now, r). read_ok r) calls"
  shows "sorted_wrt (<) (id_run NewIDGenerator calls) \<and> distinct (id_run NewIDGenerator calls)
     \<and> list_all id_Validate (id_run NewIDGenerator calls)"
  using id_run_ordered [OF gen_ok_new assms] strict_sorted_iff by blast

theorem generated_ids_increase_witness:
  "length (id_run NewIDGenerator [(7, Some [255, 255, 255, 255, 255, 255, 255, 255, 255, 255]), (7, None), (6, None), (8, Some [255, 255, 255, 255, 255, 255, 255, 255, 255, 254]), (5, None)]) = 3
     \<and> sorted_wrt (<) (id_run NewIDGenerator [(7, Some [255, 255, 255, 255, 255, 255, 255, 255, 255, 255]), (7, None), (6, None), (8, Some [255, 255, 255, 255, 255, 255, 255, 255, 255, 254]), (5, None)])"
  using generated_ids_increase [of "[(7, Some [255, 255, 255, 255, 255, 255, 255, 255, 255, 255]), (7, None), (6, None), (8, Some [255, 255, 255, 255, 255, 255, 255, 255, 255, 254]), (5, None)]"]
  by (simp add: read_ok_def ulid_lengths id_New_def NewIDGenerator_def maxULIDTime_def incrementEntropy_def
      increment_loop_numeral)

text \<open>every outcome of \<open>New\<close>. It fails only on a clock outside the 48-bit range, on an entropy
  read error when a fresh millisecond needs entropy, or when the 80 bits of a millisecond are used up;
  a failure leaves the generator as it was. On success the identifier's timestamp is the clock reading,
  or the last millisecond used when the clock has not passed it.\<close>

theorem id_New_outcomes:
  assumes "gen_ok g" and "read_ok r"
  shows "case id_New g now r of (res, g') \<Rightarrow>
     gen_ok g' \<and>
     (case res of
        Inl ErrInvalidStreamID \<Rightarrow> g' = g \<and> (now < 0 \<or> now \<ge> 2 ^ 48)
      | Inl ErrEntropyRead \<Rightarrow> g' = g \<and> r = None \<and> (g_initialized g \<longrightarrow> now > int (g_lastMillis g))
      | Inl ErrStreamIDEntropyExhausted \<Rightarrow>
          g' = g \<and> now \<le> int (g_lastMillis g) \<and> g_lastEntropy g = replicate ulidEntropyLen 255
      | Inr s \<Rightarrow> id_Timestamp s = Inr (if g_initialized g then max (nat now) (g_lastMillis g) else nat now))"
proof -
  obtain e k where inc: "incrementEntropy (g_lastEntropy g) = (e, k)" by fastforce
  have l: "length (g_lastEntropy g) = ulidEntropyLen" using assms by (simp add: gen_ok_def)
  have k: "\<not> k \<longleftrightarrow> g_lastEntropy g = replicate ulidEntropyLen 255"
    using increment_spec [of "g_lastEntropy g" "length (g_lastEntropy g)"] assms(1) inc l
    by (auto simp: incrementEntropy_def gen_ok_def)
  obtain res g' where n: "id_New g now r = (res, g')" by fastforce
  note st = id_New_step [OF assms n]
  have t: "id_Timestamp s = Inr (g_lastMillis g')" if "res = Inr s" for s
    using st that gen_last_spec(3) by blast
  show ?thesis
    using n st(1) t inc k
    by (auto simp: id_New_def maxULIDTime_def split: if_splits option.splits)
qed

theorem id_New_outcomes_witness:
  "id_New \<lparr>g_initialized = True, g_lastMillis = 9, g_lastEntropy = [255, 255, 255, 255, 255, 255, 255, 255, 255, 255]\<rparr> 9 None
     = (Inl ErrStreamIDEntropyExhausted, \<lparr>g_initialized = True, g_lastMillis = 9, g_lastEntropy = [255, 255, 255, 255, 255, 255, 255, 255, 255, 255]\<rparr>)
   \<and> gen_ok (snd (id_New \<lparr>g_initialized = True, g_lastMillis = 9, g_lastEntropy = [255, 255, 255, 255, 255, 255, 255, 255, 255, 255]\<rparr> 9 None))"
  using id_New_outcomes [of "\<lparr>g_initialized = True, g_lastMillis = 9, g_lastEntropy = [255, 255, 255, 255, 255, 255, 255, 255, 255, 255]\<rparr>" None 9]
  by (simp add: read_ok_def gen_ok_def ulid_lengths id_New_def maxULIDTime_def incrementEntropy_def
      increment_loop_numeral list_all_iff)

end
