(* ===== verification/Go_Json.thy ===== *)
theory Go_Json
  imports Json_Prefix Sse "HOL-Library.AList" "HOL-Library.List_Lexorder" "HOL-Library.Char_ord"
begin

text \<open>
  The part of Go's \<open>encoding/json\<close> that the sources use: \<open>json.Valid\<close>, \<open>json.Unmarshal\<close> into
  structs, maps and raw messages, \<open>json.Marshal\<close> of strings and raw messages. Values are parsed
  into \<open>gojson\<close>, whose members and elements carry the raw bytes a \<open>json.RawMessage\<close> would receive.
  Unlike the validator of \<open>jsonprefix.go\<close> the library accepts any bytes above \<open>0x1F\<close> inside a
  string and replaces invalid UTF-8 when it decodes one. The parser recurses on fuel;
  \<open>json_fuel\<close> shows that twice the length of the input is enough.
\<close>

datatype gojson =
    JNull
  | JBool bool
  | JNumber bytes
  | JString bytes
  | JArray "(gojson \<times> bytes) list"
  | JObject "(bytes \<times> gojson \<times> bytes) list"

abbreviation QUOTE :: byte where "QUOTE \<equiv> CHR 0x22"
abbreviation BACKSLASH :: byte where "BACKSLASH \<equiv> CHR 0x5C"

section \<open>Runes and strings\<close>

text \<open>\<open>utf8.AppendRune\<close>.\<close>

definition encode_rune :: "nat \<Rightarrow> bytes" where
  "encode_rune r =
     (if r < 0x80 then [char_of r]
      else if r < 0x800 then [char_of (0xC0 + r div 64), char_of (0x80 + r mod 64)]
      else if (0xD800 \<le> r \<and> r < 0xE000) \<or> 0x10FFFF < r then [CHR 0xEF, CHR 0xBF, CHR 0xBD]
      else if r < 0x10000 then
        [char_of (0xE0 + r div 4096), char_of (0x80 + r div 64 mod 64), char_of (0x80 + r mod 64)]
      else [char_of (0xF0 + r div 262144), char_of (0x80 + r div 4096 mod 64),
            char_of (0x80 + r div 64 mod 64), char_of (0x80 + r mod 64)])"

definition hex_val :: "byte \<Rightarrow> nat" where
  "hex_val c = (if bv c \<le> 0x39 then bv c - 0x30 else if bv c \<le> 0x46 then bv c - 0x37 else bv c - 0x57)"

definition hex4 :: "bytes \<Rightarrow> nat" where
  "hex4 h = foldl (\<lambda>v c. 16 * v + hex_val c) 0 (take 4 h)"

definition is_hex4 :: "bytes \<Rightarrow> bool" where
  "is_hex4 h \<longleftrightarrow> 4 \<le> length h \<and> list_all isHex (take 4 h)"

text \<open>The scanner inside a string literal: the bytes up to the closing quote, still escaped.\<close>

fun scan_string :: "bytes \<Rightarrow> (bytes \<times> bytes) option" where
  "scan_string [] = None"
| "scan_string (c # cs) =
     (if c = QUOTE then Some ([], cs)
      else if c = BACKSLASH then
        (case cs of
           [] \<Rightarrow> None
         | e # es \<Rightarrow>
             if e = CHR ''u'' then
               (if is_hex4 es then map_option (apfst (\<lambda>b. c # e # take 4 es @ b)) (scan_string (drop 4 es)) else None)
             else if isSimpleJSONEscape e then map_option (apfst (\<lambda>b. c # e # b)) (scan_string es)
             else None)
      else if bv c < 0x20 then None
      else map_option (apfst (\<lambda>b. c # b)) (scan_string cs))"

declare scan_string.simps(2) [simp del]

text \<open>\<open>utf16.DecodeRune\<close> of a surrogate pair.\<close>

definition surrogate_pair :: "nat \<Rightarrow> nat \<Rightarrow> nat option" where
  "surrogate_pair r1 r2 =
     (if 0xD800 \<le> r1 \<and> r1 < 0xDC00 \<and> 0xDC00 \<le> r2 \<and> r2 < 0xE000
      then Some ((r1 - 0xD800) * 1024 + (r2 - 0xDC00) + 0x10000) else None)"

definition unescape :: "byte \<Rightarrow> byte" where
  "unescape e =
     (if e = CHR ''b'' then CHR 0x08 else if e = CHR ''f'' then CHR 0x0C
      else if e = CHR ''n'' then CHR 0x0A else if e = CHR ''r'' then CHR 0x0D
      else if e = CHR ''t'' then CHR 0x09 else e)"

lemma rune_drop_le: "Suc (length cs) - rune_size (c # cs) \<le> length cs"
  using rune_size_pos [of "c # cs"] by simp

text \<open>\<open>unquoteBytes\<close> on the body of a scanned literal.\<close>

function unquote :: "bytes \<Rightarrow> bytes" where
  "unquote s =
     (case s of
        [] \<Rightarrow> []
      | c # cs \<Rightarrow>
          if c = BACKSLASH then
            (case cs of
               [] \<Rightarrow> []
             | e # es \<Rightarrow>
                 if e = CHR ''u'' then
                   (let rr = hex4 es; rest = drop 4 es in
                    if 0xD800 \<le> rr \<and> rr < 0xE000 then
                      (case rest of
                         b # u # h \<Rightarrow>
                           (case (if b = BACKSLASH \<and> u = CHR ''u'' \<and> is_hex4 h then surrogate_pair rr (hex4 h) else None) of
                              Some dec \<Rightarrow> encode_rune dec @ unquote (drop 4 h)
                            | None \<Rightarrow> encode_rune RuneError @ unquote rest)
                       | _ \<Rightarrow> encode_rune RuneError @ unquote rest)
                    else encode_rune rr @ unquote rest)
                 else unescape e # unquote es)
          else if bv c < 0x80 then c # unquote cs
          else encode_rune (fst (decode_rune s)) @ unquote (drop (rune_size s) s))"
  by pat_completeness auto
termination
  by (relation "measure length")
     (auto simp: rune_drop_le le_imp_less_Suc less_Suc_eq_le dest: arg_cong [of _ _ length])

declare unquote.simps [simp del]

section \<open>Parsing\<close>

definition maxNestingDepth :: nat where
  "maxNestingDepth = 10000"

text \<open>The bytes a value occupies at the front of \<open>s\<close> when \<open>rest\<close> follows it.\<close>

definition raw_of :: "bytes \<Rightarrow> bytes \<Rightarrow> bytes" where
  "raw_of s rest = take (length s - length rest) s"

definition scan_literal :: "bytes \<Rightarrow> bytes \<Rightarrow> gojson \<Rightarrow> (gojson \<times> bytes) option" where
  "scan_literal l s v = (if take (length l) s = l then Some (v, drop (length l) s) else None)"

definition scan_scalar :: "bytes \<Rightarrow> (gojson \<times> bytes) option" where
  "scan_scalar s =
     (case s of
        [] \<Rightarrow> None
      | c # cs \<Rightarrow>
          if c = QUOTE then map_option (apfst (\<lambda>b. JString (unquote b))) (scan_string cs)
          else if c = CHR ''t'' then scan_literal ''true'' s (JBool True)
          else if c = CHR ''f'' then scan_literal ''false'' s (JBool False)
          else if c = CHR ''n'' then scan_literal ''null'' s JNull
          else if c = CHR ''-'' \<or> isDigit c then
            (case parseNumber s of (r, jsonPrefixComplete) \<Rightarrow> Some (JNumber (raw_of s r), r) | _ \<Rightarrow> None)
          else None)"

text \<open>The key of a member up to its value, and what follows an element or a member: \<open>Inl\<close> when the
  container closes, \<open>Inr\<close> when another item follows.\<close>

definition scan_key :: "bytes \<Rightarrow> (bytes \<times> bytes) option" where
  "scan_key s =
     (if s = [] \<or> hd s \<noteq> QUOTE then None
      else case scan_string (tl s) of
        None \<Rightarrow> None
      | Some (k, r) \<Rightarrow>
          (let a = skipWhitespace r in
           if a \<noteq> [] \<and> hd a = CHR '':'' then Some (unquote k, skipWhitespace (tl a)) else None))"

definition scan_next :: "byte \<Rightarrow> bytes \<Rightarrow> (bytes + bytes) option" where
  "scan_next close r =
     (let b = skipWhitespace r in
      if b = [] then None
      else if hd b = close then Some (Inl (tl b))
      else if hd b = CHR '','' then Some (Inr (skipWhitespace (tl b)))
      else None)"

fun json_value :: "nat \<Rightarrow> nat \<Rightarrow> bytes \<Rightarrow> (gojson \<times> bytes) option"
  and json_members :: "nat \<Rightarrow> nat \<Rightarrow> bytes \<Rightarrow> ((bytes \<times> gojson \<times> bytes) list \<times> bytes) option"
  and json_elements :: "nat \<Rightarrow> nat \<Rightarrow> bytes \<Rightarrow> ((gojson \<times> bytes) list \<times> bytes) option"
where
  "json_value 0 d s = None"
| "json_value (Suc n) d s =
     (if s \<noteq> [] \<and> hd s = CHR ''{'' then
        (if maxNestingDepth \<le> d then None
         else (let t = skipWhitespace (tl s) in
               if t \<noteq> [] \<and> hd t = CHR ''}'' then Some (JObject [], tl t)
               else map_option (apfst JObject) (json_members n (Suc d) t)))
      else if s \<noteq> [] \<and> hd s = CHR ''['' then
        (if maxNestingDepth \<le> d then None
         else (let t = skipWhitespace (tl s) in
               if t \<noteq> [] \<and> hd t = CHR '']'' then Some (JArray [], tl t)
               else map_option (apfst JArray) (json_elements n (Suc d) t)))
      else scan_scalar s)"
| "json_members 0 d s = None"
| "json_members (Suc n) d s =
     (case scan_key s of
        None \<Rightarrow> None
      | Some (k, v) \<Rightarrow>
          (case json_value n d v of
             None \<Rightarrow> None
           | Some (x, r) \<Rightarrow>
               (case scan_next (CHR ''}'') r of
                  None \<Rightarrow> None
                | Some (Inl e) \<Rightarrow> Some ([(k, x, raw_of v r)], e)
                | Some (Inr t) \<Rightarrow> map_option (apfst (\<lambda>ms. (k, x, raw_of v r) # ms)) (json_members n d t))))"
| "json_elements 0 d s = None"
| "json_elements (Suc n) d s =
     (case json_value n d s of
        None \<Rightarrow> None
      | Some (x, r) \<Rightarrow>
          (case scan_next (CHR '']'') r of
             None \<Rightarrow> None
           | Some (Inl e) \<Rightarrow> Some ([(x, raw_of s r)], e)
           | Some (Inr t) \<Rightarrow> map_option (apfst (\<lambda>xs. (x, raw_of s r) # xs)) (json_elements n d t)))"

declare json_value.simps [simp del] json_members.simps [simp del] json_elements.simps [simp del]

definition json_first :: "bytes \<Rightarrow> (gojson \<times> bytes) option" where
  "json_first s = (let t = skipWhitespace s in json_value (Suc (2 * length t)) 0 t)"

definition json_parse :: "bytes \<Rightarrow> gojson option" where
  "json_parse s = (case json_first s of Some (v, r) \<Rightarrow> if skipWhitespace r = [] then Some v else None | None \<Rightarrow> None)"

text \<open>\<open>json.Valid\<close>.\<close>

definition json_valid :: "bytes \<Rightarrow> bool" where
  "json_valid s \<longleftrightarrow> json_parse s \<noteq> None"

section \<open>Marshalling\<close>

definition hex_digit :: "nat \<Rightarrow> byte" where
  "hex_digit n = ''0123456789abcdef'' ! n"

text \<open>\<open>appendString\<close> with HTML escaping.\<close>

definition html_safe :: "byte \<Rightarrow> bool" where
  "html_safe c \<longleftrightarrow> 0x20 \<le> bv c \<and> bv c < 0x80 \<and> c \<notin> {QUOTE, BACKSLASH, CHR ''<'', CHR ''>'', CHR ''&''}"

definition quote_byte :: "byte \<Rightarrow> bytes" where
  "quote_byte c =
     (if html_safe c then [c]
      else if c = BACKSLASH \<or> c = QUOTE then [BACKSLASH, c]
      else if c = CHR 0x08 then [BACKSLASH, CHR ''b''] else if c = CHR 0x0C then [BACKSLASH, CHR ''f'']
      else if c = CHR 0x0A then [BACKSLASH, CHR ''n''] else if c = CHR 0x0D then [BACKSLASH, CHR ''r'']
      else if c = CHR 0x09 then [BACKSLASH, CHR ''t'']
      else [BACKSLASH, CHR ''u'', CHR ''0'', CHR ''0'', hex_digit (bv c div 16), hex_digit (bv c mod 16)])"

function quote_body :: "bytes \<Rightarrow> bytes" where
  "quote_body s =
     (case s of
        [] \<Rightarrow> []
      | c # cs \<Rightarrow>
          if bv c < 0x80 then quote_byte c @ quote_body cs
          else (case decode_rune s of (r, sz) \<Rightarrow>
            (if r = RuneError \<and> sz = 1 then BACKSLASH # ''ufffd''
             else if r = 0x2028 \<or> r = 0x2029 then BACKSLASH # ''u202'' @ [hex_digit (r mod 16)]
             else take sz s) @ quote_body (drop (rune_size s) s)))"
  by pat_completeness auto
termination
  by (relation "measure length") (auto simp: rune_drop_le less_Suc_eq_le)

declare quote_body.simps [simp del]

definition marshal_string :: "bytes \<Rightarrow> bytes" where
  "marshal_string s = QUOTE # quote_body s @ [QUOTE]"

text \<open>\<open>json.Compact\<close> with HTML escaping, as \<open>json.Marshal\<close> applies it to a raw message; the flag
  says whether the position is inside a string literal.\<close>

fun compact :: "bool \<Rightarrow> bytes \<Rightarrow> bytes" where
  "compact q [] = []"
| "compact False (c # cs) =
     (if isWhitespace c then compact False cs else c # compact (c = QUOTE) cs)"
| "compact True (c # cs) =
     (if c = QUOTE then c # compact False cs
      else if c = BACKSLASH then c # (case cs of [] \<Rightarrow> [] | e # es \<Rightarrow> e # compact True es)
      else if c = CHR ''<'' \<or> c = CHR ''>'' \<or> c = CHR ''&''
        then [BACKSLASH, CHR ''u'', CHR ''0'', CHR ''0'', hex_digit (bv c div 16), hex_digit (bv c mod 16)] @ compact True cs
      else if c = CHR 0xE2 \<and> take 1 cs = [CHR 0x80] \<and> (take 1 (drop 1 cs) = [CHR 0xA8] \<or> take 1 (drop 1 cs) = [CHR 0xA9])
        then BACKSLASH # ''u202'' @ [hex_digit (bv (cs ! 1) mod 16)] @ compact True (drop 2 cs)
      else c # compact True cs)"

definition marshal_raw :: "bytes \<Rightarrow> bytes option" where
  "marshal_raw s = (if json_valid s then Some (compact False s) else None)"

section \<open>Unmarshalling\<close>

text \<open>
  A decoder takes the variable's current contents, a parsed value and its raw bytes and gives the
  new contents and whether the value had the right type. As in the library a type error is recorded
  and decoding goes on; the caller sees the error at the end.
\<close>

type_synonym 'a decoder = "'a \<Rightarrow> gojson \<Rightarrow> bytes \<Rightarrow> 'a \<times> bool"

definition um_string :: "bytes decoder" where
  "um_string x v raw = (case v of JString s \<Rightarrow> (s, True) | JNull \<Rightarrow> (x, True) | _ \<Rightarrow> (x, False))"

definition um_bool :: "bool decoder" where
  "um_bool x v raw = (case v of JBool b \<Rightarrow> (b, True) | JNull \<Rightarrow> (x, True) | _ \<Rightarrow> (x, False))"

definition parse_uint64 :: "bytes \<Rightarrow> nat option" where
  "parse_uint64 t = (if t \<noteq> [] \<and> list_all isDigit t then ParseUint t else None)"

definition um_uint64 :: "nat decoder" where
  "um_uint64 x v raw =
     (case v of
        JNumber t \<Rightarrow> (case parse_uint64 t of Some n \<Rightarrow> (n, True) | None \<Rightarrow> (x, False))
      | JNull \<Rightarrow> (x, True) | _ \<Rightarrow> (x, False))"

text \<open>\<open>strconv.ParseInt\<close> at 64 bits.\<close>

definition parse_int64 :: "bytes \<Rightarrow> int option" where
  "parse_int64 t =
     (case t of
        [] \<Rightarrow> None
      | c # cs \<Rightarrow>
          (let neg = (c = CHR ''-''); ds = (if neg then cs else t) in
           if ds \<noteq> [] \<and> list_all isDigit ds \<and> dec_value ds \<le> (if neg then 2 ^ 63 else 2 ^ 63 - 1)
           then Some (if neg then - int (dec_value ds) else int (dec_value ds)) else None))"

definition um_int :: "int decoder" where
  "um_int x v raw =
     (case v of
        JNumber t \<Rightarrow> (case parse_int64 t of Some n \<Rightarrow> (n, True) | None \<Rightarrow> (x, False))
      | JNull \<Rightarrow> (x, True) | _ \<Rightarrow> (x, False))"

definition um_raw :: "bytes option decoder" where
  "um_raw x v raw = (Some raw, True)"

definition um_ptr :: "'a \<Rightarrow> 'a decoder \<Rightarrow> 'a option decoder" where
  "um_ptr zero f x v raw =
     (if v = JNull then (None, True)
      else apfst Some (f (case x of None \<Rightarrow> zero | Some y \<Rightarrow> y) v raw))"

text \<open>Key matching: an exact name wins, then the first name equal under \<open>foldName\<close>. The names in
  question are ASCII, so of all non-ASCII runes only the long s and the Kelvin sign fold into one.\<close>

fun fold_name :: "bytes \<Rightarrow> bytes" where
  "fold_name [] = []"
| "fold_name (c # cs) =
     (if 0x61 \<le> bv c \<and> bv c \<le> 0x7A then char_of (bv c - 32) # fold_name cs
      else if c = CHR 0xC5 \<and> take 1 cs = [CHR 0xBF] then CHR ''S'' # fold_name (drop 1 cs)
      else if c = CHR 0xE2 \<and> take 2 cs = [CHR 0x84, CHR 0xAA] then CHR ''K'' # fold_name (drop 2 cs)
      else c # fold_name cs)"

definition find_field :: "bytes list \<Rightarrow> bytes \<Rightarrow> bytes option" where
  "find_field names key =
     (if key \<in> set names then Some key else find (\<lambda>n. fold_name n = fold_name key) names)"

text \<open>A struct is given by its field names and the decoder each of them selects.\<close>

fun um_fields :: "bytes list \<Rightarrow> (bytes \<Rightarrow> 'r decoder) \<Rightarrow> 'r \<Rightarrow> (bytes \<times> gojson \<times> bytes) list \<Rightarrow> 'r \<times> bool" where
  "um_fields names field r [] = (r, True)"
| "um_fields names field r ((k, v, raw) # ms) =
     (case find_field names k of
        None \<Rightarrow> um_fields names field r ms
      | Some n \<Rightarrow>
          (case field n r v raw of (r', ok) \<Rightarrow>
             (case um_fields names field r' ms of (r'', ok') \<Rightarrow> (r'', ok \<and> ok'))))"

definition um_struct :: "bytes list \<Rightarrow> (bytes \<Rightarrow> 'r decoder) \<Rightarrow> 'r decoder" where
  "um_struct names field r v raw =
     (case v of JObject ms \<Rightarrow> um_fields names field r ms | JNull \<Rightarrow> (r, True) | _ \<Rightarrow> (r, False))"

text \<open>A slice: its backing elements and its length. Elements are decoded over whatever the backing
  array still holds from an earlier occurrence of the key.\<close>

type_synonym 'a goslice = "('a list \<times> nat) option"

fun um_elements :: "'a \<Rightarrow> 'a decoder \<Rightarrow> 'a list \<Rightarrow> (gojson \<times> bytes) list \<Rightarrow> 'a list \<times> bool" where
  "um_elements zero f old [] = (old, True)"
| "um_elements zero f old ((v, raw) # xs) =
     (case f (case old of [] \<Rightarrow> zero | y # _ \<Rightarrow> y) v raw of (x, ok) \<Rightarrow>
        (case um_elements zero f (tl old) xs of (ys, ok') \<Rightarrow> (x # ys, ok \<and> ok')))"

definition um_slice :: "'a \<Rightarrow> 'a decoder \<Rightarrow> 'a goslice decoder" where
  "um_slice zero f sl v raw =
     (case v of
        JNull \<Rightarrow> (None, True)
      | JArray [] \<Rightarrow> (Some ([], 0), True)
      | JArray xs \<Rightarrow>
          (case um_elements zero f (case sl of None \<Rightarrow> [] | Some (b, _) \<Rightarrow> b) xs of
             (b, ok) \<Rightarrow> (Some (b, length xs), ok))
      | _ \<Rightarrow> (sl, False))"

definition slice_list :: "'a goslice \<Rightarrow> 'a list" where
  "slice_list sl = (case sl of None \<Rightarrow> [] | Some (b, n) \<Rightarrow> take n b)"

text \<open>\<open>map[string]json.RawMessage\<close> (\<open>None\<close> the nil map) as an association list with distinct keys: the
  last occurrence of a key stays. \<open>json.Marshal\<close> writes the keys in byte order.\<close>

type_synonym raw_map = "(bytes \<times> bytes) list"

definition um_map :: "raw_map option decoder" where
  "um_map m v raw =
     (case v of
        JObject ms \<Rightarrow> (Some (foldl (\<lambda>m (k, v, raw). AList.update k raw m) (case m of None \<Rightarrow> [] | Some m \<Rightarrow> m) ms), True)
      | JNull \<Rightarrow> (None, True)
      | _ \<Rightarrow> (m, False))"

fun join_with :: "bytes \<Rightarrow> bytes list \<Rightarrow> bytes" where
  "join_with sep [] = []"
| "join_with sep [x] = x"
| "join_with sep (x # y # xs) = x @ sep @ join_with sep (y # xs)"

definition marshal_map :: "raw_map \<Rightarrow> bytes option" where
  "marshal_map m =
     (if list_all (json_valid \<circ> snd) m
      then Some (CHR ''{'' # join_with '','' (map (\<lambda>k. marshal_string k @ '':'' @ compact False (the (map_of m k)))
                   (sort (map fst m))) @ ''}'')
      else None)"

definition marshal_raws :: "bytes list \<Rightarrow> bytes option" where
  "marshal_raws xs =
     (if list_all json_valid xs then Some (CHR ''['' # join_with '','' (map (compact False) xs) @ '']'') else None)"

text \<open>\<open>json.Unmarshal\<close>: \<open>None\<close> for any error.\<close>

definition json_unmarshal :: "'a decoder \<Rightarrow> 'a \<Rightarrow> bytes \<Rightarrow> 'a option" where
  "json_unmarshal f zero s =
     (case json_parse s of
        None \<Rightarrow> None
      | Some v \<Rightarrow> (case f zero v (raw_of (skipWhitespace s) (snd (the (json_first s)))) of (x, ok) \<Rightarrow> if ok then Some x else None))"

section \<open>Fuel\<close>

lemma scan_string_eqs [simp]:
  "scan_string (QUOTE # cs) = Some ([], cs)"
  "scan_string [BACKSLASH] = None"
  "scan_string (BACKSLASH # CHR ''u'' # es) =
     (if is_hex4 es then map_option (apfst (\<lambda>b. BACKSLASH # CHR ''u'' # take 4 es @ b)) (scan_string (drop 4 es)) else None)"
  "e \<noteq> CHR ''u'' \<Longrightarrow> scan_string (BACKSLASH # e # es) =
     (if isSimpleJSONEscape e then map_option (apfst (\<lambda>b. BACKSLASH # e # b)) (scan_string es) else None)"
  "c \<noteq> QUOTE \<Longrightarrow> c \<noteq> BACKSLASH \<Longrightarrow> scan_string (c # cs) =
     (if bv c < 0x20 then None else map_option (apfst (\<lambda>b. c # b)) (scan_string cs))"
  by (subst scan_string.simps; simp)+

lemma scan_string_induct [case_names Nil quote slash u esc plain]:
  assumes "P []" and "\<And>cs. P (QUOTE # cs)" and "P [BACKSLASH]"
    and "\<And>es. P (drop 4 es) \<Longrightarrow> P (BACKSLASH # CHR ''u'' # es)"
    and "\<And>e es. e \<noteq> CHR ''u'' \<Longrightarrow> P es \<Longrightarrow> P (BACKSLASH # e # es)"
    and "\<And>c cs. c \<noteq> QUOTE \<Longrightarrow> c \<noteq> BACKSLASH \<Longrightarrow> P cs \<Longrightarrow> P (c # cs)"
  shows "P s"
proof (induction s rule: length_induct)
  case (1 s)
  then have d: "P (drop 4 es)" if "s = c # e # es" for c e es using that by simp
  show ?case
  proof (cases s)
    case (Cons c cs)
    consider "c = QUOTE" | "c = BACKSLASH" | "c \<noteq> QUOTE" "c \<noteq> BACKSLASH" by blast
    then show ?thesis
    proof cases
      case 2
      show ?thesis
      proof (cases cs)
        case (Cons e es)
        with \<open>s = c # cs\<close> 1 2 d assms(4,5) show ?thesis by (cases "e = CHR ''u''") auto
      qed (use 2 Cons assms(3) in simp)
    qed (use 1 Cons assms in auto)
  qed (use assms(1) in simp)
qed

lemma scan_string_shrinks: "scan_string s = Some (b, r) \<Longrightarrow> length r < length s"
proof (induction s arbitrary: b rule: scan_string_induct)
  case (u es)
  then show ?case by (fastforce split: if_splits)
qed (auto split: if_splits intro: less_SucI)

lemma parseNumber_shrinks:
  assumes "parseNumber s = (r, jsonPrefixComplete)"
  shows "length r < length s"
proof -
  have i: "length r' < length t" if n: "number_integer t = (r', jsonPrefixComplete)" for t r'
  proof -
    obtain c cs where t: "t = c # cs" using n by (cases t) (auto simp: number_integer_def)
    have "length (dropWhile isDigit t) \<le> length cs" if "isDigit c" using that t by (simp add: length_dropWhile_le)
    with n t number_fraction_le [of cs] number_fraction_le [of "dropWhile isDigit t"]
    show ?thesis by (auto simp: number_integer_def less_Suc_eq_le split: if_splits)
  qed
  show ?thesis
  proof (cases "s \<noteq> [] \<and> hd s = CHR ''-''")
    case True
    with assms i [of "tl s" r] show ?thesis by (auto simp: parseNumber_def)
  next
    case False
    with assms i [of s r] show ?thesis by (auto simp: parseNumber_def)
  qed
qed

lemma scan_scalar_shrinks: "scan_scalar s = Some (v, r) \<Longrightarrow> length r < length s"
  by (auto simp: scan_scalar_def scan_literal_def dest!: scan_string_shrinks parseNumber_shrinks
      split: list.splits if_splits prod.splits jsonPrefixStatus.splits)

lemma scan_key_shrinks: "scan_key s = Some (k, v) \<Longrightarrow> length v < length s"
proof -
  assume "scan_key s = Some (k, v)"
  then obtain b r where r: "scan_string (tl s) = Some (b, r)" "v = skipWhitespace (tl (skipWhitespace r))"
    by (auto simp: scan_key_def Let_def split: if_splits option.splits)
  have "length (skipWhitespace r) \<le> length r" "length v \<le> length (tl (skipWhitespace r))"
    using skip_le [of r] skip_le [of "tl (skipWhitespace r)"] r(2) by simp_all
  with scan_string_shrinks [OF r(1)] show ?thesis by simp
qed

lemma scan_next_shrinks:
  "scan_next c s = Some (Inl e) \<Longrightarrow> length e < length s"
  "scan_next c s = Some (Inr t) \<Longrightarrow> length t < length s"
proof -
  let ?b = "skipWhitespace s"
  have l: "length ?b \<le> length s" "?b \<noteq> [] \<Longrightarrow> length (tl ?b) < length s" "length (skipWhitespace (tl ?b)) \<le> length (tl ?b)"
    using skip_le [of s] skip_le [of "tl ?b"] by (auto simp: le_diff_conv2 Suc_le_eq)
  show "scan_next c s = Some (Inl e) \<Longrightarrow> length e < length s"
    using l by (auto simp: scan_next_def Let_def split: if_splits)
  show "scan_next c s = Some (Inr t) \<Longrightarrow> length t < length s"
    using l by (auto simp: scan_next_def Let_def split: if_splits)
qed

lemma json_shrinks:
  "json_value n d s = Some (v, r) \<Longrightarrow> length r < length s"
  "json_members n d s = Some (ms, r) \<Longrightarrow> length r < length s"
  "json_elements n d s = Some (xs, r) \<Longrightarrow> length r < length s"
proof (induction n d s and n d s and n d s arbitrary: v r and ms r and xs r
    rule: json_value_json_members_json_elements.induct)
  case (2 n d s)
  have t: "s \<noteq> [] \<Longrightarrow> length (skipWhitespace (tl s)) < length s"
    using skip_le [of "tl s"] by (cases s) auto
  show ?case
    using 2 t scan_scalar_shrinks [of s v r]
    by (auto simp: json_value.simps Let_def split: if_splits; fastforce)
next
  case (4 n d s)
  from "4.prems" obtain k x y r1 where k: "scan_key s = Some (k, y)" and x: "json_value n d y = Some (x, r1)"
    and nx: "scan_next (CHR ''}'') r1 \<noteq> None"
    by (auto simp: json_members.simps split: option.splits)
  have "length r1 < length s" using "4.IH"(1) [OF k _ x] scan_key_shrinks [OF k] by simp
  with "4.prems" k x nx "4.IH"(2) [OF k _ x] scan_next_shrinks [of "CHR ''}''" r1] show ?case
    by (auto simp: json_members.simps split: option.splits sum.splits; fastforce)
next
  case (6 n d s)
  from "6.prems" obtain x r1 where x: "json_value n d s = Some (x, r1)" and nx: "scan_next (CHR '']'') r1 \<noteq> None"
    by (auto simp: json_elements.simps split: option.splits)
  have "length r1 < length s" using "6.IH"(1) [OF x] by simp
  with "6.prems" x nx "6.IH"(2) [OF x] scan_next_shrinks [of "CHR '']''" r1] show ?case
    by (auto simp: json_elements.simps split: option.splits sum.splits; fastforce)
qed (auto simp: json_value.simps json_members.simps json_elements.simps)

lemma json_fuel:
  "2 * length s < n \<Longrightarrow> 2 * length s < m \<Longrightarrow> json_value n d s = json_value m d s"
  "2 * length s < n \<Longrightarrow> 2 * length s < m \<Longrightarrow> json_members n d s = json_members m d s"
  "2 * length s + 1 < n \<Longrightarrow> 2 * length s + 1 < m \<Longrightarrow> json_elements n d s = json_elements m d s"
proof (induction n d s and n d s and n d s arbitrary: m and m and m
    rule: json_value_json_members_json_elements.induct)
  case (2 n d s)
  obtain k where m: "m = Suc k" using "2.prems" by (cases m) auto
  let ?t = "skipWhitespace (tl s)"
  have t: "2 * length ?t + 1 < n" "2 * length ?t + 1 < k" if "s \<noteq> []"
    using skip_le [of "tl s"] that "2.prems" m by (cases s; simp)+
  have "json_members n (Suc d) ?t = json_members k (Suc d) ?t"
    if "s \<noteq> [] \<and> hd s = CHR ''{''" "\<not> maxNestingDepth \<le> d" "\<not> (?t \<noteq> [] \<and> hd ?t = CHR ''}'')"
    by (rule "2.IH"(1) [OF that(1,2) refl that(3)]) (use t that(1) in linarith)+
  moreover have "json_elements n (Suc d) ?t = json_elements k (Suc d) ?t"
    if "\<not> (s \<noteq> [] \<and> hd s = CHR ''{'')" "s \<noteq> [] \<and> hd s = CHR ''[''" "\<not> maxNestingDepth \<le> d"
      "\<not> (?t \<noteq> [] \<and> hd ?t = CHR '']'')"
    by (rule "2.IH"(2) [OF that(1-3) refl that(4)]) (use t that(2) in linarith)+
  ultimately show ?case unfolding m json_value.simps Let_def by presburger
next
  case (4 n d s)
  obtain k where m: "m = Suc k" using "4.prems" by (cases m) auto
  show ?case
  proof (cases "scan_key s")
    case (Some kv)
    obtain key y where kv: "kv = (key, y)" by fastforce
    have y: "2 * length y < n" "2 * length y < k" using scan_key_shrinks [of s key y] Some kv "4.prems" m by auto
    then have e: "json_value n d y = json_value k d y" using "4.IH"(1) Some kv by blast
    show ?thesis
    proof (cases "json_value n d y")
      case S: (Some xr)
      obtain x r where xr: "xr = (x, r)" by fastforce
      have r: "length r < length y" using json_shrinks(1) S xr by blast
      have "json_members n d t = json_members k d t" if "scan_next (CHR ''}'') r = Some (Inr t)" for t
        by (rule "4.IH"(2) [OF Some kv [symmetric] S xr [symmetric] that refl]) (use scan_next_shrinks(2) [OF that] r y in simp_all)
      then show ?thesis unfolding m json_members.simps
        using Some kv S xr e by (auto split: option.split sum.split)
    qed (use Some kv e in \<open>simp add: m json_members.simps\<close>)
  qed (simp add: m json_members.simps)
next
  case (6 n d s)
  obtain k where m: "m = Suc k" using "6.prems" by (cases m) auto
  have e: "json_value n d s = json_value k d s" by (rule "6.IH"(1)) (use "6.prems" m in simp_all)
  show ?case
  proof (cases "json_value n d s")
    case S: (Some xr)
    obtain x r where xr: "xr = (x, r)" by fastforce
    have r: "length r < length s" using json_shrinks(1) S xr by blast
    have "json_elements n d t = json_elements k d t" if "scan_next (CHR '']'') r = Some (Inr t)" for t
      by (rule "6.IH"(2) [OF S xr [symmetric] that refl]) (use scan_next_shrinks(2) [OF that] r "6.prems" m in simp_all)
    then show ?thesis unfolding m json_elements.simps
      using S xr e by (auto split: option.split sum.split)
  qed (use e in \<open>simp add: m json_elements.simps\<close>)
qed simp_all

section \<open>Strings: marshalling and decoding\<close>

lemma sextets:
  fixes a b c d :: nat
  assumes "b < 64" and "c < 64" and "d < 64"
  shows "(a * 64 + b) div 64 = a" "(a * 64 + b) mod 64 = b"
    "(a * 4096 + b * 64 + c) div 4096 = a" "(a * 4096 + b * 64 + c) div 64 mod 64 = b" "(a * 4096 + b * 64 + c) mod 64 = c"
    "(a * 262144 + b * 4096 + c * 64 + d) div 262144 = a" "(a * 262144 + b * 4096 + c * 64 + d) div 4096 mod 64 = b"
    "(a * 262144 + b * 4096 + c * 64 + d) div 64 mod 64 = c" "(a * 262144 + b * 4096 + c * 64 + d) mod 64 = d"
proof -
  have two: "(p * 64 + q) div 64 = p" "(p * 64 + q) mod 64 = q" if "q < 64" for p q :: nat
    using that by simp_all
  have e3: "a * 4096 + b * 64 + c = (a * 64 + b) * 64 + c" by simp
  have e4: "a * 262144 + b * 4096 + c * 64 + d = ((a * 64 + b) * 64 + c) * 64 + d" by simp
  have dd: "v div 4096 = v div 64 div 64" "v div 262144 = v div 64 div 64 div 64" for v :: nat
    by (simp_all add: div_mult2_eq [symmetric])
  show "(a * 64 + b) div 64 = a" "(a * 64 + b) mod 64 = b" using two assms by auto
  show "(a * 4096 + b * 64 + c) div 4096 = a" "(a * 4096 + b * 64 + c) div 64 mod 64 = b" "(a * 4096 + b * 64 + c) mod 64 = c"
    unfolding e3 dd by (simp_all only: two assms)
  show "(a * 262144 + b * 4096 + c * 64 + d) div 262144 = a" "(a * 262144 + b * 4096 + c * 64 + d) div 4096 mod 64 = b"
    "(a * 262144 + b * 4096 + c * 64 + d) div 64 mod 64 = c" "(a * 262144 + b * 4096 + c * 64 + d) mod 64 = d"
    unfolding e4 dd by (simp_all only: two assms)
qed

lemma encode_rune_eqs:
  "0x80 \<le> v \<Longrightarrow> v < 0x800 \<Longrightarrow> encode_rune v = [char_of (0xC0 + v div 64), char_of (0x80 + v mod 64)]"
  "0x800 \<le> v \<Longrightarrow> v < 0x10000 \<Longrightarrow> \<not> (0xD800 \<le> v \<and> v < 0xE000) \<Longrightarrow> encode_rune v =
     [char_of (0xE0 + v div 4096), char_of (0x80 + v div 64 mod 64), char_of (0x80 + v mod 64)]"
  "0x10000 \<le> v \<Longrightarrow> v \<le> 0x10FFFF \<Longrightarrow> encode_rune v =
     [char_of (0xF0 + v div 262144), char_of (0x80 + v div 4096 mod 64), char_of (0x80 + v div 64 mod 64), char_of (0x80 + v mod 64)]"
  by (auto simp: encode_rune_def)

lemma encode_decode_rune:
  assumes "rune_enc r"
  shows "encode_rune (fst (decode_rune r)) = r"
proof (cases "length r = 1")
  case True
  with assms obtain c where r: "r = [c]" "bv c < 0x80" by (cases r) (auto simp: rune_enc_def)
  then show ?thesis by (simp add: encode_rune_def)
next
  case False
  with assms obtain c cs where r: "r = c # cs" "cs \<noteq> []" by (cases r) (auto simp: rune_enc_def)
  with assms obtain x where x: "utf8_lead c = Some x" "lead_fits x cs" "fst x = Suc (length cs)" "\<not> bv c < 0x80"
    using rune_enc_multiE by metis
  obtain lo hi where x3: "x = (Suc (length cs), lo, hi)" using x(3) by (cases x) auto
  have "length cs = 1 \<or> length cs = 2 \<or> length cs = 3"
    using x(1) x3 by (auto elim!: utf8_leadE)
  then consider (a) a where "cs = [a]" | (b) a b where "cs = [a, b]" | (c) a b d where "cs = [a, b, d]"
    by (auto simp: length_Suc_conv eval_nat_numeral)
  then show ?thesis
  proof cases
    case (a a)
    have l: "0xC2 \<le> bv c" "bv c \<le> 0xDF" "0x80 \<le> bv a" "bv a \<le> 0xBF"
      using x x3 a by (auto simp: utf8_lead_def lead_fits_def Let_def split: if_splits)
    let ?v = "(bv c - 0xC0) * 64 + (bv a - 0x80)"
    have d: "fst (decode_rune r) = ?v"
      using r x x3 a by (simp add: decode_rune.simps(2) lead_fits_def)
    have v: "0x80 \<le> ?v" "?v < 0x800" and s: "bv a - 0x80 < 64" using l by linarith+
    have "encode_rune ?v = [char_of (0xC0 + (bv c - 0xC0)), char_of (0x80 + (bv a - 0x80))]"
      unfolding encode_rune_eqs(1) [OF v] sextets [OF s s s] ..
    then show ?thesis unfolding d using l r a by simp
  next
    case (b a b)
    have l: "0xE0 \<le> bv c" "bv c \<le> 0xEF" "0x80 \<le> bv a" "bv a \<le> 0xBF" "0x80 \<le> bv b" "bv b \<le> 0xBF"
      "bv c = 0xE0 \<Longrightarrow> 0xA0 \<le> bv a" "bv c = 0xED \<Longrightarrow> bv a \<le> 0x9F"
      using x x3 b by (auto simp: utf8_lead_def lead_fits_def Let_def utf8_cont_def split: if_splits)
    let ?v = "(bv c - 0xE0) * 4096 + (bv a - 0x80) * 64 + (bv b - 0x80)"
    have d: "fst (decode_rune r) = ?v"
      using r x x3 b by (simp add: decode_rune.simps(2) lead_fits_def)
    have v1: "0x800 \<le> ?v" using l by (cases "bv c = 0xE0") linarith+
    have v2: "?v < 0x10000" and s: "bv a - 0x80 < 64" "bv b - 0x80 < 64" using l by linarith+
    have v3: "\<not> (0xD800 \<le> ?v \<and> ?v < 0xE000)"
      using l by (cases "bv c = 0xED"; cases "bv c < 0xED") linarith+
    have "encode_rune ?v = [char_of (0xE0 + (bv c - 0xE0)), char_of (0x80 + (bv a - 0x80)), char_of (0x80 + (bv b - 0x80))]"
      unfolding encode_rune_eqs(2) [OF v1 v2 v3] sextets [OF s s(2)] ..
    then show ?thesis unfolding d using l r b by simp
  next
    case (c a b e)
    have l: "0xF0 \<le> bv c" "bv c \<le> 0xF4" "0x80 \<le> bv a" "bv a \<le> 0xBF" "0x80 \<le> bv b" "bv b \<le> 0xBF" "0x80 \<le> bv e" "bv e \<le> 0xBF"
      "bv c = 0xF0 \<Longrightarrow> 0x90 \<le> bv a" "bv c = 0xF4 \<Longrightarrow> bv a \<le> 0x8F"
      using x x3 c by (auto simp: utf8_lead_def lead_fits_def Let_def utf8_cont_def split: if_splits)
    let ?v = "(bv c - 0xF0) * 262144 + (bv a - 0x80) * 4096 + (bv b - 0x80) * 64 + (bv e - 0x80)"
    have d: "fst (decode_rune r) = ?v"
      using r x x3 c by (simp add: decode_rune.simps(2) lead_fits_def)
    have v1: "0x10000 \<le> ?v" using l by (cases "bv c = 0xF0") linarith+
    have s: "bv a - 0x80 < 64" "bv b - 0x80 < 64" "bv e - 0x80 < 64" using l by linarith+
    have v2: "?v \<le> 0x10FFFF" using l by (cases "bv c = 0xF4") linarith+
    have "encode_rune ?v = [char_of (0xF0 + (bv c - 0xF0)), char_of (0x80 + (bv a - 0x80)), char_of (0x80 + (bv b - 0x80)), char_of (0x80 + (bv e - 0x80))]"
      unfolding encode_rune_eqs(3) [OF v1 v2] sextets [OF s] ..
    then show ?thesis unfolding d using l r c by simp
  qed
qed
lemma hex_digit_props:
  assumes "n < 16"
  shows "isHex (hex_digit n)" and "hex_val (hex_digit n) = n"
proof -
  have "list_all (\<lambda>n. isHex (hex_digit n) \<and> hex_val (hex_digit n) = n) [0..<16]"
    by (simp add: upt_conv_Cons hex_digit_def isHex_def hex_val_def)
  then show "isHex (hex_digit n)" and "hex_val (hex_digit n) = n" using assms by (auto simp: list_all_iff)
qed

lemma hex4_digits: "hex4 (a # b # c # d # t) = ((hex_val a * 16 + hex_val b) * 16 + hex_val c) * 16 + hex_val d"
  by (simp add: hex4_def algebra_simps)

lemma is_hex4_digits: "is_hex4 (a # b # c # d # t) \<longleftrightarrow> isHex a \<and> isHex b \<and> isHex c \<and> isHex d"
  by (simp add: is_hex4_def)

lemma unquote_eqs:
  "unquote [] = []"
  "e \<noteq> CHR ''u'' \<Longrightarrow> unquote (BACKSLASH # e # es) = unescape e # unquote es"
  "\<not> (0xD800 \<le> hex4 es \<and> hex4 es < 0xE000) \<Longrightarrow>
     unquote (BACKSLASH # CHR ''u'' # es) = encode_rune (hex4 es) @ unquote (drop 4 es)"
  "c \<noteq> BACKSLASH \<Longrightarrow> bv c < 0x80 \<Longrightarrow> unquote (c # cs) = c # unquote cs"
  by (subst unquote.simps; auto simp: Let_def)+

lemma rune_multi_head:
  assumes "rune_enc r" and "length r \<noteq> 1"
  obtains c cs where "r = c # cs" "\<not> bv c < 0x80" "\<forall>x \<in> set r. \<not> bv x < 0x80" "rune_size r = length r"
    "decode_rune r \<noteq> (RuneError, 1)"
proof -
  obtain c cs where r: "r = c # cs" "cs \<noteq> []" using assms by (cases r) (auto simp: rune_enc_def)
  then obtain x where "\<not> bv c < 0x80" using rune_enc_multiE [of c cs] assms by metis
  moreover have "\<not> bv x < 0x80" if "x \<in> set cs" for x
    using rune_enc_tail_cont [of c cs x] that assms r by (simp add: utf8_cont_def)
  moreover have "rune_size r = length r" using assms by (simp add: rune_enc_def)
  moreover have "decode_rune r \<noteq> (RuneError, 1)" using assms by (auto simp: rune_enc_def)
  ultimately show ?thesis using that [of c cs] r by auto
qed

lemma unquote_rune:
  assumes "rune_enc r" and "length r \<noteq> 1"
  shows "unquote (r @ t) = r @ unquote t"
proof -
  obtain c cs where r: "r = c # cs" "\<not> bv c < 0x80" "rune_size r = length r"
    using rune_multi_head [OF assms] by metis
  moreover have "c \<noteq> BACKSLASH" using r(2) by auto
  moreover have "decode_rune (r @ t) = decode_rune r" using assms by simp
  ultimately show ?thesis
    using encode_decode_rune [OF assms(1)] unquote.simps [of "r @ t"] by simp
qed

lemma quote_body_eqs:
  "quote_body [] = []"
  "bv c < 0x80 \<Longrightarrow> quote_body (c # cs) = quote_byte c @ quote_body cs"
  by (subst quote_body.simps; simp)+

text \<open>What the encoder writes for a multi-byte rune.\<close>

definition quote_rune :: "bytes \<Rightarrow> bytes" where
  "quote_rune r =
     (let v = fst (decode_rune r) in
      if v = 0x2028 \<or> v = 0x2029 then BACKSLASH # ''u202'' @ [hex_digit (v mod 16)] else r)"

lemma quote_body_rune:
  assumes "rune_enc r" and "length r \<noteq> 1"
  shows "quote_body (r @ t) = quote_rune r @ quote_body t"
proof -
  obtain c cs where r: "r = c # cs" "\<not> bv c < 0x80" "rune_size r = length r" "decode_rune r \<noteq> (RuneError, 1)"
    using rune_multi_head [OF assms] by metis
  obtain v n where v: "decode_rune r = (v, n)" by fastforce
  moreover have "decode_rune (r @ t) = decode_rune r" using assms by simp
  ultimately show ?thesis
    using r quote_body.simps [of "r @ t"] by (auto simp: quote_rune_def Let_def)
qed

lemma unquote_quote_byte:
  assumes "bv c < 0x80"
  shows "unquote (quote_byte c @ t) = c # unquote t"
proof -
  have h: "bv c div 16 < 16" "bv c mod 16 < 16" using assms by auto
  have u: "unquote (BACKSLASH # CHR ''u'' # CHR ''0'' # CHR ''0'' # hex_digit (bv c div 16) # hex_digit (bv c mod 16) # t) = c # unquote t"
  proof -
    have "hex4 (CHR ''0'' # CHR ''0'' # hex_digit (bv c div 16) # hex_digit (bv c mod 16) # t) = bv c"
      using hex_digit_props(2) [OF h(1)] hex_digit_props(2) [OF h(2)] by (simp add: hex4_digits hex_val_def)
    then show ?thesis using assms by (subst unquote_eqs(3)) (simp_all add: encode_rune_def)
  qed
  show ?thesis
    unfolding quote_byte_def using assms u
    by (auto simp: unquote_eqs unescape_def html_safe_def)
qed

lemma scan_quote_byte:
  assumes "bv c < 0x80"
  shows "scan_string (quote_byte c @ t) = map_option (apfst (\<lambda>b. quote_byte c @ b)) (scan_string t)"
proof -
  have h: "bv c div 16 < 16" "bv c mod 16 < 16" using assms by auto
  have i: "isHex (CHR ''0'')" by (simp add: isHex_def)
  consider (safe) "html_safe c" "quote_byte c = [c]"
    | (esc) e where "quote_byte c = [BACKSLASH, e]" "isSimpleJSONEscape e" "e \<noteq> CHR ''u''"
    | (u) "quote_byte c = [BACKSLASH, CHR ''u'', CHR ''0'', CHR ''0'', hex_digit (bv c div 16), hex_digit (bv c mod 16)]"
    by (cases "html_safe c"; cases "c \<in> set [BACKSLASH, QUOTE, CHR 0x08, CHR 0x0C, CHR 0x0A, CHR 0x0D, CHR 0x09]")
       (auto simp: quote_byte_def isSimpleJSONEscape_def)
  then show ?thesis
  proof cases
    case safe
    then have "c \<noteq> QUOTE" "c \<noteq> BACKSLASH" "\<not> bv c < 0x20" by (auto simp: html_safe_def)
    with safe show ?thesis by simp
  next
    case esc
    then show ?thesis by simp
  next
    case u
    then show ?thesis
      by (simp add: is_hex4_digits i hex_digit_props(1) [OF h(1)] hex_digit_props(1) [OF h(2)])
  qed
qed

lemma scan_high_bytes:
  "\<forall>x \<in> set r. \<not> bv x < 0x80 \<Longrightarrow> scan_string (r @ t) = map_option (apfst (\<lambda>b. r @ b)) (scan_string t)"
proof (induction r)
  case (Cons c r)
  then have "c \<noteq> QUOTE" "c \<noteq> BACKSLASH" by auto
  with Cons show ?case by (cases "scan_string t") auto
qed (cases "scan_string t"; auto)

lemma quote_rune_roundtrip:
  assumes "rune_enc r" and "length r \<noteq> 1"
  shows "unquote (quote_rune r @ t) = r @ unquote t"
    and "scan_string (quote_rune r @ t) = map_option (apfst (\<lambda>b. quote_rune r @ b)) (scan_string t)"
proof -
  obtain c cs where r: "r = c # cs" "\<forall>x \<in> set r. \<not> bv x < 0x80"
    using rune_multi_head [OF assms] by metis
  let ?v = "fst (decode_rune r)"
  have s: "hex_digit 8 = CHR ''8''" "hex_digit 9 = CHR ''9''" by (simp_all add: hex_digit_def)
  have e: "encode_rune ?v = r" by (rule encode_decode_rune [OF assms(1)])
  show "unquote (quote_rune r @ t) = r @ unquote t"
    using unquote_rune [OF assms, of t] e
    by (auto simp: quote_rune_def Let_def s unquote_eqs hex4_digits hex_val_def)
  show "scan_string (quote_rune r @ t) = map_option (apfst (\<lambda>b. quote_rune r @ b)) (scan_string t)"
    using scan_high_bytes [OF r(2), of t]
    by (auto simp: quote_rune_def Let_def s is_hex4_digits isHex_def)
qed

lemma unquote_quote_body: "utf8_valid s \<Longrightarrow> unquote (quote_body s) = s"
  and scan_quote_body: "utf8_valid s \<Longrightarrow> scan_string (quote_body s @ QUOTE # rest) = Some (quote_body s, rest)"
proof (induction s rule: utf8_valid_induct)
  case Nil
  { case 1 show ?case by (simp add: quote_body_eqs unquote_eqs) }
  { case 2 show ?case by (simp add: quote_body_eqs) }
next
  case (rune r t)
  { case 1
    show ?case
    proof (cases "length r = 1")
      case True
      then obtain c where "r = [c]" "bv c < 0x80" using rune.hyps by (cases r) auto
      with rune show ?thesis by (simp add: quote_body_eqs unquote_quote_byte)
    qed (use rune in \<open>simp add: quote_body_rune quote_rune_roundtrip\<close>) }
  { case 2
    show ?case
    proof (cases "length r = 1")
      case True
      then obtain c where "r = [c]" "bv c < 0x80" using rune.hyps by (cases r) auto
      with rune show ?thesis by (simp add: quote_body_eqs scan_quote_byte)
    qed (use rune in \<open>simp add: quote_body_rune quote_rune_roundtrip\<close>) }
qed

end
