(* ===== verification/Journal_Types.thy ===== *)
theory Journal_Types
  imports Ulid Go_Json
begin

text \<open>
  The vocabulary of the stream journals (\<open>internal/journal/types.go\<close>, \<open>owner.go\<close>) and the parts of
  \<open>internal/journal/memory.go\<close> that are pure functions of an entry or a stream: payload validation,
  the JSON envelope that decides an entry's size, and the stream state that entries update. Go's
  \<open>uint64\<close> sequence numbers are naturals with the \<open>MaxUint64\<close> tests written out, \<open>int64\<close> sizes are
  integers.
\<close>

section \<open>Errors, kinds and entries\<close>

datatype journal_error =
    ErrAlreadyExists | ErrNotFound | ErrExpired | ErrOffsetExpired | ErrCursorAhead | ErrNotResumable
  | ErrTerminalState | ErrInvalidEntry | ErrCapacity | ErrReaderLagged | ErrDegraded | ErrInvalidConfig
  | ErrInvalidContext | ErrContext ctx_err | ErrStreamID id_error | IndexPanic

type_synonym StreamID = bytes
type_synonym EntryKind = string
type_synonym StreamStatus = string

definition KindOpen :: EntryKind where "KindOpen = ''open''"
definition KindChunk :: EntryKind where "KindChunk = ''chunk''"
definition KindMigration :: EntryKind where "KindMigration = ''migration''"
definition KindWarning :: EntryKind where "KindWarning = ''warning''"
definition KindError :: EntryKind where "KindError = ''error''"
definition KindDone :: EntryKind where "KindDone = ''done''"
definition KindStopped :: EntryKind where "KindStopped = ''stopped''"

lemmas kind_defs = KindOpen_def KindChunk_def KindMigration_def KindWarning_def KindError_def KindDone_def KindStopped_def

definition kind_terminal :: "EntryKind \<Rightarrow> bool" where
  "kind_terminal kind \<longleftrightarrow> kind = KindDone \<or> kind = KindError \<or> kind = KindStopped"

definition kind_appendable :: "EntryKind \<Rightarrow> bool" where
  "kind_appendable kind \<longleftrightarrow> kind = KindChunk \<or> kind = KindMigration \<or> kind = KindWarning"

record Entry =
  e_Seq :: uint64
  e_TS :: time
  e_Kind :: EntryKind
  e_Payload :: bytes
  e_Err :: "journal_error option"

record OwnerRecord =
  ow_ReplicaID :: bytes
  ow_RelayURL :: bytes

record Meta =
  me_Model :: bytes
  me_ModelVersion :: "bytes option"
  me_BackendID :: bytes
  me_Owner :: "OwnerRecord option"
  me_RetentionTTL :: duration
  me_Idempotency :: "bytes option"
  me_Endpoint :: bytes
  me_Request :: bytes

record Usage =
  u_PromptTokens :: uint64
  u_CompletionTokens :: uint64
  u_TotalTokens :: uint64
  u_Estimated :: bool

definition zeroUsage :: Usage where
  "zeroUsage = \<lparr>u_PromptTokens = 0, u_CompletionTokens = 0, u_TotalTokens = 0, u_Estimated = False\<rparr>"

record Migration =
  mg_Seq :: uint64
  mg_FromBackend :: bytes
  mg_ToBackend :: bytes
  mg_Reason :: bytes
  mg_RescuedTokens :: uint64
  mg_TokenCountEstimated :: bool
  mg_Attempt :: uint64

definition StatusOpen :: StreamStatus where "StatusOpen = ''open''"
definition StatusDone :: StreamStatus where "StatusDone = ''done''"
definition StatusError :: StreamStatus where "StatusError = ''error''"
definition StatusStopped :: StreamStatus where "StatusStopped = ''stopped''"

lemmas status_defs = StatusOpen_def StatusDone_def StatusError_def StatusStopped_def

record TerminalState =
  ts_Seq :: uint64
  ts_TS :: time
  ts_Kind :: EntryKind
  ts_Payload :: bytes

record StreamState =
  ss_StreamID :: StreamID
  ss_Status :: StreamStatus
  ss_Resumable :: bool
  ss_Model :: bytes
  ss_ModelVersion :: "bytes option"
  ss_OriginBackend :: bytes
  ss_CurrentBackend :: bytes
  ss_CreatedAt :: time
  ss_UpdatedAt :: time
  ss_EarliestSeq :: uint64
  ss_LastSeq :: uint64
  ss_Usage :: Usage
  ss_Migrations :: "Migration list"
  ss_Terminal :: "TerminalState option"

definition statusForTerminal :: "EntryKind \<Rightarrow> StreamStatus" where
  "statusForTerminal kind =
     (if kind = KindDone then StatusDone else if kind = KindError then StatusError
      else if kind = KindStopped then StatusStopped else StatusOpen)"

section \<open>Contexts\<close>

text \<open>\<open>checkContext\<close> at its \<open>k\<close>-th call on one context.\<close>

definition checkContext :: "gocontext \<Rightarrow> nat \<Rightarrow> journal_error option" where
  "checkContext ctx k = (case ctx of NilContext \<Rightarrow> Some ErrInvalidContext | Context f \<Rightarrow> map_option ErrContext (f k))"

section \<open>Payloads and envelopes\<close>

definition validatePayload :: "bytes \<Rightarrow> bool" where
  "validatePayload payload =
     (let trimmed = trim_space payload in
      \<not> (length trimmed < 2 \<or> hd trimmed \<noteq> CHR ''{'' \<or> last trimmed \<noteq> CHR ''}'' \<or> \<not> json_valid trimmed))"

text \<open>Decimal digits of the nanoseconds in RFC 3339 form, without trailing zeros, and the length of a
  marshalled UTC time. \<open>MarshalJSON\<close> refuses years outside 0 to 9999.\<close>

fun fraction_digits :: "nat \<Rightarrow> nat \<Rightarrow> nat" where
  "fraction_digits 0 ns = 0"
| "fraction_digits (Suc k) ns = (if ns mod 10 = 0 then fraction_digits k (ns div 10) else Suc k)"

definition day :: int where "day = 86400 * 10 ^ 9"

definition time_size :: "time \<Rightarrow> nat option" where
  "time_size t =
     (if t < - 366 * day \<or> 3652059 * day \<le> t then None
      else (let ns = nat (t mod 10 ^ 9) in Some (22 + (if ns = 0 then 0 else Suc (fraction_digits 9 ns)))))"

text \<open>The length of \<open>{"seq":..,"ts":"..","kind":"..","payload":..}\<close> as \<open>json.Marshal\<close> writes it.\<close>

definition envelope_size :: "Entry \<Rightarrow> int option" where
  "envelope_size entry =
     (case (time_size (e_TS entry), marshal_raw (e_Payload entry)) of
        (Some ts, Some p) \<Rightarrow>
          Some (int (7 + length (append_dec (e_Seq entry)) + 6 + ts + 8 + length (marshal_string (e_Kind entry)) + 11
                     + length p + 1))
      | _ \<Rightarrow> None)"

definition prepareEntry :: "Entry \<Rightarrow> uint64 \<Rightarrow> time \<Rightarrow> journal_error + Entry \<times> int" where
  "prepareEntry input seq now =
     (if e_Err input \<noteq> None then Inl ErrInvalidEntry
      else if \<not> validatePayload (e_Payload input) then Inl ErrInvalidEntry
      else (let entry = \<lparr>e_Seq = seq, e_TS = now, e_Kind = e_Kind input, e_Payload = e_Payload input, e_Err = None\<rparr> in
            case envelope_size entry of None \<Rightarrow> Inl ErrInvalidEntry | Some sz \<Rightarrow> Inr (entry, sz)))"

text \<open>The payload of an open entry.\<close>

definition open_payload :: "StreamID \<Rightarrow> Meta \<Rightarrow> bytes" where
  "open_payload sid meta =
     CHR ''{'' # marshal_string ''stream_id'' @ '':'' @ marshal_string sid
       @ '','' @ marshal_string ''model'' @ '':'' @ marshal_string (me_Model meta)
       @ '','' @ marshal_string ''model_version'' @ '':''
       @ (case me_ModelVersion meta of None \<Rightarrow> ''null'' | Some v \<Rightarrow> marshal_string v)
       @ '','' @ marshal_string ''backend_id'' @ '':'' @ marshal_string (me_BackendID meta) @ ''}''"

section \<open>Payloads that update the stream state\<close>

record migrationPayload =
  mp_FromBackend :: bytes
  mp_ToBackend :: bytes
  mp_Reason :: bytes
  mp_RescuedTokens :: uint64
  mp_TokenCountEstimated :: bool
  mp_Attempt :: uint64

definition um_migrationPayload :: "migrationPayload decoder" where
  "um_migrationPayload = um_struct
     [''from_backend'', ''to_backend'', ''reason'', ''rescued_tokens'', ''token_count_estimated'', ''attempt'']
     (\<lambda>name p v raw.
        if name = ''from_backend'' then apfst (\<lambda>x. p\<lparr>mp_FromBackend := x\<rparr>) (um_string (mp_FromBackend p) v raw)
        else if name = ''to_backend'' then apfst (\<lambda>x. p\<lparr>mp_ToBackend := x\<rparr>) (um_string (mp_ToBackend p) v raw)
        else if name = ''reason'' then apfst (\<lambda>x. p\<lparr>mp_Reason := x\<rparr>) (um_string (mp_Reason p) v raw)
        else if name = ''rescued_tokens'' then apfst (\<lambda>x. p\<lparr>mp_RescuedTokens := x\<rparr>) (um_uint64 (mp_RescuedTokens p) v raw)
        else if name = ''token_count_estimated''
          then apfst (\<lambda>x. p\<lparr>mp_TokenCountEstimated := x\<rparr>) (um_bool (mp_TokenCountEstimated p) v raw)
        else apfst (\<lambda>x. p\<lparr>mp_Attempt := x\<rparr>) (um_uint64 (mp_Attempt p) v raw))"

definition um_Usage :: "Usage decoder" where
  "um_Usage = um_struct [''prompt_tokens'', ''completion_tokens'', ''total_tokens'', ''estimated'']
     (\<lambda>name u v raw.
        if name = ''prompt_tokens'' then apfst (\<lambda>x. u\<lparr>u_PromptTokens := x\<rparr>) (um_uint64 (u_PromptTokens u) v raw)
        else if name = ''completion_tokens''
          then apfst (\<lambda>x. u\<lparr>u_CompletionTokens := x\<rparr>) (um_uint64 (u_CompletionTokens u) v raw)
        else if name = ''total_tokens'' then apfst (\<lambda>x. u\<lparr>u_TotalTokens := x\<rparr>) (um_uint64 (u_TotalTokens u) v raw)
        else apfst (\<lambda>x. u\<lparr>u_Estimated := x\<rparr>) (um_bool (u_Estimated u) v raw))"

definition unmarshal_migration :: "bytes \<Rightarrow> migrationPayload option" where
  "unmarshal_migration = json_unmarshal um_migrationPayload
     \<lparr>mp_FromBackend = [], mp_ToBackend = [], mp_Reason = [], mp_RescuedTokens = 0, mp_TokenCountEstimated = False,
      mp_Attempt = 0\<rparr>"

text \<open>\<open>usagePayload\<close>: the one field \<open>usage\<close>, a pointer.\<close>

definition unmarshal_usage :: "bytes \<Rightarrow> Usage option option" where
  "unmarshal_usage = json_unmarshal (um_struct [''usage''] (\<lambda>_. um_ptr zeroUsage um_Usage)) None"

end
