(* ===== verification/Memory_Journal.thy ===== *)
theory Memory_Journal
  imports Journal_Types
begin

text \<open>
  The bounded in-memory journal (\<open>internal/journal/memory.go\<close>). Every exported method runs under the
  mutex \<open>m.mu\<close>, so each is one atomic function on the state; the clock reading and the polls of the
  context are inputs. Go maps are association lists. A stream is identified by its key; the list
  \<open>m_terminalLRU\<close> holds the keys of the streams whose \<open>lruElement\<close> is set, front first. Tail readers
  live in the store \<open>m_readers\<close> and are named by their address in it, because their goroutines keep
  them after the stream has dropped them; \<open>tr_pc\<close> is the point a goroutine has reached between two
  critical sections.
\<close>

section \<open>State\<close>

record Config =
  c_TTL :: duration
  c_MaxBytesPerStream :: int
  c_MaxTotalBytes :: int
  c_ReaderMaxLagBytes :: int

record storedEntry =
  se_entry :: Entry
  se_size :: int

datatype tail_pc = TLoop | TDeliver Entry | TSent Entry | TWait | TCancel | TFinish | TClose "journal_error option" | TEnd

record tailReader =
  tr_id :: uint64
  tr_stream :: StreamID
  tr_out :: "Entry list"
  tr_closed :: bool
  tr_wake :: bool
  tr_done :: bool
  tr_cursor :: uint64
  tr_liveAfter :: uint64
  tr_liveLag :: int
  tr_inFlightSeq :: uint64
  tr_inFlightSize :: int
  tr_stopped :: bool
  tr_stopErr :: "journal_error option"
  tr_discard :: bool
  tr_pc :: tail_pc

record memoryStream =
  ms_id :: StreamID
  ms_meta :: Meta
  ms_retentionTTL :: duration
  ms_originBackend :: bytes
  ms_currentBackend :: bytes
  ms_entries :: "storedEntry list"
  ms_bytes :: int
  ms_earliestSeq :: uint64
  ms_lastSeq :: uint64
  ms_status :: StreamStatus
  ms_resumable :: bool
  ms_createdAt :: time
  ms_updatedAt :: time
  ms_expiresAt :: time
  ms_usage :: Usage
  ms_migrations :: "Migration list"
  ms_terminal :: "TerminalState option"
  ms_degraded :: bool
  ms_tails :: "(uint64 \<times> nat) list"
  ms_nextTailID :: uint64

record Memory =
  m_config :: Config
  m_streams :: "(StreamID \<times> memoryStream) list"
  m_tombstones :: "(StreamID \<times> time) list"
  m_terminalLRU :: "StreamID list"
  m_totalBytes :: int
  m_readers :: "tailReader list"

definition DefaultTTL :: duration where "DefaultTTL = 10 * 60 * 10 ^ 9"
definition DefaultMaxBytesPerStream :: int where "DefaultMaxBytesPerStream = 4194304"

definition withDefaults :: "Config \<Rightarrow> Config" where
  "withDefaults config =
     (let config = (if c_TTL config = 0 then config\<lparr>c_TTL := DefaultTTL\<rparr> else config) in
      if c_MaxBytesPerStream config = 0 then config\<lparr>c_MaxBytesPerStream := DefaultMaxBytesPerStream\<rparr> else config)"

definition validateConfig :: "Config \<Rightarrow> bool" where
  "validateConfig config \<longleftrightarrow>
     \<not> (c_TTL config \<le> 0 \<or> c_MaxBytesPerStream config \<le> 0 \<or> c_MaxTotalBytes config \<le> 0 \<or> c_ReaderMaxLagBytes config \<le> 0)"

definition NewMemory :: "Config \<Rightarrow> journal_error + Memory" where
  "NewMemory config0 =
     (let config = withDefaults config0 in
      if \<not> validateConfig config then Inl ErrInvalidConfig
      else Inr \<lparr>m_config = config, m_streams = [], m_tombstones = [], m_terminalLRU = [], m_totalBytes = 0, m_readers = []\<rparr>)"

abbreviation get_stream :: "Memory \<Rightarrow> StreamID \<Rightarrow> memoryStream option" where
  "get_stream m sid \<equiv> map_of (m_streams m) sid"

definition upd_stream :: "StreamID \<Rightarrow> (memoryStream \<Rightarrow> memoryStream) \<Rightarrow> Memory \<Rightarrow> Memory" where
  "upd_stream sid f m = m\<lparr>m_streams := map (\<lambda>(k, s). if k = sid then (k, f s) else (k, s)) (m_streams m)\<rparr>"

definition upd_reader :: "nat \<Rightarrow> (tailReader \<Rightarrow> tailReader) \<Rightarrow> Memory \<Rightarrow> Memory" where
  "upd_reader a f m = m\<lparr>m_readers := (m_readers m)[a := f (m_readers m ! a)]\<rparr>"

section \<open>Readers\<close>

text \<open>\<open>stopTailLocked\<close>. Draining happens under \<open>deliveryMu\<close>; a goroutine that has not taken
  \<open>deliveryMu\<close> for its next entry yet stays at \<open>TDeliver\<close>.\<close>

definition stopTailLocked :: "nat \<Rightarrow> journal_error option \<Rightarrow> bool \<Rightarrow> Memory \<Rightarrow> Memory" where
  "stopTailLocked a reason discard m =
     (let r = m_readers m ! a in
      if tr_stopped r then m
      else upd_reader a (\<lambda>r. r\<lparr>tr_stopped := True, tr_stopErr := reason, tr_done := True,
               tr_out := (if discard then [] else tr_out r), tr_discard := False\<rparr>)
             (upd_stream (tr_stream r) (\<lambda>s. s\<lparr>ms_tails := AList.delete (tr_id r) (ms_tails s)\<rparr>) m))"

definition publish_reader :: "int \<Rightarrow> Memory \<Rightarrow> nat \<Rightarrow> Memory" where
  "publish_reader sz m a =
     (let m = upd_reader a (\<lambda>r. r\<lparr>tr_liveLag := tr_liveLag r + sz\<rparr>) m; r = m_readers m ! a in
      if tr_liveLag r - tr_inFlightSize r > c_ReaderMaxLagBytes (m_config m)
      then stopTailLocked a (Some ErrReaderLagged) True m
      else upd_reader a (\<lambda>r. r\<lparr>tr_wake := True\<rparr>) m)"

definition tails_of :: "Memory \<Rightarrow> StreamID \<Rightarrow> nat list" where
  "tails_of m sid = (case get_stream m sid of None \<Rightarrow> [] | Some s \<Rightarrow> map snd (ms_tails s))"

definition publishLocked :: "StreamID \<Rightarrow> int \<Rightarrow> Memory \<Rightarrow> Memory" where
  "publishLocked sid sz m = foldl (publish_reader sz) m (tails_of m sid)"

definition drop_reader :: "uint64 \<Rightarrow> Memory \<Rightarrow> nat \<Rightarrow> Memory" where
  "drop_reader minimumCursor m a =
     (let r = m_readers m ! a;
          effectiveCursor = (if tr_inFlightSeq r > tr_cursor r then tr_inFlightSeq r else tr_cursor r) in
      if effectiveCursor < minimumCursor then stopTailLocked a (Some ErrReaderLagged) True m else m)"

definition dropReadersBehindRingLocked :: "StreamID \<Rightarrow> Memory \<Rightarrow> Memory" where
  "dropReadersBehindRingLocked sid m =
     (case get_stream m sid of None \<Rightarrow> m
      | Some s \<Rightarrow> if ms_earliestSeq s \<le> 1 then m else foldl (drop_reader (ms_earliestSeq s - 1)) m (tails_of m sid))"

section \<open>Expiry and eviction\<close>

definition removeStreamLocked :: "time \<Rightarrow> time \<Rightarrow> StreamID \<Rightarrow> Memory \<Rightarrow> Memory" where
  "removeStreamLocked now tombstoneUntil sid m0 =
     (case get_stream m0 sid of None \<Rightarrow> m0
      | Some s \<Rightarrow>
          (let m = foldl (\<lambda>m a. stopTailLocked a (Some ErrExpired) True m) m0 (tails_of m0 sid) in
           m\<lparr>m_streams := AList.delete sid (m_streams m), m_totalBytes := m_totalBytes m - ms_bytes s,
             m_terminalLRU := removeAll sid (m_terminalLRU m),
             m_tombstones :=
               (if now < tombstoneUntil
                   \<and> (case map_of (m_tombstones m) sid of None \<Rightarrow> True | Some existing \<Rightarrow> existing < tombstoneUntil)
                then AList.update sid tombstoneUntil (m_tombstones m) else m_tombstones m)\<rparr>))"

definition cleanup_stream :: "time \<Rightarrow> Memory \<Rightarrow> StreamID \<times> memoryStream \<Rightarrow> Memory" where
  "cleanup_stream now m = (\<lambda>(sid, s).
     if (ms_status s = StatusOpen \<and> \<not> ms_degraded s) \<or> now < ms_expiresAt s then m
     else removeStreamLocked now (ms_expiresAt s + ms_retentionTTL s) sid m)"

definition cleanupExpiredLocked :: "time \<Rightarrow> Memory \<Rightarrow> Memory" where
  "cleanupExpiredLocked now m0 =
     (let m = m0\<lparr>m_tombstones := filter (\<lambda>(sid, expiresAt). now < expiresAt) (m_tombstones m0)\<rparr>
      in foldl (cleanup_stream now) m (m_streams m))"

definition lookupLocked :: "StreamID \<Rightarrow> time \<Rightarrow> Memory \<Rightarrow> (journal_error + memoryStream) \<times> Memory" where
  "lookupLocked sid now m0 =
     (let m = cleanupExpiredLocked now m0 in
      (case get_stream m sid of
         Some s \<Rightarrow> Inr s
       | None \<Rightarrow> Inl (if map_of (m_tombstones m) sid \<noteq> None then ErrExpired else ErrNotFound), m))"

text \<open>The loop that counts the oldest entries to trim; \<open>None\<close> is the index panic.\<close>

fun trim_loop :: "storedEntry list \<Rightarrow> int \<Rightarrow> int \<Rightarrow> (int \<times> nat) option" where
  "trim_loop es held remainingLimit =
     (if held > remainingLimit then
        (case es of [] \<Rightarrow> None
         | e # es' \<Rightarrow> map_option (\<lambda>(b, n). (se_size e + b, Suc n)) (trim_loop es' (held - se_size e) remainingLimit))
      else Some (0, 0))"

declare trim_loop.simps [simp del]

text \<open>The victims, from the back of the LRU list, until enough bytes are freed.\<close>

fun pick_victims :: "Memory \<Rightarrow> StreamID option \<Rightarrow> int \<Rightarrow> StreamID list \<Rightarrow> int \<Rightarrow> StreamID list \<times> int" where
  "pick_victims m keep needFree [] freed = ([], freed)"
| "pick_victims m keep needFree (c # cs) freed =
     (if \<not> freed < needFree then ([], freed)
      else if keep = Some c then pick_victims m keep needFree cs freed
      else apfst ((#) c) (pick_victims m keep needFree cs (freed + ms_bytes (the (get_stream m c)))))"

definition makeRoomLocked :: "StreamID option \<Rightarrow> int \<Rightarrow> time \<Rightarrow> Memory \<Rightarrow> (journal_error + nat) \<times> Memory" where
  "makeRoomLocked stream sz now m =
     (let config = m_config m in
      if sz > c_MaxBytesPerStream config then (Inl ErrCapacity, m)
      else
        (case (case stream of None \<Rightarrow> Some (0, 0)
               | Some sid \<Rightarrow>
                   (let s = the (get_stream m sid) in trim_loop (ms_entries s) (ms_bytes s) (c_MaxBytesPerStream config - sz))) of
           None \<Rightarrow> (Inl IndexPanic, m)
         | Some (trimBytes, trimCount) \<Rightarrow>
             (let baseBytes = m_totalBytes m - trimBytes;
                  needFree = (if sz > c_MaxTotalBytes config - baseBytes then sz - (c_MaxTotalBytes config - baseBytes) else 0);
                  (victims, freed) = pick_victims m stream needFree (rev (m_terminalLRU m)) 0 in
              if freed < needFree then (Inl ErrCapacity, m)
              else (Inr trimCount,
                    foldl (\<lambda>m v. removeStreamLocked now (now + ms_retentionTTL (the (get_stream m v))) v m) m victims))))"

definition trimStreamLocked :: "StreamID \<Rightarrow> nat \<Rightarrow> Memory \<Rightarrow> Memory" where
  "trimStreamLocked sid count m =
     (let s = the (get_stream m sid); dropped = sum_list (map se_size (take count (ms_entries s))); rest = drop count (ms_entries s) in
      (upd_stream sid (\<lambda>s. s\<lparr>ms_bytes := ms_bytes s - dropped, ms_entries := rest,
           ms_earliestSeq := (if rest \<noteq> [] then e_Seq (se_entry (hd rest)) else ms_lastSeq s + 1)\<rparr>) m)
        \<lparr>m_totalBytes := m_totalBytes m - dropped\<rparr>)"

section \<open>Committing\<close>

definition applyStateEntryLocked :: "Entry \<Rightarrow> memoryStream \<Rightarrow> memoryStream" where
  "applyStateEntryLocked entry s0 =
     (let s = (if e_Kind entry = KindMigration then
                 (case unmarshal_migration (e_Payload entry) of
                    None \<Rightarrow> s0
                  | Some p \<Rightarrow>
                      s0\<lparr>ms_migrations := ms_migrations s0 @
                           [\<lparr>mg_Seq = e_Seq entry, mg_FromBackend = mp_FromBackend p, mg_ToBackend = mp_ToBackend p,
                             mg_Reason = mp_Reason p, mg_RescuedTokens = mp_RescuedTokens p,
                             mg_TokenCountEstimated = mp_TokenCountEstimated p, mg_Attempt = mp_Attempt p\<rparr>],
                         ms_currentBackend := mp_ToBackend p\<rparr>)
               else s0) in
      case unmarshal_usage (e_Payload entry) of Some (Some u) \<Rightarrow> s\<lparr>ms_usage := u\<rparr> | _ \<Rightarrow> s)"

definition commit_stream :: "Entry \<Rightarrow> int \<Rightarrow> time \<Rightarrow> memoryStream \<Rightarrow> memoryStream" where
  "commit_stream entry sz now s0 =
     (let s = s0\<lparr>ms_entries := ms_entries s0 @ [\<lparr>se_entry = entry, se_size = sz\<rparr>], ms_bytes := ms_bytes s0 + sz,
                ms_lastSeq := e_Seq entry\<rparr>;
          s = (if length (ms_entries s) = 1 then s\<lparr>ms_earliestSeq := e_Seq entry\<rparr> else s) in
      applyStateEntryLocked entry (s\<lparr>ms_updatedAt := now, ms_expiresAt := now + ms_retentionTTL s\<rparr>))"

definition commitLocked :: "StreamID \<Rightarrow> Entry \<Rightarrow> int \<Rightarrow> time \<Rightarrow> Memory \<Rightarrow> journal_error option \<times> Memory" where
  "commitLocked sid entry sz now m0 =
     (case makeRoomLocked (Some sid) sz now m0 of
        (Inl x, m) \<Rightarrow> (Some x, m)
      | (Inr trimCount, m) \<Rightarrow>
          (let m = (if trimCount \<noteq> 0 then trimStreamLocked sid trimCount m else m);
               m = (upd_stream sid (commit_stream entry sz now) m)\<lparr>m_totalBytes := m_totalBytes m + sz\<rparr>
           in (None, publishLocked sid sz (dropReadersBehindRingLocked sid m))))"

section \<open>Operations\<close>

text \<open>The two polls of the context around taking the lock.\<close>

definition ctx_guard :: "gocontext \<Rightarrow> journal_error option \<Rightarrow> journal_error option" where
  "ctx_guard ctx problem =
     (case checkContext ctx 0 of Some x \<Rightarrow> Some x
      | None \<Rightarrow> (case problem of Some x \<Rightarrow> Some x | None \<Rightarrow> checkContext ctx 1))"

definition mem_Open :: "gocontext \<Rightarrow> StreamID \<Rightarrow> Meta \<Rightarrow> time \<Rightarrow> Memory \<Rightarrow> journal_error option \<times> Memory" where
  "mem_Open ctx sid meta now m0 =
     (let retentionTTL = (if me_RetentionTTL meta = 0 then c_TTL (m_config m0) else me_RetentionTTL meta) in
      case ctx_guard ctx
             (case decodeStreamID sid of
                Inl x \<Rightarrow> Some (ErrStreamID x)
              | Inr _ \<Rightarrow> if retentionTTL < 0 \<or> retentionTTL > MaxInt64 div 2 then Some ErrInvalidEntry else None) of
        Some x \<Rightarrow> (Some x, m0)
      | None \<Rightarrow>
          (let m = cleanupExpiredLocked now m0 in
           if get_stream m sid \<noteq> None then (Some ErrAlreadyExists, m)
           else if map_of (m_tombstones m) sid \<noteq> None then (Some ErrAlreadyExists, m)
           else
             (case prepareEntry \<lparr>e_Seq = 0, e_TS = 0, e_Kind = KindOpen, e_Payload = open_payload sid meta, e_Err = None\<rparr> 1 now of
                Inl x \<Rightarrow> (Some x, m)
              | Inr (entry, sz) \<Rightarrow>
                  (case makeRoomLocked None sz now m of
                     (Inl x, m) \<Rightarrow> (Some x, m)
                   | (Inr _, m) \<Rightarrow>
                       (None,
                        m\<lparr>m_streams := AList.update sid
                            \<lparr>ms_id = sid, ms_meta = meta, ms_retentionTTL = retentionTTL, ms_originBackend = me_BackendID meta,
                             ms_currentBackend = me_BackendID meta, ms_entries = [\<lparr>se_entry = entry, se_size = sz\<rparr>],
                             ms_bytes = sz, ms_earliestSeq = 1, ms_lastSeq = 1, ms_status = StatusOpen, ms_resumable = True,
                             ms_createdAt = now, ms_updatedAt = now, ms_expiresAt = now + retentionTTL, ms_usage = zeroUsage,
                             ms_migrations = [], ms_terminal = None, ms_degraded = False, ms_tails = [], ms_nextTailID = 0\<rparr>
                            (m_streams m),
                          m_totalBytes := m_totalBytes m + sz\<rparr>)))))"

text \<open>The part \<open>Append\<close> and \<open>Close\<close> share: the stream must be open, not degraded and not out of
  sequence numbers.\<close>

definition append_entry :: "StreamID \<Rightarrow> Entry \<Rightarrow> time \<Rightarrow> Memory \<Rightarrow> (journal_error + Entry) \<times> Memory" where
  "append_entry sid input now m0 =
     (case lookupLocked sid now m0 of
        (Inl x, m) \<Rightarrow> (Inl x, m)
      | (Inr s, m) \<Rightarrow>
          if ms_status s \<noteq> StatusOpen then (Inl ErrTerminalState, m)
          else if ms_degraded s then (Inl ErrDegraded, m)
          else if ms_lastSeq s = MaxUint64 then (Inl ErrCapacity, m)
          else (case prepareEntry input (ms_lastSeq s + 1) now of
                  Inl x \<Rightarrow> (Inl x, m)
                | Inr (committed, sz) \<Rightarrow>
                    (case commitLocked sid committed sz now m of
                       (Some x, m) \<Rightarrow> (Inl x, m)
                     | (None, m) \<Rightarrow> (Inr committed, m))))"

definition mem_Append :: "gocontext \<Rightarrow> StreamID \<Rightarrow> Entry \<Rightarrow> time \<Rightarrow> Memory \<Rightarrow> (journal_error + uint64) \<times> Memory" where
  "mem_Append ctx sid entry now m0 =
     (case ctx_guard ctx (if kind_appendable (e_Kind entry) then None else Some ErrInvalidEntry) of
        Some x \<Rightarrow> (Inl x, m0)
      | None \<Rightarrow> (case append_entry sid entry now m0 of (Inl x, m) \<Rightarrow> (Inl x, m) | (Inr committed, m) \<Rightarrow> (Inr (e_Seq committed), m)))"

definition mem_Close :: "gocontext \<Rightarrow> StreamID \<Rightarrow> Entry \<Rightarrow> time \<Rightarrow> Memory \<Rightarrow> journal_error option \<times> Memory" where
  "mem_Close ctx sid terminal now m0 =
     (case ctx_guard ctx (if kind_terminal (e_Kind terminal) then None else Some ErrInvalidEntry) of
        Some x \<Rightarrow> (Some x, m0)
      | None \<Rightarrow>
          (case append_entry sid terminal now m0 of
             (Inl x, m) \<Rightarrow> (Some x, m)
           | (Inr committed, m) \<Rightarrow>
               (None,
                (upd_stream sid (\<lambda>s. s\<lparr>ms_status := statusForTerminal (e_Kind committed),
                    ms_resumable := (e_Kind committed \<noteq> KindStopped), ms_expiresAt := now + ms_retentionTTL s,
                    ms_terminal := Some \<lparr>ts_Seq = e_Seq committed, ts_TS = e_TS committed, ts_Kind = e_Kind committed,
                      ts_Payload = e_Payload committed\<rparr>\<rparr>) m)
                  \<lparr>m_terminalLRU := sid # m_terminalLRU m\<rparr>)))"

definition touchTerminalLocked :: "StreamID \<Rightarrow> Memory \<Rightarrow> Memory" where
  "touchTerminalLocked sid m =
     (if sid \<in> set (m_terminalLRU m) then m\<lparr>m_terminalLRU := sid # removeAll sid (m_terminalLRU m)\<rparr> else m)"

definition validateCursor :: "memoryStream \<Rightarrow> uint64 \<Rightarrow> journal_error option" where
  "validateCursor s fromSeq =
     (if fromSeq > ms_lastSeq s then Some ErrCursorAhead
      else if ms_earliestSeq s > 1 \<and> fromSeq < ms_earliestSeq s - 1 then Some ErrOffsetExpired
      else None)"

definition entriesAfter :: "memoryStream \<Rightarrow> uint64 \<Rightarrow> Entry list" where
  "entriesAfter s fromSeq = filter (\<lambda>e. e_Seq e > fromSeq) (map se_entry (ms_entries s))"

text \<open>\<open>Read\<close> returns an iterator over a snapshot; here the snapshot and whether it ends with
  \<open>ErrOffsetExpired\<close>.\<close>

definition mem_Read ::
    "gocontext \<Rightarrow> StreamID \<Rightarrow> uint64 \<Rightarrow> time \<Rightarrow> Memory \<Rightarrow> (journal_error + Entry list \<times> bool) \<times> Memory" where
  "mem_Read ctx sid fromSeq now m0 =
     (case ctx_guard ctx None of
        Some x \<Rightarrow> (Inl x, m0)
      | None \<Rightarrow>
          (case lookupLocked sid now m0 of
             (Inl x, m) \<Rightarrow> (Inl x, m)
           | (Inr s, m) \<Rightarrow>
               if \<not> ms_resumable s then (Inl ErrNotResumable, m)
               else (case validateCursor s fromSeq of
                       Some x \<Rightarrow> (Inl x, m)
                     | None \<Rightarrow>
                         (let m = touchTerminalLocked sid m; snapshot = entriesAfter s fromSeq in
                          if ms_degraded s \<and> snapshot = [] then (Inl ErrOffsetExpired, m)
                          else (Inr (snapshot, ms_degraded s), m)))))"

text \<open>The iterator: what a consumer that takes everything sees, the polls of the context being numbered
  from 2 on.\<close>

fun read_iter :: "gocontext \<Rightarrow> nat \<Rightarrow> Entry list \<Rightarrow> bool \<Rightarrow> (Entry + journal_error) list" where
  "read_iter ctx k [] degraded = (if degraded then [Inr ErrOffsetExpired] else [])"
| "read_iter ctx k (e # es) degraded =
     (case checkContext ctx k of Some x \<Rightarrow> [Inr x] | None \<Rightarrow> Inl e # read_iter ctx (Suc k) es degraded)"

definition read_all :: "gocontext \<Rightarrow> Entry list \<times> bool \<Rightarrow> (Entry + journal_error) list" where
  "read_all ctx = (\<lambda>(snapshot, degraded).
     case checkContext ctx 2 of Some x \<Rightarrow> [Inr x] | None \<Rightarrow> read_iter ctx 3 snapshot degraded)"

definition mem_Tail ::
    "gocontext \<Rightarrow> StreamID \<Rightarrow> uint64 \<Rightarrow> time \<Rightarrow> Memory \<Rightarrow> (journal_error + nat) \<times> Memory" where
  "mem_Tail ctx sid fromSeq now m0 =
     (case ctx_guard ctx None of
        Some x \<Rightarrow> (Inl x, m0)
      | None \<Rightarrow>
          (case lookupLocked sid now m0 of
             (Inl x, m) \<Rightarrow> (Inl x, m)
           | (Inr s, m) \<Rightarrow>
               if \<not> ms_resumable s then (Inl ErrNotResumable, m)
               else (case validateCursor s fromSeq of
                       Some x \<Rightarrow> (Inl x, m)
                     | None \<Rightarrow>
                         if ms_degraded s \<and> fromSeq = ms_lastSeq s then (Inl ErrOffsetExpired, m)
                         else if ms_nextTailID s = MaxUint64 then (Inl ErrCapacity, m)
                         else
                           (let a = length (m_readers m); rid = ms_nextTailID s + 1;
                                reader = \<lparr>tr_id = rid, tr_stream = sid, tr_out = [], tr_closed = False, tr_wake = False,
                                  tr_done = False, tr_cursor = fromSeq, tr_liveAfter = ms_lastSeq s, tr_liveLag = 0,
                                  tr_inFlightSeq = 0, tr_inFlightSize = 0, tr_stopped = False, tr_stopErr = None,
                                  tr_discard = False, tr_pc = TLoop\<rparr>;
                                m = upd_stream sid (\<lambda>s. s\<lparr>ms_nextTailID := rid, ms_tails := AList.update rid a (ms_tails s)\<rparr>)
                                      (m\<lparr>m_readers := m_readers m @ [reader]\<rparr>)
                            in (Inr a, touchTerminalLocked sid m)))))"

definition snapshotState :: "memoryStream \<Rightarrow> StreamState" where
  "snapshotState s =
     \<lparr>ss_StreamID = ms_id s, ss_Status = ms_status s, ss_Resumable = ms_resumable s, ss_Model = me_Model (ms_meta s),
      ss_ModelVersion = me_ModelVersion (ms_meta s), ss_OriginBackend = ms_originBackend s,
      ss_CurrentBackend = ms_currentBackend s, ss_CreatedAt = ms_createdAt s, ss_UpdatedAt = ms_updatedAt s,
      ss_EarliestSeq = ms_earliestSeq s, ss_LastSeq = ms_lastSeq s, ss_Usage = ms_usage s,
      ss_Migrations = ms_migrations s, ss_Terminal = ms_terminal s\<rparr>"

definition mem_State :: "gocontext \<Rightarrow> StreamID \<Rightarrow> time \<Rightarrow> Memory \<Rightarrow> (journal_error + StreamState) \<times> Memory" where
  "mem_State ctx sid now m0 =
     (case ctx_guard ctx None of
        Some x \<Rightarrow> (Inl x, m0)
      | None \<Rightarrow>
          (case lookupLocked sid now m0 of
             (Inl x, m) \<Rightarrow> (Inl x, m)
           | (Inr s, m) \<Rightarrow> (Inr (snapshotState s), touchTerminalLocked sid m)))"

definition mem_MarkDegraded :: "gocontext \<Rightarrow> StreamID \<Rightarrow> time \<Rightarrow> Memory \<Rightarrow> journal_error option \<times> Memory" where
  "mem_MarkDegraded ctx sid now m0 =
     (case ctx_guard ctx None of
        Some x \<Rightarrow> (Some x, m0)
      | None \<Rightarrow>
          (case lookupLocked sid now m0 of
             (Inl x, m) \<Rightarrow> (Some x, m)
           | (Inr s, m) \<Rightarrow>
               if ms_status s \<noteq> StatusOpen then (Some ErrTerminalState, m)
               else
                 (let m' = upd_stream sid (\<lambda>s. s\<lparr>ms_degraded := True, ms_updatedAt := now,
                             ms_expiresAt := now + ms_retentionTTL s\<rparr>) m in
                  (None, if ms_degraded s then m'
                         else foldl (\<lambda>m a. upd_reader a (\<lambda>r. r\<lparr>tr_wake := True\<rparr>) m) m' (tails_of m' sid)))))"

section \<open>The reader goroutine\<close>

abbreviation goto :: "nat \<Rightarrow> tail_pc \<Rightarrow> Memory \<Rightarrow> Memory" where
  "goto a pc \<equiv> upd_reader a (\<lambda>r. r\<lparr>tr_pc := pc\<rparr>)"

text \<open>The first critical section of an iteration of \<open>runTail\<close>.\<close>

definition tail_top :: "nat \<Rightarrow> Memory \<Rightarrow> Memory" where
  "tail_top a m =
     (let r = m_readers m ! a in
      if tr_stopped r then goto a TFinish m
      else
        (let s = the (get_stream m (tr_stream r)) in
         if ms_earliestSeq s > 1 \<and> tr_cursor r < ms_earliestSeq s - 1
         then goto a TFinish (stopTailLocked a (Some ErrReaderLagged) True m)
         else if tr_cursor r < ms_lastSeq s then
           (let index = tr_cursor r + 1 - ms_earliestSeq s in
            if index \<ge> length (ms_entries s) then goto a TFinish (stopTailLocked a (Some ErrReaderLagged) True m)
            else (let stored = ms_entries s ! index in
                  upd_reader a (\<lambda>r. r\<lparr>tr_inFlightSeq := e_Seq (se_entry stored), tr_inFlightSize := se_size stored,
                                      tr_pc := TDeliver (se_entry stored)\<rparr>) m))
         else if ms_status s \<noteq> StatusOpen then goto a TFinish (stopTailLocked a None False m)
         else if ms_degraded s then goto a TFinish (stopTailLocked a (Some ErrOffsetExpired) False m)
         else goto a TWait m))"

text \<open>The critical section after a delivery.\<close>

definition tail_sent :: "nat \<Rightarrow> Entry \<Rightarrow> Memory \<Rightarrow> Memory" where
  "tail_sent a entry m0 =
     (let m = (if tr_stopped (m_readers m0 ! a) then m0
               else
                 (let m = upd_reader a (\<lambda>r. r\<lparr>tr_cursor := e_Seq entry,
                            tr_liveLag := (if e_Seq entry > tr_liveAfter r then max 0 (tr_liveLag r - tr_inFlightSize r) else tr_liveLag r),
                            tr_inFlightSeq := 0, tr_inFlightSize := 0\<rparr>) m0
                  in if kind_terminal (e_Kind entry) then stopTailLocked a None False m else m)) in
      goto a (if tr_stopped (m_readers m ! a) then TFinish else TLoop) m)"

text \<open>\<open>finishTail\<close>: its critical section, then the final send and close.\<close>

definition tail_finish :: "nat \<Rightarrow> Memory \<Rightarrow> Memory" where
  "tail_finish a m0 =
     (let m = (if tr_stopped (m_readers m0 ! a) then m0 else stopTailLocked a None True m0)
      in upd_reader a (\<lambda>r. r\<lparr>tr_out := (if tr_discard r then [] else tr_out r), tr_pc := TClose (tr_stopErr r)\<rparr>) m)"

definition errEntry :: "journal_error \<Rightarrow> Entry" where
  "errEntry x = \<lparr>e_Seq = 0, e_TS = 0, e_Kind = [], e_Payload = [], e_Err = Some x\<rparr>"

text \<open>One step of a reader goroutine. A \<open>select\<close> is one rule per ready case: the channel \<open>out\<close> has
  room for one entry, \<open>done\<close> is closed by a stop, and the reader's context may be cancelled at any
  time.\<close>

inductive tail_step :: "nat \<Rightarrow> Memory \<Rightarrow> Memory \<Rightarrow> bool" for a :: nat where
  top: "tr_pc (m_readers m ! a) = TLoop \<Longrightarrow> tail_step a m (tail_top a m)"
| send: "tr_pc (m_readers m ! a) = TDeliver e \<Longrightarrow> tr_out (m_readers m ! a) = [] \<Longrightarrow>
    tail_step a m (upd_reader a (\<lambda>r. r\<lparr>tr_out := [e], tr_pc := TSent e\<rparr>) m)"
| send_done: "tr_pc (m_readers m ! a) = TDeliver e \<Longrightarrow> tr_done (m_readers m ! a) \<Longrightarrow> tail_step a m (goto a TFinish m)"
| send_ctx: "tr_pc (m_readers m ! a) = TDeliver e \<Longrightarrow> tail_step a m (goto a TCancel m)"
| sent: "tr_pc (m_readers m ! a) = TSent e \<Longrightarrow> tail_step a m (tail_sent a e m)"
| wake: "tr_pc (m_readers m ! a) = TWait \<Longrightarrow> tr_wake (m_readers m ! a) \<Longrightarrow>
    tail_step a m (upd_reader a (\<lambda>r. r\<lparr>tr_wake := False, tr_pc := TLoop\<rparr>) m)"
| wait_done: "tr_pc (m_readers m ! a) = TWait \<Longrightarrow> tr_done (m_readers m ! a) \<Longrightarrow> tail_step a m (goto a TFinish m)"
| wait_ctx: "tr_pc (m_readers m ! a) = TWait \<Longrightarrow> tail_step a m (goto a TCancel m)"
| cancel: "tr_pc (m_readers m ! a) = TCancel \<Longrightarrow> tail_step a m (goto a TFinish (stopTailLocked a None True m))"
| finish: "tr_pc (m_readers m ! a) = TFinish \<Longrightarrow> tail_step a m (tail_finish a m)"
| close_err: "tr_pc (m_readers m ! a) = TClose (Some x) \<Longrightarrow> tr_out (m_readers m ! a) = [] \<Longrightarrow>
    tail_step a m (upd_reader a (\<lambda>r. r\<lparr>tr_out := [errEntry x], tr_pc := TClose None\<rparr>) m)"
| close: "tr_pc (m_readers m ! a) = TClose None \<Longrightarrow>
    tail_step a m (upd_reader a (\<lambda>r. r\<lparr>tr_closed := True, tr_pc := TEnd\<rparr>) m)"

end
