(* ===== verification/Memory_Invariant.thy ===== *)
theory Memory_Invariant
  imports Memory_Journal
begin

text \<open>
  The invariant of the memory journal. Stopping, waking and advancing readers changes nothing the
  invariant speaks about: \<open>strip\<close> forgets the readers, and every such step leaves the stripped state
  alone. The remaining steps are removal, trimming, committing and opening of a stream.
\<close>

section \<open>Forgetting the readers\<close>

definition core :: "memoryStream \<Rightarrow> memoryStream" where
  "core s = s\<lparr>ms_tails := [], ms_nextTailID := 0\<rparr>"

definition strip :: "Memory \<Rightarrow> Memory" where
  "strip m = m\<lparr>m_streams := map (apsnd core) (m_streams m), m_readers := []\<rparr>"

lemma core_sel [simp]:
  "ms_id (core s) = ms_id s" "ms_meta (core s) = ms_meta s" "ms_retentionTTL (core s) = ms_retentionTTL s"
  "ms_originBackend (core s) = ms_originBackend s" "ms_currentBackend (core s) = ms_currentBackend s"
  "ms_entries (core s) = ms_entries s" "ms_bytes (core s) = ms_bytes s" "ms_earliestSeq (core s) = ms_earliestSeq s"
  "ms_lastSeq (core s) = ms_lastSeq s" "ms_status (core s) = ms_status s" "ms_resumable (core s) = ms_resumable s"
  "ms_createdAt (core s) = ms_createdAt s" "ms_updatedAt (core s) = ms_updatedAt s" "ms_expiresAt (core s) = ms_expiresAt s"
  "ms_usage (core s) = ms_usage s" "ms_migrations (core s) = ms_migrations s" "ms_terminal (core s) = ms_terminal s"
  "ms_degraded (core s) = ms_degraded s" "ms_tails (core s) = []" "core (core s) = core s"
  by (simp_all add: core_def)

lemma strip_sel [simp]:
  "m_config (strip m) = m_config m" "m_tombstones (strip m) = m_tombstones m" "m_terminalLRU (strip m) = m_terminalLRU m"
  "m_totalBytes (strip m) = m_totalBytes m" "m_streams (strip m) = map (apsnd core) (m_streams m)"
  "m_readers (strip m) = []"
  by (simp_all add: strip_def)

lemma get_stream_strip: "get_stream (strip m) sid = map_option core (get_stream m sid)"
  by (simp add: map_of_map apsnd_def map_prod_def)

lemma stripD:
  assumes "strip m = strip m'"
  shows "m_config m = m_config m'" "m_tombstones m = m_tombstones m'" "m_terminalLRU m = m_terminalLRU m'"
    "m_totalBytes m = m_totalBytes m'" "map (apsnd core) (m_streams m) = map (apsnd core) (m_streams m')"
    "map_option core (get_stream m sid) = map_option core (get_stream m' sid)"
  using assms strip_sel get_stream_strip by metis+

lemma upd_stream_sel [simp]:
  "m_config (upd_stream sid f m) = m_config m" "m_tombstones (upd_stream sid f m) = m_tombstones m"
  "m_terminalLRU (upd_stream sid f m) = m_terminalLRU m" "m_totalBytes (upd_stream sid f m) = m_totalBytes m"
  "m_readers (upd_stream sid f m) = m_readers m"
  by (simp_all add: upd_stream_def)

lemma upd_reader_sel [simp]:
  "m_config (upd_reader a g m) = m_config m" "m_tombstones (upd_reader a g m) = m_tombstones m"
  "m_terminalLRU (upd_reader a g m) = m_terminalLRU m" "m_totalBytes (upd_reader a g m) = m_totalBytes m"
  "m_streams (upd_reader a g m) = m_streams m"
  by (simp_all add: upd_reader_def)

lemma get_upd_stream: "get_stream (upd_stream sid f m) k = (if k = sid then map_option f (get_stream m k) else get_stream m k)"
proof -
  have "map_of (map (\<lambda>(k, s). if k = sid then (k, f s) else (k, s)) xs) k = (if k = sid then map_option f (map_of xs k) else map_of xs k)" for xs
    by (induction xs) (auto split: prod.splits)
  then show ?thesis by (simp add: upd_stream_def)
qed

lemma keys_upd_stream [simp]: "map fst (m_streams (upd_stream sid f m)) = map fst (m_streams m)"
  by (simp add: upd_stream_def comp_def case_prod_unfold if_distrib cong: if_cong)

lemma strip_upd_reader [simp]: "strip (upd_reader a g m) = strip m"
  by (simp add: strip_def upd_reader_def)

lemma strip_upd_stream:
  assumes "\<And>s. core (f s) = core s"
  shows "strip (upd_stream sid f m) = strip m"
proof -
  have "map (apsnd core) (map (\<lambda>(k, s). if k = sid then (k, f s) else (k, s)) xs) = map (apsnd core) xs" for xs
    using assms by (induction xs) auto
  then show ?thesis by (simp add: strip_def upd_stream_def)
qed

lemma strip_stop [simp]: "strip (stopTailLocked a reason discard m) = strip m"
  by (simp add: stopTailLocked_def Let_def strip_upd_stream core_def)

lemma strip_foldl: "(\<And>m a. strip (f m a) = strip m) \<Longrightarrow> strip (foldl f m as) = strip m"
  by (induction "as" arbitrary: m) simp_all

lemma strip_publish [simp]: "strip (publishLocked sid sz m) = strip m"
  unfolding publishLocked_def by (rule strip_foldl) (simp add: publish_reader_def Let_def)

lemma strip_drop_readers [simp]: "strip (dropReadersBehindRingLocked sid m) = strip m"
  by (auto simp: dropReadersBehindRingLocked_def drop_reader_def Let_def intro!: strip_foldl split: option.split)

lemma strip_tail_step: "tail_step a m m' \<Longrightarrow> strip m' = strip m"
  by (induction rule: tail_step.induct)
     (simp_all add: tail_top_def tail_sent_def tail_finish_def Let_def)

section \<open>The invariant\<close>

definition stream_ok :: "Config \<Rightarrow> memoryStream \<Rightarrow> bool" where
  "stream_ok config s \<longleftrightarrow>
     ms_bytes s = sum_list (map se_size (ms_entries s)) \<and> list_all (\<lambda>e. 0 < se_size e) (ms_entries s)
   \<and> ms_bytes s \<le> c_MaxBytesPerStream config
   \<and> ms_entries s \<noteq> [] \<and> 1 \<le> ms_earliestSeq s \<and> ms_lastSeq s \<le> MaxUint64
   \<and> map (e_Seq \<circ> se_entry) (ms_entries s) = [ms_earliestSeq s..<Suc (ms_lastSeq s)]
   \<and> list_all (\<lambda>e. e_Err (se_entry e) = None) (ms_entries s)
   \<and> list_all (\<lambda>e. \<not> kind_terminal (e_Kind (se_entry e))) (butlast (ms_entries s))
   \<and> (ms_status s = StatusOpen \<longleftrightarrow> \<not> kind_terminal (e_Kind (se_entry (last (ms_entries s)))))
   \<and> (ms_terminal s = None \<longleftrightarrow> ms_status s = StatusOpen)
   \<and> (ms_resumable s \<longleftrightarrow> ms_status s \<noteq> StatusStopped) \<and> (ms_degraded s \<longrightarrow> ms_status s = StatusOpen)"

lemma stream_okD:
  assumes "stream_ok config s"
  shows "ms_bytes s = sum_list (map se_size (ms_entries s))" "list_all (\<lambda>e. 0 < se_size e) (ms_entries s)"
    "ms_bytes s \<le> c_MaxBytesPerStream config" "ms_entries s \<noteq> []" "1 \<le> ms_earliestSeq s" "ms_lastSeq s \<le> MaxUint64"
    "map (e_Seq \<circ> se_entry) (ms_entries s) = [ms_earliestSeq s..<Suc (ms_lastSeq s)]"
    "list_all (\<lambda>e. e_Err (se_entry e) = None) (ms_entries s)"
    "list_all (\<lambda>e. \<not> kind_terminal (e_Kind (se_entry e))) (butlast (ms_entries s))"
    "ms_status s = StatusOpen \<longleftrightarrow> \<not> kind_terminal (e_Kind (se_entry (last (ms_entries s))))"
    "ms_terminal s = None \<longleftrightarrow> ms_status s = StatusOpen" "ms_resumable s \<longleftrightarrow> ms_status s \<noteq> StatusStopped"
    "ms_degraded s \<Longrightarrow> ms_status s = StatusOpen"
  using assms unfolding stream_ok_def by blast+

lemma sizes_nonneg: "list_all (\<lambda>e. 0 < se_size e) es \<Longrightarrow> 0 \<le> sum_list (map se_size es)"
  by (induction es) auto

lemma stream_ok_bytes: "stream_ok config s \<Longrightarrow> 0 \<le> ms_bytes s"
  using stream_okD(1,2) sizes_nonneg by metis

definition held_bytes :: "(StreamID \<times> memoryStream) list \<Rightarrow> int" where
  "held_bytes streams = sum_list (map (ms_bytes \<circ> snd) streams)"

definition mem_inv :: "Memory \<Rightarrow> bool" where
  "mem_inv m \<longleftrightarrow>
     validateConfig (m_config m) \<and> distinct (map fst (m_streams m))
   \<and> list_all (\<lambda>(sid, s). ms_id s = sid \<and> stream_ok (m_config m) s) (m_streams m)
   \<and> m_totalBytes m = held_bytes (m_streams m) \<and> m_totalBytes m \<le> c_MaxTotalBytes (m_config m)
   \<and> distinct (m_terminalLRU m)
   \<and> set (m_terminalLRU m) = {sid. \<exists>s. get_stream m sid = Some s \<and> ms_status s \<noteq> StatusOpen}
   \<and> distinct (map fst (m_tombstones m)) \<and> fst ` set (m_tombstones m) \<inter> fst ` set (m_streams m) = {}"

lemma mem_invD:
  assumes "mem_inv m"
  shows "validateConfig (m_config m)" "distinct (map fst (m_streams m))"
    "list_all (\<lambda>(sid, s). ms_id s = sid \<and> stream_ok (m_config m) s) (m_streams m)"
    "m_totalBytes m = held_bytes (m_streams m)" "m_totalBytes m \<le> c_MaxTotalBytes (m_config m)"
    "distinct (m_terminalLRU m)"
    "set (m_terminalLRU m) = {sid. \<exists>s. get_stream m sid = Some s \<and> ms_status s \<noteq> StatusOpen}"
    "distinct (map fst (m_tombstones m))" "fst ` set (m_tombstones m) \<inter> fst ` set (m_streams m) = {}"
  using assms unfolding mem_inv_def by blast+

lemma stream_ok_core [simp]: "stream_ok config (core s) = stream_ok config s"
  by (simp add: stream_ok_def)

lemma held_bytes_core: "held_bytes (map (apsnd core) xs) = held_bytes xs"
  by (simp add: held_bytes_def comp_def)

lemma mem_inv_strip: "mem_inv (strip m) = mem_inv m"
proof -
  have "list_all (\<lambda>(sid, s). ms_id s = sid \<and> stream_ok (m_config m) s) (map (apsnd core) (m_streams m))
      = list_all (\<lambda>(sid, s). ms_id s = sid \<and> stream_ok (m_config m) s) (m_streams m)"
    by (simp add: list_all_iff case_prod_unfold)
  moreover have "{sid. \<exists>s. get_stream (strip m) sid = Some s \<and> ms_status s \<noteq> StatusOpen}
      = {sid. \<exists>s. get_stream m sid = Some s \<and> ms_status s \<noteq> StatusOpen}"
    unfolding get_stream_strip by auto
  ultimately show ?thesis
    by (simp add: mem_inv_def held_bytes_core comp_def image_image)
qed

lemma mem_inv_cong: "strip m = strip m' \<Longrightarrow> mem_inv m = mem_inv m'"
  using mem_inv_strip by metis

lemma mem_inv_stream:
  assumes "mem_inv m" and "get_stream m sid = Some s"
  shows "stream_ok (m_config m) s" and "ms_id s = sid"
  using assms map_of_SomeD [OF assms(2)] by (auto simp: mem_inv_def list_all_iff)

section \<open>Removal and expiry\<close>

lemma held_bytes_delete:
  "distinct (map fst xs) \<Longrightarrow> map_of xs k = Some s \<Longrightarrow> held_bytes (AList.delete k xs) = held_bytes xs - ms_bytes s"
proof (induction xs)
  case (Cons x xs)
  show ?case
  proof (cases "fst x = k")
    case True
    with Cons.prems have "AList.delete k xs = xs" by (auto simp: AList.delete_idem)
    with True Cons.prems show ?thesis by (auto simp: held_bytes_def)
  next
    case False
    with Cons show ?thesis by (auto simp: held_bytes_def)
  qed
qed simp

text \<open>What is left of a removal once the readers are forgotten.\<close>

definition add_tombstone :: "time \<Rightarrow> time \<Rightarrow> StreamID \<Rightarrow> (StreamID \<times> time) list \<Rightarrow> (StreamID \<times> time) list" where
  "add_tombstone now tombstoneUntil sid ts =
     (if now < tombstoneUntil \<and> (case map_of ts sid of None \<Rightarrow> True | Some existing \<Rightarrow> existing < tombstoneUntil)
      then AList.update sid tombstoneUntil ts else ts)"

lemma remove_absent [simp]: "get_stream m sid = None \<Longrightarrow> removeStreamLocked now u sid m = m"
  by (simp add: removeStreamLocked_def)

lemma remove_strip:
  assumes "get_stream m sid = Some s"
  shows "strip (removeStreamLocked now u sid m) =
     (strip m)\<lparr>m_streams := AList.delete sid (m_streams (strip m)), m_totalBytes := m_totalBytes m - ms_bytes s,
       m_terminalLRU := removeAll sid (m_terminalLRU m), m_tombstones := add_tombstone now u sid (m_tombstones m)\<rparr>"
proof -
  define m1 where "m1 = foldl (\<lambda>m a. stopTailLocked a (Some ErrExpired) True m) m (tails_of m sid)"
  have st: "strip m1 = strip m" unfolding m1_def by (rule strip_foldl) simp
  note d = stripD [OF st]
  have "map (apsnd core) (AList.delete sid (m_streams m1)) = AList.delete sid (map (apsnd core) (m_streams m1))" for xs
    by (simp add: AList.delete_eq filter_map comp_def apsnd_def map_prod_def case_prod_unfold)
  then show ?thesis
    using assms d by (simp add: removeStreamLocked_def m1_def [symmetric] Let_def strip_def add_tombstone_def)
qed

lemma remove_get:
  "map_option core (get_stream (removeStreamLocked now u sid m) k) =
     (if k = sid then None else map_option core (get_stream m k))"
proof (cases "get_stream m sid")
  case (Some s)
  have "get_stream (strip (removeStreamLocked now u sid m)) k = (if k = sid then None else get_stream (strip m) k)"
    unfolding remove_strip [OF Some] by (simp add: AList.delete_conv)
  then show ?thesis unfolding get_stream_strip .
qed auto

lemma remove_sel:
  assumes "get_stream m sid = Some s"
  shows "m_config (removeStreamLocked now u sid m) = m_config m"
    "m_totalBytes (removeStreamLocked now u sid m) = m_totalBytes m - ms_bytes s"
    "m_terminalLRU (removeStreamLocked now u sid m) = removeAll sid (m_terminalLRU m)"
    "m_tombstones (removeStreamLocked now u sid m) = add_tombstone now u sid (m_tombstones m)"
proof -
  let ?m = "removeStreamLocked now u sid m"
  have "m_config (strip ?m) = m_config m" "m_totalBytes (strip ?m) = m_totalBytes m - ms_bytes s"
    "m_terminalLRU (strip ?m) = removeAll sid (m_terminalLRU m)" "m_tombstones (strip ?m) = add_tombstone now u sid (m_tombstones m)"
    unfolding remove_strip [OF assms] by simp_all
  then show "m_config ?m = m_config m" "m_totalBytes ?m = m_totalBytes m - ms_bytes s"
    "m_terminalLRU ?m = removeAll sid (m_terminalLRU m)" "m_tombstones ?m = add_tombstone now u sid (m_tombstones m)"
    by simp_all
qed

lemma add_tombstone_keys:
  "fst ` set (add_tombstone now u sid ts) \<subseteq> insert sid (fst ` set ts)"
  "distinct (map fst ts) \<Longrightarrow> distinct (map fst (add_tombstone now u sid ts))"
proof -
  have "fst ` set (AList.update sid u ts) = insert sid (fst ` set ts)" using AList.dom_update [of sid u ts] by simp
  then show "fst ` set (add_tombstone now u sid ts) \<subseteq> insert sid (fst ` set ts)"
    unfolding add_tombstone_def by (simp split: if_split) blast
  show "distinct (map fst ts) \<Longrightarrow> distinct (map fst (add_tombstone now u sid ts))"
    by (simp add: add_tombstone_def AList.distinct_update)
qed

lemma disjoint_shrink: "X \<subseteq> insert a A \<Longrightarrow> Y = B - {a} \<Longrightarrow> A \<inter> B = {} \<Longrightarrow> X \<inter> Y = {}"
  by blast

lemma mem_inv_remove [inv_intros]:
  assumes "mem_inv m"
  shows "mem_inv (removeStreamLocked now u sid m)"
proof (cases "get_stream m sid")
  case (Some s)
  let ?m = "strip m" and ?m' = "strip (removeStreamLocked now u sid m)"
  have i: "mem_inv ?m" using assms by (simp add: mem_inv_strip)
  have g: "get_stream ?m sid = Some (core s)" using Some by (simp only: get_stream_strip) simp
  have pos: "0 \<le> ms_bytes s" using stream_ok_bytes [OF mem_inv_stream(1) [OF assms Some]] .
  have l: "list_all (\<lambda>(sid, s). ms_id s = sid \<and> stream_ok (m_config m) s) (AList.delete sid (m_streams ?m))"
    using i by (auto simp: mem_inv_def list_all_iff AList.delete_eq)
  have h: "held_bytes (AList.delete sid (m_streams ?m)) = held_bytes (m_streams ?m) - ms_bytes s"
    using held_bytes_delete [of "m_streams ?m" sid "core s"] i g by (simp add: mem_inv_def)
  have lru: "set (removeAll sid (m_terminalLRU m)) =
      {k. \<exists>s. map_of (AList.delete sid (m_streams ?m)) k = Some s \<and> ms_status s \<noteq> StatusOpen}"
    using i by (auto simp: mem_inv_def AList.delete_conv)
  have t: "fst ` set (add_tombstone now u sid (m_tombstones m)) \<inter> fst ` set (AList.delete sid (m_streams ?m)) = {}"
  proof (rule disjoint_shrink [OF add_tombstone_keys(1)])
    show "fst ` set (AList.delete sid (m_streams ?m)) = fst ` set (m_streams ?m) - {sid}"
      by (metis AList.delete_keys list.set_map set_removeAll)
    show "fst ` set (m_tombstones m) \<inter> fst ` set (m_streams ?m) = {}" using mem_invD(9) [OF i] by simp
  qed
  have "mem_inv ?m'"
    unfolding remove_strip [OF Some] mem_inv_def Memory.simps
    using mem_invD(1,2,4,5,6,8) [OF i] l h lru t pos add_tombstone_keys(2)
    by (simp add: AList.distinct_delete distinct_removeAll)
  then show ?thesis by (simp add: mem_inv_strip)
qed (use assms in simp)

definition dead :: "time \<Rightarrow> memoryStream \<Rightarrow> bool" where
  "dead now s \<longleftrightarrow> \<not> ((ms_status s = StatusOpen \<and> \<not> ms_degraded s) \<or> now < ms_expiresAt s)"

lemma map_of_filter_snd:
  "distinct (map fst xs) \<Longrightarrow> map_of (filter (P \<circ> snd) xs) k =
     (case map_of xs k of Some v \<Rightarrow> if P v then Some v else None | None \<Rightarrow> None)"
proof (induction xs)
  case (Cons x xs)
  then have "map_of xs (fst x) = None" by (simp add: map_of_eq_None_iff)
  with Cons show ?case by (cases x) (auto split: option.split)
qed simp

text \<open>Removing several streams: everything but their keys stays.\<close>

lemma core_get_None: "map_option core (get_stream m k) = map_option core (get_stream m' k) \<Longrightarrow>
    get_stream m k = None \<longleftrightarrow> get_stream m' k = None"
  by (cases "get_stream m k"; cases "get_stream m' k") auto

lemma core_get_bytes: "map_option core (get_stream m k) = map_option core (get_stream m' k) \<Longrightarrow> get_stream m k \<noteq> None \<Longrightarrow>
    ms_bytes (the (get_stream m k)) = ms_bytes (the (get_stream m' k))"
  by (cases "get_stream m k"; cases "get_stream m' k") (auto dest: arg_cong [of _ _ ms_bytes])

lemma remove_fold:
  fixes now :: time and key :: "'x \<Rightarrow> StreamID" and u :: "Memory \<Rightarrow> 'x \<Rightarrow> time"
  assumes "mem_inv m" and "distinct (map key xs)" and "\<And>x. x \<in> set xs \<Longrightarrow> get_stream m (key x) \<noteq> None"
  defines "m' \<equiv> foldl (\<lambda>m x. removeStreamLocked now (u m x) (key x) m) m xs"
  shows "mem_inv m'" and "m_config m' = m_config m"
    and "\<And>k. map_option core (get_stream m' k) = (if k \<in> key ` set xs then None else map_option core (get_stream m k))"
    and "m_totalBytes m' = m_totalBytes m - sum_list (map (\<lambda>x. ms_bytes (the (get_stream m (key x)))) xs)"
    and "m_terminalLRU m' = filter (\<lambda>k. k \<notin> key ` set xs) (m_terminalLRU m)"
    and "fst ` set (m_tombstones m') \<subseteq> fst ` set (m_tombstones m) \<union> key ` set xs"
proof -
  have "mem_inv m' \<and> m_config m' = m_config m
    \<and> (\<forall>k. map_option core (get_stream m' k) = (if k \<in> key ` set xs then None else map_option core (get_stream m k)))
    \<and> m_totalBytes m' = m_totalBytes m - sum_list (map (\<lambda>x. ms_bytes (the (get_stream m (key x)))) xs)
    \<and> m_terminalLRU m' = filter (\<lambda>k. k \<notin> key ` set xs) (m_terminalLRU m)
    \<and> fst ` set (m_tombstones m') \<subseteq> fst ` set (m_tombstones m) \<union> key ` set xs"
    unfolding m'_def using assms(1-3)
  proof (induction xs arbitrary: m)
    case (Cons x xs)
    let ?m = "removeStreamLocked now (u m x) (key x) m"
    let ?f = "foldl (\<lambda>m x. removeStreamLocked now (u m x) (key x) m) ?m xs"
    obtain s where s: "get_stream m (key x) = Some s" using Cons.prems(3) by fastforce
    have i: "mem_inv ?m" by (rule mem_inv_remove [OF Cons.prems(1)])
    have g: "map_option core (get_stream ?m k) = (if k = key x then None else map_option core (get_stream m k))" for k
      by (rule remove_get)
    have n: "key y \<noteq> key x" if "y \<in> set xs" for y using Cons.prems(2) that by (metis distinct.simps(2) imageI list.set_map list.simps(9))
    have p: "get_stream ?m (key y) \<noteq> None" if "y \<in> set xs" for y
      using g [of "key y"] Cons.prems(3) [of y] n [OF that] that by (cases "get_stream ?m (key y)") auto
    have d: "distinct (map key xs)" using Cons.prems(2) by simp
    note ih = Cons.IH [OF i d p]
    note sel = remove_sel [OF s, of now "u m x"]
    have "(\<Sum>y\<leftarrow>xs. ms_bytes (the (get_stream ?m (key y)))) = (\<Sum>y\<leftarrow>xs. ms_bytes (the (get_stream m (key y))))"
      using core_get_bytes g n p by (intro arg_cong [where f = sum_list] map_cong [OF refl]) simp
    then have "m_totalBytes ?f = m_totalBytes m - sum_list (map (\<lambda>x. ms_bytes (the (get_stream m (key x)))) (x # xs))"
      using ih sel(2) s by simp
    moreover have "\<forall>k. map_option core (get_stream ?f k) = (if k \<in> key ` set (x # xs) then None else map_option core (get_stream m k))"
      using ih g by auto
    moreover have "m_terminalLRU ?f = filter (\<lambda>k. k \<notin> key ` set (x # xs)) (m_terminalLRU m)"
      using ih sel(3) by (auto simp: removeAll_filter_not_eq intro: filter_cong)
    moreover have "fst ` set (m_tombstones ?f) \<subseteq> fst ` set (m_tombstones m) \<union> key ` set (x # xs)"
    proof -
      have "fst ` set (m_tombstones ?m) \<subseteq> insert (key x) (fst ` set (m_tombstones m))"
        unfolding sel(4) by (rule add_tombstone_keys(1))
      moreover have "fst ` set (m_tombstones ?f) \<subseteq> fst ` set (m_tombstones ?m) \<union> key ` set xs" using ih by blast
      ultimately show ?thesis unfolding list.set(2) image_insert by blast
    qed
    ultimately show ?case using ih sel(1) by simp
  qed simp
  then show "mem_inv m'" and "m_config m' = m_config m"
    and "\<And>k. map_option core (get_stream m' k) = (if k \<in> key ` set xs then None else map_option core (get_stream m k))"
    and "m_totalBytes m' = m_totalBytes m - sum_list (map (\<lambda>x. ms_bytes (the (get_stream m (key x)))) xs)"
    and "m_terminalLRU m' = filter (\<lambda>k. k \<notin> key ` set xs) (m_terminalLRU m)"
    and "fst ` set (m_tombstones m') \<subseteq> fst ` set (m_tombstones m) \<union> key ` set xs" by blast+
qed

text \<open>The expiry sweep removes exactly the dead streams and leaves a tombstone for each whose
  grace period is not over.\<close>

lemma cleanup_as_removal:
  "foldl (cleanup_stream now) m xs =
     foldl (\<lambda>m x. removeStreamLocked now (ms_expiresAt (snd x) + ms_retentionTTL (snd x)) (fst x) m) m (filter (dead now \<circ> snd) xs)"
  by (induction xs arbitrary: m) (auto simp: cleanup_stream_def dead_def)

lemma tombstone_fold:
  assumes "\<And>x. x \<in> set xs \<Longrightarrow> map_of (m_tombstones m) (fst x) = None" and "distinct (map fst xs)"
    and "\<And>x. x \<in> set xs \<Longrightarrow> get_stream m (fst x) \<noteq> None"
  shows "map_of (m_tombstones (foldl (\<lambda>m x. removeStreamLocked now (u x) (fst x) m) m xs)) k =
     (case map_of xs k of None \<Rightarrow> map_of (m_tombstones m) k
      | Some v \<Rightarrow> if now < u (k, v) then Some (u (k, v)) else None)"
  using assms
proof (induction xs arbitrary: m)
  case (Cons x xs)
  let ?m = "removeStreamLocked now (u x) (fst x) m"
  obtain s where s: "get_stream m (fst x) = Some s" using Cons.prems(3) by fastforce
  have n: "fst y \<noteq> fst x" if "y \<in> set xs" for y
    using Cons.prems(2) that by (metis distinct.simps(2) imageI list.set_map list.simps(9))
  have t: "map_of (m_tombstones ?m) j = (if j = fst x \<and> now < u x then Some (u x) else map_of (m_tombstones m) j)" for j
    using remove_sel(4) [OF s, of now "u x"] Cons.prems(1) [of x] by (simp add: add_tombstone_def update_Some_unfold AList.update_conv)
  have "map_of (m_tombstones ?m) (fst y) = None" if "y \<in> set xs" for y
    using t [of "fst y"] Cons.prems(1) [of y] n [OF that] that by simp
  moreover have "get_stream ?m (fst y) \<noteq> None" if "y \<in> set xs" for y
    using remove_get [of now "u x" "fst x" m "fst y"] Cons.prems(3) [of y] n [OF that] that
    by (cases "get_stream ?m (fst y)") auto
  ultimately have ih: "map_of (m_tombstones (foldl (\<lambda>m x. removeStreamLocked now (u x) (fst x) m) ?m xs)) k =
     (case map_of xs k of None \<Rightarrow> map_of (m_tombstones ?m) k | Some v \<Rightarrow> if now < u (k, v) then Some (u (k, v)) else None)"
    using Cons.prems(2) by (intro Cons.IH) auto
  have "map_of xs (fst x) = None" using Cons.prems(2) by (simp add: map_of_eq_None_iff)
  then show ?case using ih t [of k] Cons.prems(1) [of x] by (cases x) (auto split: option.split)
qed simp

lemma cleanup_spec:
  fixes now :: time
  assumes "mem_inv m"
  defines "m' \<equiv> cleanupExpiredLocked now m"
  shows "mem_inv m'" and "m_config m' = m_config m"
    and "\<And>k. map_option core (get_stream m' k) = (case get_stream m k of None \<Rightarrow> None
           | Some s \<Rightarrow> if dead now s then None else Some (core s))"
    and "\<And>k. map_of (m_tombstones m') k = (case get_stream m k of
             Some s \<Rightarrow> if dead now s \<and> now < ms_expiresAt s + ms_retentionTTL s then Some (ms_expiresAt s + ms_retentionTTL s) else None
           | None \<Rightarrow> (case map_of (m_tombstones m) k of Some t \<Rightarrow> if now < t then Some t else None | None \<Rightarrow> None))"
proof -
  let ?m = "m\<lparr>m_tombstones := filter (\<lambda>(sid, expiresAt). now < expiresAt) (m_tombstones m)\<rparr>"
  let ?xs = "filter (dead now \<circ> snd) (m_streams m)"
  let ?u = "\<lambda>x. ms_expiresAt (snd x) + ms_retentionTTL (snd x)"
  note inv = mem_invD [OF assms(1)]
  have im: "mem_inv ?m"
    unfolding mem_inv_def using inv by (auto simp: distinct_map_filter)
  have m': "m' = foldl (\<lambda>m x. removeStreamLocked now (?u x) (fst x) m) ?m ?xs"
    by (simp add: m'_def cleanupExpiredLocked_def Let_def cleanup_as_removal)
  have d: "distinct (map fst ?xs)" using inv(2) by (simp add: distinct_map_filter)
  have p: "get_stream ?m (fst x) \<noteq> None" if "x \<in> set ?xs" for x
    using that by (auto simp: map_of_eq_None_iff)
  note rf = remove_fold [where key = fst and u = "\<lambda>_. ?u", OF im d p, of now, folded m']
  show "mem_inv m'" "m_config m' = m_config m" using rf(1,2) by simp_all
  have mem: "(k, s) \<in> set (m_streams m) \<longleftrightarrow> get_stream m k = Some s" for k s
    using inv(2) by (simp add: map_of_eq_Some_iff)
  have dk: "k \<in> fst ` set ?xs \<longleftrightarrow> (\<exists>s. get_stream m k = Some s \<and> dead now s)" for k
    by (force simp: mem [symmetric])
  show "map_option core (get_stream m' k) = (case get_stream m k of None \<Rightarrow> None
         | Some s \<Rightarrow> if dead now s then None else Some (core s))" for k
    using rf(3) [of k] dk [of k] by (auto split: option.split)
  have disj: "map_of (m_tombstones ?m) k = None" if "get_stream m k = Some s" for k s
  proof -
    have "k \<in> fst ` set (m_streams m)" using map_of_SomeD [OF that] by force
    then have "k \<notin> fst ` set (m_tombstones m)" using inv(9) by blast
    then show ?thesis by (auto simp: map_of_eq_None_iff image_iff)
  qed
  have tf: "map_of (m_tombstones m') k = (case map_of ?xs k of None \<Rightarrow> map_of (m_tombstones ?m) k
      | Some v \<Rightarrow> if now < ?u (k, v) then Some (?u (k, v)) else None)" for k
    unfolding m' by (rule tombstone_fold [OF _ d p]) (use disj mem in auto)
  have xk: "map_of ?xs k = (case get_stream m k of Some s \<Rightarrow> if dead now s then Some s else None | None \<Rightarrow> None)" for k
    using map_of_filter_snd [OF inv(2), of "dead now" k] by (simp add: comp_def)
  have tk: "map_of (m_tombstones ?m) k = (case map_of (m_tombstones m) k of Some t \<Rightarrow> if now < t then Some t else None | None \<Rightarrow> None)" for k
    using map_of_filter_snd [OF inv(8), of "\<lambda>t. now < t" k] by (simp add: comp_def case_prod_unfold)
  show "map_of (m_tombstones m') k = (case get_stream m k of
             Some s \<Rightarrow> if dead now s \<and> now < ms_expiresAt s + ms_retentionTTL s then Some (ms_expiresAt s + ms_retentionTTL s) else None
           | None \<Rightarrow> (case map_of (m_tombstones m) k of Some t \<Rightarrow> if now < t then Some t else None | None \<Rightarrow> None))" for k
    using tf [of k] xk [of k] tk [of k] disj [of k] by (cases "get_stream m k") auto
qed

section \<open>Making room\<close>

lemma trim_loop_spec:
  assumes "list_all (\<lambda>e. 0 < se_size e) es" and "held = sum_list (map se_size es)" and "0 \<le> lim"
  shows "\<exists>b n. trim_loop es held lim = Some (b, n) \<and> n \<le> length es \<and> b = sum_list (map se_size (take n es)) \<and> held - b \<le> lim
    \<and> (0 < n \<longrightarrow> held - sum_list (map se_size (take (n - 1) es)) > lim)"
  using assms
proof (induction es arbitrary: held)
  case (Cons e es)
  show ?case
  proof (cases "held > lim")
    case True
    obtain b n where t: "trim_loop es (held - se_size e) lim = Some (b, n)" "n \<le> length es"
      "b = sum_list (map se_size (take n es))" "held - se_size e - b \<le> lim"
      "0 < n \<longrightarrow> held - se_size e - sum_list (map se_size (take (n - 1) es)) > lim"
      using Cons.IH [of "held - se_size e"] Cons.prems by auto
    have "trim_loop (e # es) held lim = Some (se_size e + b, Suc n)"
      using True t(1) trim_loop.simps [of "e # es" held lim] by simp
    moreover have "held - sum_list (map se_size (take n (e # es))) > lim"
      using t(5) True by (cases n) auto
    ultimately show ?thesis using t by (intro exI [of _ "se_size e + b"] exI [of _ "Suc n"]) auto
  next
    case False
    then show ?thesis using trim_loop.simps [of "e # es" held lim] by auto
  qed
next
  case Nil
  then show ?case using trim_loop.simps [of "[]" held lim] by auto
qed

lemma pick_victims_spec:
  assumes "distinct cs" and "pick_victims m keep needFree cs freed = (vs, tot)"
  shows "distinct vs" and "set vs \<subseteq> set cs" and "keep \<notin> Some ` set vs"
    and "tot = freed + (\<Sum>v\<leftarrow>vs. ms_bytes (the (get_stream m v)))"
    and "vs = [] \<or> freed < needFree"
proof -
  have "distinct vs \<and> set vs \<subseteq> set cs \<and> keep \<notin> Some ` set vs
    \<and> tot = freed + (\<Sum>v\<leftarrow>vs. ms_bytes (the (get_stream m v))) \<and> (vs = [] \<or> freed < needFree)"
    using assms
  proof (induction cs arbitrary: freed vs)
    case (Cons c cs)
    show ?case
    proof (cases "freed < needFree \<and> keep \<noteq> Some c")
      case True
      with Cons.prems obtain ws where ws: "pick_victims m keep needFree cs (freed + ms_bytes (the (get_stream m c))) = (ws, tot)"
        "vs = c # ws" by (cases "pick_victims m keep needFree cs (freed + ms_bytes (the (get_stream m c)))") auto
      with Cons.IH [OF _ ws(1)] Cons.prems True show ?thesis by auto
    next
      case False
      with Cons.IH [of freed vs] Cons.prems show ?thesis by (auto split: if_splits)
    qed
  qed auto
  then show "distinct vs" and "set vs \<subseteq> set cs" and "keep \<notin> Some ` set vs"
    and "tot = freed + (\<Sum>v\<leftarrow>vs. ms_bytes (the (get_stream m v)))" and "vs = [] \<or> freed < needFree" by blast+
qed

text \<open>The number of entries trimmed, and what the stream keeps of its bytes.\<close>

definition trimmed_bytes :: "Memory \<Rightarrow> StreamID option \<Rightarrow> nat \<Rightarrow> int" where
  "trimmed_bytes m stream n =
     (case stream of None \<Rightarrow> 0 | Some sid \<Rightarrow> sum_list (map se_size (take n (ms_entries (the (get_stream m sid))))))"

lemma make_room:
  assumes inv: "mem_inv m" and keep: "\<forall>sid. stream = Some sid \<longrightarrow> get_stream m sid \<noteq> None"
    and sz: "0 < sz" and res: "makeRoomLocked stream sz now m = (res, m')"
  shows "res = Inl ErrCapacity \<and> m' = m \<or>
    (\<exists>n V. res = Inr n \<and> sz \<le> c_MaxBytesPerStream (m_config m) \<and> mem_inv m' \<and> m_config m' = m_config m
      \<and> V \<subseteq> set (m_terminalLRU m) \<and> stream \<notin> Some ` V
      \<and> (\<forall>k. map_option core (get_stream m' k) = (if k \<in> V then None else map_option core (get_stream m k)))
      \<and> m_terminalLRU m' = filter (\<lambda>k. k \<notin> V) (m_terminalLRU m)
      \<and> fst ` set (m_tombstones m') \<subseteq> fst ` set (m_tombstones m) \<union> V
      \<and> m_totalBytes m' - trimmed_bytes m stream n + sz \<le> c_MaxTotalBytes (m_config m)
      \<and> (case stream of None \<Rightarrow> n = 0
         | Some sid \<Rightarrow> n \<le> length (ms_entries (the (get_stream m sid)))
             \<and> ms_bytes (the (get_stream m sid)) - trimmed_bytes m stream n + sz \<le> c_MaxBytesPerStream (m_config m)))"
proof (cases "sz > c_MaxBytesPerStream (m_config m)")
  case True
  then show ?thesis using res by (simp add: makeRoomLocked_def)
next
  case False
  define trim where "trim = (case stream of None \<Rightarrow> Some (0, 0)
      | Some sid \<Rightarrow> (let s = the (get_stream m sid) in trim_loop (ms_entries s) (ms_bytes s) (c_MaxBytesPerStream (m_config m) - sz)))"
  have "\<exists>n. trim = Some (trimmed_bytes m stream n, n) \<and> (case stream of None \<Rightarrow> n = 0
         | Some sid \<Rightarrow> n \<le> length (ms_entries (the (get_stream m sid)))
             \<and> ms_bytes (the (get_stream m sid)) - trimmed_bytes m stream n + sz \<le> c_MaxBytesPerStream (m_config m))"
  proof (cases stream)
    case (Some sid)
    then obtain s where s: "get_stream m sid = Some s" using keep by blast
    note ok = stream_okD [OF mem_inv_stream(1) [OF inv s]]
    show ?thesis
      using trim_loop_spec [OF ok(2,1), of "c_MaxBytesPerStream (m_config m) - sz"] False Some s
      by (auto simp: trim_def trimmed_bytes_def)
  qed (simp add: trim_def trimmed_bytes_def)
  then obtain n where n: "trim = Some (trimmed_bytes m stream n, n)" and
    nle: "case stream of None \<Rightarrow> n = 0 | Some sid \<Rightarrow> n \<le> length (ms_entries (the (get_stream m sid)))
             \<and> ms_bytes (the (get_stream m sid)) - trimmed_bytes m stream n + sz \<le> c_MaxBytesPerStream (m_config m)" by blast
  let ?base = "m_totalBytes m - trimmed_bytes m stream n"
  let ?need = "if sz > c_MaxTotalBytes (m_config m) - ?base then sz - (c_MaxTotalBytes (m_config m) - ?base) else 0"
  obtain vs freed where pv: "pick_victims m stream ?need (rev (m_terminalLRU m)) 0 = (vs, freed)" by fastforce
  note pvs = pick_victims_spec [OF _ pv]
  have dl: "distinct (rev (m_terminalLRU m))" using mem_invD(6) [OF inv] by simp
  have r: "(res, m') = (if freed < ?need then (Inl ErrCapacity, m)
      else (Inr n, foldl (\<lambda>m v. removeStreamLocked now (now + ms_retentionTTL (the (get_stream m v))) v m) m vs))"
    using res False n pv unfolding makeRoomLocked_def Let_def trim_def [unfolded Let_def, symmetric] by simp
  show ?thesis
  proof (cases "freed < ?need")
    case True
    then show ?thesis using r by simp
  next
    case F: False
    have vsub: "set vs \<subseteq> set (m_terminalLRU m)" using pvs(2) [OF dl] by simp
    have p: "get_stream m v \<noteq> None" if "v \<in> set vs" for v
      using vsub that mem_invD(7) [OF inv] by auto
    have dv: "distinct (map (\<lambda>v. v) vs)" using pvs(1) [OF dl] by simp
    have m': "m' = foldl (\<lambda>m v. removeStreamLocked now (now + ms_retentionTTL (the (get_stream m v))) v m) m vs"
      and res': "res = Inr n" using r F by auto
    note rf = remove_fold [where key = "\<lambda>v. v" and u = "\<lambda>m v. now + ms_retentionTTL (the (get_stream m v))" and now = now,
        OF inv dv p, folded m']
    have "m_totalBytes m' = m_totalBytes m - freed" using rf(4) pvs(4) [OF dl] by simp
    moreover have "?need \<le> freed" using F by simp
    ultimately have tot: "m_totalBytes m' - trimmed_bytes m stream n + sz \<le> c_MaxTotalBytes (m_config m)"
      by (auto split: if_splits)
    show ?thesis
      using res' False rf(1,2,3,5,6) vsub pvs(3) [OF dl] nle tot
      by (intro disjI2 exI [of _ n] exI [of _ "set vs"]) auto
  qed
qed

section \<open>Updating a stream\<close>

lemma held_bytes_upd:
  "distinct (map fst xs) \<Longrightarrow> map_of xs sid = Some s \<Longrightarrow>
     held_bytes (map (\<lambda>(k, s). if k = sid then (k, f s) else (k, s)) xs) = held_bytes xs + (ms_bytes (f s) - ms_bytes s)"
proof (induction xs)
  case (Cons x xs)
  obtain k v where x: "x = (k, v)" by fastforce
  show ?case
  proof (cases "k = sid")
    case True
    have "map (\<lambda>(k, s). if k = sid then (k, f s) else (k, s)) xs = xs"
      using Cons.prems True x by (intro map_idI) force
    with True Cons.prems x show ?thesis by (simp add: held_bytes_def)
  next
    case False
    with Cons x show ?thesis by (simp add: held_bytes_def)
  qed
qed simp

lemma mem_inv_upd:
  assumes inv: "mem_inv m" and s: "get_stream m sid = Some s"
    and ok: "stream_ok (m_config m) (f s)" and ident: "ms_id (f s) = sid"
    and fits: "m_totalBytes m + (ms_bytes (f s) - ms_bytes s) \<le> c_MaxTotalBytes (m_config m)"
    and lru: "distinct lru" "set lru = (if ms_status (f s) = StatusOpen then set (m_terminalLRU m) - {sid} else insert sid (set (m_terminalLRU m)))"
  shows "mem_inv ((upd_stream sid f m)\<lparr>m_totalBytes := m_totalBytes m + (ms_bytes (f s) - ms_bytes s), m_terminalLRU := lru\<rparr>)"
proof -
  let ?m = "(upd_stream sid f m)\<lparr>m_totalBytes := m_totalBytes m + (ms_bytes (f s) - ms_bytes s), m_terminalLRU := lru\<rparr>"
  note i = mem_invD [OF inv]
  have only: "v = s" if "(sid, v) \<in> set (m_streams m)" for v
    using that i(2) s by (metis map_of_is_SomeI option.inject)
  have keys: "fst ` set (m_streams ?m) = fst ` set (m_streams m)"
    using arg_cong [OF keys_upd_stream [of sid f m], of set] unfolding set_map by simp
  have "list_all (\<lambda>(sid, s). ms_id s = sid \<and> stream_ok (m_config m) s) (m_streams ?m)"
    using i(3) ok ident only by (auto simp: list_all_iff upd_stream_def split: if_splits)
  moreover have "m_totalBytes ?m = held_bytes (m_streams ?m)"
    using held_bytes_upd [OF i(2) s, of f] i(4) by (simp add: upd_stream_def)
  moreover have "set lru = {k. \<exists>s. get_stream ?m k = Some s \<and> ms_status s \<noteq> StatusOpen}"
    using lru(2) i(7) s by (auto simp: get_upd_stream split: if_splits)
  ultimately show ?thesis
    unfolding mem_inv_def using i(1,2,8,9) fits lru(1) keys by simp
qed

end
