(* ===== verification/Memory_Refinement.thy ===== *)
theory Memory_Refinement
  imports Memory_Invariant
begin

text \<open>
  The memory journal keeps, of every stream, a suffix of the log of all entries ever committed to it.
  The logs are a ghost state: \<open>hist_ok\<close> relates them to the memory. Every operation preserves the
  invariant and the relation, and the operations that read the journal answer from the log.
\<close>

section \<open>Committing one entry\<close>

definition trim_stream :: "nat \<Rightarrow> memoryStream \<Rightarrow> memoryStream" where
  "trim_stream n s =
     (if n = 0 then s
      else s\<lparr>ms_bytes := ms_bytes s - sum_list (map se_size (take n (ms_entries s))), ms_entries := drop n (ms_entries s),
             ms_earliestSeq := (if drop n (ms_entries s) \<noteq> [] then e_Seq (se_entry (hd (drop n (ms_entries s)))) else ms_lastSeq s + 1)\<rparr>)"

lemma apply_sel [simp]:
  "ms_id (applyStateEntryLocked e s) = ms_id s" "ms_meta (applyStateEntryLocked e s) = ms_meta s"
  "ms_retentionTTL (applyStateEntryLocked e s) = ms_retentionTTL s"
  "ms_entries (applyStateEntryLocked e s) = ms_entries s" "ms_bytes (applyStateEntryLocked e s) = ms_bytes s"
  "ms_earliestSeq (applyStateEntryLocked e s) = ms_earliestSeq s" "ms_lastSeq (applyStateEntryLocked e s) = ms_lastSeq s"
  "ms_status (applyStateEntryLocked e s) = ms_status s" "ms_resumable (applyStateEntryLocked e s) = ms_resumable s"
  "ms_expiresAt (applyStateEntryLocked e s) = ms_expiresAt s" "ms_terminal (applyStateEntryLocked e s) = ms_terminal s"
  "ms_degraded (applyStateEntryLocked e s) = ms_degraded s" "ms_tails (applyStateEntryLocked e s) = ms_tails s"
  "ms_createdAt (applyStateEntryLocked e s) = ms_createdAt s" "ms_updatedAt (applyStateEntryLocked e s) = ms_updatedAt s"
  by (auto simp: applyStateEntryLocked_def Let_def split: option.split)

lemma apply_core: "core (applyStateEntryLocked e s) = core (applyStateEntryLocked e (core s))"
  by (auto simp: applyStateEntryLocked_def core_def Let_def split: option.split)

lemma seq_of_entry:
  assumes "stream_ok config s" and "i < length (ms_entries s)"
  shows "e_Seq (se_entry (ms_entries s ! i)) = ms_earliestSeq s + i"
proof -
  have m: "map (e_Seq \<circ> se_entry) (ms_entries s) = [ms_earliestSeq s..<Suc (ms_lastSeq s)]"
    by (rule stream_okD(7) [OF assms(1)])
  then have "length (ms_entries s) = Suc (ms_lastSeq s) - ms_earliestSeq s" by (metis length_map length_upt)
  with assms(2) arg_cong [OF m, of "\<lambda>xs. xs ! i"] show ?thesis by (simp del: upt_Suc)
qed

lemma stream_ok_length:
  assumes "stream_ok config s"
  shows "ms_earliestSeq s + length (ms_entries s) = Suc (ms_lastSeq s)" and "ms_earliestSeq s \<le> ms_lastSeq s"
proof -
  have "length (ms_entries s) = Suc (ms_lastSeq s) - ms_earliestSeq s"
    using stream_okD(7) [OF assms] by (metis length_map length_upt)
  moreover have "0 < length (ms_entries s)" using stream_okD(4) [OF assms] by simp
  ultimately show "ms_earliestSeq s + length (ms_entries s) = Suc (ms_lastSeq s)" and "ms_earliestSeq s \<le> ms_lastSeq s" by linarith+
qed

lemma trim_stream_sel:
  assumes "stream_ok config s" and "n \<le> length (ms_entries s)"
  shows "ms_entries (trim_stream n s) = drop n (ms_entries s)"
    "ms_bytes (trim_stream n s) = ms_bytes s - sum_list (map se_size (take n (ms_entries s)))"
    "ms_earliestSeq (trim_stream n s) = ms_earliestSeq s + n"
proof -
  have "e_Seq (se_entry (hd (drop n (ms_entries s)))) = ms_earliestSeq s + n" if "n < length (ms_entries s)"
    using seq_of_entry [OF assms(1) that] that by (simp add: hd_drop_conv_nth)
  then show "ms_entries (trim_stream n s) = drop n (ms_entries s)"
    "ms_bytes (trim_stream n s) = ms_bytes s - sum_list (map se_size (take n (ms_entries s)))"
    "ms_earliestSeq (trim_stream n s) = ms_earliestSeq s + n"
    using assms(2) stream_ok_length(1) [OF assms(1)] by (auto simp: trim_stream_def)
qed

lemma trim_stream_same [simp]:
  "ms_id (trim_stream n s) = ms_id s" "ms_lastSeq (trim_stream n s) = ms_lastSeq s" "ms_status (trim_stream n s) = ms_status s"
  "ms_resumable (trim_stream n s) = ms_resumable s" "ms_terminal (trim_stream n s) = ms_terminal s"
  "ms_degraded (trim_stream n s) = ms_degraded s" "ms_retentionTTL (trim_stream n s) = ms_retentionTTL s"
  "ms_meta (trim_stream n s) = ms_meta s"
  by (simp_all add: trim_stream_def)

abbreviation committed :: "Entry \<Rightarrow> int \<Rightarrow> time \<Rightarrow> nat \<Rightarrow> memoryStream \<Rightarrow> memoryStream" where
  "committed entry sz now n s \<equiv> commit_stream entry sz now (trim_stream n s)"

lemma committed_sel:
  assumes "stream_ok config s" and "n \<le> length (ms_entries s)" and "e_Seq entry = Suc (ms_lastSeq s)"
  shows "ms_entries (committed entry sz now n s) = drop n (ms_entries s) @ [\<lparr>se_entry = entry, se_size = sz\<rparr>]"
    "ms_bytes (committed entry sz now n s) = ms_bytes s - sum_list (map se_size (take n (ms_entries s))) + sz"
    "ms_earliestSeq (committed entry sz now n s) = ms_earliestSeq s + n"
    "ms_lastSeq (committed entry sz now n s) = Suc (ms_lastSeq s)"
    "ms_status (committed entry sz now n s) = ms_status s" "ms_resumable (committed entry sz now n s) = ms_resumable s"
    "ms_terminal (committed entry sz now n s) = ms_terminal s" "ms_degraded (committed entry sz now n s) = ms_degraded s"
    "ms_id (committed entry sz now n s) = ms_id s" "ms_retentionTTL (committed entry sz now n s) = ms_retentionTTL s"
proof -
  note t = trim_stream_sel [OF assms(1,2)]
  have "length (drop n (ms_entries s)) = 0 \<Longrightarrow> e_Seq entry = ms_earliestSeq s + n"
    using assms(2,3) stream_ok_length(1) [OF assms(1)] by simp
  then show "ms_earliestSeq (committed entry sz now n s) = ms_earliestSeq s + n"
    using t by (auto simp: commit_stream_def Let_def)
  show "ms_entries (committed entry sz now n s) = drop n (ms_entries s) @ [\<lparr>se_entry = entry, se_size = sz\<rparr>]"
    "ms_bytes (committed entry sz now n s) = ms_bytes s - sum_list (map se_size (take n (ms_entries s))) + sz"
    "ms_lastSeq (committed entry sz now n s) = Suc (ms_lastSeq s)"
    "ms_status (committed entry sz now n s) = ms_status s" "ms_resumable (committed entry sz now n s) = ms_resumable s"
    "ms_terminal (committed entry sz now n s) = ms_terminal s" "ms_degraded (committed entry sz now n s) = ms_degraded s"
    "ms_id (committed entry sz now n s) = ms_id s" "ms_retentionTTL (committed entry sz now n s) = ms_retentionTTL s"
    using t assms(3) by (simp_all add: commit_stream_def Let_def)
qed

text \<open>The conditions under which a stream with one more entry is still well formed, for an appended
  entry and for a terminal one.\<close>

definition finish_stream :: "Entry \<Rightarrow> time \<Rightarrow> memoryStream \<Rightarrow> memoryStream" where
  "finish_stream entry now s = s\<lparr>ms_status := statusForTerminal (e_Kind entry), ms_resumable := (e_Kind entry \<noteq> KindStopped),
     ms_expiresAt := now + ms_retentionTTL s,
     ms_terminal := Some \<lparr>ts_Seq = e_Seq entry, ts_TS = e_TS entry, ts_Kind = e_Kind entry, ts_Payload = e_Payload entry\<rparr>\<rparr>"

lemma committed_ok:
  assumes ok: "stream_ok config s" and n: "n \<le> length (ms_entries s)" and seq: "e_Seq entry = Suc (ms_lastSeq s)"
    and last: "ms_lastSeq s \<noteq> MaxUint64" and err: "e_Err entry = None" and sz: "0 < sz" and "open": "ms_status s = StatusOpen"
    and fits: "ms_bytes s - sum_list (map se_size (take n (ms_entries s))) + sz \<le> c_MaxBytesPerStream config"
  shows "\<not> kind_terminal (e_Kind entry) \<Longrightarrow> stream_ok config (committed entry sz now n s)"
    and "kind_terminal (e_Kind entry) \<Longrightarrow> \<not> ms_degraded s \<Longrightarrow> stream_ok config (finish_stream entry now (committed entry sz now n s))"
proof -
  let ?es = "drop n (ms_entries s) @ [\<lparr>se_entry = entry, se_size = sz\<rparr>]"
  note d = stream_okD [OF ok] and c = committed_sel [OF ok n seq, of sz now] and l = stream_ok_length [OF ok]
  have e1: "ms_bytes s - sum_list (map se_size (take n (ms_entries s))) + sz = sum_list (map se_size ?es)"
  proof -
    have "sum_list (map se_size (take n (ms_entries s) @ drop n (ms_entries s))) = ms_bytes s" using d(1) by simp
    then show ?thesis by (simp only: map_append sum_list_append) simp
  qed
  have e2: "list_all (\<lambda>e. 0 < se_size e) ?es" using d(2) sz by (auto simp: list_all_iff dest: in_set_dropD)
  have e3: "map (e_Seq \<circ> se_entry) ?es = [ms_earliestSeq s + n..<Suc (Suc (ms_lastSeq s))]"
  proof -
    have "map (e_Seq \<circ> se_entry) (drop n (ms_entries s)) = [ms_earliestSeq s + n..<Suc (ms_lastSeq s)]"
      using d(7) by (simp only: drop_map [symmetric] drop_upt)
    moreover have "ms_earliestSeq s + n \<le> Suc (ms_lastSeq s)" using n l(1) by linarith
    ultimately show ?thesis using seq by simp
  qed
  have e4: "list_all (\<lambda>e. e_Err (se_entry e) = None) ?es" using d(8) err by (auto simp: list_all_iff dest: in_set_dropD)
  have nt: "list_all (\<lambda>e. \<not> kind_terminal (e_Kind (se_entry e))) (ms_entries s)"
  proof -
    have "\<not> kind_terminal (e_Kind (se_entry (last (ms_entries s))))" using d(10) "open" by blast
    with d(9) have "list_all (\<lambda>e. \<not> kind_terminal (e_Kind (se_entry e))) (butlast (ms_entries s) @ [last (ms_entries s)])"
      by simp
    with d(4) show ?thesis by simp
  qed
  have e5: "list_all (\<lambda>e. \<not> kind_terminal (e_Kind (se_entry e))) (butlast ?es)"
    using nt by (auto simp: list_all_iff dest: in_set_dropD)
  have last': "Suc (ms_lastSeq s) \<le> MaxUint64" using last d(6) by linarith
  show "stream_ok config (committed entry sz now n s)" if "\<not> kind_terminal (e_Kind entry)"
    unfolding stream_ok_def c using e1 e2 e3 e4 e5 last' fits d(5,11,12,13) "open" that by (simp del: upt_Suc)
  show "stream_ok config (finish_stream entry now (committed entry sz now n s))" if "kind_terminal (e_Kind entry)" "\<not> ms_degraded s"
  proof -
    have "statusForTerminal (e_Kind entry) \<noteq> StatusOpen"
      and "e_Kind entry \<noteq> KindStopped \<longleftrightarrow> statusForTerminal (e_Kind entry) \<noteq> StatusStopped"
      using that(1) by (auto simp: kind_terminal_def statusForTerminal_def kind_defs status_defs)
    then show ?thesis
      unfolding stream_ok_def finish_stream_def
      using e1 e2 e3 e4 e5 last' fits d(5) that by (simp add: c del: upt_Suc)
  qed
qed

section \<open>Committing in a memory\<close>

definition core_fun :: "(memoryStream \<Rightarrow> memoryStream) \<Rightarrow> bool" where
  "core_fun f \<longleftrightarrow> (\<forall>s. core (f s) = core (f (core s)))"

lemma core_funD: "core_fun f \<Longrightarrow> core s = core s' \<Longrightarrow> core (f s) = core (f s')"
  unfolding core_fun_def by metis

lemma core_fun_comp: "core_fun f \<Longrightarrow> core_fun g \<Longrightarrow> core_fun (\<lambda>s. g (f s))"
  unfolding core_fun_def by metis

lemma core_fun_committed: "core_fun (committed entry sz now n)"
proof -
  have "core (commit_stream entry sz now t) = core (commit_stream entry sz now (core t))" for t
    unfolding commit_stream_def Let_def by (subst apply_core, subst (2) apply_core) (simp add: core_def)
  moreover have "core (trim_stream n t) = trim_stream n (core t)" for t
    by (simp add: trim_stream_def core_def)
  ultimately show ?thesis unfolding core_fun_def by metis
qed

lemma core_fun_finish: "core_fun (finish_stream entry now)"
  by (simp add: core_fun_def finish_stream_def core_def)

lemma streams_upd: "m_streams (upd_stream sid f m) = map (\<lambda>(k, s). if k = sid then (k, f s) else (k, s)) (m_streams m)"
  by (simp add: upd_stream_def)

lemma upd_stream_twice: "upd_stream sid g (upd_stream sid f m) = upd_stream sid (g \<circ> f) m"
proof -
  have "map (\<lambda>(k, s). if k = sid then (k, g s) else (k, s)) (map (\<lambda>(k, s). if k = sid then (k, f s) else (k, s)) xs)
      = map (\<lambda>(k, s). if k = sid then (k, (g \<circ> f) s) else (k, s)) xs" for xs
    by (induction xs) auto
  then show ?thesis by (simp add: upd_stream_def)
qed

lemma upd_stream_total: "upd_stream sid g (m\<lparr>m_totalBytes := t\<rparr>) = (upd_stream sid g m)\<lparr>m_totalBytes := t\<rparr>"
  by (simp add: upd_stream_def)

lemma strip_lru: "strip m = strip m' \<Longrightarrow> strip (m\<lparr>m_terminalLRU := l\<rparr>) = strip (m'\<lparr>m_terminalLRU := l\<rparr>)"
  by (cases m; cases m') (simp add: strip_def)

lemma upd_stream_at:
  assumes "distinct (map fst (m_streams m))" and "get_stream m sid = Some s" and "f s = g s"
  shows "upd_stream sid f m = upd_stream sid g m"
proof -
  have "v = s" if "(sid, v) \<in> set (m_streams m)" for v
    using that assms(1,2) by (metis map_of_is_SomeI option.inject)
  then have "map (\<lambda>(k, s). if k = sid then (k, f s) else (k, s)) (m_streams m) = map (\<lambda>(k, s). if k = sid then (k, g s) else (k, s)) (m_streams m)"
    using assms(3) by (intro map_cong) auto
  then show ?thesis by (simp add: upd_stream_def)
qed

lemma strip_upd_cong:
  assumes "strip m = strip m'" and "core_fun f"
  shows "strip (upd_stream sid f m) = strip (upd_stream sid f m')"
proof -
  have u: "map (apsnd core) (map (\<lambda>(k, s). if k = sid then (k, f s) else (k, s)) xs)
      = map (\<lambda>(k, s). if k = sid then (k, core (f s)) else (k, s)) (map (apsnd core) xs)" for xs
    using assms(2) by (induction xs) (auto simp: core_fun_def)
  have "map (apsnd core) (m_streams (upd_stream sid f m)) = map (apsnd core) (m_streams (upd_stream sid f m'))"
    unfolding streams_upd u stripD(5) [OF assms(1)] ..
  then show ?thesis using stripD(1-4) [OF assms(1)] by (simp add: strip_def)
qed

text \<open>The effect of a successful commit: the stream \<open>sid\<close> becomes \<open>s'\<close>, the streams in \<open>V\<close>, all
  terminal, are evicted, the others stay.\<close>

definition effect :: "Memory \<Rightarrow> StreamID \<Rightarrow> memoryStream \<Rightarrow> StreamID set \<Rightarrow> Memory \<Rightarrow> bool" where
  "effect m sid s' V m' \<longleftrightarrow>
     mem_inv m' \<and> m_config m' = m_config m \<and> V \<subseteq> set (m_terminalLRU m) \<and> sid \<notin> V
   \<and> (\<forall>k. map_option core (get_stream m' k) =
        (if k = sid then Some (core s') else if k \<in> V then None else map_option core (get_stream m k)))"

lemma commit_memory:
  assumes inv: "mem_inv m" and s: "get_stream m sid = Some s" and sz: "0 < sz"
    and res: "commitLocked sid entry sz now m = (r, m')"
  shows "r = Some ErrCapacity \<and> m' = m \<or>
    (r = None \<and> (\<exists>n V m1 s1. mem_inv m1 \<and> m_config m1 = m_config m \<and> V \<subseteq> set (m_terminalLRU m) \<and> sid \<notin> V
      \<and> (\<forall>k. map_option core (get_stream m1 k) = (if k \<in> V then None else map_option core (get_stream m k)))
      \<and> m_terminalLRU m1 = filter (\<lambda>k. k \<notin> V) (m_terminalLRU m)
      \<and> get_stream m1 sid = Some s1 \<and> core s1 = core s \<and> n \<le> length (ms_entries s)
      \<and> ms_bytes s - sum_list (map se_size (take n (ms_entries s))) + sz \<le> c_MaxBytesPerStream (m_config m)
      \<and> m_totalBytes m1 + (sz - sum_list (map se_size (take n (ms_entries s)))) \<le> c_MaxTotalBytes (m_config m)
      \<and> strip m' = strip ((upd_stream sid (committed entry sz now n) m1)
          \<lparr>m_totalBytes := m_totalBytes m1 + (sz - sum_list (map se_size (take n (ms_entries s))))\<rparr>)))"
proof -
  obtain q m1 where mr: "makeRoomLocked (Some sid) sz now m = (q, m1)" by fastforce
  consider (full) "q = Inl ErrCapacity" "m1 = m"
    | (room) n V where "q = Inr n" "mem_inv m1" "m_config m1 = m_config m" "V \<subseteq> set (m_terminalLRU m)" "Some sid \<notin> Some ` V"
        "\<forall>k. map_option core (get_stream m1 k) = (if k \<in> V then None else map_option core (get_stream m k))"
        "m_terminalLRU m1 = filter (\<lambda>k. k \<notin> V) (m_terminalLRU m)"
        "m_totalBytes m1 - trimmed_bytes m (Some sid) n + sz \<le> c_MaxTotalBytes (m_config m)"
        "n \<le> length (ms_entries s)"
        "ms_bytes s - trimmed_bytes m (Some sid) n + sz \<le> c_MaxBytesPerStream (m_config m)"
    using make_room [OF inv _ sz mr] s by auto
  then show ?thesis
  proof cases
    case full
    then show ?thesis using res mr by (simp add: commitLocked_def)
  next
    case room
    let ?d = "sum_list (map se_size (take n (ms_entries s)))"
    have d: "trimmed_bytes m (Some sid) n = ?d" using s by (simp add: trimmed_bytes_def)
    have "map_option core (get_stream m1 sid) = Some (core s)" using room(5,6) s by auto
    then obtain s1 where s1: "get_stream m1 sid = Some s1" "core s1 = core s" by auto
    have es: "ms_entries s1 = ms_entries s" "ms_lastSeq s1 = ms_lastSeq s"
      using arg_cong [OF s1(2), of ms_entries] arg_cong [OF s1(2), of ms_lastSeq] by simp_all
    let ?m2 = "if n \<noteq> 0 then trimStreamLocked sid n m1 else m1"
    have "?m2 = (upd_stream sid (trim_stream n) m1)\<lparr>m_totalBytes := m_totalBytes m1 - ?d\<rparr>"
    proof (cases "n = 0")
      case True
      have "trim_stream 0 = (\<lambda>s. s)" by (simp add: trim_stream_def [abs_def])
      then have "upd_stream sid (trim_stream 0) m1 = m1" by (simp add: upd_stream_def)
      with True show ?thesis by simp
    next
      case False
      let ?t = "\<lambda>s. s\<lparr>ms_bytes := ms_bytes s - ?d, ms_entries := drop n (ms_entries s1),
           ms_earliestSeq := (if drop n (ms_entries s1) \<noteq> [] then e_Seq (se_entry (hd (drop n (ms_entries s1)))) else ms_lastSeq s + 1)\<rparr>"
      have "upd_stream sid ?t m1 = upd_stream sid (trim_stream n) m1"
        by (rule upd_stream_at [OF mem_invD(2) [OF room(2)] s1(1)]) (use False es in \<open>simp add: trim_stream_def\<close>)
      then show ?thesis using False s1(1) es by (simp add: trimStreamLocked_def Let_def)
    qed
    moreover have "r = None" "m' = publishLocked sid sz (dropReadersBehindRingLocked sid
        ((upd_stream sid (commit_stream entry sz now) ?m2)\<lparr>m_totalBytes := m_totalBytes ?m2 + sz\<rparr>))"
      using res mr room(1) by (auto simp: commitLocked_def Let_def)
    ultimately have m': "strip m' = strip ((upd_stream sid (committed entry sz now n) m1)\<lparr>m_totalBytes := m_totalBytes m1 + (sz - ?d)\<rparr>)"
      by (simp add: upd_stream_total upd_stream_twice comp_def algebra_simps)
    show ?thesis
      using room s1 m' \<open>r = None\<close> unfolding d
      by (intro disjI2 conjI exI [of _ n] exI [of _ V] exI [of _ m1] exI [of _ s1]) auto
  qed
qed

lemma core_eq_ok: "core s1 = core s \<Longrightarrow> stream_ok config s1 = stream_ok config s"
  using stream_ok_core by metis

lemma commit_effect:
  assumes inv: "mem_inv m" and s: "get_stream m sid = Some s" and sz: "0 < sz" and "open": "ms_status s = StatusOpen"
    and seq: "e_Seq entry = Suc (ms_lastSeq s)" and last: "ms_lastSeq s \<noteq> MaxUint64" and err: "e_Err entry = None"
    and res: "commitLocked sid entry sz now m = (r, m')"
  shows "r = Some ErrCapacity \<and> m' = m \<or>
    (r = None \<and> (\<exists>n V. n \<le> length (ms_entries s)
      \<and> (\<not> kind_terminal (e_Kind entry) \<longrightarrow> effect m sid (committed entry sz now n s) V m')
      \<and> (kind_terminal (e_Kind entry) \<and> \<not> ms_degraded s \<longrightarrow>
           effect m sid (finish_stream entry now (committed entry sz now n s)) V
             ((upd_stream sid (finish_stream entry now) m')\<lparr>m_terminalLRU := sid # m_terminalLRU m'\<rparr>))))"
proof (cases "r = None")
  case True
  let ?d = "\<lambda>n. sum_list (map se_size (take n (ms_entries s)))"
  obtain n V m1 s1 where m1: "mem_inv m1" "m_config m1 = m_config m" and V: "V \<subseteq> set (m_terminalLRU m)" "sid \<notin> V"
    and fr: "\<forall>k. map_option core (get_stream m1 k) = (if k \<in> V then None else map_option core (get_stream m k))"
    and lru: "m_terminalLRU m1 = filter (\<lambda>k. k \<notin> V) (m_terminalLRU m)"
    and s1: "get_stream m1 sid = Some s1" "core s1 = core s" and n: "n \<le> length (ms_entries s)"
    and f1: "ms_bytes s - ?d n + sz \<le> c_MaxBytesPerStream (m_config m)"
    and f2: "m_totalBytes m1 + (sz - ?d n) \<le> c_MaxTotalBytes (m_config m)"
    and m': "strip m' = strip ((upd_stream sid (committed entry sz now n) m1)\<lparr>m_totalBytes := m_totalBytes m1 + (sz - ?d n)\<rparr>)"
    using commit_memory [OF inv s sz res] True by blast
  let ?c = "committed entry sz now n"
  have sel: "ms_entries s1 = ms_entries s" "ms_lastSeq s1 = ms_lastSeq s" "ms_status s1 = StatusOpen" "ms_bytes s1 = ms_bytes s"
    "ms_degraded s1 = ms_degraded s" "ms_id s1 = sid"
    using s1(2) "open" mem_inv_stream(2) [OF inv s] by (metis core_sel)+
  have ok1: "stream_ok (m_config m1) s1" by (rule mem_inv_stream(1) [OF m1(1) s1(1)])
  note cs = committed_sel [OF ok1 _ seq [folded sel(2)], of n sz now, unfolded sel, OF n]
  have notin: "sid \<notin> set (m_terminalLRU m1)" using mem_invD(7) [OF m1(1)] s1(1) sel(3) by simp
  have total: "m_totalBytes m1 + (ms_bytes (?c s1) - ms_bytes s1) = m_totalBytes m1 + (sz - ?d n)" using cs sel by simp
  have dist: "distinct (m_terminalLRU m1)" by (rule mem_invD(6) [OF m1(1)])
  have frame: "map_option core (get_stream X k) = (if k = sid then Some (core (g s)) else if k \<in> V then None else map_option core (get_stream m k))"
    if "strip X = strip ((upd_stream sid g m1)\<lparr>m_totalBytes := t, m_terminalLRU := l\<rparr>)" "core_fun g" for X g t l k
    using stripD(6) [OF that(1), of k] fr s1 core_funD [OF that(2) s1(2)] by (simp add: get_upd_stream)
  have A: "effect m sid (?c s) V m'" if nt: "\<not> kind_terminal (e_Kind entry)"
  proof -
    have "stream_ok (m_config m1) (?c s1)"
      by (rule committed_ok(1) [OF ok1 _ _ _ err sz _ _ nt]) (use n seq last sel f1 m1(2) in simp_all)
    then have "mem_inv ((upd_stream sid ?c m1)\<lparr>m_totalBytes := m_totalBytes m1 + (ms_bytes (?c s1) - ms_bytes s1), m_terminalLRU := m_terminalLRU m1\<rparr>)"
      using mem_inv_upd [where f = ?c and lru = "m_terminalLRU m1", OF m1(1) s1(1)] cs sel total f2 m1(2) notin dist by simp
    then have "mem_inv m'" unfolding total using mem_inv_cong [OF m'] by (simp add: upd_stream_def)
    moreover have "m_config m' = m_config m" using stripD(1) [OF m'] m1(2) by simp
    moreover have "\<forall>k. map_option core (get_stream m' k) = (if k = sid then Some (core (?c s)) else if k \<in> V then None else map_option core (get_stream m k))"
      using frame [where X = m' and g = ?c and l = "m_terminalLRU m1"] m' core_fun_committed by (simp add: upd_stream_def)
    ultimately show ?thesis unfolding effect_def using V by simp
  qed
  let ?g = "\<lambda>s. finish_stream entry now (?c s)"
  let ?X = "(upd_stream sid (finish_stream entry now) m')\<lparr>m_terminalLRU := sid # m_terminalLRU m'\<rparr>"
  have B: "effect m sid (?g s) V ?X" if t: "kind_terminal (e_Kind entry)" "\<not> ms_degraded s"
  proof -
    have g: "core_fun ?g" by (rule core_fun_comp [OF core_fun_committed core_fun_finish])
    have lm: "m_terminalLRU m' = m_terminalLRU m1" using stripD(3) [OF m'] by simp
    have "strip (upd_stream sid (finish_stream entry now) m') = strip ((upd_stream sid ?g m1)\<lparr>m_totalBytes := m_totalBytes m1 + (sz - ?d n)\<rparr>)"
      using strip_upd_cong [OF m' core_fun_finish] by (simp add: upd_stream_total upd_stream_twice comp_def)
    from strip_lru [OF this, of "sid # m_terminalLRU m1"] have X: "strip ?X = strip ((upd_stream sid ?g m1)\<lparr>m_totalBytes := m_totalBytes m1 + (sz - ?d n), m_terminalLRU := sid # m_terminalLRU m1\<rparr>)"
      unfolding lm by simp
    have ok: "stream_ok (m_config m1) (?g s1)"
      by (rule committed_ok(2) [OF ok1 _ _ _ err sz _ _ t(1)]) (use n seq last sel f1 m1(2) t in simp_all)
    have b: "ms_bytes (?g s1) = ms_bytes (?c s1)" "ms_id (?g s1) = sid" "ms_status (?g s1) \<noteq> StatusOpen"
      using cs sel t(1) by (auto simp: finish_stream_def statusForTerminal_def kind_terminal_def kind_defs status_defs)
    have "mem_inv ((upd_stream sid ?g m1)\<lparr>m_totalBytes := m_totalBytes m1 + (ms_bytes (?g s1) - ms_bytes s1), m_terminalLRU := sid # m_terminalLRU m1\<rparr>)"
      using mem_inv_upd [where f = ?g and lru = "sid # m_terminalLRU m1", OF m1(1) s1(1) ok b(2)] total f2 m1(2) notin dist b by simp
    then have "mem_inv ?X" using mem_inv_cong [OF X] total b(1) by simp
    moreover have "m_config ?X = m_config m" using stripD(1) [OF X] m1(2) by simp
    ultimately show ?thesis unfolding effect_def using V frame [OF X g] by blast
  qed
  show ?thesis using True n A B by blast
next
  case False
  then show ?thesis using commit_memory [OF inv s sz res] by blast
qed

section \<open>Looking up and preparing\<close>

lemma cleanup_sub:
  assumes "mem_inv m" and "get_stream (cleanupExpiredLocked now m) k = Some s'"
  shows "\<exists>s. get_stream m k = Some s \<and> core s' = core s \<and> \<not> dead now s"
  using cleanup_spec(3) [OF assms(1), of now k] assms(2) by (auto split: option.splits if_splits)

lemma lookup_spec:
  assumes inv: "mem_inv m0" and res: "lookupLocked sid now m0 = (r, m)"
  shows "mem_inv m" and "m_config m = m_config m0"
    and "\<And>s. r = Inr s \<Longrightarrow> get_stream m sid = Some s"
    and "\<And>k s'. get_stream m k = Some s' \<Longrightarrow> \<exists>s. get_stream m0 k = Some s \<and> core s' = core s \<and> \<not> dead now s"
    and "\<And>k s. get_stream m0 k = Some s \<Longrightarrow> \<not> dead now s \<Longrightarrow> \<exists>s'. get_stream m k = Some s' \<and> core s' = core s"
    and "\<And>x. r = Inl x \<Longrightarrow> get_stream m sid = None \<and> x = (if map_of (m_tombstones m) sid \<noteq> None then ErrExpired else ErrNotFound)"
proof -
  have m: "m = cleanupExpiredLocked now m0" and r: "r = (case get_stream m sid of Some s \<Rightarrow> Inr s
      | None \<Rightarrow> Inl (if map_of (m_tombstones m) sid \<noteq> None then ErrExpired else ErrNotFound))"
    using res by (auto simp: lookupLocked_def Let_def)
  note c = cleanup_spec [OF inv, of now, folded m]
  show "mem_inv m" "m_config m = m_config m0" by (fact c(1), fact c(2))
  show "\<And>s. r = Inr s \<Longrightarrow> get_stream m sid = Some s"
    and "\<And>x. r = Inl x \<Longrightarrow> get_stream m sid = None \<and> x = (if map_of (m_tombstones m) sid \<noteq> None then ErrExpired else ErrNotFound)"
    using r by (auto split: option.splits)
  show "\<exists>s. get_stream m0 k = Some s \<and> core s' = core s \<and> \<not> dead now s" if "get_stream m k = Some s'" for k s'
    using cleanup_sub [OF inv] that unfolding m by blast
  show "\<exists>s'. get_stream m k = Some s' \<and> core s' = core s" if "get_stream m0 k = Some s" "\<not> dead now s" for k s
    using c(3) [of k] that by auto
qed

definition stamp :: "Entry \<Rightarrow> uint64 \<Rightarrow> time \<Rightarrow> Entry" where
  "stamp e seq now = \<lparr>e_Seq = seq, e_TS = now, e_Kind = e_Kind e, e_Payload = e_Payload e, e_Err = None\<rparr>"

lemma prepare_spec:
  assumes "prepareEntry input seq now = Inr (e, sz)"
  shows "e = stamp input seq now" and "0 < sz"
  using assms by (auto simp: prepareEntry_def Let_def envelope_size_def stamp_def split: if_splits option.splits)

lemma prepare_error: "prepareEntry input seq now = Inl x \<Longrightarrow> x = ErrInvalidEntry"
  by (auto simp: prepareEntry_def Let_def split: if_splits option.splits)

lemma stamp_sel [simp]:
  "e_Seq (stamp e seq now) = seq" "e_Kind (stamp e seq now) = e_Kind e" "e_Err (stamp e seq now) = None"
  "e_TS (stamp e seq now) = now" "e_Payload (stamp e seq now) = e_Payload e"
  by (simp_all add: stamp_def)

section \<open>The logs\<close>

definition log_ok :: "Entry list \<Rightarrow> memoryStream \<Rightarrow> bool" where
  "log_ok log s \<longleftrightarrow> map e_Seq log = [1..<Suc (ms_lastSeq s)] \<and> map se_entry (ms_entries s) = drop (ms_earliestSeq s - 1) log
     \<and> list_all (\<lambda>e. \<not> kind_terminal (e_Kind e)) (butlast log)"

definition hist_ok :: "(StreamID \<Rightarrow> Entry list) \<Rightarrow> Memory \<Rightarrow> bool" where
  "hist_ok h m \<longleftrightarrow> (\<forall>sid s. get_stream m sid = Some s \<longrightarrow> log_ok (h sid) s)"

lemma log_ok_core: "core s = core s' \<Longrightarrow> log_ok log s = log_ok log s'"
  unfolding log_ok_def using core_sel(6,8,9) by metis

lemma log_ok_length: "log_ok log s \<Longrightarrow> length log = ms_lastSeq s"
  unfolding log_ok_def by (metis diff_Suc_1 length_map length_upt)

lemma log_ok_committed:
  assumes ok: "stream_ok config s" and n: "n \<le> length (ms_entries s)" and seq: "e_Seq entry = Suc (ms_lastSeq s)"
    and log: "log_ok log s" and "open": "ms_status s = StatusOpen"
  shows "log_ok (log @ [entry]) (committed entry sz now n s)"
    and "log_ok (log @ [entry]) (finish_stream entry now (committed entry sz now n s))"
proof -
  note c = committed_sel [OF ok n seq, of sz now] and l = stream_ok_length [OF ok] and d = stream_okD [OF ok]
  have e: "1 \<le> ms_earliestSeq s" by (rule d(5))
  have len: "length log = ms_lastSeq s" by (rule log_ok_length [OF log])
  have "drop (ms_earliestSeq s + n - 1) (log @ [entry]) = drop n (drop (ms_earliestSeq s - 1) log) @ [entry]"
    using e n l(1) len by (simp add: drop_drop add.commute)
  moreover have "drop (ms_earliestSeq s - 1) log = map se_entry (ms_entries s)" using log by (simp add: log_ok_def)
  ultimately have dr: "map se_entry (drop n (ms_entries s)) @ [entry] = drop (ms_earliestSeq s + n - 1) (log @ [entry])"
    by (simp only: drop_map)
  have "log \<noteq> []" using len l e by (cases log) auto
  have "last log = se_entry (last (ms_entries s))"
  proof -
    have eq: "drop (ms_earliestSeq s - 1) log = map se_entry (ms_entries s)" using log by (simp add: log_ok_def)
    then have "ms_earliestSeq s - 1 < length log" using d(4) by (metis drop_eq_Nil linorder_not_le map_is_Nil_conv)
    then have "last log = last (map se_entry (ms_entries s))" unfolding eq [symmetric] by simp
    then show ?thesis using d(4) by (simp add: last_map)
  qed
  then have "\<not> kind_terminal (e_Kind (last log))" using d(10) "open" by simp
  then have nt: "list_all (\<lambda>e. \<not> kind_terminal (e_Kind e)) log"
    using log \<open>log \<noteq> []\<close> append_butlast_last_id [OF \<open>log \<noteq> []\<close>] unfolding log_ok_def
    by (metis list.pred_inject list_all_append)
  have sq: "map e_Seq (log @ [entry]) = [1..<Suc (Suc (ms_lastSeq s))]" using log seq by (simp add: log_ok_def)
  show "log_ok (log @ [entry]) (committed entry sz now n s)"
    unfolding log_ok_def c using dr sq nt by (simp del: upt_Suc)
  show "log_ok (log @ [entry]) (finish_stream entry now (committed entry sz now n s))"
    unfolding log_ok_def finish_stream_def using dr sq nt by (simp add: c del: upt_Suc)
qed

lemma hist_ok_sub:
  assumes "hist_ok h m" and "\<And>k s'. get_stream m' k = Some s' \<Longrightarrow> \<exists>s. get_stream m k = Some s \<and> core s' = core s"
  shows "hist_ok h m'"
  using assms log_ok_core unfolding hist_ok_def by metis

lemma hist_ok_strip: "strip m = strip m' \<Longrightarrow> hist_ok h m = hist_ok h m'"
proof -
  assume s: "strip m = strip m'"
  have "\<exists>s. get_stream a k = Some s \<and> core s' = core s" if "get_stream b k = Some s'" "strip a = strip b" for a b k s'
    using stripD(6) [OF that(2), of k] that(1) by auto
  then show ?thesis using hist_ok_sub s by metis
qed

lemma effect_hist:
  assumes "effect m sid s' V m'" and "hist_ok h m" and "log_ok log s'"
  shows "hist_ok (h(sid := log)) m'"
  unfolding hist_ok_def
proof (intro allI impI)
  fix k t assume t: "get_stream m' k = Some t"
  have g: "map_option core (get_stream m' k) = (if k = sid then Some (core s') else if k \<in> V then None else map_option core (get_stream m k))"
    using assms(1) unfolding effect_def by blast
  show "log_ok ((h(sid := log)) k) t"
  proof (cases "k = sid")
    case True
    with g t assms(3) log_ok_core [of t s'] show ?thesis by simp
  next
    case False
    with g t obtain u where "get_stream m k = Some u" "core t = core u" by (cases "get_stream m k") (auto split: if_splits)
    with False assms(2) log_ok_core [of t u] show ?thesis by (simp add: hist_ok_def)
  qed
qed

section \<open>Operations\<close>

lemma append_entry_step:
  assumes inv: "mem_inv m0" and hist: "hist_ok h m0" and res: "append_entry sid input now m0 = (r, m)"
  defines "e \<equiv> stamp input (Suc (length (h sid))) now"
  defines "m' \<equiv> (upd_stream sid (finish_stream e now) m)\<lparr>m_terminalLRU := sid # m_terminalLRU m\<rparr>"
  shows "(\<exists>x. r = Inl x \<and> m = cleanupExpiredLocked now m0 \<and> x \<noteq> IndexPanic) \<or>
    (r = Inr e \<and> (\<exists>s n V sz. get_stream (cleanupExpiredLocked now m0) sid = Some s \<and> ms_status s = StatusOpen \<and> \<not> ms_degraded s
       \<and> (\<not> kind_terminal (e_Kind input) \<longrightarrow>
            effect (cleanupExpiredLocked now m0) sid (committed e sz now n s) V m \<and> hist_ok (h(sid := h sid @ [e])) m)
       \<and> (kind_terminal (e_Kind input) \<longrightarrow>
            effect (cleanupExpiredLocked now m0) sid (finish_stream e now (committed e sz now n s)) V m'
            \<and> hist_ok (h(sid := h sid @ [e])) m')))"
proof -
  obtain q m1 where lk: "lookupLocked sid now m0 = (q, m1)" by fastforce
  note l = lookup_spec [OF inv lk]
  have m1: "m1 = cleanupExpiredLocked now m0" using lk by (simp add: lookupLocked_def Let_def)
  have h1: "hist_ok h m1" by (rule hist_ok_sub [OF hist]) (use l(4) in blast)
  show ?thesis
  proof (cases q)
    case (Inl x)
    then have "r = Inl x" "m = m1" using res lk by (simp_all add: append_entry_def)
    moreover have "x \<noteq> IndexPanic" using l(6) [OF Inl] by (simp split: if_splits)
    ultimately show ?thesis using m1 by blast
  next
    case (Inr s)
    have s: "get_stream m1 sid = Some s" by (rule l(3) [OF Inr])
    have len: "length (h sid) = ms_lastSeq s" using h1 s by (auto simp: hist_ok_def intro: log_ok_length)
    show ?thesis
    proof (cases "ms_status s = StatusOpen \<and> \<not> ms_degraded s \<and> ms_lastSeq s \<noteq> MaxUint64 \<and> (\<exists>y. prepareEntry input (ms_lastSeq s + 1) now = Inr y)")
      case False
      then consider "ms_status s \<noteq> StatusOpen" | "ms_status s = StatusOpen" "ms_degraded s"
        | "ms_status s = StatusOpen" "\<not> ms_degraded s" "ms_lastSeq s = MaxUint64"
        | x where "ms_status s = StatusOpen" "\<not> ms_degraded s" "ms_lastSeq s \<noteq> MaxUint64" "prepareEntry input (ms_lastSeq s + 1) now = Inl x"
        by (cases "prepareEntry input (ms_lastSeq s + 1) now") blast+
      then have "\<exists>x. r = Inl x \<and> m = m1 \<and> x \<noteq> IndexPanic"
        by cases (use res lk Inr in \<open>auto simp: append_entry_def dest: prepare_error\<close>)
      then show ?thesis using m1 by blast
    next
      case True
      then obtain f sz where pr: "prepareEntry input (ms_lastSeq s + 1) now = Inr (f, sz)" by fastforce
      have f: "f = e" "0 < sz" using prepare_spec [OF pr] len by (simp_all add: e_def)
      obtain c m2 where cm: "commitLocked sid e sz now m1 = (c, m2)" by fastforce
      have rm: "r = (case c of Some x \<Rightarrow> Inl x | None \<Rightarrow> Inr e)" "m = m2"
        using res lk Inr True pr f cm by (auto simp: append_entry_def split: option.splits)
      have seq: "e_Seq e = Suc (ms_lastSeq s)" "e_Err e = None" "e_Kind e = e_Kind input" using len by (simp_all add: e_def)
      have "ms_status s = StatusOpen" "ms_lastSeq s \<noteq> MaxUint64" "\<not> ms_degraded s" using True by auto
      note ce = commit_effect [OF l(1) s f(2) this(1) seq(1) this(2) seq(2) cm]
      consider "c = Some ErrCapacity" "m2 = m1"
        | n V where "c = None" "n \<le> length (ms_entries s)"
          "\<not> kind_terminal (e_Kind input) \<longrightarrow> effect m1 sid (committed e sz now n s) V m2"
          "kind_terminal (e_Kind input) \<longrightarrow> effect m1 sid (finish_stream e now (committed e sz now n s)) V m'"
        using ce \<open>\<not> ms_degraded s\<close> rm(2) unfolding seq(3) m'_def by blast
      then show ?thesis
      proof cases
        case 1
        with rm m1 show ?thesis by simp
      next
        case 2
        have lg: "log_ok (h sid) s" using h1 s by (simp add: hist_ok_def)
        note lc = log_ok_committed [OF mem_inv_stream(1) [OF l(1) s] 2(2) seq(1) lg \<open>ms_status s = StatusOpen\<close>, where sz = sz and now = now]
        have "r = Inr e" using rm 2(1) by simp
        moreover have "effect m1 sid (committed e sz now n s) V m \<and> hist_ok (h(sid := h sid @ [e])) m" if "\<not> kind_terminal (e_Kind input)"
          using 2(3) that rm(2) effect_hist [OF _ h1 lc(1)] by blast
        moreover have "effect m1 sid (finish_stream e now (committed e sz now n s)) V m' \<and> hist_ok (h(sid := h sid @ [e])) m'"
          if "kind_terminal (e_Kind input)"
          using 2(4) that effect_hist [OF _ h1 lc(2)] by blast
        ultimately show ?thesis using s \<open>ms_status s = StatusOpen\<close> \<open>\<not> ms_degraded s\<close> unfolding m1 by blast
      qed
    qed
  qed
qed

lemma update_fresh: "k \<notin> fst ` set xs \<Longrightarrow> AList.update k v xs = xs @ [(k, v)]"
  by (induction xs) auto

lemma mem_inv_add:
  assumes inv: "mem_inv m" and fresh: "get_stream m sid = None" "sid \<notin> fst ` set (m_tombstones m)"
    and ok: "stream_ok (m_config m) s" and ident: "ms_id s = sid" and "open": "ms_status s = StatusOpen"
    and fits: "m_totalBytes m + ms_bytes s \<le> c_MaxTotalBytes (m_config m)"
  defines "m' \<equiv> m\<lparr>m_streams := AList.update sid s (m_streams m), m_totalBytes := m_totalBytes m + ms_bytes s\<rparr>"
  shows "mem_inv m'" and "get_stream m' k = (if k = sid then Some s else get_stream m k)"
proof -
  note i = mem_invD [OF inv]
  have nk: "sid \<notin> fst ` set (m_streams m)" using fresh(1) by (simp add: map_of_eq_None_iff)
  have st: "m_streams m' = m_streams m @ [(sid, s)]" by (simp add: m'_def update_fresh [OF nk])
  show g: "get_stream m' k = (if k = sid then Some s else get_stream m k)" for k
    by (simp add: m'_def AList.update_conv)
  have "set (m_terminalLRU m') = {k. \<exists>s. get_stream m' k = Some s \<and> ms_status s \<noteq> StatusOpen}"
    unfolding g using i(7) "open" fresh(1) by (auto simp: m'_def)
  moreover have "distinct (map fst (m_streams m'))" using i(2) nk unfolding st by simp
  moreover have "list_all (\<lambda>(sid, s). ms_id s = sid \<and> stream_ok (m_config m) s) (m_streams m')" using i(3) ok ident unfolding st by simp
  moreover have "m_totalBytes m' = held_bytes (m_streams m')" using i(4) unfolding st by (simp add: m'_def held_bytes_def)
  moreover have "fst ` set (m_tombstones m') \<inter> fst ` set (m_streams m') = {}"
    using i(9) fresh(2) unfolding st by (simp add: m'_def)
  ultimately show "mem_inv m'" unfolding mem_inv_def using i(1,6,8) fits by (simp add: m'_def)
qed

definition openEntry :: "StreamID \<Rightarrow> Meta \<Rightarrow> time \<Rightarrow> Entry" where
  "openEntry sid meta now = \<lparr>e_Seq = 1, e_TS = now, e_Kind = KindOpen, e_Payload = open_payload sid meta, e_Err = None\<rparr>"

lemma open_step:
  assumes inv: "mem_inv m0" and hist: "hist_ok h m0" and res: "mem_Open ctx sid meta now m0 = (r, m)"
  shows "mem_inv m" and "m_config m = m_config m0" and "r \<noteq> Some IndexPanic"
    and "r \<noteq> None \<Longrightarrow> hist_ok h m \<and> (m = m0 \<or> m = cleanupExpiredLocked now m0)"
    and "r = None \<Longrightarrow> hist_ok (h(sid := [openEntry sid meta now])) m
      \<and> get_stream (cleanupExpiredLocked now m0) sid = None \<and> map_of (m_tombstones (cleanupExpiredLocked now m0)) sid = None
      \<and> (\<exists>s. get_stream m sid = Some s \<and> ms_status s = StatusOpen \<and> \<not> ms_degraded s)
      \<and> (\<exists>V. V \<subseteq> set (m_terminalLRU (cleanupExpiredLocked now m0)) \<and> (\<forall>k. k \<noteq> sid \<longrightarrow>
           map_option core (get_stream m k) = (if k \<in> V then None else map_option core (get_stream (cleanupExpiredLocked now m0) k))))"
proof -
  let ?m1 = "cleanupExpiredLocked now m0"
  let ?ttl = "if me_RetentionTTL meta = 0 then c_TTL (m_config m0) else me_RetentionTTL meta"
  let ?in = "\<lparr>e_Seq = 0, e_TS = 0, e_Kind = KindOpen, e_Payload = open_payload sid meta, e_Err = None\<rparr>"
  note c = cleanup_spec [OF inv, of now]
  have h1: "hist_ok h ?m1"
    by (rule hist_ok_sub [OF hist]) (use cleanup_sub [OF inv] in blast)
  let ?good = "mem_inv m \<and> m_config m = m_config m0 \<and> r \<noteq> Some IndexPanic
    \<and> (r \<noteq> None \<longrightarrow> hist_ok h m \<and> (m = m0 \<or> m = ?m1))
    \<and> (r = None \<longrightarrow> hist_ok (h(sid := [openEntry sid meta now])) m \<and> get_stream ?m1 sid = None \<and> map_of (m_tombstones ?m1) sid = None
      \<and> (\<exists>s. get_stream m sid = Some s \<and> ms_status s = StatusOpen \<and> \<not> ms_degraded s)
      \<and> (\<exists>V. V \<subseteq> set (m_terminalLRU ?m1) \<and> (\<forall>k. k \<noteq> sid \<longrightarrow>
           map_option core (get_stream m k) = (if k \<in> V then None else map_option core (get_stream ?m1 k)))))"
  have refused: ?good if "m = m0 \<or> m = ?m1" "\<exists>x. r = Some x \<and> x \<noteq> IndexPanic"
    using that inv c(1,2) hist h1 by auto
  define g where "g = ctx_guard ctx (case decodeStreamID sid of Inl x \<Rightarrow> Some (ErrStreamID x)
              | Inr _ \<Rightarrow> if ?ttl < 0 \<or> ?ttl > MaxInt64 div 2 then Some ErrInvalidEntry else None)"
  have gp: "g \<noteq> Some IndexPanic"
    by (auto simp: g_def ctx_guard_def checkContext_def split: option.splits gocontext.splits sum.splits if_splits)
  have ?good
  proof (cases "g = None \<and> get_stream ?m1 sid = None \<and> map_of (m_tombstones ?m1) sid = None \<and> (\<exists>y. prepareEntry ?in 1 now = Inr y)")
    case False
    then have "m = m0 \<or> m = ?m1" "\<exists>x. r = Some x \<and> x \<noteq> IndexPanic"
      using res gp unfolding mem_Open_def Let_def g_def [symmetric]
      by (auto split: option.splits sum.splits if_splits dest: prepare_error)
    then show ?thesis by (rule refused)
  next
    case True
    then obtain e sz where pr: "prepareEntry ?in 1 now = Inr (e, sz)" by fastforce
    have e: "e = openEntry sid meta now" "0 < sz" using prepare_spec [OF pr] by (simp_all add: stamp_def openEntry_def)
    obtain q m2 where mr: "makeRoomLocked None sz now ?m1 = (q, m2)" by fastforce
    let ?new = "\<lparr>ms_id = sid, ms_meta = meta, ms_retentionTTL = ?ttl, ms_originBackend = me_BackendID meta,
                 ms_currentBackend = me_BackendID meta, ms_entries = [\<lparr>se_entry = e, se_size = sz\<rparr>],
                 ms_bytes = sz, ms_earliestSeq = 1, ms_lastSeq = 1, ms_status = StatusOpen, ms_resumable = True,
                 ms_createdAt = now, ms_updatedAt = now, ms_expiresAt = now + ?ttl, ms_usage = zeroUsage,
                 ms_migrations = [], ms_terminal = None, ms_degraded = False, ms_tails = [], ms_nextTailID = 0\<rparr>"
    have rm: "(r, m) = (case q of Inl x \<Rightarrow> (Some x, m2)
        | Inr _ \<Rightarrow> (None, m2\<lparr>m_streams := AList.update sid ?new (m_streams m2), m_totalBytes := m_totalBytes m2 + sz\<rparr>))"
      using res True pr mr unfolding mem_Open_def Let_def g_def [symmetric] by (auto split: sum.splits)
    have none: "\<forall>k. None = Some k \<longrightarrow> get_stream ?m1 k \<noteq> None" by simp
    from make_room [OF c(1) none e(2) mr] show ?thesis
    proof (elim disjE conjE exE)
      assume "q = Inl ErrCapacity" "m2 = ?m1"
      then show ?thesis using rm by (intro refused) auto
    next
      fix n V
      assume q: "q = Inr n" and sz: "sz \<le> c_MaxBytesPerStream (m_config ?m1)" and m2: "mem_inv m2" "m_config m2 = m_config ?m1"
        and V: "V \<subseteq> set (m_terminalLRU ?m1)" and tb: "fst ` set (m_tombstones m2) \<subseteq> fst ` set (m_tombstones ?m1) \<union> V"
        and fr: "\<forall>k. map_option core (get_stream m2 k) = (if k \<in> V then None else map_option core (get_stream ?m1 k))"
        and fits: "m_totalBytes m2 - trimmed_bytes ?m1 None n + sz \<le> c_MaxTotalBytes (m_config ?m1)"
      have ok: "stream_ok (m_config m2) ?new"
        unfolding stream_ok_def using e(2) sz m2(2)
        by (simp add: e(1) openEntry_def kind_terminal_def kind_defs status_defs)
      have "map_option core (get_stream m2 sid) = None" using fr True by (simp split: if_split)
      then have n2: "get_stream m2 sid = None" by simp
      have "sid \<notin> set (m_terminalLRU ?m1)" using mem_invD(7) [OF c(1)] True by simp
      then have t2: "sid \<notin> fst ` set (m_tombstones m2)" using tb V True by (auto simp: map_of_eq_None_iff)
      have f2: "m_totalBytes m2 + ms_bytes ?new \<le> c_MaxTotalBytes (m_config m2)" using fits m2(2) by (simp add: trimmed_bytes_def)
      note add = mem_inv_add [OF m2(1) n2 t2 ok _ _ f2]
      have m: "r = None" "m = m2\<lparr>m_streams := AList.update sid ?new (m_streams m2), m_totalBytes := m_totalBytes m2 + ms_bytes ?new\<rparr>"
        using rm q by simp_all
      have get: "get_stream m k = (if k = sid then Some ?new else get_stream m2 k)" for k unfolding m(2) by (rule add(2)) simp_all
      have "mem_inv m" unfolding m(2) by (rule add(1)) simp_all
      moreover have "hist_ok (h(sid := [openEntry sid meta now])) m"
        unfolding hist_ok_def
      proof (intro allI impI)
        fix k t assume t: "get_stream m k = Some t"
        show "log_ok ((h(sid := [openEntry sid meta now])) k) t"
        proof (cases "k = sid")
          case True
          with t get have "t = ?new" by simp
          then show ?thesis using True e(1) by (simp add: log_ok_def openEntry_def)
        next
          case False
          then have "get_stream m2 k = Some t" using t get by simp
          with fr obtain u where "get_stream ?m1 k = Some u" "core t = core u"
            by (metis map_option_eq_Some option.distinct(1) option.simps(9))
          with False h1 log_ok_core [of t u] show ?thesis by (simp add: hist_ok_def)
        qed
      qed
      ultimately show ?thesis using m(1) get fr V True c(2) m2(2) m(2)
        by (intro conjI impI) (auto intro!: exI [of _ V])
    qed
  qed
  then show "mem_inv m" and "m_config m = m_config m0" and "r \<noteq> Some IndexPanic"
    and "r \<noteq> None \<Longrightarrow> hist_ok h m \<and> (m = m0 \<or> m = ?m1)"
    and "r = None \<Longrightarrow> hist_ok (h(sid := [openEntry sid meta now])) m \<and> get_stream ?m1 sid = None \<and> map_of (m_tombstones ?m1) sid = None
      \<and> (\<exists>s. get_stream m sid = Some s \<and> ms_status s = StatusOpen \<and> \<not> ms_degraded s)
      \<and> (\<exists>V. V \<subseteq> set (m_terminalLRU ?m1) \<and> (\<forall>k. k \<noteq> sid \<longrightarrow>
           map_option core (get_stream m k) = (if k \<in> V then None else map_option core (get_stream ?m1 k))))"
    by blast+
qed

end
