(* ===== verification/Memory_Runs.thy ===== *)
theory Memory_Runs
  imports Memory_Refinement
begin

text \<open>
  All executions of the memory journal: calls of its methods by any clients, in any order and with any
  clock readings and contexts, interleaved with the steps of the reader goroutines and of their
  consumers. The properties of the journal are proved over the reachable states.
\<close>

section \<open>Steps that read\<close>

lemma touch_inv:
  assumes "mem_inv m"
  shows "mem_inv (touchTerminalLocked sid m)"
proof (cases "sid \<in> set (m_terminalLRU m)")
  case True
  then show ?thesis
    using assms unfolding mem_inv_def touchTerminalLocked_def by (simp add: distinct_removeAll insert_absorb)
qed (simp add: touchTerminalLocked_def assms)

lemma touch_sel [simp]:
  "m_streams (touchTerminalLocked sid m) = m_streams m" "m_config (touchTerminalLocked sid m) = m_config m"
  "m_tombstones (touchTerminalLocked sid m) = m_tombstones m" "m_readers (touchTerminalLocked sid m) = m_readers m"
  "m_totalBytes (touchTerminalLocked sid m) = m_totalBytes m"
  by (simp_all add: touchTerminalLocked_def)

lemma touch_hist: "hist_ok h (touchTerminalLocked sid m) = hist_ok h m"
  by (simp add: hist_ok_def)

text \<open>What a step that commits nothing leaves behind: the same streams, less the expired ones.\<close>

definition quiet :: "time \<Rightarrow> Memory \<Rightarrow> Memory \<Rightarrow> bool" where
  "quiet now m0 m \<longleftrightarrow> mem_inv m \<and> m_config m = m_config m0
     \<and> (\<forall>k. map_option core (get_stream m k) = map_option core (get_stream m0 k)
            \<or> (map_option core (get_stream m k) = None \<and> (\<exists>s. get_stream m0 k = Some s \<and> dead now s)))"

lemma quietD:
  assumes "quiet now m0 m"
  shows "mem_inv m" and "m_config m = m_config m0"
    and "get_stream m k = Some s' \<Longrightarrow> \<exists>s. get_stream m0 k = Some s \<and> core s' = core s"
    and "get_stream m0 k = Some s \<Longrightarrow> \<not> dead now s \<Longrightarrow> \<exists>s'. get_stream m k = Some s' \<and> core s' = core s"
proof -
  show "mem_inv m" and "m_config m = m_config m0" using assms by (simp_all add: quiet_def)
  have k: "map_option core (get_stream m k) = map_option core (get_stream m0 k)
      \<or> (map_option core (get_stream m k) = None \<and> (\<exists>s. get_stream m0 k = Some s \<and> dead now s))"
    using assms unfolding quiet_def by blast
  show "\<exists>s. get_stream m0 k = Some s \<and> core s' = core s" if "get_stream m k = Some s'"
    using k that by (cases "get_stream m0 k") auto
  show "\<exists>s'. get_stream m k = Some s' \<and> core s' = core s" if "get_stream m0 k = Some s" "\<not> dead now s"
    using k that by (cases "get_stream m k") auto
qed

lemma quiet_refl: "mem_inv m \<Longrightarrow> quiet now m m"
  by (simp add: quiet_def)

lemma quiet_hist: "quiet now m0 m \<Longrightarrow> hist_ok h m0 \<Longrightarrow> hist_ok h m"
  by (rule hist_ok_sub) (auto dest: quietD(3))

lemma quiet_strip:
  assumes "quiet now m0 m" and "strip m' = strip m"
  shows "quiet now m0 m'"
  using assms(1) unfolding quiet_def stripD(1,6) [OF assms(2)] mem_inv_cong [OF assms(2)] .

lemma quiet_touch: "quiet now m0 m \<Longrightarrow> quiet now m0 (touchTerminalLocked sid m)"
  by (simp add: quiet_def touch_inv)

lemma quiet_cleanup: "mem_inv m0 \<Longrightarrow> quiet now m0 (cleanupExpiredLocked now m0)"
  unfolding quiet_def using cleanup_spec(1-3) [of m0 now] by (simp split: option.split)

lemma quiet_lookup: "mem_inv m0 \<Longrightarrow> lookupLocked sid now m0 = (r, m) \<Longrightarrow> quiet now m0 m"
  using quiet_cleanup by (auto simp: lookupLocked_def Let_def)

lemma quiet_Read:
  assumes inv: "mem_inv m0" and res: "mem_Read ctx sid fromSeq now m0 = (r, m)"
  shows "quiet now m0 m"
proof -
  obtain q m1 where lk: "lookupLocked sid now m0 = (q, m1)" by fastforce
  have "m = m0 \<or> m = m1 \<or> m = touchTerminalLocked sid m1"
    using res lk by (auto simp: mem_Read_def Let_def split: option.splits sum.splits if_splits)
  then show ?thesis using quiet_refl [OF inv] quiet_lookup [OF inv lk] quiet_touch by blast
qed

lemma quiet_State:
  assumes inv: "mem_inv m0" and res: "mem_State ctx sid now m0 = (r, m)"
  shows "quiet now m0 m"
proof -
  obtain q m1 where lk: "lookupLocked sid now m0 = (q, m1)" by fastforce
  have "m = m0 \<or> m = m1 \<or> m = touchTerminalLocked sid m1"
    using res lk by (auto simp: mem_State_def split: option.splits sum.splits)
  then show ?thesis using quiet_refl [OF inv] quiet_lookup [OF inv lk] quiet_touch by blast
qed

lemma quiet_Tail:
  assumes inv: "mem_inv m0" and res: "mem_Tail ctx sid fromSeq now m0 = (r, m)"
  shows "quiet now m0 m"
proof -
  obtain q m1 where lk: "lookupLocked sid now m0 = (q, m1)" by fastforce
  have "m = m0 \<or> m = m1 \<or> (\<exists>rid a reader. m = touchTerminalLocked sid
      (upd_stream sid (\<lambda>s. s\<lparr>ms_nextTailID := rid, ms_tails := AList.update rid a (ms_tails s)\<rparr>) (m1\<lparr>m_readers := m_readers m1 @ [reader]\<rparr>)))"
    using res lk by (auto simp: mem_Tail_def Let_def split: option.splits sum.splits if_splits)
  moreover have "strip (upd_stream sid (\<lambda>s. s\<lparr>ms_nextTailID := rid, ms_tails := AList.update rid a (ms_tails s)\<rparr>)
      (m1\<lparr>m_readers := m_readers m1 @ [reader]\<rparr>)) = strip m1" for rid a reader
    by (subst strip_upd_stream) (simp_all add: core_def strip_def)
  ultimately show ?thesis
    using quiet_refl [OF inv] quiet_lookup [OF inv lk] quiet_touch [OF quiet_strip [OF quiet_lookup [OF inv lk]]] by blast
qed

lemma core_eqD:
  assumes "core s = core s'"
  shows "ms_status s = ms_status s'" "ms_degraded s = ms_degraded s'" "ms_entries s = ms_entries s'" "ms_lastSeq s = ms_lastSeq s'"
    "ms_earliestSeq s = ms_earliestSeq s'" "ms_resumable s = ms_resumable s'" "ms_expiresAt s = ms_expiresAt s'"
    "ms_retentionTTL s = ms_retentionTTL s'" "ms_terminal s = ms_terminal s'"
  using assms by (metis core_sel)+

lemma log_ok_cong:
  "ms_lastSeq s = ms_lastSeq s' \<Longrightarrow> ms_entries s = ms_entries s' \<Longrightarrow> ms_earliestSeq s = ms_earliestSeq s' \<Longrightarrow> log_ok log s = log_ok log s'"
  by (simp only: log_ok_def)

lemma degrade_step:
  assumes inv: "mem_inv m0" and hist: "hist_ok h m0" and res: "mem_MarkDegraded ctx sid now m0 = (r, m)"
  shows "mem_inv m" and "hist_ok h m" and "m_config m = m_config m0"
    and "r \<noteq> None \<Longrightarrow> quiet now m0 m"
    and "\<And>k. k \<noteq> sid \<Longrightarrow> map_option core (get_stream m k) = map_option core (get_stream (cleanupExpiredLocked now m0) k)
           \<or> map_option core (get_stream m k) = map_option core (get_stream m0 k)"
    and "r = None \<Longrightarrow> \<exists>s s'. get_stream (cleanupExpiredLocked now m0) sid = Some s \<and> ms_status s = StatusOpen
           \<and> get_stream m sid = Some s' \<and> ms_degraded s' \<and> ms_entries s' = ms_entries s \<and> ms_lastSeq s' = ms_lastSeq s"
proof -
  obtain q m1 where lk: "lookupLocked sid now m0 = (q, m1)" by fastforce
  have m1: "m1 = cleanupExpiredLocked now m0" using lk by (simp add: lookupLocked_def Let_def)
  note l = lookup_spec [OF inv lk] and ql = quiet_lookup [OF inv lk]
  let ?f = "\<lambda>s. s\<lparr>ms_degraded := True, ms_updatedAt := now, ms_expiresAt := now + ms_retentionTTL s\<rparr>"
  have "(r \<noteq> None \<and> (m = m0 \<or> m = m1)) \<or> (\<exists>s. r = None \<and> q = Inr s \<and> ms_status s = StatusOpen \<and> strip m = strip (upd_stream sid ?f m1))"
    using res lk strip_foldl [of "\<lambda>m a. upd_reader a (\<lambda>r. r\<lparr>tr_wake := True\<rparr>) m"]
    by (auto simp: mem_MarkDegraded_def Let_def split: option.splits sum.splits if_splits)
  then have "mem_inv m \<and> hist_ok h m \<and> m_config m = m_config m0 \<and> (r \<noteq> None \<longrightarrow> quiet now m0 m)
    \<and> (\<forall>k. k \<noteq> sid \<longrightarrow> map_option core (get_stream m k) = map_option core (get_stream m1 k)
           \<or> map_option core (get_stream m k) = map_option core (get_stream m0 k))
    \<and> (r = None \<longrightarrow> (\<exists>s s'. get_stream m1 sid = Some s \<and> ms_status s = StatusOpen \<and> get_stream m sid = Some s' \<and> ms_degraded s'
         \<and> ms_entries s' = ms_entries s \<and> ms_lastSeq s' = ms_lastSeq s))"
  proof (elim disjE exE conjE)
    assume "r \<noteq> None" "m = m0"
    then show ?thesis using inv hist quiet_refl by auto
  next
    assume "r \<noteq> None" "m = m1"
    then show ?thesis using l(1,2) ql quiet_hist [OF ql hist] by auto
  next
    fix s assume r: "r = None" and q: "q = Inr s" and st: "ms_status s = StatusOpen" and m: "strip m = strip (upd_stream sid ?f m1)"
    have s: "get_stream m1 sid = Some s" by (rule l(3) [OF q])
    have ok: "stream_ok (m_config m1) (?f s)"
      using mem_inv_stream(1) [OF l(1) s] st unfolding stream_ok_def by simp
    have notin: "sid \<notin> set (m_terminalLRU m1)" using mem_invD(7) [OF l(1)] s st by simp
    have "mem_inv ((upd_stream sid ?f m1)\<lparr>m_totalBytes := m_totalBytes m1 + (ms_bytes (?f s) - ms_bytes s), m_terminalLRU := m_terminalLRU m1\<rparr>)"
      by (rule mem_inv_upd [where f = ?f, OF l(1) s ok]) (use st notin mem_inv_stream(2) [OF l(1) s] mem_invD(5,6) [OF l(1)] in simp_all)
    then have "mem_inv (upd_stream sid ?f m1)" by (simp add: upd_stream_def)
    then have "mem_inv m" using mem_inv_cong [OF m] by simp
    moreover have "log_ok log (?f z) = log_ok log z" for log z by (rule log_ok_cong) simp_all
    then have "hist_ok h (upd_stream sid ?f m1)"
      using quiet_hist [OF ql hist] by (auto simp: hist_ok_def get_upd_stream split: if_splits)
    then have "hist_ok h m" using hist_ok_strip [OF m] by simp
    moreover have "m_config m = m_config m0" using stripD(1) [OF m] l(2) by simp
    moreover have g: "map_option core (get_stream m k) = (if k = sid then Some (core (?f s)) else map_option core (get_stream m1 k))" for k
      using stripD(6) [OF m, of k] s by (simp add: get_upd_stream)
    moreover have "\<exists>s'. get_stream m sid = Some s' \<and> ms_degraded s' \<and> ms_entries s' = ms_entries s \<and> ms_lastSeq s' = ms_lastSeq s"
    proof -
      obtain s' where s': "get_stream m sid = Some s'" "core s' = core (?f s)" using g [of sid] by auto
      then show ?thesis using core_eqD(2-4) [OF s'(2)] by simp
    qed
    ultimately show ?thesis using r s st by simp
  qed
  then show "mem_inv m" and "hist_ok h m" and "m_config m = m_config m0"
    and "r \<noteq> None \<Longrightarrow> quiet now m0 m"
    and "\<And>k. k \<noteq> sid \<Longrightarrow> map_option core (get_stream m k) = map_option core (get_stream (cleanupExpiredLocked now m0) k)
           \<or> map_option core (get_stream m k) = map_option core (get_stream m0 k)"
    and "r = None \<Longrightarrow> \<exists>s s'. get_stream (cleanupExpiredLocked now m0) sid = Some s \<and> ms_status s = StatusOpen
           \<and> get_stream m sid = Some s' \<and> ms_degraded s' \<and> ms_entries s' = ms_entries s \<and> ms_lastSeq s' = ms_lastSeq s"
    unfolding m1 by blast+
qed

section \<open>Steps that commit\<close>

text \<open>The log after a call of \<open>Append\<close> or \<open>Close\<close>.\<close>

definition logged :: "(StreamID \<Rightarrow> Entry list) \<Rightarrow> StreamID \<Rightarrow> Entry \<Rightarrow> time \<Rightarrow> StreamID \<Rightarrow> Entry list" where
  "logged h sid e now = h(sid := h sid @ [stamp e (Suc (length (h sid))) now])"

lemma ctx_guard_panic: "p \<noteq> Some IndexPanic \<Longrightarrow> ctx_guard ctx p \<noteq> Some IndexPanic"
  by (auto simp: ctx_guard_def checkContext_def split: option.splits gocontext.splits)

lemma append_step:
  assumes inv: "mem_inv m0" and hist: "hist_ok h m0" and res: "mem_Append ctx sid e now m0 = (r, m)"
  shows "(\<exists>x. r = Inl x \<and> x \<noteq> IndexPanic \<and> quiet now m0 m) \<or>
    (r = Inr (Suc (length (h sid))) \<and> hist_ok (logged h sid e now) m \<and> kind_appendable (e_Kind e) \<and>
     (\<exists>s s' V. get_stream (cleanupExpiredLocked now m0) sid = Some s \<and> ms_status s = StatusOpen \<and> \<not> ms_degraded s
        \<and> ms_status s' = StatusOpen \<and> \<not> ms_degraded s' \<and> effect (cleanupExpiredLocked now m0) sid s' V m))"
proof (cases "ctx_guard ctx (if kind_appendable (e_Kind e) then None else Some ErrInvalidEntry)")
  case (Some x)
  moreover have "x \<noteq> IndexPanic" using ctx_guard_panic [of "if kind_appendable (e_Kind e) then None else Some ErrInvalidEntry" ctx] Some by auto
  ultimately show ?thesis using res quiet_refl [OF inv] by (auto simp: mem_Append_def)
next
  case None
  then have ap: "kind_appendable (e_Kind e)" by (auto simp: ctx_guard_def split: option.splits if_splits)
  then have nt: "\<not> kind_terminal (e_Kind e)" by (auto simp: kind_appendable_def kind_terminal_def kind_defs)
  obtain q m1 where ae: "append_entry sid e now m0 = (q, m1)" by fastforce
  have rm: "r = (case q of Inl x \<Rightarrow> Inl x | Inr c \<Rightarrow> Inr (e_Seq c))" "m = m1"
    using res None ae by (auto simp: mem_Append_def split: sum.splits)
  from append_entry_step [OF inv hist ae] show ?thesis
  proof (elim disjE exE conjE)
    fix x assume "q = Inl x" "m1 = cleanupExpiredLocked now m0" "x \<noteq> IndexPanic"
    then show ?thesis using rm quiet_cleanup [OF inv] by simp
  next
    fix s n V sz
    let ?e = "stamp e (Suc (length (h sid))) now"
    assume q: "q = Inr ?e" and s: "get_stream (cleanupExpiredLocked now m0) sid = Some s" "ms_status s = StatusOpen" "\<not> ms_degraded s"
      and ef: "\<not> kind_terminal (e_Kind e) \<longrightarrow> effect (cleanupExpiredLocked now m0) sid (committed ?e sz now n s) V m1 \<and> hist_ok (h(sid := h sid @ [?e])) m1"
    have "ms_status (committed ?e sz now n s) = StatusOpen" "\<not> ms_degraded (committed ?e sz now n s)"
      using s by (simp_all add: commit_stream_def Let_def)
    then show ?thesis using rm q s ef nt ap by (auto simp: logged_def)
  qed
qed

lemma close_step:
  assumes inv: "mem_inv m0" and hist: "hist_ok h m0" and res: "mem_Close ctx sid e now m0 = (r, m)"
  shows "(\<exists>x. r = Some x \<and> x \<noteq> IndexPanic \<and> quiet now m0 m) \<or>
    (r = None \<and> hist_ok (logged h sid e now) m \<and> kind_terminal (e_Kind e) \<and>
     (\<exists>s s' V. get_stream (cleanupExpiredLocked now m0) sid = Some s \<and> ms_status s = StatusOpen \<and> \<not> ms_degraded s
        \<and> ms_status s' = statusForTerminal (e_Kind e) \<and> ms_expiresAt s' = now + ms_retentionTTL s'
        \<and> effect (cleanupExpiredLocked now m0) sid s' V m))"
proof (cases "ctx_guard ctx (if kind_terminal (e_Kind e) then None else Some ErrInvalidEntry)")
  case (Some x)
  moreover have "x \<noteq> IndexPanic" using ctx_guard_panic [of "if kind_terminal (e_Kind e) then None else Some ErrInvalidEntry" ctx] Some by auto
  ultimately show ?thesis using res quiet_refl [OF inv] by (auto simp: mem_Close_def)
next
  case None
  then have t: "kind_terminal (e_Kind e)" by (auto simp: ctx_guard_def split: option.splits if_splits)
  obtain q m1 where ae: "append_entry sid e now m0 = (q, m1)" by fastforce
  from append_entry_step [OF inv hist ae] show ?thesis
  proof (elim disjE exE conjE)
    fix x assume "q = Inl x" "m1 = cleanupExpiredLocked now m0" "x \<noteq> IndexPanic"
    moreover from this have "r = Some x" "m = m1" using res None ae by (simp_all add: mem_Close_def)
    ultimately show ?thesis using quiet_cleanup [OF inv, of now] by simp
  next
    fix s n V sz
    let ?e = "stamp e (Suc (length (h sid))) now"
    let ?m = "(upd_stream sid (finish_stream ?e now) m1)\<lparr>m_terminalLRU := sid # m_terminalLRU m1\<rparr>"
    assume q: "q = Inr ?e" and s: "get_stream (cleanupExpiredLocked now m0) sid = Some s" "ms_status s = StatusOpen" "\<not> ms_degraded s"
      and ef: "kind_terminal (e_Kind e) \<longrightarrow> effect (cleanupExpiredLocked now m0) sid (finish_stream ?e now (committed ?e sz now n s)) V ?m
        \<and> hist_ok (h(sid := h sid @ [?e])) ?m"
    have m: "r = None" "m = ?m" using res None ae q by (simp_all add: mem_Close_def finish_stream_def [abs_def])
    have "ms_status (finish_stream ?e now (committed ?e sz now n s)) = statusForTerminal (e_Kind e)"
      "ms_expiresAt (finish_stream ?e now (committed ?e sz now n s)) = now + ms_retentionTTL (finish_stream ?e now (committed ?e sz now n s))"
      by (simp_all add: finish_stream_def)
    then show ?thesis using m s ef t unfolding logged_def by blast
  qed
qed

section \<open>Reachable states\<close>

text \<open>One step of the journal and its environment. The second component is the log of every stream ever
  opened, the specification state that the journal's memory is compared with: it never forgets.\<close>

type_synonym history = "StreamID \<Rightarrow> Entry list"

inductive mem_step :: "Memory \<Rightarrow> history \<Rightarrow> Memory \<Rightarrow> history \<Rightarrow> bool" for m :: Memory and h :: history where
  open_call: "mem_Open ctx sid meta now m = (r, m') \<Longrightarrow>
    mem_step m h m' (if r = None then h(sid := [openEntry sid meta now]) else h)"
| append: "mem_Append ctx sid e now m = (ra, m') \<Longrightarrow> mem_step m h m' (case ra of Inr _ \<Rightarrow> logged h sid e now | Inl _ \<Rightarrow> h)"
| close: "mem_Close ctx sid e now m = (r, m') \<Longrightarrow> mem_step m h m' (if r = None then logged h sid e now else h)"
| read: "mem_Read ctx sid fromSeq now m = (rr, m') \<Longrightarrow> mem_step m h m' h"
| tail: "mem_Tail ctx sid fromSeq now m = (rt, m') \<Longrightarrow> mem_step m h m' h"
| state: "mem_State ctx sid now m = (rs, m') \<Longrightarrow> mem_step m h m' h"
| degrade: "mem_MarkDegraded ctx sid now m = (r, m') \<Longrightarrow> mem_step m h m' h"
| reader: "tail_step a m m' \<Longrightarrow> mem_step m h m' h"
| cancel: "mem_step m h (stopTailLocked a None True m) h"
| receive: "mem_step m h (upd_reader a (\<lambda>r. r\<lparr>tr_out := []\<rparr>) m) h"

inductive reach :: "Config \<Rightarrow> Memory \<Rightarrow> history \<Rightarrow> bool" for config :: Config where
  new: "NewMemory config = Inr m \<Longrightarrow> reach config m (\<lambda>_. [])"
| do_step: "reach config m h \<Longrightarrow> mem_step m h m' h' \<Longrightarrow> reach config m' h'"

text \<open>What a step leaves of the state, by kind of step.\<close>

definition commits :: "time \<Rightarrow> StreamID \<Rightarrow> Memory \<Rightarrow> history \<Rightarrow> Memory \<Rightarrow> history \<Rightarrow> bool" where
  "commits now sid m h m' h' \<longleftrightarrow>
     (\<exists>e s s' V. get_stream (cleanupExpiredLocked now m) sid = Some s \<and> ms_status s = StatusOpen \<and> \<not> ms_degraded s
        \<and> h' = logged h sid e now \<and> hist_ok h' m' \<and> effect (cleanupExpiredLocked now m) sid s' V m')"

definition opens :: "time \<Rightarrow> StreamID \<Rightarrow> Memory \<Rightarrow> history \<Rightarrow> Memory \<Rightarrow> history \<Rightarrow> bool" where
  "opens now sid m h m' h' \<longleftrightarrow>
     mem_inv m' \<and> m_config m' = m_config m \<and> hist_ok h' m' \<and> get_stream (cleanupExpiredLocked now m) sid = None
   \<and> (\<exists>meta. h' = h(sid := [openEntry sid meta now]))
   \<and> (\<exists>V \<subseteq> set (m_terminalLRU (cleanupExpiredLocked now m)). \<forall>k. k \<noteq> sid \<longrightarrow>
        map_option core (get_stream m' k) = (if k \<in> V then None else map_option core (get_stream (cleanupExpiredLocked now m) k)))"

definition degrades :: "time \<Rightarrow> StreamID \<Rightarrow> Memory \<Rightarrow> Memory \<Rightarrow> bool" where
  "degrades now sid m m' \<longleftrightarrow>
     mem_inv m' \<and> m_config m' = m_config m \<and> (\<exists>s'. get_stream m' sid = Some s')
   \<and> (\<forall>k. k \<noteq> sid \<longrightarrow> map_option core (get_stream m' k) = map_option core (get_stream (cleanupExpiredLocked now m) k)
         \<or> map_option core (get_stream m' k) = map_option core (get_stream m k))"

lemma mem_step_cases:
  assumes inv: "mem_inv m" and hist: "hist_ok h m" and st: "mem_step m h m' h'"
  obtains now where "quiet now m m'" and "h' = h"
  | now sid where "opens now sid m h m' h'"
  | now sid where "commits now sid m h m' h'"
  | now sid where "degrades now sid m m'" and "h' = h" and "hist_ok h m'"
  using st
proof cases
  case (open_call ctx sid meta now r)
  note o = open_step [OF inv hist open_call(2)]
  show thesis
  proof (cases "r = None")
    case True
    then show thesis using o(1,2) o(5) open_call(1) by (intro that(2) [of now sid]) (auto simp: opens_def simp del: fun_upd_apply)
  next
    case False
    then show thesis using o(4) open_call(1) quiet_refl [OF inv] quiet_cleanup [OF inv] that(1) by metis
  qed
next
  case (append ctx sid e now ra)
  show thesis
  proof (cases ra)
    case (Inl x)
    then show thesis using append_step [OF inv hist append(2)] append(1) that(1) by auto
  next
    case (Inr q)
    then have "commits now sid m h m' h'" using append_step [OF inv hist append(2)] append(1) unfolding commits_def by auto
    then show thesis by (rule that(3))
  qed
next
  case (close ctx sid e now r)
  show thesis
  proof (cases r)
    case (Some x)
    then show thesis using close_step [OF inv hist close(2)] close(1) that(1) by auto
  next
    case None
    then have "commits now sid m h m' h'" using close_step [OF inv hist close(2)] close(1) unfolding commits_def by auto
    then show thesis by (rule that(3))
  qed
next
  case (degrade ctx sid now r)
  note d = degrade_step [OF inv hist degrade(2)]
  show thesis
  proof (cases r)
    case None
    then have "degrades now sid m m'" using d(1,3,5) d(6) unfolding degrades_def by blast
    then show thesis using that(4) degrade(1) d(2) by blast
  next
    case (Some x)
    then show thesis using d(4) degrade(1) that(1) by auto
  qed
next
  case (reader a)
  then show thesis using quiet_strip [OF quiet_refl [OF inv]] strip_tail_step that(1) by blast
next
  case (read ctx sid fromSeq now rr)
  then show thesis using quiet_Read [OF inv] that(1) by blast
next
  case (tail ctx sid fromSeq now rt)
  then show thesis using quiet_Tail [OF inv] that(1) by blast
next
  case (state ctx sid now rs)
  then show thesis using quiet_State [OF inv] that(1) by blast
qed (use quiet_strip [OF quiet_refl [OF inv]] that(1) in auto)

lemma step_inv:
  assumes inv: "mem_inv m" and hist: "hist_ok h m" and st: "mem_step m h m' h'"
  shows "mem_inv m' \<and> hist_ok h' m' \<and> m_config m' = m_config m"
  using assms
proof (cases rule: mem_step_cases)
  case (1 now)
  then show ?thesis using quietD(1,2) [of now m m'] quiet_hist [OF _ hist] by blast
next
  case (2 now sid)
  then show ?thesis unfolding opens_def by blast
next
  case (3 now sid)
  then show ?thesis unfolding commits_def effect_def using cleanup_spec(2) [OF inv] by auto
next
  case (4 now sid)
  then show ?thesis unfolding degrades_def by blast
qed

lemma reach_inv: "reach config m h \<Longrightarrow> mem_inv m \<and> hist_ok h m \<and> m_config m = withDefaults config"
proof (induction rule: reach.induct)
  case (new m)
  then show ?case
    by (auto simp: NewMemory_def Let_def mem_inv_def hist_ok_def held_bytes_def validateConfig_def split: if_splits)
next
  case (do_step m h m' h')
  then show ?case using step_inv [of m h m' h'] by simp
qed

end
