(* ===== verification/Journal_Payload.thy ===== *)
theory Journal_Payload
  imports Journal_Types
begin

text \<open>
  Payloads the journals write and accept: objects whose members are marshalled strings parse back to
  those strings, so the open entry a journal writes always passes its own validation.
\<close>

section \<open>Objects of strings\<close>

lemma trim_braces:
  assumes "s \<noteq> []" and "hd s = CHR ''{''" and "last s = CHR ''}''"
  shows "trim_space s = s"
proof -
  have "decode_rune s = (0x7B, 1)" using assms(1,2) by (cases s) simp_all
  then have l: "trim_left s = s" by (subst trim_left.simps) (simp add: unicode_is_space_def)
  have "decode_last_rune s = (0x7D, 1)" using assms(1,3) by (simp add: decode_last_rune_def last_conv_nth)
  then have "trim_right s = s" by (subst trim_right.simps) (simp add: unicode_is_space_def)
  with l show ?thesis by (simp add: trim_space_def)
qed

lemma skip_marshal [simp]: "skipWhitespace (marshal_string s @ r) = marshal_string s @ r"
  by (simp add: marshal_string_def skipWhitespace_def isWhitespace_def)

lemma scan_key_marshal:
  assumes "utf8_valid k"
  shows "scan_key (marshal_string k @ CHR '':'' # r) = Some (k, skipWhitespace r)"
  using assms by (simp add: scan_key_def marshal_string_def scan_quote_body unquote_quote_body skipWhitespace_def isWhitespace_def)

lemma value_marshal:
  assumes "utf8_valid s"
  shows "json_value (Suc n) d (marshal_string s @ r) = Some (JString s, r)"
  using assms by (simp add: json_value.simps scan_scalar_def marshal_string_def scan_quote_body unquote_quote_body)

lemma raw_of_append [simp]: "raw_of (x @ r) r = x"
  by (simp add: raw_of_def)

text \<open>The text of members whose values are strings or null.\<close>

definition field_text :: "bytes option \<Rightarrow> bytes" where
  "field_text v = (case v of None \<Rightarrow> ''null'' | Some s \<Rightarrow> marshal_string s)"

definition field_value :: "bytes option \<Rightarrow> gojson" where
  "field_value v = (case v of None \<Rightarrow> JNull | Some s \<Rightarrow> JString s)"

fun members_text :: "(bytes \<times> bytes option) list \<Rightarrow> bytes" where
  "members_text [] = []"
| "members_text [(k, v)] = marshal_string k @ CHR '':'' # field_text v"
| "members_text ((k, v) # kvs) = marshal_string k @ CHR '':'' # field_text v @ CHR '','' # members_text kvs"

definition texts_valid :: "(bytes \<times> bytes option) list \<Rightarrow> bool" where
  "texts_valid kvs \<longleftrightarrow> list_all (\<lambda>(k, v). utf8_valid k \<and> (case v of None \<Rightarrow> True | Some s \<Rightarrow> utf8_valid s)) kvs"

lemma value_field:
  assumes "case v of None \<Rightarrow> True | Some s \<Rightarrow> utf8_valid s"
  shows "json_value (Suc n) d (field_text v @ r) = Some (field_value v, r)" and "skipWhitespace (field_text v @ r) = field_text v @ r"
  using assms value_marshal [of _ n d r]
  by (auto simp: field_text_def field_value_def json_value.simps scan_scalar_def scan_literal_def skipWhitespace_def isWhitespace_def marshal_string_def
      split: option.splits)

lemma members_skip: "kvs \<noteq> [] \<Longrightarrow> skipWhitespace (members_text kvs @ r) = members_text kvs @ r"
  by (cases kvs rule: members_text.cases) (auto simp: marshal_string_def skipWhitespace_def isWhitespace_def)

lemma members_parse:
  assumes "texts_valid kvs" and "kvs \<noteq> []" and "length kvs < n"
  shows "json_members n d (members_text kvs @ CHR ''}'' # r) = Some (map (\<lambda>(k, v). (k, field_value v, field_text v)) kvs, r)"
  using assms
proof (induction kvs arbitrary: n rule: members_text.induct)
  case (2 k v)
  then obtain n' where n: "n = Suc (Suc n')" by (metis length_Cons list.size(3) Suc_lessE less_imp_Suc_add One_nat_def)
  have v: "case v of None \<Rightarrow> True | Some s \<Rightarrow> utf8_valid s" and k: "utf8_valid k" using "2.prems" by (simp_all add: texts_valid_def)
  show ?case
    using value_field(1) [OF v, of n' d "CHR ''}'' # r"] value_field(2) [OF v, of "CHR ''}'' # r"]
    by (simp add: n json_members.simps scan_key_marshal [OF k] scan_next_def skipWhitespace_def isWhitespace_def)
next
  case (3 k v kv kvs)
  obtain n' where n: "n = Suc (Suc n')" using "3.prems"(3) by (cases n; cases "n - 1") auto
  have v: "case v of None \<Rightarrow> True | Some s \<Rightarrow> utf8_valid s" and k: "utf8_valid k" and vs: "texts_valid (kv # kvs)"
    using "3.prems" by (simp_all add: texts_valid_def)
  let ?t = "members_text (kv # kvs) @ CHR ''}'' # r"
  have IH: "json_members (Suc n') d ?t = Some (map (\<lambda>(k, v). (k, field_value v, field_text v)) (kv # kvs), r)"
    by (rule "3.IH" [OF vs]) (use "3.prems"(3) n in simp_all)
  have nx: "scan_next (CHR ''}'') (CHR '','' # ?t) = Some (Inr ?t)"
    using members_skip [of "kv # kvs" "CHR ''}'' # r"] by (simp add: scan_next_def skipWhitespace_def isWhitespace_def)
  show ?case
    using value_field(1) [OF v, of n' d "CHR '','' # ?t"] value_field(2) [OF v, of "CHR '','' # ?t"] IH nx
    by (simp add: n json_members.simps(2) [of "Suc n'" d "marshal_string k @ _"] scan_key_marshal [OF k])
qed simp

lemma object_parse:
  assumes "texts_valid kvs" and "kvs \<noteq> []"
  shows "json_first (CHR ''{'' # members_text kvs @ ''}'') = Some (JObject (map (\<lambda>(k, v). (k, field_value v, field_text v)) kvs), [])"
    and "json_valid (CHR ''{'' # members_text kvs @ ''}'')"
    and "validatePayload (CHR ''{'' # members_text kvs @ ''}'')"
proof -
  let ?s = "CHR ''{'' # members_text kvs @ ''}''"
  have len: "length kvs \<le> length (members_text kvs)" by (induction kvs rule: members_text.induct) (auto simp: marshal_string_def)
  have hd: "members_text kvs @ ''}'' \<noteq> [] \<and> hd (members_text kvs @ ''}'') = QUOTE"
    using assms(2) by (cases kvs rule: members_text.cases) (auto simp: marshal_string_def)
  show f: "json_first ?s = Some (JObject (map (\<lambda>(k, v). (k, field_value v, field_text v)) kvs), [])"
    using members_parse [OF assms, of "Suc (Suc (2 * length (members_text kvs))) + 2" "Suc 0" "[]"] members_skip [OF assms(2), of "''}''"] len hd
    by (simp add: json_first_def skipWhitespace_def isWhitespace_def json_value.simps maxNestingDepth_def)
  then show v: "json_valid ?s" by (simp add: json_valid_def json_parse_def skipWhitespace_def)
  show "validatePayload ?s" using v trim_braces [of ?s] by (simp add: validatePayload_def)
qed

section \<open>Open entries\<close>

definition open_fields :: "StreamID \<Rightarrow> Meta \<Rightarrow> (bytes \<times> bytes option) list" where
  "open_fields sid meta = [(''stream_id'', Some sid), (''model'', Some (me_Model meta)), (''model_version'', me_ModelVersion meta),
     (''backend_id'', Some (me_BackendID meta))]"

lemma open_payload_text: "open_payload sid meta = CHR ''{'' # members_text (open_fields sid meta) @ ''}''"
  by (simp add: open_payload_def open_fields_def field_text_def split: option.split)

lemma length_compact: "length (compact q s) \<le> 6 * length s"
proof (induction q s rule: compact.induct)
  case (3 c cs)
  consider "c = QUOTE" | "c = BACKSLASH" | "c = CHR ''<'' \<or> c = CHR ''>'' \<or> c = CHR ''&''" | "c \<noteq> QUOTE" "c \<noteq> BACKSLASH" "c = CHR 0xE2"
    "take 1 cs = [CHR 0x80] \<and> (take 1 (drop 1 cs) = [CHR 0xA8] \<or> take 1 (drop 1 cs) = [CHR 0xA9])"
    | "c \<noteq> QUOTE" "c \<noteq> BACKSLASH" "\<not> (c = CHR ''<'' \<or> c = CHR ''>'' \<or> c = CHR ''&'')"
      "\<not> (c = CHR 0xE2 \<and> take 1 cs = [CHR 0x80] \<and> (take 1 (drop 1 cs) = [CHR 0xA8] \<or> take 1 (drop 1 cs) = [CHR 0xA9]))"
    by blast
  then show ?case
  proof cases
    case 2
    then show ?thesis using "3.IH"(2) by (cases cs) simp_all
  next
    case 4
    then have "length (compact True (drop 2 cs)) \<le> 6 * length (drop 2 cs)" by (intro "3.IH"(4)) simp_all
    moreover have "2 \<le> length cs" using 4(4) by (cases cs; cases "tl cs") auto
    ultimately show ?thesis using 4 by simp
  qed (use 3 in \<open>auto split: if_splits\<close>)
qed auto

lemma prepare_object:
  assumes "texts_valid kvs" and "kvs \<noteq> []" and "- 366 * day \<le> now" and "now < 3652059 * day"
    and "p = CHR ''{'' # members_text kvs @ ''}''" and "e_Err e = None" and "e_Payload e = p"
  shows "\<exists>sz. prepareEntry e seq now = Inr (e\<lparr>e_Seq := seq, e_TS := now\<rparr>, sz)
    \<and> sz \<le> int (65 + length (append_dec seq) + length (marshal_string (e_Kind e)) + 6 * length p)"
proof -
  have v: "validatePayload p" "json_valid p" using object_parse(2,3) [OF assms(1,2)] assms(5) by simp_all
  have "fraction_digits k ns \<le> k" for k ns by (induction k ns rule: fraction_digits.induct) auto
  from this [of 9] have "fraction_digits 9 ns \<le> 9" for ns .
  then obtain ts where ts: "time_size now = Some ts" "ts \<le> 32" using assms(3,4) by (auto simp: time_size_def Let_def)
  show ?thesis
    using v ts length_compact [of False p] assms(6,7) by (cases e) (simp add: prepareEntry_def envelope_size_def marshal_raw_def Let_def)
qed

end
