(* ===== verification/Memory_Contract.thy ===== *)
theory Memory_Contract
  imports Memory_Runs Journal_Payload
begin

text \<open>
  What the memory journal promises its clients, over all reachable states: reads return the logged
  entries, bytes stay within the configured limits, live streams are never dropped, terminal entries
  are final and identifiers are not reused while they are remembered.
\<close>

section \<open>Reading the log\<close>

lemma filter_seq_drop:
  "map e_Seq log = [k..<k + length log] \<Longrightarrow> filter (\<lambda>e. n < e_Seq e) log = drop (Suc n - k) log"
proof (induction log arbitrary: k)
  case (Cons e log)
  have e: "e_Seq e = k" and r: "map e_Seq log = [Suc k..<Suc k + length log]"
    using Cons.prems upt_conv_Cons [of k "k + length (e # log)"] by (simp_all del: upt_Suc)
  show ?case
  proof (cases "n < k")
    case True
    then have "Suc n - k = 0" "Suc n - Suc k = 0" by simp_all
    then show ?thesis using Cons.IH [OF r] e True by simp
  next
    case False
    then have "Suc n - k = Suc (Suc n - Suc k)" by simp
    then show ?thesis using Cons.IH [OF r] e False by simp
  qed
qed simp

lemma snapshot_is_log:
  assumes "log_ok log s" and "validateCursor s n = None" and "1 \<le> ms_earliestSeq s" and "ms_earliestSeq s \<le> Suc (ms_lastSeq s)"
  shows "entriesAfter s n = drop n log" and "n \<le> length log"
proof -
  have len: "length log = ms_lastSeq s" by (rule log_ok_length [OF assms(1)])
  have c: "n \<le> ms_lastSeq s" "ms_earliestSeq s - 1 \<le> n"
    using assms(2) by (auto simp: validateCursor_def split: if_splits)
  show "n \<le> length log" using c len by simp
  let ?d = "drop (ms_earliestSeq s - 1) log"
  have "map e_Seq ?d = [ms_earliestSeq s..<ms_earliestSeq s + length ?d]"
    using assms(1,3,4) len unfolding log_ok_def drop_map [symmetric] by (simp add: drop_upt del: upt_Suc)
  from filter_seq_drop [OF this, of n] have "entriesAfter s n = drop (Suc n - ms_earliestSeq s) ?d"
    using assms(1) by (simp add: entriesAfter_def log_ok_def)
  then show "entriesAfter s n = drop n log" using c assms(3) by simp
qed

lemma read_success:
  assumes "mem_Read ctx sid fromSeq now m = (Inr (snapshot, degraded), m')"
  obtains s m1 where "lookupLocked sid now m = (Inr s, m1)" "validateCursor s fromSeq = None" "snapshot = entriesAfter s fromSeq"
    "degraded = ms_degraded s" "m' = touchTerminalLocked sid m1" "ms_resumable s"
  using assms by (auto simp: mem_Read_def Let_def split: option.splits sum.splits prod.splits if_splits)

text \<open>
  C1: A successful \<open>Read\<close> returns exactly the part of the stream's log after the cursor: whatever was
  trimmed, evicted, degraded or read in between, no entry is lost, repeated or reordered.
\<close>
theorem read_refines_log:
  assumes "reach config m h" and "mem_Read ctx sid fromSeq now m = (Inr (snapshot, degraded), m')"
  shows "snapshot = drop fromSeq (h sid) \<and> fromSeq \<le> length (h sid)
    \<and> map e_Seq snapshot = [Suc fromSeq..<Suc (length (h sid))]"
proof -
  have inv: "mem_inv m" and hist: "hist_ok h m" using reach_inv [OF assms(1)] by simp_all
  obtain s m1 where lk: "lookupLocked sid now m = (Inr s, m1)" and c: "validateCursor s fromSeq = None" "snapshot = entriesAfter s fromSeq"
    using read_success [OF assms(2)] by metis
  have s: "get_stream m1 sid = Some s" and i1: "mem_inv m1" using lookup_spec(1,3) [OF inv lk] by simp_all
  have log: "log_ok (h sid) s" using quiet_hist [OF quiet_lookup [OF inv lk] hist] s by (simp add: hist_ok_def)
  note ok = mem_inv_stream(1) [OF i1 s]
  have sn: "snapshot = drop fromSeq (h sid)" and le: "fromSeq \<le> length (h sid)"
    using snapshot_is_log [OF log c(1) stream_okD(5) [OF ok]] stream_ok_length(2) [OF ok] c(2) by simp_all
  moreover have "map e_Seq snapshot = [Suc fromSeq..<Suc (length (h sid))]"
    using log log_ok_length [OF log] unfolding sn log_ok_def drop_map [symmetric] by (simp add: drop_upt del: upt_Suc)
  ultimately show ?thesis by simp
qed

section \<open>Limits\<close>

text \<open>
  C3: In every reachable state the byte counter of the journal is the sum of the sizes of the entries it
  holds and is within the total limit, and every stream is within the limit of one stream.
\<close>
theorem bytes_within_limits:
  assumes "reach config m h"
  shows "m_totalBytes m = (\<Sum>(sid, s) \<leftarrow> m_streams m. \<Sum>e \<leftarrow> ms_entries s. se_size e)
    \<and> m_totalBytes m \<le> c_MaxTotalBytes (withDefaults config)
    \<and> (\<forall>sid s. get_stream m sid = Some s \<longrightarrow>
         0 < ms_bytes s \<and> ms_bytes s = (\<Sum>e \<leftarrow> ms_entries s. se_size e) \<and> ms_bytes s \<le> c_MaxBytesPerStream (withDefaults config))"
proof -
  have inv: "mem_inv m" and c: "m_config m = withDefaults config" using reach_inv [OF assms] by simp_all
  have ok: "stream_ok (m_config m) s" if "(sid, s) \<in> set (m_streams m)" for sid s
    using mem_invD(3) [OF inv] that by (auto simp: list_all_iff)
  have "map (ms_bytes \<circ> snd) (m_streams m) = map (\<lambda>(sid, s). \<Sum>e \<leftarrow> ms_entries s. se_size e) (m_streams m)"
    by (rule map_cong [OF refl]) (use stream_okD(1) [OF ok] in auto)
  then have "m_totalBytes m = (\<Sum>(sid, s) \<leftarrow> m_streams m. \<Sum>e \<leftarrow> ms_entries s. se_size e)"
    using mem_invD(4) [OF inv] by (simp only: held_bytes_def)
  moreover have "0 < ms_bytes s" if s: "get_stream m sid = Some s" for sid s
  proof -
    note o = mem_inv_stream(1) [OF inv s]
    obtain e es where "ms_entries s = e # es" using stream_okD(4) [OF o] by (cases "ms_entries s") auto
    then show ?thesis using stream_okD(1,2) [OF o] sizes_nonneg [of es] by simp
  qed
  ultimately show ?thesis using mem_invD(5) [OF inv] stream_okD(1,3) [OF mem_inv_stream(1) [OF inv]] c by metis
qed

section \<open>Live streams\<close>

lemma live_not_dead: "ms_status s = StatusOpen \<Longrightarrow> \<not> ms_degraded s \<Longrightarrow> \<not> dead now s"
  by (simp add: dead_def)

lemma live_kept:
  assumes inv: "mem_inv m" and s: "get_stream m sid = Some s" and live: "ms_status s = StatusOpen" "\<not> ms_degraded s"
  shows "\<exists>s'. get_stream (cleanupExpiredLocked now m) sid = Some s' \<and> core s' = core s"
    and "sid \<notin> set (m_terminalLRU (cleanupExpiredLocked now m))"
proof -
  show *: "\<exists>s'. get_stream (cleanupExpiredLocked now m) sid = Some s' \<and> core s' = core s"
    using quietD(4) [OF quiet_cleanup [OF inv] s live_not_dead [OF live]] .
  then obtain s' where "get_stream (cleanupExpiredLocked now m) sid = Some s'" "ms_status s' = StatusOpen"
    using core_eqD(1) live(1) by metis
  then show "sid \<notin> set (m_terminalLRU (cleanupExpiredLocked now m))"
    unfolding mem_invD(7) [OF cleanup_spec(1) [OF inv, of now]] by simp
qed

lemma kept_elsewhere:
  assumes "map_option core x = map_option core y" and "y = Some s'" and "core s' = core s"
  shows "\<exists>s''. x = Some s'' \<and> core s'' = core s"
  using assms by (cases x) auto

text \<open>
  C2: No step of any client, reader or clock drops a stream that is open and not degraded, and its log
  only grows, by at most one entry in a step.
\<close>
theorem live_streams_survive:
  assumes "reach config m h" and "mem_step m h m' h'" and "get_stream m sid = Some s"
    and "ms_status s = StatusOpen" and "\<not> ms_degraded s"
  shows "(\<exists>s'. get_stream m' sid = Some s') \<and> (h' sid = h sid \<or> (\<exists>e now. h' sid = h sid @ [stamp e (Suc (length (h sid))) now]))"
proof -
  have inv: "mem_inv m" and hist: "hist_ok h m" using reach_inv [OF assms(1)] by simp_all
  note live = live_kept [OF inv assms(3-5)]
  from inv hist assms(2) show ?thesis
  proof (cases rule: mem_step_cases)
    case (1 now)
    then show ?thesis using quietD(4) [OF 1(1) assms(3) live_not_dead [OF assms(4,5)]] by auto
  next
    case (2 now k)
    then have "k \<noteq> sid" using live(1) [of now] unfolding opens_def by auto
    moreover obtain V where V: "V \<subseteq> set (m_terminalLRU (cleanupExpiredLocked now m))"
      "map_option core (get_stream m' sid) = (if sid \<in> V then None else map_option core (get_stream (cleanupExpiredLocked now m) sid))"
      using 2 calculation unfolding opens_def by metis
    then have "sid \<notin> V" using live(2) by blast
    then have "\<exists>s'. get_stream m' sid = Some s'" using V(2) live(1) [of now] by (auto simp: map_option_eq_Some)
    moreover have "h' sid = h sid" using 2 \<open>k \<noteq> sid\<close> unfolding opens_def by auto
    ultimately show ?thesis by blast
  next
    case (3 now k)
    then obtain e s1 s' V where c: "h' = logged h k e now" "effect (cleanupExpiredLocked now m) k s' V m'"
      unfolding commits_def by blast
    have "h' sid = h sid \<or> (\<exists>e now. h' sid = h sid @ [stamp e (Suc (length (h sid))) now])"
      using c(1) by (auto simp: logged_def)
    moreover have "V \<subseteq> set (m_terminalLRU (cleanupExpiredLocked now m))"
      "map_option core (get_stream m' sid) = (if sid = k then Some (core s') else if sid \<in> V then None
         else map_option core (get_stream (cleanupExpiredLocked now m) sid))"
      using c(2) unfolding effect_def by auto
    then have "\<exists>s'. get_stream m' sid = Some s'"
      using live(1) [of now] live(2) [of now] by (auto simp: map_option_eq_Some split: if_splits)
    ultimately show ?thesis by blast
  next
    case (4 now k)
    have "\<exists>s'. get_stream m' sid = Some s'"
    proof (cases "sid = k")
      case True
      then show ?thesis using 4(1) unfolding degrades_def by blast
    next
      case False
      then have "map_option core (get_stream m' sid) = map_option core (get_stream (cleanupExpiredLocked now m) sid)
         \<or> map_option core (get_stream m' sid) = map_option core (get_stream m sid)"
        using 4(1) unfolding degrades_def by blast
      then show ?thesis using live(1) [of now] assms(3) by (auto simp: map_option_eq_Some)
    qed
    then show ?thesis using 4(2) by blast
  qed
qed

section \<open>Room for new entries\<close>

text \<open>The bytes that cannot be evicted: those of open streams.\<close>

definition live_bytes :: "Memory \<Rightarrow> int" where
  "live_bytes m = held_bytes (filter (\<lambda>(sid, s). ms_status s = StatusOpen) (m_streams m))"

lemma pick_all:
  "pick_victims m keep needFree cs freed = (vs, tot) \<Longrightarrow> tot < needFree \<Longrightarrow> keep \<notin> Some ` set cs \<Longrightarrow> vs = cs"
  by (induction cs arbitrary: freed vs) (auto split: if_splits prod.splits simp: apfst_def map_prod_def)

lemma sum_terminal:
  assumes inv: "mem_inv m"
  shows "(\<Sum>v \<leftarrow> rev (m_terminalLRU m). ms_bytes (the (get_stream m v))) = m_totalBytes m - live_bytes m"
proof -
  let ?T = "filter (\<lambda>(sid, s). ms_status s \<noteq> StatusOpen) (m_streams m)"
  have d: "distinct (map fst ?T)" using mem_invD(2) [OF inv] by (simp add: distinct_map_filter)
  have set: "set (map fst ?T) = set (m_terminalLRU m)"
    unfolding mem_invD(7) [OF inv] using mem_invD(2) [OF inv] by (force simp: image_def)
  have "(\<Sum>v \<leftarrow> rev (m_terminalLRU m). ms_bytes (the (get_stream m v))) = (\<Sum>v \<leftarrow> map fst ?T. ms_bytes (the (get_stream m v)))"
    using mem_invD(6) [OF inv] d set by (simp only: sum_list_distinct_conv_sum_set distinct_rev set_rev)
  also have "\<dots> = held_bytes ?T"
    unfolding held_bytes_def map_map
    by (rule arg_cong [where f = sum_list], rule map_cong [OF refl]) (use mem_invD(2) [OF inv] in auto)
  also have "\<dots> = held_bytes (m_streams m) - live_bytes m"
  proof -
    have "held_bytes (filter (\<lambda>(sid, s). ms_status s \<noteq> StatusOpen) xs) = held_bytes xs - held_bytes (filter (\<lambda>(sid, s). ms_status s = StatusOpen) xs)" for xs
      by (induction xs) (auto simp: held_bytes_def)
    then show ?thesis by (simp add: live_bytes_def)
  qed
  finally show ?thesis using mem_invD(4) [OF inv] by simp
qed

lemma make_room_succeeds:
  assumes inv: "mem_inv m" and sz: "0 < sz" "sz \<le> c_MaxBytesPerStream (m_config m)" "live_bytes m + sz \<le> c_MaxTotalBytes (m_config m)"
    and keep: "\<forall>sid. stream = Some sid \<longrightarrow> (\<exists>s. get_stream m sid = Some s \<and> ms_status s = StatusOpen)"
  shows "\<exists>n m'. makeRoomLocked stream sz now m = (Inr n, m')"
proof -
  let ?t = "case stream of None \<Rightarrow> Some (0, 0)
      | Some sid \<Rightarrow> (let s = the (get_stream m sid) in trim_loop (ms_entries s) (ms_bytes s) (c_MaxBytesPerStream (m_config m) - sz))"
  obtain b n where t: "?t = Some (b, n)" and b: "0 \<le> b"
  proof (cases stream)
    case None
    then show thesis using that [of 0 0] by simp
  next
    case (Some sid)
    then obtain s where s: "get_stream m sid = Some s" using keep by blast
    note ok = mem_inv_stream(1) [OF inv s]
    obtain b n where r: "trim_loop (ms_entries s) (ms_bytes s) (c_MaxBytesPerStream (m_config m) - sz) = Some (b, n)"
      "b = sum_list (map se_size (take n (ms_entries s)))"
      using trim_loop_spec [OF stream_okD(2) [OF ok] stream_okD(1) [OF ok], of "c_MaxBytesPerStream (m_config m) - sz"] sz(2) by auto
    moreover have "list_all (\<lambda>e. 0 < se_size e) (take n (ms_entries s))"
      using stream_okD(2) [OF ok] by (auto simp: list_all_iff dest: in_set_takeD)
    ultimately show thesis using that [of b n] Some s sizes_nonneg [of "take n (ms_entries s)"] by simp
  qed
  let ?need = "if sz > c_MaxTotalBytes (m_config m) - (m_totalBytes m - b) then sz - (c_MaxTotalBytes (m_config m) - (m_totalBytes m - b)) else 0"
  obtain vs tot where p: "pick_victims m stream ?need (rev (m_terminalLRU m)) 0 = (vs, tot)" by fastforce
  have "\<not> tot < ?need"
  proof
    assume less: "tot < ?need"
    have "stream \<notin> Some ` set (rev (m_terminalLRU m))" using keep mem_invD(7) [OF inv] by fastforce
    then have "vs = rev (m_terminalLRU m)" using pick_all [OF p less] by simp
    moreover have "tot = 0 + (\<Sum>v \<leftarrow> vs. ms_bytes (the (get_stream m v)))"
      using pick_victims_spec(4) [OF _ p] mem_invD(6) [OF inv] by simp
    ultimately have "tot = m_totalBytes m - live_bytes m" using sum_terminal [OF inv] by simp
    moreover have "0 \<le> m_totalBytes m - live_bytes m"
      using sum_terminal [OF inv, symmetric] stream_ok_bytes [OF mem_inv_stream(1) [OF inv]] mem_invD(7) [OF inv]
      by (auto intro!: sum_list_nonneg)
    ultimately show False using less sz(3) b by (auto split: if_splits)
  qed
  then show ?thesis using t p sz(2) by (auto simp: makeRoomLocked_def Let_def split: prod.splits if_splits)
qed

definition live_size :: "memoryStream \<Rightarrow> int" where
  "live_size s = (if ms_status s = StatusOpen then ms_bytes s else 0)"

lemma live_bytes_sum:
  assumes "mem_inv m"
  shows "live_bytes m = (\<Sum>k \<in> dom (get_stream m). live_size (the (get_stream m k)))"
proof -
  have "held_bytes (filter (\<lambda>(sid, s). ms_status s = StatusOpen) xs) = (\<Sum>k \<in> dom (map_of xs). live_size (the (map_of xs k)))"
    if "distinct (map fst xs)" for xs :: "(StreamID \<times> memoryStream) list"
    using that
  proof (induction xs)
    case (Cons x xs)
    obtain k s where x: "x = (k, s)" by fastforce
    have k: "k \<notin> dom (map_of xs)" using Cons.prems x by (auto simp: dom_map_of_conv_image_fst)
    have "(\<Sum>j \<in> dom (map_of xs). live_size (the (((map_of xs)(k \<mapsto> s)) j))) = (\<Sum>j \<in> dom (map_of xs). live_size (the (map_of xs j)))"
      by (rule sum.cong) (use k in auto)
    then have "(\<Sum>j \<in> dom (map_of (x # xs)). live_size (the (map_of (x # xs) j))) = live_size s + (\<Sum>j \<in> dom (map_of xs). live_size (the (map_of xs j)))"
      using k x by (simp add: finite_dom_map_of del: fun_upd_apply) simp
    moreover have "held_bytes (filter (\<lambda>(sid, s). ms_status s = StatusOpen) (x # xs))
        = live_size s + held_bytes (filter (\<lambda>(sid, s). ms_status s = StatusOpen) xs)"
      by (simp add: x held_bytes_def live_size_def)
    moreover have "held_bytes (filter (\<lambda>(sid, s). ms_status s = StatusOpen) xs) = (\<Sum>k \<in> dom (map_of xs). live_size (the (map_of xs k)))"
      using Cons by simp
    ultimately show ?case by (simp only:)
  qed (simp add: held_bytes_def)
  then show ?thesis using mem_invD(2) [OF assms] by (simp add: live_bytes_def)
qed

lemma live_bytes_cleanup:
  assumes inv: "mem_inv m"
  shows "live_bytes (cleanupExpiredLocked now m) \<le> live_bytes m"
proof -
  let ?m = "cleanupExpiredLocked now m"
  note sub = quietD(3) [OF quiet_cleanup [OF inv, of now]]
  have "live_size (the (get_stream ?m k)) = live_size (the (get_stream m k))" if k: "k \<in> dom (get_stream ?m)" for k
  proof -
    obtain s' where s': "get_stream ?m k = Some s'" using k by blast
    then obtain s where s: "get_stream m k = Some s" "core s' = core s" using sub by blast
    have "ms_bytes s' = ms_bytes s" "ms_status s' = ms_status s" using s(2) by (metis core_sel)+
    then show ?thesis using s s' by (simp add: live_size_def)
  qed
  then have "live_bytes ?m = (\<Sum>k \<in> dom (get_stream ?m). live_size (the (get_stream m k)))"
    using live_bytes_sum [OF cleanup_spec(1) [OF inv]] by simp
  also have "\<dots> \<le> (\<Sum>k \<in> dom (get_stream m). live_size (the (get_stream m k)))"
    by (rule sum_mono2) (use sub stream_ok_bytes [OF mem_inv_stream(1) [OF inv]] in \<open>auto simp: live_size_def finite_dom_map_of dest!: sub\<close>)
  finally show ?thesis by (simp add: live_bytes_sum [OF inv])
qed

definition quietContext :: gocontext where
  "quietContext = Context (\<lambda>_. None)"

lemma quiet_guard [simp]: "ctx_guard quietContext p = p"
  by (simp add: ctx_guard_def quietContext_def checkContext_def split: option.split)

lemma append_entry_fits:
  assumes inv: "mem_inv m" and hist: "hist_ok h m" and s: "get_stream m sid = Some s" "ms_status s = StatusOpen" "\<not> ms_degraded s"
    and len: "length (h sid) < MaxUint64" and prep: "prepareEntry e (Suc (length (h sid))) now = Inr (entry, sz)"
    and sz: "sz \<le> c_MaxBytesPerStream (m_config m)" "live_bytes m + sz \<le> c_MaxTotalBytes (m_config m)"
  shows "\<exists>m'. append_entry sid e now m = (Inr (stamp e (Suc (length (h sid))) now), m')"
proof -
  let ?m = "cleanupExpiredLocked now m"
  note cl = cleanup_spec(1,2) [OF inv, of now]
  obtain s1 where s1: "get_stream ?m sid = Some s1" "core s1 = core s" using live_kept(1) [OF inv s] by metis
  have st: "ms_status s1 = StatusOpen" "\<not> ms_degraded s1" "ms_lastSeq s1 = length (h sid)"
    using core_eqD [OF s1(2)] s hist log_ok_length unfolding hist_ok_def by metis+
  have pos: "0 < sz" by (rule prepare_spec(2) [OF prep])
  obtain n m2 where "makeRoomLocked (Some sid) sz now ?m = (Inr n, m2)"
    using make_room_succeeds [OF cl(1) pos, of "Some sid" now] sz live_bytes_cleanup [OF inv, of now] cl(2) s1 st(1) by fastforce
  then obtain m3 where "commitLocked sid entry sz now ?m = (None, m3)" by (simp add: commitLocked_def Let_def)
  then show ?thesis
    using s1 st len prep prepare_spec(1) [OF prep] by (simp add: append_entry_def lookupLocked_def Let_def)
qed

lemma make_room_needs:
  assumes inv: "mem_inv m" and room: "makeRoomLocked None sz now m = (Inr n, m')"
  shows "sz \<le> c_MaxBytesPerStream (m_config m) \<and> live_bytes m + sz \<le> c_MaxTotalBytes (m_config m)"
proof -
  let ?need = "if sz > c_MaxTotalBytes (m_config m) - m_totalBytes m then sz - (c_MaxTotalBytes (m_config m) - m_totalBytes m) else 0"
  let ?w = "\<lambda>v. ms_bytes (the (get_stream m v))"
  obtain vs tot where p: "pick_victims m None ?need (rev (m_terminalLRU m)) 0 = (vs, tot)" by fastforce
  have r: "sz \<le> c_MaxBytesPerStream (m_config m)" "?need \<le> tot"
    using room p by (auto simp: makeRoomLocked_def Let_def split: if_splits)
  have d: "distinct (rev (m_terminalLRU m))" using mem_invD(6) [OF inv] by simp
  note v = pick_victims_spec [OF d p]
  have "tot = (\<Sum>v \<in> set vs. ?w v)" using v(1,4) by (simp add: sum_list_distinct_conv_sum_set)
  also have "\<dots> \<le> (\<Sum>v \<in> set (m_terminalLRU m). ?w v)"
  proof (rule sum_mono2 [OF finite_set])
    show "set vs \<subseteq> set (m_terminalLRU m)" using v(2) by simp
    show "0 \<le> ?w v" if "v \<in> set (m_terminalLRU m) - set vs" for v
      using that stream_ok_bytes [OF mem_inv_stream(1) [OF inv]] mem_invD(7) [OF inv] by auto
  qed
  also have "\<dots> = m_totalBytes m - live_bytes m"
    using sum_terminal [OF inv] mem_invD(6) [OF inv] by (simp add: sum_list_distinct_conv_sum_set flip: rev_map)
  finally show ?thesis using r by (auto split: if_splits)
qed

text \<open>The entry \<open>Open\<close> commits, before it is stamped.\<close>

abbreviation open_input :: "StreamID \<Rightarrow> Meta \<Rightarrow> Entry" where
  "open_input sid meta \<equiv> \<lparr>e_Seq = 0, e_TS = 0, e_Kind = KindOpen, e_Payload = open_payload sid meta, e_Err = None\<rparr>"

definition retention :: "Config \<Rightarrow> Meta \<Rightarrow> duration" where
  "retention config meta = (if me_RetentionTTL meta = 0 then c_TTL config else me_RetentionTTL meta)"

lemma open_iff_fits:
  assumes inv: "mem_inv m" and prep: "prepareEntry (open_input sid meta) 1 now = Inr (entry, sz)"
  shows "(\<exists>m'. mem_Open quietContext sid meta now m = (None, m')) \<longleftrightarrow>
    id_Validate sid \<and> 0 \<le> retention (m_config m) meta \<and> retention (m_config m) meta \<le> MaxInt64 div 2
    \<and> get_stream (cleanupExpiredLocked now m) sid = None \<and> map_of (m_tombstones (cleanupExpiredLocked now m)) sid = None
    \<and> sz \<le> c_MaxBytesPerStream (m_config m) \<and> live_bytes (cleanupExpiredLocked now m) + sz \<le> c_MaxTotalBytes (m_config m)"
    proof -
  let ?m = "cleanupExpiredLocked now m"
  note cl = cleanup_spec(1,2) [OF inv, of now]
  have sz: "0 < sz" by (rule prepare_spec(2) [OF prep])
  have id: "id_Validate sid \<longleftrightarrow> (\<exists>raw. decodeStreamID sid = Inr raw)" by (cases "decodeStreamID sid") (auto simp: id_Validate_def)
  have room: "(\<exists>n m2. makeRoomLocked None sz now ?m = (Inr n, m2)) \<longleftrightarrow>
      sz \<le> c_MaxBytesPerStream (m_config m) \<and> live_bytes ?m + sz \<le> c_MaxTotalBytes (m_config m)"
    using make_room_succeeds [OF cl(1) sz, of None now] make_room_needs [OF cl(1), of sz now] cl(2) by auto
  obtain r m2 where r: "makeRoomLocked None sz now ?m = (r, m2)" by fastforce
  show ?thesis
  proof (cases "decodeStreamID sid")
    case (Inl x)
    then show ?thesis using id by (simp add: mem_Open_def Let_def)
  next
    case (Inr raw)
    then show ?thesis using id room prep r by (cases r) (auto simp: mem_Open_def Let_def retention_def)
  qed
qed

text \<open>
  C5: \<open>Append\<close> to an open stream that is not degraded succeeds whenever the entry is well formed and fits
  beside the bytes of the open streams, because every closed stream can be evicted for it; it returns
  the next sequence number.
\<close>
theorem append_succeeds:
  assumes "reach config m h" and "get_stream m sid = Some s" and "ms_status s = StatusOpen" and "\<not> ms_degraded s"
    and "length (h sid) < MaxUint64" and "kind_appendable (e_Kind e)"
    and "prepareEntry e (Suc (length (h sid))) now = Inr (entry, sz)"
    and "sz \<le> c_MaxBytesPerStream (withDefaults config)" and "live_bytes m + sz \<le> c_MaxTotalBytes (withDefaults config)"
  shows "\<exists>m'. mem_Append quietContext sid e now m = (Inr (Suc (length (h sid))), m')"
  using append_entry_fits [of m h sid s e now entry sz] reach_inv [OF assms(1)] assms(2-) by (auto simp: mem_Append_def)

text \<open>
  C6: When its entry can be encoded, in \<open>sz\<close> bytes, \<open>Open\<close> succeeds exactly if the identifier and the retention time are
  valid, the journal remembers neither a stream nor a tombstone of the identifier once what has run out at \<open>now\<close> is
  dropped, and the entry fits the limit of a stream and, beside the bytes of the open streams, the total limit: all
  closed streams can be evicted for it, and nothing else.
\<close>
theorem open_succeeds:
  assumes "reach config m h" and "prepareEntry (open_input sid meta) 1 now = Inr (entry, sz)"
  shows "(\<exists>m'. mem_Open quietContext sid meta now m = (None, m')) \<longleftrightarrow>
    id_Validate sid \<and> 0 \<le> retention (withDefaults config) meta \<and> retention (withDefaults config) meta \<le> MaxInt64 div 2
    \<and> get_stream (cleanupExpiredLocked now m) sid = None \<and> map_of (m_tombstones (cleanupExpiredLocked now m)) sid = None
    \<and> sz \<le> c_MaxBytesPerStream (withDefaults config)
    \<and> live_bytes (cleanupExpiredLocked now m) + sz \<le> c_MaxTotalBytes (withDefaults config)"
  using open_iff_fits [of m sid meta now entry sz] reach_inv [OF assms(1)] assms(2) by simp

section \<open>Final entries and identifiers\<close>

lemma dead_or_kept:
  assumes inv: "mem_inv m" and s1: "get_stream (cleanupExpiredLocked now m) sid = Some s1"
  obtains s where "get_stream m sid = Some s" and "core s1 = core s"
  using cleanup_sub [OF inv s1] by blast

text \<open>
  C4: A stream holds at most one terminal entry and it is the last one; once it is there, \<open>Append\<close>,
  \<open>Close\<close> and \<open>MarkDegraded\<close> fail on the stream and leave its log alone.
\<close>
theorem terminal_is_final:
  assumes "reach config m h" and "get_stream m sid = Some s" and "e \<in> set (h sid)" and "kind_terminal (e_Kind e)"
  shows "last (h sid) = e \<and> (\<forall>x \<in> set (butlast (h sid)). \<not> kind_terminal (e_Kind x))
    \<and> isl (fst (mem_Append ctx sid e' now m)) \<and> fst (mem_Close ctx sid e' now m) \<noteq> None
    \<and> fst (mem_MarkDegraded ctx sid now m) \<noteq> None"
proof -
  have inv: "mem_inv m" and hist: "hist_ok h m" using reach_inv [OF assms(1)] by simp_all
  have log: "log_ok (h sid) s" using hist assms(2) by (simp add: hist_ok_def)
  note ok = mem_inv_stream(1) [OF inv assms(2)]
  have nt: "\<forall>x \<in> set (butlast (h sid)). \<not> kind_terminal (e_Kind x)" using log by (simp add: log_ok_def list_all_iff)
  have ne: "h sid \<noteq> []" using assms(3) by auto
  then have "set (h sid) = insert (last (h sid)) (set (butlast (h sid)))" by (metis append_butlast_last_id list.simps(15) rotate1.simps(2) set_rotate1)
  then have last: "last (h sid) = e" using assms(3,4) nt by auto
  have "map se_entry (ms_entries s) \<noteq> []" using stream_okD(4) [OF ok] by simp
  then have "se_entry (last (ms_entries s)) = last (h sid)"
    using log unfolding log_ok_def by (metis last_drop last_map map_is_Nil_conv drop_eq_Nil not_le)
  then have closed: "ms_status s \<noteq> StatusOpen" using stream_okD(10) [OF ok] last assms(4) by simp
  have not_open: "ms_status s1 \<noteq> StatusOpen" if "get_stream (cleanupExpiredLocked now m) sid = Some s1" for s1
    using dead_or_kept [OF inv that] assms(2) closed core_eqD(1) by (metis option.inject)
  have "isl (fst (mem_Append ctx sid e' now m))"
  proof (cases "mem_Append ctx sid e' now m")
    case (Pair r m')
    then show ?thesis using append_step [OF inv hist Pair] not_open by auto
  qed
  moreover have "fst (mem_Close ctx sid e' now m) \<noteq> None"
  proof (cases "mem_Close ctx sid e' now m")
    case (Pair r m')
    then show ?thesis using close_step [OF inv hist Pair] not_open by auto
  qed
  moreover have "fst (mem_MarkDegraded ctx sid now m) \<noteq> None"
  proof (cases "mem_MarkDegraded ctx sid now m")
    case (Pair r m')
    then show ?thesis using degrade_step(6) [OF inv hist Pair] not_open by auto
  qed
  ultimately show ?thesis using last nt by blast
qed

text \<open>
  C7: \<open>Open\<close> succeeds for an identifier only when the journal holds no stream of that name that is still
  live or still within twice its retention, and no tombstone of it that has not run out.
\<close>
theorem identifiers_not_reused:
  assumes "reach config m h" and "mem_Open ctx sid meta now m = (None, m')"
  shows "(\<forall>s. get_stream m sid = Some s \<longrightarrow>
        \<not> (ms_status s = StatusOpen \<and> \<not> ms_degraded s) \<and> ms_expiresAt s \<le> now \<and> ms_expiresAt s + ms_retentionTTL s \<le> now)
    \<and> (\<forall>t. map_of (m_tombstones m) sid = Some t \<longrightarrow> t \<le> now)
    \<and> reach config m' (h(sid := [openEntry sid meta now]))"
proof -
  have inv: "mem_inv m" and hist: "hist_ok h m" using reach_inv [OF assms(1)] by simp_all
  have free: "get_stream (cleanupExpiredLocked now m) sid = None" "map_of (m_tombstones (cleanupExpiredLocked now m)) sid = None"
    using open_step(5) [OF inv hist assms(2)] by simp_all
  have s: "dead now s \<and> ms_expiresAt s + ms_retentionTTL s \<le> now" if "get_stream m sid = Some s" for s
    using cleanup_spec(3,4) [OF inv, of now sid] free that by (auto split: if_splits)
  have t: "t \<le> now" if "map_of (m_tombstones m) sid = Some t" for t
  proof -
    have "get_stream m sid = None"
      using mem_invD(9) [OF inv] that by (metis (no_types) disjoint_iff map_of_eq_None_iff option.distinct(1))
    then show ?thesis using cleanup_spec(4) [OF inv, of now sid] free(2) that by (auto split: if_splits)
  qed
  have "reach config m' (h(sid := [openEntry sid meta now]))"
    using reach.do_step [OF assms(1) mem_step.open_call [OF assms(2)]] by simp
  then show ?thesis using s t by (auto simp: dead_def)
qed

section \<open>A run\<close>

lemma effect_held: "effect m sid s' V m' \<Longrightarrow> \<exists>s. get_stream m' sid = Some s"
  unfolding effect_def by (cases "get_stream m' sid") (auto dest: spec [of _ sid])

text \<open>One stream, opened, appended to and closed, at which the properties above are instantiated.\<close>

definition demoConfig :: Config where
  "demoConfig = \<lparr>c_TTL = 100, c_MaxBytesPerStream = 10000, c_MaxTotalBytes = 20000, c_ReaderMaxLagBytes = 500\<rparr>"

definition demoId :: StreamID where
  "demoId = replicate 26 (CHR ''0'')"

definition demoMeta :: Meta where
  "demoMeta = \<lparr>me_Model = ''m'', me_ModelVersion = None, me_BackendID = ''b'', me_Owner = None, me_RetentionTTL = 0,
     me_Idempotency = None, me_Endpoint = [], me_Request = []\<rparr>"

definition demoEntry :: "EntryKind \<Rightarrow> Entry" where
  "demoEntry kind = \<lparr>e_Seq = 0, e_TS = 0, e_Kind = kind, e_Payload = CHR ''{'' # members_text [(''a'', Some ''b'')] @ ''}'', e_Err = None\<rparr>"

abbreviation demoLog :: "Entry list \<Rightarrow> history" where
  "demoLog log \<equiv> (\<lambda>_. [])(demoId := log)"

lemma demo_config: "withDefaults demoConfig = demoConfig" "validateConfig demoConfig"
  by (simp_all add: demoConfig_def withDefaults_def validateConfig_def)

lemma ascii_valid: "list_all (\<lambda>c. bv c < 0x80) s \<Longrightarrow> utf8_valid s"
  by (induction s) (simp_all add: utf8_valid_ascii)

lemma demo_texts: "texts_valid (open_fields demoId demoMeta)" "texts_valid [(''a'', Some ''b'')]"
  by (auto simp: texts_valid_def open_fields_def demoMeta_def demoId_def list_all_iff intro!: ascii_valid)

lemma demo_id: "id_Validate demoId"
proof -
  have "\<exists>r. decode_chars demoId 0 (replicate 16 0) = Inr r"
    by (subst decode_chars_spec(1)) (simp_all add: demoId_def chars_ok_def list_all_iff bytes_ok_def crockfordLower_def digit_of_def)
  then show ?thesis by (auto simp: id_Validate_def decodeStreamID_def demoId_def StreamIDLength_def ulidByteLength_def)
qed

lemma demo_prepare:
  assumes "kind_appendable kind \<or> kind_terminal kind" and "seq \<in> {2, 3}"
  shows "\<exists>sz. prepareEntry (demoEntry kind) seq 0 = Inr ((demoEntry kind)\<lparr>e_Seq := seq, e_TS := 0\<rparr>, sz) \<and> sz \<le> 1000"
proof -
  have "length (append_dec seq) = 1" "length (members_text [(''a'', Some ''b'')]) = 7" "length (marshal_string kind) \<le> 20"
    using assms by (auto simp: append_dec.simps field_text_def marshal_string_def quote_body_eqs quote_byte_def html_safe_def
        kind_appendable_def kind_terminal_def kind_defs)
  then show ?thesis
    using prepare_object [OF demo_texts(2) _ _ _ refl, of 0 "demoEntry kind" seq] by (fastforce simp: demoEntry_def day_def)
qed

text \<open>A reachable state whose only stream is the one of the run.\<close>

definition demo_state :: "Memory \<Rightarrow> Entry list \<Rightarrow> bool" where
  "demo_state m log \<longleftrightarrow> reach demoConfig m (demoLog log) \<and> (\<forall>k. k \<noteq> demoId \<longrightarrow> get_stream m k = None)
     \<and> (\<exists>s. get_stream m demoId = Some s \<and> ms_status s = StatusOpen \<and> \<not> ms_degraded s)"

lemma demo_stateD:
  assumes "demo_state m log"
  shows "live_bytes m \<le> 10000" and "mem_inv m" and "hist_ok (demoLog log) m" and "m_config m = demoConfig"
    and "reach demoConfig m (demoLog log)"
proof -
  show "reach demoConfig m (demoLog log)" using assms by (simp add: demo_state_def)
  obtain s where s: "get_stream m demoId = Some s" and others: "\<forall>k. k \<noteq> demoId \<longrightarrow> get_stream m k = None"
    using assms unfolding demo_state_def by blast
  show inv: "mem_inv m" and "hist_ok (demoLog log) m" and c: "m_config m = demoConfig"
    using reach_inv assms demo_config unfolding demo_state_def by auto
  have "dom (get_stream m) = {demoId}" using s others by (force simp: dom_def)
  then show "live_bytes m \<le> 10000"
    using live_bytes_sum [OF inv] s stream_okD(3) [OF mem_inv_stream(1) [OF inv s]] c by (simp add: live_size_def demoConfig_def)
qed

lemma demo_open_prepare: "\<exists>sz. prepareEntry (open_input demoId demoMeta) 1 0 = Inr ((open_input demoId demoMeta)\<lparr>e_Seq := 1, e_TS := 0\<rparr>, sz) \<and> sz \<le> 1276"
proof -
  have "length (quote_body (replicate n (CHR ''0''))) = n" for n
    by (induction n) (simp_all add: quote_body_eqs quote_byte_def html_safe_def)
  then have "length (open_payload demoId demoMeta) < 200"
    by (simp add: open_payload_def marshal_string_def demoId_def demoMeta_def quote_body_eqs quote_byte_def html_safe_def)
  moreover have "length (append_dec 1) = 1" "length (marshal_string KindOpen) = 6"
    by (simp_all add: append_dec.simps marshal_string_def KindOpen_def quote_body_eqs quote_byte_def html_safe_def)
  ultimately show ?thesis
    using prepare_object [OF demo_texts(1) _ _ _ open_payload_text, of 0 "open_input demoId demoMeta" 1] by (auto simp: open_fields_def day_def)
qed

lemma demo_new: "\<exists>m. NewMemory demoConfig = Inr m \<and> cleanupExpiredLocked 0 m = m \<and> m_streams m = [] \<and> m_tombstones m = [] \<and> live_bytes m = 0
    \<and> (\<exists>m'. mem_Open quietContext demoId demoMeta 0 m = (None, m'))"
proof -
  let ?m = "\<lparr>m_config = demoConfig, m_streams = [], m_tombstones = [], m_terminalLRU = [], m_totalBytes = 0, m_readers = []\<rparr>"
  have n: "NewMemory demoConfig = Inr ?m" by (simp add: NewMemory_def demo_config)
  have inv: "mem_inv ?m" using reach_inv [OF reach.new [OF n]] by simp
  have c: "cleanupExpiredLocked 0 ?m = ?m" by (simp add: cleanupExpiredLocked_def)
  obtain sz where "prepareEntry (open_input demoId demoMeta) 1 0 = Inr ((open_input demoId demoMeta)\<lparr>e_Seq := 1, e_TS := 0\<rparr>, sz)" "sz \<le> 1276"
    using demo_open_prepare by blast
  then have "\<exists>m'. mem_Open quietContext demoId demoMeta 0 ?m = (None, m')"
    using open_iff_fits [OF inv, of demoId demoMeta 0, unfolded c] demo_id by (simp add: retention_def live_bytes_def held_bytes_def) (simp add: demoMeta_def demoConfig_def)
  then show ?thesis using n c by (simp add: live_bytes_def held_bytes_def)
qed

lemma demo_opened: "\<exists>m. demo_state m [openEntry demoId demoMeta 0]"
proof -
  obtain m0 m where n: "NewMemory demoConfig = Inr m0" "m_streams m0 = []" and o: "mem_Open quietContext demoId demoMeta 0 m0 = (None, m)"
    using demo_new by blast
  have r: "reach demoConfig m (demoLog [openEntry demoId demoMeta 0])"
    using reach.do_step [OF reach.new [OF n(1)] mem_step.open_call [OF o]] by simp
  have inv: "mem_inv m0" and hist: "hist_ok (\<lambda>_. []) m0" using reach_inv [OF reach.new [OF n(1)]] by simp_all
  have "get_stream (cleanupExpiredLocked 0 m0) k = None" for k using cleanup_spec(3) [OF inv, of 0 k] n(2) by simp
  then have "get_stream m k = None" if "k \<noteq> demoId" for k
    using open_step(5) [OF inv hist o refl] that by (metis (full_types) option.map_disc_iff)
  then show ?thesis using r open_step(5) [OF inv hist o refl] unfolding demo_state_def by blast
qed

lemma demo_appended:
  "\<exists>m0 m. demo_state m0 [openEntry demoId demoMeta 0] \<and> mem_Append quietContext demoId (demoEntry KindChunk) 0 m0 = (Inr 2, m)
     \<and> reach demoConfig m (demoLog [openEntry demoId demoMeta 0, stamp (demoEntry KindChunk) 2 0])"
proof -
  obtain m0 s where d: "demo_state m0 [openEntry demoId demoMeta 0]" and s: "get_stream m0 demoId = Some s" "ms_status s = StatusOpen" "\<not> ms_degraded s"
    using demo_opened unfolding demo_state_def by blast
  have k: "kind_appendable KindChunk" by (simp add: kind_appendable_def)
  note D = demo_stateD [OF d]
  obtain sz where sz: "prepareEntry (demoEntry KindChunk) 2 0 = Inr ((demoEntry KindChunk)\<lparr>e_Seq := 2, e_TS := 0\<rparr>, sz)" "sz \<le> 1000"
    using demo_prepare [of KindChunk 2] k by auto
  have "\<exists>m. append_entry demoId (demoEntry KindChunk) 0 m0 = (Inr (stamp (demoEntry KindChunk) 2 0), m)"
    using append_entry_fits [OF D(2,3) s, of "demoEntry KindChunk" 0] sz D(1,4) by (simp add: demoConfig_def numeral_2_eq_2)
  then obtain m where a: "mem_Append quietContext demoId (demoEntry KindChunk) 0 m0 = (Inr 2, m)"
    using k by (auto simp: mem_Append_def demoEntry_def)
  moreover have "reach demoConfig m (demoLog [openEntry demoId demoMeta 0, stamp (demoEntry KindChunk) 2 0])"
    using reach.do_step [OF demo_stateD(5) [OF d] mem_step.append [OF a]] by (simp add: logged_def numeral_2_eq_2)
  ultimately show ?thesis using d by blast
qed

lemma demo_closed:
  "\<exists>m s. reach demoConfig m (demoLog [openEntry demoId demoMeta 0, stamp (demoEntry KindDone) 2 0]) \<and> get_stream m demoId = Some s"
proof -
  obtain m0 s where d: "demo_state m0 [openEntry demoId demoMeta 0]" and s: "get_stream m0 demoId = Some s" "ms_status s = StatusOpen" "\<not> ms_degraded s"
    using demo_opened unfolding demo_state_def by blast
  have k: "kind_terminal KindDone" by (simp add: kind_terminal_def)
  note D = demo_stateD [OF d]
  obtain sz where sz: "prepareEntry (demoEntry KindDone) 2 0 = Inr ((demoEntry KindDone)\<lparr>e_Seq := 2, e_TS := 0\<rparr>, sz)" "sz \<le> 1000"
    using demo_prepare [of KindDone 2] k by auto
  have "\<exists>m. append_entry demoId (demoEntry KindDone) 0 m0 = (Inr (stamp (demoEntry KindDone) 2 0), m)"
    using append_entry_fits [OF D(2,3) s, of "demoEntry KindDone" 0] sz D(1,4) by (simp add: demoConfig_def numeral_2_eq_2)
  then obtain m where a: "mem_Close quietContext demoId (demoEntry KindDone) 0 m0 = (None, m)"
    using k by (auto simp: mem_Close_def demoEntry_def)
  have "reach demoConfig m (demoLog [openEntry demoId demoMeta 0, stamp (demoEntry KindDone) 2 0])"
    using reach.do_step [OF demo_stateD(5) [OF d] mem_step.close [OF a]] by (simp add: logged_def numeral_2_eq_2)
  moreover have "\<exists>s. get_stream m demoId = Some s"
    using close_step [OF D(2,3) a] effect_held by blast
  ultimately show ?thesis by blast
qed

lemma demo_read:
  "\<exists>m m' snapshot. reach demoConfig m (demoLog [openEntry demoId demoMeta 0])
     \<and> mem_Read quietContext demoId 0 0 m = (Inr (snapshot, False), m')"
proof -
  obtain m s where d: "demo_state m [openEntry demoId demoMeta 0]" and s: "get_stream m demoId = Some s" "ms_status s = StatusOpen" "\<not> ms_degraded s"
    using demo_opened unfolding demo_state_def by blast
  note D = demo_stateD [OF d]
  obtain s1 where s1: "get_stream (cleanupExpiredLocked 0 m) demoId = Some s1" "core s1 = core s" using live_kept(1) [OF D(2) s] by metis
  have "log_ok (demoLog [openEntry demoId demoMeta 0] demoId) s" using D(3) s(1) unfolding hist_ok_def by blast
  then have "ms_lastSeq s1 = 1" using log_ok_length core_eqD(4) [OF s1(2)] by fastforce
  moreover have ok: "stream_ok demoConfig s1"
    using mem_inv_stream(1) [OF cleanup_spec(1) [OF D(2)] s1(1)] cleanup_spec(2) [OF D(2)] D(4) by simp
  ultimately have "ms_earliestSeq s1 \<le> 1" using stream_ok_length(2) [OF ok] by simp
  then have v: "validateCursor s1 0 = None" by (simp add: validateCursor_def)
  have "ms_resumable s1" "\<not> ms_degraded s1"
    using stream_okD(12) [OF ok] core_eqD(1,2) [OF s1(2)] s by (simp_all add: status_defs)
  then have "\<exists>m' snapshot. mem_Read quietContext demoId 0 0 m = (Inr (snapshot, False), m')"
    using s1 v by (simp add: mem_Read_def lookupLocked_def Let_def)
  then show ?thesis using D(5) by blast
qed

theorem read_refines_log_witness:
  "\<exists>m m' snapshot. mem_Read quietContext demoId 0 0 m = (Inr (snapshot, False), m') \<and> snapshot = [openEntry demoId demoMeta 0]"
  using demo_read read_refines_log by fastforce

theorem bytes_within_limits_witness:
  "\<exists>m s. get_stream m demoId = Some s \<and> 0 < ms_bytes s \<and> ms_bytes s \<le> 10000 \<and> m_totalBytes m \<le> 20000"
proof -
  obtain m s where r: "reach demoConfig m (demoLog [openEntry demoId demoMeta 0])" "get_stream m demoId = Some s"
    using demo_opened unfolding demo_state_def by blast
  then show ?thesis using bytes_within_limits [OF r(1)] demo_config by (auto simp: demoConfig_def)
qed

theorem live_streams_survive_witness:
  "\<exists>m0 m s. mem_Append quietContext demoId (demoEntry KindChunk) 0 m0 = (Inr 2, m) \<and> get_stream m demoId = Some s"
proof -
  obtain m0 m s where r: "reach demoConfig m0 (demoLog [openEntry demoId demoMeta 0])" and s: "get_stream m0 demoId = Some s"
      "ms_status s = StatusOpen" "\<not> ms_degraded s" and a: "mem_Append quietContext demoId (demoEntry KindChunk) 0 m0 = (Inr 2, m)"
    using demo_appended unfolding demo_state_def by blast
  from live_streams_survive [OF r mem_step.append [OF a] s] a show ?thesis by blast
qed

theorem append_succeeds_witness:
  "\<exists>m0 m. reach demoConfig m0 (demoLog [openEntry demoId demoMeta 0])
     \<and> mem_Append quietContext demoId (demoEntry KindChunk) 0 m0 = (Inr 2, m)"
proof -
  obtain m s where d: "demo_state m [openEntry demoId demoMeta 0]" and s: "get_stream m demoId = Some s" "ms_status s = StatusOpen" "\<not> ms_degraded s"
    using demo_opened unfolding demo_state_def by blast
  obtain sz where sz: "prepareEntry (demoEntry KindChunk) 2 0 = Inr ((demoEntry KindChunk)\<lparr>e_Seq := 2, e_TS := 0\<rparr>, sz)" "sz \<le> 1000"
    using demo_prepare [of KindChunk 2] by (auto simp: kind_appendable_def)
  note D = demo_stateD [OF d]
  show ?thesis
    using append_succeeds [OF D(5) s, of "demoEntry KindChunk" 0] sz D(1,5) demo_config(1)
    by (auto simp: numeral_2_eq_2 demoConfig_def demoEntry_def kind_appendable_def)
qed

theorem open_succeeds_witness:
  "\<exists>m m' m''. NewMemory demoConfig = Inr m \<and> mem_Open quietContext demoId demoMeta 0 m = (None, m')
     \<and> \<not> (\<exists>m''. mem_Open quietContext demoId (demoMeta\<lparr>me_RetentionTTL := - 1\<rparr>) 0 m = (None, m''))"
proof -
  obtain m where n: "NewMemory demoConfig = Inr m" "cleanupExpiredLocked 0 m = m" "m_streams m = []" "m_tombstones m = []" "live_bytes m = 0"
    using demo_new by blast
  obtain sz where sz: "prepareEntry (open_input demoId demoMeta) 1 0 = Inr ((open_input demoId demoMeta)\<lparr>e_Seq := 1, e_TS := 0\<rparr>, sz)" "sz \<le> 1276"
    using demo_open_prepare by blast
  have p: "open_payload demoId (demoMeta\<lparr>me_RetentionTTL := - 1\<rparr>) = open_payload demoId demoMeta" by (simp add: open_payload_def)
  have "\<exists>m'. mem_Open quietContext demoId demoMeta 0 m = (None, m')"
    using open_succeeds [OF reach.new [OF n(1)] sz(1)] sz(2) n demo_id by (simp add: demo_config(1) retention_def) (simp add: demoMeta_def demoConfig_def)
  moreover have "\<not> (\<exists>m''. mem_Open quietContext demoId (demoMeta\<lparr>me_RetentionTTL := - 1\<rparr>) 0 m = (None, m''))"
    using open_succeeds [OF reach.new [OF n(1)], of demoId "demoMeta\<lparr>me_RetentionTTL := - 1\<rparr>" 0] sz(1) by (simp add: p retention_def)
  ultimately show ?thesis using n(1) by blast
qed

theorem terminal_is_final_witness:
  "\<exists>m s. get_stream m demoId = Some s \<and> isl (fst (mem_Append quietContext demoId (demoEntry KindChunk) 0 m))"
proof -
  obtain m s where r: "reach demoConfig m (demoLog [openEntry demoId demoMeta 0, stamp (demoEntry KindDone) 2 0])" "get_stream m demoId = Some s"
    using demo_closed by blast
  have "kind_terminal (e_Kind (stamp (demoEntry KindDone) 2 0))" by (simp add: demoEntry_def kind_terminal_def)
  then show ?thesis
    using terminal_is_final [OF r, of "stamp (demoEntry KindDone) 2 0" quietContext "demoEntry KindChunk" 0] r(2) by auto
qed

theorem identifiers_not_reused_witness:
  "\<exists>m m'. mem_Open quietContext demoId demoMeta 0 m = (None, m') \<and> reach demoConfig m' (demoLog [openEntry demoId demoMeta 0])"
proof -
  obtain m m' where n: "NewMemory demoConfig = Inr m" and o: "mem_Open quietContext demoId demoMeta 0 m = (None, m')"
    using demo_new by blast
  from identifiers_not_reused [OF reach.new [OF n] o] o show ?thesis by blast
qed

end
