(* ===== verification/Backend_Pool.thy ===== *)
theory Backend_Pool
  imports Migration_Policy Sse "HOL-Library.AList" "HOL-Library.List_Lexorder" "HOL-Library.Char_ord"
begin

text \<open>
  The backend registry (\<open>internal/backend/types.go\<close>, \<open>pool.go\<close> and the state changes of
  \<open>health.go\<close>). Records are heap objects that leases, drains and the map share, so they live in the
  store \<open>p_store\<close> and are named by their address; the Go map is an association list from identifiers
  to addresses. Every critical section under \<open>pool.mu\<close> is one function on the state. A channel that is
  closed and replaced is a generation number: a waiter that captured generation \<open>n\<close> is woken when the
  number moves on.
\<close>

section \<open>Text checks\<close>

text \<open>The runes a \<open>range\<close> loop visits.\<close>

fun runes_fuel :: "nat \<Rightarrow> bytes \<Rightarrow> nat list" where
  "runes_fuel 0 s = []"
| "runes_fuel (Suc n) s = (if s = [] then [] else fst (decode_rune s) # runes_fuel n (drop (rune_size s) s))"

definition runes :: "bytes \<Rightarrow> nat list" where
  "runes s = runes_fuel (length s) s"

datatype pool_error =
    PoolInvalidConfig | PoolInvalidBackend | PoolNotFound | PoolNoEligibleBackend | PoolInvalidSelection
  | PoolNotDraining | PoolHealthChecksRunning | PoolLeaseIDExhausted | PoolInvalidContext | PoolDrainClosed
  | PoolContext ctx_err

type_synonym backend_id = bytes

definition bid_Validate :: "backend_id \<Rightarrow> pool_error option" where
  "bid_Validate v =
     (if v = [] \<or> trim_space v \<noteq> v then Some PoolInvalidBackend
      else if list_ex unicode_is_control (runes v) then Some PoolInvalidBackend
      else None)"

definition validateBackendMetadata :: "bytes \<Rightarrow> bool \<Rightarrow> pool_error option" where
  "validateBackendMetadata v allowEmpty =
     (if v = [] then (if allowEmpty then None else Some PoolInvalidBackend)
      else if trim_space v \<noteq> v then Some PoolInvalidBackend
      else if list_ex unicode_is_control (runes v) then Some PoolInvalidBackend
      else None)"

section \<open>URLs\<close>

text \<open>The fields of \<open>url.URL\<close> the pool reads. \<open>u_User\<close> is the text of the credentials.\<close>

record goURL =
  u_Scheme :: bytes
  u_Opaque :: bytes
  u_User :: "bytes option"
  u_Host :: bytes
  u_Path :: bytes
  u_RawPath :: bytes
  u_ForceQuery :: bool
  u_RawQuery :: bytes
  u_Fragment :: bytes

definition alphanumeric :: "byte \<Rightarrow> bool" where
  "alphanumeric c \<longleftrightarrow> (0x61 \<le> bv c \<and> bv c \<le> 0x7A) \<or> (0x41 \<le> bv c \<and> bv c \<le> 0x5A) \<or> (0x30 \<le> bv c \<and> bv c \<le> 0x39)"

definition escape_in_path :: "byte \<Rightarrow> bool" where
  "escape_in_path c \<longleftrightarrow> \<not> (alphanumeric c \<or> c \<in> set ''-_.~$&+,/:;=@'')"

definition escape_in_host :: "byte \<Rightarrow> bool" where
  "escape_in_host c \<longleftrightarrow> \<not> (alphanumeric c \<or> c \<in> set ''-_.~!$&()*+,;=:[]<>'' \<or> c = CHR 0x27 \<or> c = CHR 0x22)"

definition percent :: "byte \<Rightarrow> bytes" where
  "percent c = [CHR ''%'', ''0123456789ABCDEF'' ! (bv c div 16), ''0123456789ABCDEF'' ! (bv c mod 16)]"

definition url_escape :: "(byte \<Rightarrow> bool) \<Rightarrow> bytes \<Rightarrow> bytes" where
  "url_escape bad s = concat (map (\<lambda>c. if bad c then percent c else [c]) s)"

definition hex_digit_value :: "byte \<Rightarrow> nat" where
  "hex_digit_value c = (if bv c \<le> 0x39 then bv c - 0x30 else if bv c \<le> 0x46 then bv c - 0x37 else bv c - 0x57)"

definition is_hex_digit :: "byte \<Rightarrow> bool" where
  "is_hex_digit c \<longleftrightarrow> (0x30 \<le> bv c \<and> bv c \<le> 0x39) \<or> (0x41 \<le> bv c \<and> bv c \<le> 0x46) \<or> (0x61 \<le> bv c \<and> bv c \<le> 0x66)"

fun url_unescape :: "bytes \<Rightarrow> bytes option" where
  "url_unescape [] = Some []"
| "url_unescape (c # cs) =
     (if c = CHR ''%'' then
        (case cs of
           a # b # rest \<Rightarrow>
             if is_hex_digit a \<and> is_hex_digit b
             then map_option ((#) (char_of (16 * hex_digit_value a + hex_digit_value b))) (url_unescape rest) else None
         | _ \<Rightarrow> None)
      else map_option ((#) c) (url_unescape cs))"

definition EscapedPath :: "goURL \<Rightarrow> bytes" where
  "EscapedPath u =
     (if u_RawPath u \<noteq> [] \<and> list_all (\<lambda>c. c \<in> set ''!$&()*+,;=:@[]%'' \<or> c = CHR 0x27 \<or> \<not> escape_in_path c) (u_RawPath u)
         \<and> url_unescape (u_RawPath u) = Some (u_Path u) then u_RawPath u
      else if u_Path u = ''*'' then ''*''
      else url_escape escape_in_path (u_Path u))"

text \<open>\<open>URL.String\<close> of a URL that has a scheme and a host and neither credentials nor a fragment, the
  only ones the pool keeps.\<close>

definition url_String :: "goURL \<Rightarrow> bytes" where
  "url_String u =
     u_Scheme u @ '':''
     @ (if u_Opaque u \<noteq> [] then u_Opaque u
        else ''//'' @ url_escape escape_in_host (u_Host u)
             @ (let path = EscapedPath u in (if path \<noteq> [] \<and> hd path \<noteq> CHR ''/'' then ''/'' else []) @ path))
     @ (if u_ForceQuery u \<or> u_RawQuery u \<noteq> [] then CHR ''?'' # u_RawQuery u else [])"

text \<open>\<open>strings.ToLower\<close> on a scheme. No rune outside ASCII has a lower case among the letters of
  \<open>http\<close> and \<open>https\<close>, the only schemes that are kept.\<close>

definition to_lower :: "bytes \<Rightarrow> bytes" where
  "to_lower = map (\<lambda>c. if 0x41 \<le> bv c \<and> bv c \<le> 0x5A then char_of (bv c + 32) else c)"

section \<open>Backends and their state\<close>

definition HealthUnknown :: string where "HealthUnknown = ''unknown''"
definition HealthHealthy :: string where "HealthHealthy = ''healthy''"
definition HealthUnhealthy :: string where "HealthUnhealthy = ''unhealthy''"

lemmas health_defs = HealthUnknown_def HealthHealthy_def HealthUnhealthy_def

definition health_Valid :: "string \<Rightarrow> bool" where
  "health_Valid health \<longleftrightarrow> health = HealthUnknown \<or> health = HealthHealthy \<or> health = HealthUnhealthy"

record Backend =
  b_ID :: backend_id
  b_URL :: "goURL option"
  b_HealthURL :: "goURL option"
  b_Model :: bytes
  b_ModelVersion :: bytes
  b_TemplateVerdict :: Verdict
  b_PodNamespace :: bytes
  b_PodName :: bytes

record BackendState =
  bst_Backend :: Backend
  bst_Health :: string
  bst_Draining :: bool
  bst_Quarantined :: bool
  bst_QuarantinedUntil :: time
  bst_InFlight :: nat
  bst_LastProbeAt :: time
  bst_LastFailureAt :: time
  bst_LastProbeError :: bytes

record Binding =
  bi_LeaseID :: uint64
  bi_Owner :: bytes

record DrainSnapshot =
  ds_Backend :: BackendState
  ds_Bindings :: "Binding list"

record Transition =
  t_Backend :: BackendState
  t_Changed :: bool
  t_Bindings :: "Binding list"

record PoolConfig =
  pc_QuarantineWindow :: duration
  pc_ProbeInterval :: duration
  pc_ProbeTimeout :: duration
  pc_ProbeConcurrency :: int
  pc_Clock :: bool
  pc_Choose :: "(BackendState list \<Rightarrow> int) option"
  pc_Probe :: bool
  pc_TickerFactory :: bool
  pc_HTTPClient :: bool

record pool_record =
  r_backend :: Backend
  r_revision :: uint64
  r_health :: string
  r_draining :: bool
  r_retirementDrain :: bool
  r_retired :: bool
  r_quarantinedUntil :: time
  r_lastProbeAt :: time
  r_lastFailureAt :: time
  r_lastProbeError :: bytes
  r_leases :: "(uint64 \<times> bytes) list"
  r_waiters :: int
  r_changed :: nat

record Pool =
  p_config :: PoolConfig
  p_records :: "(backend_id \<times> nat) list"
  p_store :: "pool_record list"
  p_changed :: nat
  p_nextSelection :: uint64
  p_nextLeaseID :: uint64

record Lease =
  le_record :: nat
  le_id :: uint64
  le_owner :: bytes
  le_backend :: BackendState
  le_released :: bool

record RetainedDrain =
  rd_record :: nat
  rd_snapshot :: DrainSnapshot
  rd_closed :: bool

definition second :: duration where "second = 10 ^ 9"

definition pool_DefaultConfig :: PoolConfig where
  "pool_DefaultConfig =
     \<lparr>pc_QuarantineWindow = 5 * second, pc_ProbeInterval = 10 * second, pc_ProbeTimeout = 2 * second,
      pc_ProbeConcurrency = 16, pc_Clock = True, pc_Choose = None, pc_Probe = False, pc_TickerFactory = True,
      pc_HTTPClient = True\<rparr>"

definition configWithDefaults :: "PoolConfig \<Rightarrow> PoolConfig" where
  "configWithDefaults c =
     (let d = pool_DefaultConfig in
      c\<lparr>pc_QuarantineWindow := (if pc_QuarantineWindow c = 0 then pc_QuarantineWindow d else pc_QuarantineWindow c),
        pc_ProbeInterval := (if pc_ProbeInterval c = 0 then pc_ProbeInterval d else pc_ProbeInterval c),
        pc_ProbeTimeout := (if pc_ProbeTimeout c = 0 then pc_ProbeTimeout d else pc_ProbeTimeout c),
        pc_ProbeConcurrency := (if pc_ProbeConcurrency c = 0 then pc_ProbeConcurrency d else pc_ProbeConcurrency c),
        pc_Clock := (pc_Clock c \<or> pc_Clock d), pc_TickerFactory := (pc_TickerFactory c \<or> pc_TickerFactory d),
        pc_HTTPClient := (pc_HTTPClient c \<or> pc_HTTPClient d)\<rparr>)"

definition pool_validateConfig :: "PoolConfig \<Rightarrow> pool_error option" where
  "pool_validateConfig c =
     (if pc_QuarantineWindow c \<le> 0 \<or> pc_ProbeInterval c \<le> 0 \<or> pc_ProbeTimeout c \<le> 0 \<or> pc_ProbeConcurrency c \<le> 0
         \<or> \<not> pc_Clock c \<or> \<not> pc_TickerFactory c \<or> (\<not> pc_Probe c \<and> \<not> pc_HTTPClient c)
      then Some PoolInvalidConfig else None)"

definition web_url :: "goURL \<Rightarrow> bool" where
  "web_url u \<longleftrightarrow> (u_Scheme u = ''http'' \<or> u_Scheme u = ''https'') \<and> u_Host u \<noteq> []"

definition normalizeBackend :: "Backend \<Rightarrow> pool_error + Backend" where
  "normalizeBackend b0 =
     (case bid_Validate (b_ID b0) of
        Some x \<Rightarrow> Inl x
      | None \<Rightarrow>
          (case b_URL b0 of
             None \<Rightarrow> Inl PoolInvalidBackend
           | Some url \<Rightarrow>
               (let clonedURL = url\<lparr>u_Scheme := to_lower (u_Scheme url)\<rparr> in
                if \<not> web_url clonedURL then Inl PoolInvalidBackend
                else if u_User clonedURL \<noteq> None \<or> u_Fragment clonedURL \<noteq> [] then Inl PoolInvalidBackend
                else
                  (case (case b_HealthURL b0 of
                           None \<Rightarrow> Inr None
                         | Some h \<Rightarrow>
                             (let healthURL = h\<lparr>u_Scheme := to_lower (u_Scheme h)\<rparr> in
                              if \<not> web_url healthURL \<or> u_User healthURL \<noteq> None \<or> u_RawQuery healthURL \<noteq> [] \<or> u_Fragment healthURL \<noteq> []
                              then Inl PoolInvalidBackend else Inr (Some healthURL))) of
                     Inl x \<Rightarrow> Inl x
                   | Inr healthURL \<Rightarrow>
                       (let b = b0\<lparr>b_HealthURL := healthURL,
                                  b_TemplateVerdict := (if b_TemplateVerdict b0 = [] then VerdictUnknown else b_TemplateVerdict b0)\<rparr> in
                        if \<not> verdict_Valid (b_TemplateVerdict b) then Inl PoolInvalidBackend
                        else case validateBackendMetadata (b_Model b) True of
                          Some x \<Rightarrow> Inl x
                        | None \<Rightarrow>
                            if (b_PodNamespace b = []) \<noteq> (b_PodName b = []) then Inl PoolInvalidBackend
                            else (case validateBackendMetadata (b_PodNamespace b) True of
                                    Some x \<Rightarrow> Inl x
                                  | None \<Rightarrow>
                                      (case validateBackendMetadata (b_PodName b) True of
                                         Some x \<Rightarrow> Inl x
                                       | None \<Rightarrow> Inr (b\<lparr>b_URL := Some clonedURL\<rparr>))))))))"

definition backendServesModel :: "Backend \<Rightarrow> bytes \<Rightarrow> bool" where
  "backendServesModel candidate model \<longleftrightarrow> b_Model candidate = [] \<or> b_Model candidate = model"

definition backendAddressChanged :: "Backend \<Rightarrow> Backend \<Rightarrow> bool" where
  "backendAddressChanged left right =
     (if url_String (the (b_URL left)) \<noteq> url_String (the (b_URL right)) then True
      else if (b_HealthURL left = None) \<noteq> (b_HealthURL right = None) then True
      else b_HealthURL left \<noteq> None \<and> url_String (the (b_HealthURL left)) \<noteq> url_String (the (b_HealthURL right)))"

section \<open>Critical sections\<close>

definition upd_rec :: "nat \<Rightarrow> (pool_record \<Rightarrow> pool_record) \<Rightarrow> Pool \<Rightarrow> Pool" where
  "upd_rec a f p = p\<lparr>p_store := (p_store p)[a := f (p_store p ! a)]\<rparr>"

definition notifyLocked :: "nat \<Rightarrow> Pool \<Rightarrow> Pool" where
  "notifyLocked a = upd_rec a (\<lambda>r. r\<lparr>r_changed := Suc (r_changed r)\<rparr>)"

definition notifySelectionLocked :: "nat \<Rightarrow> Pool \<Rightarrow> Pool" where
  "notifySelectionLocked a p = (notifyLocked a p)\<lparr>p_changed := Suc (p_changed p)\<rparr>"

definition stateLocked :: "pool_record \<Rightarrow> time \<Rightarrow> BackendState" where
  "stateLocked r now =
     \<lparr>bst_Backend = r_backend r, bst_Health = r_health r, bst_Draining = r_draining r,
      bst_Quarantined = (now < r_quarantinedUntil r), bst_QuarantinedUntil = r_quarantinedUntil r,
      bst_InFlight = length (r_leases r), bst_LastProbeAt = r_lastProbeAt r, bst_LastFailureAt = r_lastFailureAt r,
      bst_LastProbeError = r_lastProbeError r\<rparr>"

definition cleanupRetiredLocked :: "nat \<Rightarrow> Pool \<Rightarrow> Pool" where
  "cleanupRetiredLocked a p =
     (let r = p_store p ! a in
      if r_retired r \<and> r_leases r = [] \<and> r_waiters r = 0 \<and> map_of (p_records p) (b_ID (r_backend r)) = Some a
      then p\<lparr>p_records := AList.delete (b_ID (r_backend r)) (p_records p)\<rparr> else p)"

definition retireLocked :: "pool_record \<Rightarrow> pool_record" where
  "retireLocked r0 =
     (let r = r0\<lparr>r_retired := True\<rparr> in
      if \<not> r_draining r then r\<lparr>r_draining := True, r_retirementDrain := True\<rparr> else r)"

definition reviveLocked :: "pool_record \<Rightarrow> pool_record" where
  "reviveLocked r = (if r_retirementDrain r then r\<lparr>r_draining := False, r_retirementDrain := False\<rparr> else r)"

definition newRecord :: "Backend \<Rightarrow> pool_record" where
  "newRecord b =
     \<lparr>r_backend = b, r_revision = 1, r_health = HealthUnknown, r_draining = False, r_retirementDrain = False,
      r_retired = False, r_quarantinedUntil = 0, r_lastProbeAt = 0, r_lastFailureAt = 0, r_lastProbeError = [],
      r_leases = [], r_waiters = 0, r_changed = 0\<rparr>"

definition next_revision :: "uint64 \<Rightarrow> uint64" where
  "next_revision n = Suc n mod 2 ^ 64"

definition updateRecord :: "pool_record \<Rightarrow> Backend \<Rightarrow> pool_record" where
  "updateRecord r b =
     (if backendAddressChanged (r_backend r) b
      then r\<lparr>r_backend := b, r_revision := next_revision (r_revision r), r_health := HealthUnknown, r_lastProbeAt := 0,
             r_lastProbeError := []\<rparr>
      else r\<lparr>r_backend := b\<rparr>)"

definition bindingsLocked :: "pool_record \<Rightarrow> Binding list" where
  "bindingsLocked r = map (\<lambda>(n, owner). \<lparr>bi_LeaseID = n, bi_Owner = owner\<rparr>) (sort_key fst (r_leases r))"

definition eligibleLocked :: "pool_record \<Rightarrow> backend_id list \<Rightarrow> time \<Rightarrow> bool" where
  "eligibleLocked r excluded now =
     (if r_retired r \<or> r_health r \<noteq> HealthHealthy \<or> r_draining r \<or> now < r_quarantinedUntil r then False
      else b_ID (r_backend r) \<notin> set excluded)"

definition map_records :: "Pool \<Rightarrow> pool_record list" where
  "map_records p = map (\<lambda>(_, a). p_store p ! a) (p_records p)"

definition sort_states :: "BackendState list \<Rightarrow> BackendState list" where
  "sort_states = sort_key (\<lambda>s. b_ID (bst_Backend s))"

definition candidatesLocked :: "backend_id list \<Rightarrow> time \<Rightarrow> Pool \<Rightarrow> BackendState list" where
  "candidatesLocked excluded now p =
     sort_states (map (\<lambda>r. stateLocked r now) (filter (\<lambda>r. eligibleLocked r excluded now) (map_records p)))"

definition filterModelCandidates :: "BackendState list \<Rightarrow> bytes \<Rightarrow> BackendState list" where
  "filterModelCandidates candidates model = filter (\<lambda>c. backendServesModel (bst_Backend c) model) candidates"

definition acquireLocked :: "nat \<Rightarrow> bytes \<Rightarrow> time \<Rightarrow> Pool \<Rightarrow> (pool_error + Lease) \<times> Pool" where
  "acquireLocked a owner now p0 =
     (if p_nextLeaseID p0 = MaxUint64 then (Inl PoolLeaseIDExhausted, p0)
      else
        (let n = p_nextLeaseID p0 + 1;
             p = notifyLocked a (upd_rec a (\<lambda>r. r\<lparr>r_leases := AList.update n owner (r_leases r)\<rparr>) (p0\<lparr>p_nextLeaseID := n\<rparr>)) in
         (Inr \<lparr>le_record = a, le_id = n, le_owner = owner, le_backend = stateLocked (p_store p ! a) now, le_released = False\<rparr>, p)))"

definition beginRetainedDrainLocked :: "nat \<Rightarrow> time \<Rightarrow> Pool \<Rightarrow> RetainedDrain \<times> Pool" where
  "beginRetainedDrainLocked a now p0 =
     (let p = (if \<not> r_draining (p_store p0 ! a) then notifySelectionLocked a (upd_rec a (\<lambda>r. r\<lparr>r_draining := True\<rparr>) p0) else p0);
          p = upd_rec a (\<lambda>r. r\<lparr>r_retirementDrain := False, r_waiters := r_waiters r + 1\<rparr>) p;
          r = p_store p ! a in
      (\<lparr>rd_record = a, rd_snapshot = \<lparr>ds_Backend = stateLocked r now, ds_Bindings = bindingsLocked r\<rparr>, rd_closed = False\<rparr>, p))"

section \<open>Controller operations\<close>

text \<open>The address of the record the map holds for an identifier, and of one that is not retired.\<close>

abbreviation find_rec :: "Pool \<Rightarrow> backend_id \<Rightarrow> nat option" where
  "find_rec p i \<equiv> map_of (p_records p) i"

definition find_current :: "Pool \<Rightarrow> backend_id \<Rightarrow> nat option" where
  "find_current p i = (case find_rec p i of None \<Rightarrow> None | Some a \<Rightarrow> if r_retired (p_store p ! a) then None else Some a)"

definition add_record :: "pool_record \<Rightarrow> Pool \<Rightarrow> Pool" where
  "add_record r p =
     (let a = length (p_store p) in
      notifySelectionLocked a (p\<lparr>p_store := p_store p @ [r], p_records := AList.update (b_ID (r_backend r)) a (p_records p)\<rparr>))"

definition pool_Upsert :: "Backend \<Rightarrow> time \<Rightarrow> Pool \<Rightarrow> (pool_error + BackendState) \<times> Pool" where
  "pool_Upsert backend now p0 =
     (case normalizeBackend backend of
        Inl x \<Rightarrow> (Inl x, p0)
      | Inr b \<Rightarrow>
          (case find_rec p0 (b_ID b) of
             None \<Rightarrow>
               (let p = add_record (newRecord b) p0 in (Inr (stateLocked (p_store p ! length (p_store p0)) now), p))
           | Some a \<Rightarrow>
               (let wasRetired = r_retired (p_store p0 ! a);
                    p = upd_rec a (\<lambda>r. let r = updateRecord r b;
                                          r = (if wasRetired then reviveLocked (r\<lparr>r_revision := next_revision (r_revision r)\<rparr>) else r)
                                      in r\<lparr>r_retired := False\<rparr>) p0;
                    p = notifySelectionLocked a p
                in (Inr (stateLocked (p_store p ! a) now), p))))"

fun normalize_all :: "Backend list \<Rightarrow> backend_id list \<Rightarrow> pool_error + Backend list" where
  "normalize_all [] seen = Inr []"
| "normalize_all (b # bs) seen =
     (case normalizeBackend b of
        Inl x \<Rightarrow> Inl x
      | Inr v \<Rightarrow>
          if b_ID v \<in> set seen then Inl PoolInvalidBackend
          else (case normalize_all bs (b_ID v # seen) of Inl x \<Rightarrow> Inl x | Inr vs \<Rightarrow> Inr (v # vs)))"

definition replace_one :: "bool \<Rightarrow> time \<Rightarrow> Backend \<Rightarrow> Pool \<Rightarrow> Pool" where
  "replace_one admitNew now b p =
     (case find_rec p (b_ID b) of
        None \<Rightarrow> add_record (if admitNew then (newRecord b)\<lparr>r_health := HealthHealthy\<rparr> else newRecord b) p
      | Some a \<Rightarrow>
          (let r0 = p_store p ! a; wasRetired = r_retired r0; urlChanged = backendAddressChanged (r_backend r0) b in
           notifySelectionLocked a
             (upd_rec a (\<lambda>r. let r = updateRecord r b;
                                r = (if wasRetired then r\<lparr>r_revision := next_revision (r_revision r)\<rparr> else r);
                                r = (if admitNew \<and> (wasRetired \<or> urlChanged)
                                     then r\<lparr>r_health := HealthHealthy, r_lastProbeAt := now, r_lastProbeError := []\<rparr> else r);
                                r = (if wasRetired then reviveLocked r else r)
                            in r\<lparr>r_retired := False\<rparr>) p)))"

definition retire_record :: "nat \<Rightarrow> Pool \<Rightarrow> Pool" where
  "retire_record a p = cleanupRetiredLocked a (notifySelectionLocked a (upd_rec a retireLocked p))"

definition retire_missing :: "backend_id list \<Rightarrow> Pool \<Rightarrow> backend_id \<times> nat \<Rightarrow> Pool" where
  "retire_missing seen p = (\<lambda>(i, a). if i \<in> set seen \<or> r_retired (p_store p ! a) then p else retire_record a p)"

text \<open>\<open>replace\<close>; the clock is read once per backend that needs it.\<close>

definition pool_replace :: "Backend list \<Rightarrow> bool \<Rightarrow> (nat \<Rightarrow> time) \<Rightarrow> Pool \<Rightarrow> pool_error option \<times> Pool" where
  "pool_replace backends admitNew clock p0 =
     (case normalize_all backends [] of
        Inl x \<Rightarrow> (Some x, p0)
      | Inr normalized \<Rightarrow>
          (let p = fold (\<lambda>(k, b). replace_one admitNew (clock k) b) (enumerate 0 normalized) p0
           in (None, foldl (retire_missing (map b_ID normalized)) p (p_records p))))"

definition pool_Replace :: "Backend list \<Rightarrow> (nat \<Rightarrow> time) \<Rightarrow> Pool \<Rightarrow> pool_error option \<times> Pool" where
  "pool_Replace backends = pool_replace backends False"

definition pool_ReplaceReady :: "Backend list \<Rightarrow> (nat \<Rightarrow> time) \<Rightarrow> Pool \<Rightarrow> pool_error option \<times> Pool" where
  "pool_ReplaceReady backends = pool_replace backends True"

definition NewPool :: "PoolConfig \<Rightarrow> Backend list \<Rightarrow> (nat \<Rightarrow> time) \<Rightarrow> pool_error + Pool" where
  "NewPool config0 initial clock =
     (let config = configWithDefaults config0 in
      case pool_validateConfig config of
        Some x \<Rightarrow> Inl x
      | None \<Rightarrow>
          (case pool_Replace initial clock
                  \<lparr>p_config = config, p_records = [], p_store = [], p_changed = 0, p_nextSelection = 0, p_nextLeaseID = 0\<rparr> of
             (Some x, _) \<Rightarrow> Inl x
           | (None, p) \<Rightarrow> Inr p))"

definition pool_Remove :: "backend_id \<Rightarrow> Pool \<Rightarrow> (pool_error + bool) \<times> Pool" where
  "pool_Remove i p =
     (case bid_Validate i of
        Some x \<Rightarrow> (Inl x, p)
      | None \<Rightarrow> (case find_current p i of None \<Rightarrow> (Inr False, p) | Some a \<Rightarrow> (Inr True, retire_record a p)))"

section \<open>Queries\<close>

definition pool_Get :: "backend_id \<Rightarrow> time \<Rightarrow> Pool \<Rightarrow> pool_error + BackendState" where
  "pool_Get i now p =
     (case bid_Validate i of
        Some x \<Rightarrow> Inl x
      | None \<Rightarrow> (case find_current p i of None \<Rightarrow> Inl PoolNotFound | Some a \<Rightarrow> Inr (stateLocked (p_store p ! a) now)))"

definition pool_List :: "time \<Rightarrow> Pool \<Rightarrow> BackendState list" where
  "pool_List now p = sort_states (map (\<lambda>r. stateLocked r now) (filter (\<lambda>r. \<not> r_retired r) (map_records p)))"

definition pool_ListRetained :: "time \<Rightarrow> Pool \<Rightarrow> BackendState list" where
  "pool_ListRetained now p = sort_states (map (\<lambda>r. stateLocked r now) (map_records p))"

fun first_error :: "('a \<Rightarrow> 'e option) \<Rightarrow> 'a list \<Rightarrow> 'e option" where
  "first_error f [] = None"
| "first_error f (x # xs) = (case f x of Some e \<Rightarrow> Some e | None \<Rightarrow> first_error f xs)"

definition earliest_step :: "bytes \<Rightarrow> backend_id list \<Rightarrow> time \<Rightarrow> pool_record \<Rightarrow> time \<Rightarrow> time" where
  "earliest_step model excluded now r earliest =
     (if r_retired r \<or> r_health r \<noteq> HealthHealthy \<or> r_draining r \<or> \<not> backendServesModel (r_backend r) model then earliest
      else if b_ID (r_backend r) \<in> set excluded \<or> \<not> now < r_quarantinedUntil r then earliest
      else if earliest = 0 \<or> r_quarantinedUntil r < earliest then r_quarantinedUntil r
      else earliest)"

definition NextQuarantineExpiry :: "bytes \<Rightarrow> backend_id list \<Rightarrow> time \<Rightarrow> Pool \<Rightarrow> pool_error + duration option" where
  "NextQuarantineExpiry model excluded now p =
     (case validateBackendMetadata model True of
        Some x \<Rightarrow> Inl x
      | None \<Rightarrow>
          (case first_error bid_Validate excluded of
             Some x \<Rightarrow> Inl x
           | None \<Rightarrow>
               (let earliest = fold (earliest_step model excluded now) (map_records p) 0 in
                if earliest = 0 then Inr None else Inr (Some (min MaxInt64 (earliest - now))))))"

section \<open>Leases\<close>

text \<open>
  One attempt of \<open>acquire\<close>. The lock is released while the chooser runs; \<open>interfere\<close> is what the other
  goroutines do to the pool meanwhile, \<open>now\<close> and \<open>now'\<close> are the two clock readings. \<open>None\<close> asks for
  another attempt.
\<close>

definition choose_index :: "BackendState list \<Rightarrow> Pool \<Rightarrow> int \<times> Pool" where
  "choose_index candidates p =
     (case pc_Choose (p_config p) of
        Some f \<Rightarrow> (f candidates, p)
      | None \<Rightarrow> (int (p_nextSelection p mod length candidates), p\<lparr>p_nextSelection := Suc (p_nextSelection p) mod 2 ^ 64\<rparr>))"

definition acquire_commit ::
    "backend_id \<Rightarrow> bytes \<Rightarrow> bytes option \<Rightarrow> backend_id list \<Rightarrow> time \<Rightarrow> Pool \<Rightarrow> (pool_error + Lease) option \<times> Pool" where
  "acquire_commit chosen owner model excluded now p =
     (case find_rec p chosen of
        None \<Rightarrow> (None, p)
      | Some a \<Rightarrow>
          if \<not> eligibleLocked (p_store p ! a) excluded now
             \<or> (case model of None \<Rightarrow> False | Some m \<Rightarrow> \<not> backendServesModel (r_backend (p_store p ! a)) m)
          then (None, p)
          else apfst Some (acquireLocked a owner now p))"

definition acquire_attempt ::
    "bytes \<Rightarrow> bytes option \<Rightarrow> backend_id list \<Rightarrow> time \<Rightarrow> time \<Rightarrow> (Pool \<Rightarrow> Pool) \<Rightarrow> Pool \<Rightarrow> (pool_error + Lease) option \<times> Pool" where
  "acquire_attempt owner model excluded now now' interfere p0 =
     (let candidates = candidatesLocked excluded now p0;
          candidates = (case model of None \<Rightarrow> candidates | Some m \<Rightarrow> filterModelCandidates candidates m) in
      if candidates = [] then (Some (Inl PoolNoEligibleBackend), p0)
      else
        (let (choice, p1) = choose_index candidates p0 in
         if choice < 0 \<or> choice \<ge> int (length candidates) then (Some (Inl PoolInvalidSelection), p1)
         else acquire_commit (b_ID (bst_Backend (candidates ! nat choice))) owner model excluded now' (interfere p1)))"

fun acquire_loop ::
    "nat \<Rightarrow> nat \<Rightarrow> bytes \<Rightarrow> bytes option \<Rightarrow> backend_id list \<Rightarrow> (nat \<Rightarrow> time) \<Rightarrow> (nat \<Rightarrow> Pool \<Rightarrow> Pool) \<Rightarrow> Pool
     \<Rightarrow> (pool_error + Lease) \<times> Pool" where
  "acquire_loop 0 k owner model excluded clock interfere p = (Inl PoolNoEligibleBackend, p)"
| "acquire_loop (Suc n) k owner model excluded clock interfere p =
     (case acquire_attempt owner model excluded (clock (2 * k)) (clock (2 * k + 1)) (interfere (2 * k)) p of
        (Some r, p') \<Rightarrow> (r, p')
      | (None, p') \<Rightarrow> acquire_loop n (Suc k) owner model excluded clock interfere (interfere (2 * k + 1) p'))"

definition pool_acquire ::
    "bytes \<Rightarrow> bytes option \<Rightarrow> backend_id list \<Rightarrow> (nat \<Rightarrow> time) \<Rightarrow> (nat \<Rightarrow> Pool \<Rightarrow> Pool) \<Rightarrow> Pool \<Rightarrow> (pool_error + Lease) \<times> Pool" where
  "pool_acquire owner model excluded clock interfere p =
     (case first_error bid_Validate excluded of
        Some x \<Rightarrow> (Inl x, p)
      | None \<Rightarrow> acquire_loop 64 0 owner model excluded clock interfere p)"

definition pool_Acquire ::
    "bytes \<Rightarrow> backend_id list \<Rightarrow> (nat \<Rightarrow> time) \<Rightarrow> (nat \<Rightarrow> Pool \<Rightarrow> Pool) \<Rightarrow> Pool \<Rightarrow> (pool_error + Lease) \<times> Pool" where
  "pool_Acquire owner excluded = pool_acquire owner None excluded"

definition pool_AcquireModel ::
    "bytes \<Rightarrow> bytes \<Rightarrow> backend_id list \<Rightarrow> (nat \<Rightarrow> time) \<Rightarrow> (nat \<Rightarrow> Pool \<Rightarrow> Pool) \<Rightarrow> Pool \<Rightarrow> (pool_error + Lease) \<times> Pool" where
  "pool_AcquireModel owner model excluded clock interfere p =
     (case validateBackendMetadata model True of
        Some x \<Rightarrow> (Inl x, p)
      | None \<Rightarrow> pool_acquire owner (Some model) excluded clock interfere p)"

definition pool_AcquireID :: "backend_id \<Rightarrow> bytes \<Rightarrow> time \<Rightarrow> Pool \<Rightarrow> (pool_error + Lease) \<times> Pool" where
  "pool_AcquireID i owner now p =
     (case bid_Validate i of
        Some x \<Rightarrow> (Inl x, p)
      | None \<Rightarrow>
          (case find_current p i of
             None \<Rightarrow> (Inl PoolNotFound, p)
           | Some a \<Rightarrow>
               if \<not> eligibleLocked (p_store p ! a) [] now then (Inl PoolNoEligibleBackend, p)
               else acquireLocked a owner now p))"

definition lease_Release :: "Lease \<Rightarrow> Pool \<Rightarrow> Lease \<times> Pool" where
  "lease_Release l p =
     (if le_released l then (l, p)
      else
        (let a = le_record l in
         (l\<lparr>le_released := True\<rparr>,
          if le_id l \<in> fst ` set (r_leases (p_store p ! a))
          then cleanupRetiredLocked a (notifyLocked a (upd_rec a (\<lambda>r. r\<lparr>r_leases := AList.delete (le_id l) (r_leases r)\<rparr>) p))
          else p)))"

section \<open>Health, quarantine and drain\<close>

definition pool_SetHealth :: "backend_id \<Rightarrow> string \<Rightarrow> time \<Rightarrow> Pool \<Rightarrow> (pool_error + Transition) \<times> Pool" where
  "pool_SetHealth i health now p0 =
     (case bid_Validate i of
        Some x \<Rightarrow> (Inl x, p0)
      | None \<Rightarrow>
          if \<not> health_Valid health then (Inl PoolInvalidBackend, p0)
          else
            (case find_current p0 i of
               None \<Rightarrow> (Inl PoolNotFound, p0)
             | Some a \<Rightarrow>
                 (let changed = (r_health (p_store p0 ! a) \<noteq> health);
                      p = (if changed
                           then notifySelectionLocked a
                                  (upd_rec a (\<lambda>r. r\<lparr>r_health := health, r_lastProbeAt := now,
                                     r_lastProbeError := (if health \<noteq> HealthUnhealthy then [] else r_lastProbeError r)\<rparr>) p0)
                           else p0);
                      r = p_store p ! a in
                  (Inr \<lparr>t_Backend = stateLocked r now, t_Changed = changed,
                        t_Bindings = (if health \<noteq> HealthHealthy \<and> r_leases r \<noteq> [] then bindingsLocked r else [])\<rparr>, p))))"

definition MarkPassiveFailure :: "backend_id \<Rightarrow> time \<Rightarrow> Pool \<Rightarrow> (pool_error + Transition) \<times> Pool" where
  "MarkPassiveFailure i now p0 =
     (case bid_Validate i of
        Some x \<Rightarrow> (Inl x, p0)
      | None \<Rightarrow>
          (case find_current p0 i of
             None \<Rightarrow> (Inl PoolNotFound, p0)
           | Some a \<Rightarrow>
               (let until = now + pc_QuarantineWindow (p_config p0);
                    wasQuarantined = (now < r_quarantinedUntil (p_store p0 ! a));
                    p = notifySelectionLocked a
                          (upd_rec a (\<lambda>r. r\<lparr>r_quarantinedUntil := (if r_quarantinedUntil r < until then until else r_quarantinedUntil r),
                             r_lastFailureAt := now\<rparr>) p0);
                    r = p_store p ! a in
                (Inr \<lparr>t_Backend = stateLocked r now, t_Changed = True,
                      t_Bindings = (if wasQuarantined then [] else bindingsLocked r)\<rparr>, p))))"

definition MarkDraining :: "backend_id \<Rightarrow> time \<Rightarrow> Pool \<Rightarrow> (pool_error + DrainSnapshot) \<times> Pool" where
  "MarkDraining i now p0 =
     (case bid_Validate i of
        Some x \<Rightarrow> (Inl x, p0)
      | None \<Rightarrow>
          (case find_current p0 i of
             None \<Rightarrow> (Inl PoolNotFound, p0)
           | Some a \<Rightarrow>
               (let p = (if \<not> r_draining (p_store p0 ! a)
                         then notifySelectionLocked a (upd_rec a (\<lambda>r. r\<lparr>r_draining := True\<rparr>) p0) else p0);
                    p = upd_rec a (\<lambda>r. r\<lparr>r_retirementDrain := False\<rparr>) p;
                    r = p_store p ! a in
                (Inr \<lparr>ds_Backend = stateLocked r now, ds_Bindings = bindingsLocked r\<rparr>, p))))"

definition Undrain :: "backend_id \<Rightarrow> time \<Rightarrow> Pool \<Rightarrow> (pool_error + BackendState) \<times> Pool" where
  "Undrain i now p0 =
     (case bid_Validate i of
        Some x \<Rightarrow> (Inl x, p0)
      | None \<Rightarrow>
          (case find_current p0 i of
             None \<Rightarrow> (Inl PoolNotFound, p0)
           | Some a \<Rightarrow>
               (let p = (if r_draining (p_store p0 ! a)
                         then notifySelectionLocked a (upd_rec a (\<lambda>r. r\<lparr>r_draining := False, r_retirementDrain := False\<rparr>) p0) else p0)
                in (Inr (stateLocked (p_store p ! a) now), p))))"

definition BeginRetainedDrain :: "backend_id \<Rightarrow> time \<Rightarrow> Pool \<Rightarrow> (pool_error + RetainedDrain) \<times> Pool" where
  "BeginRetainedDrain i now p =
     (case bid_Validate i of
        Some x \<Rightarrow> (Inl x, p)
      | None \<Rightarrow>
          (case find_rec p i of
             None \<Rightarrow> (Inl PoolNotFound, p)
           | Some a \<Rightarrow> apfst Inr (beginRetainedDrainLocked a now p)))"

fun begin_drains :: "nat list \<Rightarrow> time \<Rightarrow> Pool \<Rightarrow> RetainedDrain list \<times> Pool" where
  "begin_drains [] now p = ([], p)"
| "begin_drains (a # as) now p =
     (let (d, p') = beginRetainedDrainLocked a now p in apfst ((#) d) (begin_drains as now p'))"

definition BeginRetainedPodDrain :: "bytes \<Rightarrow> bytes \<Rightarrow> time \<Rightarrow> Pool \<Rightarrow> (pool_error + RetainedDrain list) \<times> Pool" where
  "BeginRetainedPodDrain namespace name now p =
     (case validateBackendMetadata namespace False of
        Some x \<Rightarrow> (Inl x, p)
      | None \<Rightarrow>
          (case validateBackendMetadata name False of
             Some x \<Rightarrow> (Inl x, p)
           | None \<Rightarrow>
               (let as = filter (\<lambda>a. b_PodNamespace (r_backend (p_store p ! a)) = namespace \<and> b_PodName (r_backend (p_store p ! a)) = name)
                           (map snd (p_records p));
                    (ds, p') = begin_drains as now p
                in (Inr (sort_key (\<lambda>d. b_ID (bst_Backend (ds_Backend (rd_snapshot d)))) ds), p'))))"

definition drain_Close :: "RetainedDrain \<Rightarrow> Pool \<Rightarrow> RetainedDrain \<times> Pool" where
  "drain_Close d p =
     (if rd_closed d then (d, p)
      else (d\<lparr>rd_closed := True\<rparr>, cleanupRetiredLocked (rd_record d) (upd_rec (rd_record d) (\<lambda>r. r\<lparr>r_waiters := r_waiters r - 1\<rparr>) p)))"

text \<open>
  Waiting for a drained record. \<open>wait_check\<close> is the critical section of one iteration: the result of
  \<open>Wait\<close>, or the generation of the record's channel to wait on. \<open>wait_run\<close> is the loop over the pool
  states it wakes up in; a wake-up that is the end of the context returns the latest state.
\<close>

definition wait_check :: "nat \<Rightarrow> time \<Rightarrow> Pool \<Rightarrow> (BackendState \<times> pool_error option) + nat" where
  "wait_check a now p =
     (let r = p_store p ! a; state = stateLocked r now in
      if \<not> r_draining r then Inl (state, Some PoolNotDraining)
      else if r_leases r = [] then Inl (state, None)
      else Inr (r_changed r))"

datatype wake = Signalled Pool time | Ended Pool time ctx_err

fun wait_run :: "nat \<Rightarrow> wake list \<Rightarrow> (BackendState \<times> pool_error option) option" where
  "wait_run a [] = None"
| "wait_run a (Signalled p now # wakes) = (case wait_check a now p of Inl res \<Rightarrow> Some res | Inr _ \<Rightarrow> wait_run a wakes)"
| "wait_run a (Ended p now e # wakes) = Some (stateLocked (p_store p ! a) now, Some (PoolContext e))"

definition drain_Wait :: "RetainedDrain \<Rightarrow> gocontext \<Rightarrow> wake list \<Rightarrow> (BackendState option \<times> pool_error option) option" where
  "drain_Wait d ctx wakes =
     (case ctx of
        NilContext \<Rightarrow> Some (None, Some PoolInvalidContext)
      | Context _ \<Rightarrow>
          if rd_closed d then Some (None, Some PoolDrainClosed)
          else map_option (apfst Some) (wait_run (rd_record d) wakes))"

text \<open>\<open>WaitDrained\<close>: its entry, which pins the record, and its exit.\<close>

definition wait_enter :: "backend_id \<Rightarrow> Pool \<Rightarrow> (pool_error + nat) \<times> Pool" where
  "wait_enter i p =
     (case bid_Validate i of
        Some x \<Rightarrow> (Inl x, p)
      | None \<Rightarrow>
          (case find_current p i of
             None \<Rightarrow> (Inl PoolNotFound, p)
           | Some a \<Rightarrow>
               if \<not> r_draining (p_store p ! a) then (Inl PoolNotDraining, p)
               else (Inr a, upd_rec a (\<lambda>r. r\<lparr>r_waiters := r_waiters r + 1\<rparr>) p)))"

definition wait_leave :: "nat \<Rightarrow> Pool \<Rightarrow> Pool" where
  "wait_leave a p = cleanupRetiredLocked a (upd_rec a (\<lambda>r. r\<lparr>r_waiters := r_waiters r - 1\<rparr>) p)"

section \<open>Active probes\<close>

record probeTarget =
  pt_backend :: Backend
  pt_revision :: uint64

record ProbeResult =
  pr_ID :: backend_id
  pr_At :: time
  pr_Healthy :: bool
  pr_Applied :: bool
  pr_Transition :: "Transition option"
  pr_Err :: "bytes option"

definition probeTargets :: "Pool \<Rightarrow> probeTarget list" where
  "probeTargets p =
     sort_key (\<lambda>t. b_ID (pt_backend t))
       (map (\<lambda>r. \<lparr>pt_backend = r_backend r, pt_revision = r_revision r\<rparr>) (filter (\<lambda>r. \<not> r_retired r) (map_records p)))"

definition maxProbeErrorBytes :: nat where "maxProbeErrorBytes = 1024"

text \<open>\<open>strings.ToValidUTF8\<close>: a run of invalid bytes becomes one replacement character.\<close>

fun to_valid_fuel :: "nat \<Rightarrow> bool \<Rightarrow> bytes \<Rightarrow> bytes" where
  "to_valid_fuel 0 bad s = []"
| "to_valid_fuel (Suc n) bad s =
     (if s = [] then []
      else if decode_rune s = (RuneError, 1)
      then (if bad then [] else [CHR 0xEF, CHR 0xBF, CHR 0xBD]) @ to_valid_fuel n True (drop 1 s)
      else take (rune_size s) s @ to_valid_fuel n False (drop (rune_size s) s))"

definition to_valid_utf8 :: "bytes \<Rightarrow> bytes" where
  "to_valid_utf8 s = to_valid_fuel (length s) False s"

fun truncate_valid :: "nat \<Rightarrow> bytes \<Rightarrow> bytes" where
  "truncate_valid 0 s = take 0 s"
| "truncate_valid (Suc n) s = (if utf8_valid (take (Suc n) s) then take (Suc n) s else truncate_valid n s)"

definition boundedError :: "bytes \<Rightarrow> bytes" where
  "boundedError err =
     (let message = to_valid_utf8 err in
      if length message \<le> maxProbeErrorBytes then message else truncate_valid maxProbeErrorBytes message)"

text \<open>\<open>probeOne\<close> after the check: \<open>err\<close> is its outcome, \<open>cancelled\<close> whether the parent context ended.\<close>

definition probeOne :: "probeTarget \<Rightarrow> bytes option \<Rightarrow> bool \<Rightarrow> time \<Rightarrow> Pool \<Rightarrow> ProbeResult \<times> Pool" where
  "probeOne target err cancelled now p0 =
     (let result = \<lparr>pr_ID = b_ID (pt_backend target), pr_At = now, pr_Healthy = (err = None), pr_Applied = False,
                    pr_Transition = None, pr_Err = err\<rparr> in
      if cancelled then (result, p0)
      else
        (case find_current p0 (b_ID (pt_backend target)) of
           None \<Rightarrow> (result, p0)
         | Some a \<Rightarrow>
             if r_revision (p_store p0 ! a) \<noteq> pt_revision target then (result, p0)
             else
               (let newHealth = (if err = None then HealthHealthy else HealthUnhealthy);
                    changed = (r_health (p_store p0 ! a) \<noteq> newHealth);
                    p = upd_rec a (\<lambda>r. r\<lparr>r_health := newHealth, r_lastProbeAt := now,
                          r_lastProbeError := (case err of None \<Rightarrow> [] | Some e \<Rightarrow> boundedError e)\<rparr>) p0;
                    p = (if changed then notifySelectionLocked a p else notifyLocked a p);
                    r = p_store p ! a in
                (result\<lparr>pr_Applied := True,
                   pr_Transition := Some \<lparr>t_Backend = stateLocked r now, t_Changed = changed,
                     t_Bindings = (if newHealth \<noteq> HealthHealthy \<and> r_leases r \<noteq> [] then bindingsLocked r else [])\<rparr>\<rparr>, p))))"

end
