(* ===== verification/Pool_Invariant.thy ===== *)
theory Pool_Invariant
  imports Backend_Pool "HOL-Library.Multiset"
begin

text \<open>
  The well-formedness of the backend pool and its preservation by every critical section. Beside the
  pool, the invariant speaks of the pins: the addresses of the records that open retained drains and
  waiters hold, once per holder.
\<close>

section \<open>The invariant\<close>

definition lease_ids :: "pool_record \<Rightarrow> uint64 set" where
  "lease_ids r = fst ` set (r_leases r)"

definition busy :: "pool_record \<Rightarrow> bool" where
  "busy r \<longleftrightarrow> r_leases r \<noteq> [] \<or> r_waiters r \<noteq> 0"

definition rec_ok :: "uint64 \<Rightarrow> pool_record \<Rightarrow> bool" where
  "rec_ok n r \<longleftrightarrow> distinct (map fst (r_leases r)) \<and> (\<forall>k \<in> lease_ids r. 1 \<le> k \<and> k \<le> n)
     \<and> (r_retired r \<longrightarrow> r_draining r) \<and> (r_retirementDrain r \<longrightarrow> r_retired r)"

definition pool_inv_but :: "nat set \<Rightarrow> Pool \<Rightarrow> nat list \<Rightarrow> bool" where
  "pool_inv_but X p pins \<longleftrightarrow>
     distinct (map fst (p_records p))
   \<and> (\<forall>i a. find_rec p i = Some a \<longrightarrow> a < length (p_store p) \<and> b_ID (r_backend (p_store p ! a)) = i)
   \<and> (\<forall>a < length (p_store p). rec_ok (p_nextLeaseID p) (p_store p ! a) \<and> r_waiters (p_store p ! a) = int (count_list pins a)
        \<and> (busy (p_store p ! a) \<longrightarrow> find_rec p (b_ID (r_backend (p_store p ! a))) = Some a))
   \<and> (\<forall>a \<in> set pins. a < length (p_store p))
   \<and> (\<forall>a < length (p_store p). \<forall>b < length (p_store p). a \<noteq> b \<longrightarrow> lease_ids (p_store p ! a) \<inter> lease_ids (p_store p ! b) = {})
   \<and> (\<forall>i a. find_rec p i = Some a \<longrightarrow> a \<notin> X \<longrightarrow> r_retired (p_store p ! a) \<longrightarrow> busy (p_store p ! a))
   \<and> p_nextLeaseID p \<le> MaxUint64"

abbreviation pool_inv :: "Pool \<Rightarrow> nat list \<Rightarrow> bool" where
  "pool_inv \<equiv> pool_inv_but {}"

lemma pool_invD:
  assumes "pool_inv_but X p pins"
  shows "distinct (map fst (p_records p))"
    and "\<And>i a. find_rec p i = Some a \<Longrightarrow> a < length (p_store p)"
    and "\<And>i a. find_rec p i = Some a \<Longrightarrow> b_ID (r_backend (p_store p ! a)) = i"
    and "\<And>a. a < length (p_store p) \<Longrightarrow> rec_ok (p_nextLeaseID p) (p_store p ! a)"
    and "\<And>a. a < length (p_store p) \<Longrightarrow> r_waiters (p_store p ! a) = int (count_list pins a)"
    and "\<And>a. a < length (p_store p) \<Longrightarrow> busy (p_store p ! a) \<Longrightarrow> find_rec p (b_ID (r_backend (p_store p ! a))) = Some a"
    and "\<And>a. a \<in> set pins \<Longrightarrow> a < length (p_store p)"
    and "\<And>a b. a < length (p_store p) \<Longrightarrow> b < length (p_store p) \<Longrightarrow> a \<noteq> b \<Longrightarrow> lease_ids (p_store p ! a) \<inter> lease_ids (p_store p ! b) = {}"
    and "\<And>i a. find_rec p i = Some a \<Longrightarrow> a \<notin> X \<Longrightarrow> r_retired (p_store p ! a) \<Longrightarrow> busy (p_store p ! a)"
    and "p_nextLeaseID p \<le> MaxUint64"
  using assms unfolding pool_inv_but_def by blast+

lemma pool_invI:
  assumes "distinct (map fst (p_records p))"
    and "\<And>i a. find_rec p i = Some a \<Longrightarrow> a < length (p_store p) \<and> b_ID (r_backend (p_store p ! a)) = i"
    and "\<And>a. a < length (p_store p) \<Longrightarrow> rec_ok (p_nextLeaseID p) (p_store p ! a)"
    and "\<And>a. a < length (p_store p) \<Longrightarrow> r_waiters (p_store p ! a) = int (count_list pins a)"
    and "\<And>a. a < length (p_store p) \<Longrightarrow> busy (p_store p ! a) \<Longrightarrow> find_rec p (b_ID (r_backend (p_store p ! a))) = Some a"
    and "\<And>a. a \<in> set pins \<Longrightarrow> a < length (p_store p)"
    and "\<And>a b. a < length (p_store p) \<Longrightarrow> b < length (p_store p) \<Longrightarrow> a \<noteq> b \<Longrightarrow> lease_ids (p_store p ! a) \<inter> lease_ids (p_store p ! b) = {}"
    and "\<And>i a. find_rec p i = Some a \<Longrightarrow> a \<notin> X \<Longrightarrow> r_retired (p_store p ! a) \<Longrightarrow> busy (p_store p ! a)"
    and "p_nextLeaseID p \<le> MaxUint64"
  shows "pool_inv_but X p pins"
  using assms unfolding pool_inv_but_def by blast

section \<open>Updating one record\<close>

lemma upd_rec_sel [simp]:
  "p_records (upd_rec a f p) = p_records p" "p_config (upd_rec a f p) = p_config p" "p_changed (upd_rec a f p) = p_changed p"
  "p_nextSelection (upd_rec a f p) = p_nextSelection p" "p_nextLeaseID (upd_rec a f p) = p_nextLeaseID p"
  "length (p_store (upd_rec a f p)) = length (p_store p)"
  by (simp_all add: upd_rec_def)

lemma upd_rec_nth: "b < length (p_store p) \<Longrightarrow> p_store (upd_rec a f p) ! b = (if b = a then f (p_store p ! a) else p_store p ! b)"
  by (auto simp: upd_rec_def)

lemma notify_sel [simp]:
  "p_records (notifyLocked a p) = p_records p" "p_config (notifyLocked a p) = p_config p" "p_changed (notifyLocked a p) = p_changed p"
  "p_nextSelection (notifyLocked a p) = p_nextSelection p" "p_nextLeaseID (notifyLocked a p) = p_nextLeaseID p"
  "length (p_store (notifyLocked a p)) = length (p_store p)"
  "p_records (notifySelectionLocked a p) = p_records p" "p_config (notifySelectionLocked a p) = p_config p"
  "p_changed (notifySelectionLocked a p) = Suc (p_changed p)" "p_nextSelection (notifySelectionLocked a p) = p_nextSelection p"
  "p_nextLeaseID (notifySelectionLocked a p) = p_nextLeaseID p" "length (p_store (notifySelectionLocked a p)) = length (p_store p)"
  "p_store (notifySelectionLocked a p) = p_store (notifyLocked a p)"
  by (simp_all add: notifyLocked_def notifySelectionLocked_def)

lemma notify_nth:
  "b < length (p_store p) \<Longrightarrow>
     p_store (notifyLocked a p) ! b = (if b = a then (p_store p ! a)\<lparr>r_changed := Suc (r_changed (p_store p ! a))\<rparr> else p_store p ! b)"
  by (simp add: notifyLocked_def upd_rec_nth)

lemma rec_facts_changed [simp]:
  "rec_ok n (r\<lparr>r_changed := c\<rparr>) = rec_ok n r" "lease_ids (r\<lparr>r_changed := c\<rparr>) = lease_ids r" "busy (r\<lparr>r_changed := c\<rparr>) = busy r"
  by (simp_all add: rec_ok_def lease_ids_def busy_def)

text \<open>An update of a record in the map that keeps its identity and its pins, and gains no lease.\<close>

lemma inv_upd:
  assumes inv: "pool_inv_but X p pins" and a: "find_rec p i = Some a"
    and keep: "b_ID (r_backend (f (p_store p ! a))) = i" "r_waiters (f (p_store p ! a)) = r_waiters (p_store p ! a)"
      "lease_ids (f (p_store p ! a)) \<subseteq> lease_ids (p_store p ! a)"
    and ok: "rec_ok (p_nextLeaseID p) (f (p_store p ! a))"
    and ret: "a \<notin> Y \<Longrightarrow> r_retired (f (p_store p ! a)) \<Longrightarrow> busy (f (p_store p ! a))" and Y: "X \<subseteq> insert a Y"
  shows "pool_inv_but Y (upd_rec a f p) pins"
proof (rule pool_invI)
  note D = pool_invD [OF inv]
  have la: "a < length (p_store p)" by (rule D(2) [OF a])
  note n = upd_rec_nth [of _ p a f]
  show "distinct (map fst (p_records (upd_rec a f p)))" using D(1) by simp
  show "b < length (p_store (upd_rec a f p)) \<and> b_ID (r_backend (p_store (upd_rec a f p) ! b)) = j" if "find_rec (upd_rec a f p) j = Some b" for j b
    using that D(2,3) [of j b] D(3) [OF a] keep(1) n [of b] by auto
  show "rec_ok (p_nextLeaseID (upd_rec a f p)) (p_store (upd_rec a f p) ! b)" if "b < length (p_store (upd_rec a f p))" for b
    using that D(4) ok n [of b] by auto
  show "r_waiters (p_store (upd_rec a f p) ! b) = int (count_list pins b)" if "b < length (p_store (upd_rec a f p))" for b
    using that D(5) keep(2) n [of b] la by auto
  show "find_rec (upd_rec a f p) (b_ID (r_backend (p_store (upd_rec a f p) ! b))) = Some b"
    if "b < length (p_store (upd_rec a f p))" "busy (p_store (upd_rec a f p) ! b)" for b
    using that D(6) keep(1) n [of b] a by (cases "b = a") auto
  show "b < length (p_store (upd_rec a f p))" if "b \<in> set pins" for b using that D(7) by simp
  show "lease_ids (p_store (upd_rec a f p) ! b) \<inter> lease_ids (p_store (upd_rec a f p) ! c) = {}"
    if "b < length (p_store (upd_rec a f p))" "c < length (p_store (upd_rec a f p))" "b \<noteq> c" for b c
    using that D(8) [of b c] n [of b] n [of c] keep(3) by (cases "b = a"; cases "c = a") auto
  show "busy (p_store (upd_rec a f p) ! b)"
    if "find_rec (upd_rec a f p) j = Some b" "b \<notin> Y" "r_retired (p_store (upd_rec a f p) ! b)" for j b
    using that D(2,9) [of j b] ret n [of b] Y by (cases "b = a") auto
  show "p_nextLeaseID (upd_rec a f p) \<le> MaxUint64" using D(10) by simp
qed

lemma inv_fields:
  assumes "pool_inv_but X p pins" and "p_records p' = p_records p" and "p_store p' = p_store p" and "p_nextLeaseID p' = p_nextLeaseID p"
  shows "pool_inv_but X p' pins"
  using assms unfolding pool_inv_but_def by simp

lemma inv_notify [simp]: "pool_inv_but X (notifyLocked a p) pins = pool_inv_but X p pins"
proof -
  have f: "r_backend (p_store (notifyLocked a p) ! b) = r_backend (p_store p ! b)" "r_waiters (p_store (notifyLocked a p) ! b) = r_waiters (p_store p ! b)"
    "r_retired (p_store (notifyLocked a p) ! b) = r_retired (p_store p ! b)" "lease_ids (p_store (notifyLocked a p) ! b) = lease_ids (p_store p ! b)"
    "busy (p_store (notifyLocked a p) ! b) = busy (p_store p ! b)" "rec_ok n (p_store (notifyLocked a p) ! b) = rec_ok n (p_store p ! b)"
    if "b < length (p_store p)" for b n
    using that by (simp_all add: notify_nth)
  show ?thesis unfolding pool_inv_but_def by (simp add: f cong: conj_cong imp_cong)
qed

lemma inv_notify_selection [simp]: "pool_inv_but X (notifySelectionLocked a p) pins = pool_inv_but X p pins"
proof -
  have "pool_inv_but X (notifySelectionLocked a p) pins = pool_inv_but X (notifyLocked a p) pins"
    unfolding pool_inv_but_def by simp
  then show ?thesis by simp
qed

section \<open>Leaving and entering the map\<close>

lemma cleanup_sel [simp]:
  "p_store (cleanupRetiredLocked a p) = p_store p" "p_nextLeaseID (cleanupRetiredLocked a p) = p_nextLeaseID p"
  "p_config (cleanupRetiredLocked a p) = p_config p" "p_changed (cleanupRetiredLocked a p) = p_changed p"
  "p_nextSelection (cleanupRetiredLocked a p) = p_nextSelection p"
  by (simp_all add: cleanupRetiredLocked_def Let_def)

lemma inv_cleanup:
  assumes inv: "pool_inv_but {a} p pins"
  shows "pool_inv (cleanupRetiredLocked a p) pins"
proof -
  note D = pool_invD [OF inv]
  let ?r = "p_store p ! a" and ?i = "b_ID (r_backend (p_store p ! a))"
  show ?thesis
  proof (cases "r_retired ?r \<and> \<not> busy ?r \<and> find_rec p ?i = Some a")
    case True
    then have c: "cleanupRetiredLocked a p = p\<lparr>p_records := AList.delete ?i (p_records p)\<rparr>"
      by (simp add: cleanupRetiredLocked_def busy_def Let_def)
    have f: "find_rec (cleanupRetiredLocked a p) j = (if j = ?i then None else find_rec p j)" for j
      by (simp add: c delete_conv')
    show ?thesis
    proof (rule pool_invI)
      show "distinct (map fst (p_records (cleanupRetiredLocked a p)))" using D(1) by (simp add: c distinct_delete)
      show "find_rec (cleanupRetiredLocked a p) (b_ID (r_backend (p_store (cleanupRetiredLocked a p) ! b))) = Some b"
        if "b < length (p_store (cleanupRetiredLocked a p))" "busy (p_store (cleanupRetiredLocked a p) ! b)" for b
      proof -
        have "find_rec p (b_ID (r_backend (p_store p ! b))) = Some b" "b \<noteq> a" using that D(6) [of b] True by auto
        then show ?thesis unfolding f cleanup_sel using True by (metis option.inject)
      qed
      show "busy (p_store (cleanupRetiredLocked a p) ! b)"
        if "find_rec (cleanupRetiredLocked a p) j = Some b" "b \<notin> {}" "r_retired (p_store (cleanupRetiredLocked a p) ! b)" for j b
      proof -
        have "j \<noteq> ?i" "find_rec p j = Some b" using that(1) unfolding f by (simp_all split: if_splits)
        then show ?thesis using D(9) [of j b] D(3) [of j b] that(3) by auto
      qed
      show "lease_ids (p_store (cleanupRetiredLocked a p) ! b) \<inter> lease_ids (p_store (cleanupRetiredLocked a p) ! c) = {}"
        if "b < length (p_store (cleanupRetiredLocked a p))" "c < length (p_store (cleanupRetiredLocked a p))" "b \<noteq> c" for b c
        using that D(8) by simp
      show "b < length (p_store (cleanupRetiredLocked a p)) \<and> b_ID (r_backend (p_store (cleanupRetiredLocked a p) ! b)) = j"
        if "find_rec (cleanupRetiredLocked a p) j = Some b" for j b
        using that D(2,3) [of j b] unfolding f by (simp split: if_splits)
    qed (use D(4,5,7,10) in simp_all)
  next
    case False
    then have c: "cleanupRetiredLocked a p = p" by (auto simp: cleanupRetiredLocked_def busy_def Let_def)
    have "busy (p_store p ! b)" if "find_rec p j = Some b" "r_retired (p_store p ! b)" for j b
      using that D(9) [of j b] D(3) [OF that(1)] False by (cases "b = a") auto
    then show ?thesis unfolding c by (intro pool_invI) (use D in auto)
  qed
qed

lemma rec_ok_retire: "rec_ok n r \<Longrightarrow> rec_ok n (retireLocked r)"
  by (auto simp: rec_ok_def retireLocked_def lease_ids_def Let_def)

lemma retire_sel [simp]:
  "r_backend (retireLocked r) = r_backend r" "r_waiters (retireLocked r) = r_waiters r" "r_leases (retireLocked r) = r_leases r"
  "r_retired (retireLocked r)" "r_draining (retireLocked r)"
  by (simp_all add: retireLocked_def Let_def)

lemma inv_retire [inv_intros]:
  assumes inv: "pool_inv p pins" and a: "find_rec p i = Some a"
  shows "pool_inv (retire_record a p) pins"
proof -
  have "pool_inv_but {a} (upd_rec a retireLocked p) pins"
    by (rule inv_upd [OF inv a])
       (use pool_invD(3) [OF inv a] rec_ok_retire [OF pool_invD(4) [OF inv pool_invD(2) [OF inv a]]] in \<open>simp_all add: lease_ids_def\<close>)
  then show ?thesis unfolding retire_record_def by (intro inv_cleanup) simp
qed

lemma inv_add [inv_intros]:
  assumes inv: "pool_inv p pins" and fresh: "find_rec p (b_ID (r_backend r)) = None"
    and r: "r_leases r = []" "r_waiters r = 0" "\<not> r_retired r" "\<not> r_retirementDrain r"
  shows "pool_inv (add_record r p) pins"
proof -
  note D = pool_invD [OF inv]
  let ?n = "length (p_store p)" and ?i = "b_ID (r_backend r)"
  let ?p = "p\<lparr>p_store := p_store p @ [r], p_records := AList.update ?i ?n (p_records p)\<rparr>"
  have f: "find_rec ?p j = (if j = ?i then Some ?n else find_rec p j)" for j by (simp add: update_conv')
  have idle: "\<not> busy r" "lease_ids r = {}" using r by (simp_all add: busy_def lease_ids_def)
  have pins: "count_list pins ?n = 0" using D(7) by (auto simp: count_list_0_iff)
  have "pool_inv ?p pins"
  proof (rule pool_invI)
    show "distinct (map fst (p_records ?p))" using D(1) by (simp add: distinct_update)
    show "b < length (p_store ?p) \<and> b_ID (r_backend (p_store ?p ! b)) = j" if "find_rec ?p j = Some b" for j b
      using that f [of j] D(2,3) [of j b] by (auto simp: nth_append split: if_splits)
    show "rec_ok (p_nextLeaseID ?p) (p_store ?p ! b)" if "b < length (p_store ?p)" for b
      using that D(4) [of b] r by (auto simp: nth_append rec_ok_def lease_ids_def less_Suc_eq)
    show "r_waiters (p_store ?p ! b) = int (count_list pins b)" if "b < length (p_store ?p)" for b
      using that D(5) [of b] r pins by (auto simp: nth_append less_Suc_eq)
    show "find_rec ?p (b_ID (r_backend (p_store ?p ! b))) = Some b" if "b < length (p_store ?p)" "busy (p_store ?p ! b)" for b
      using that D(6) [of b] idle fresh f by (auto simp: nth_append less_Suc_eq split: if_splits)
    show "b < length (p_store ?p)" if "b \<in> set pins" for b using that D(7) by fastforce
    show "lease_ids (p_store ?p ! b) \<inter> lease_ids (p_store ?p ! c) = {}" if "b < length (p_store ?p)" "c < length (p_store ?p)" "b \<noteq> c" for b c
      using that D(8) [of b c] idle by (auto simp: nth_append less_Suc_eq)
    show "busy (p_store ?p ! b)" if "find_rec ?p j = Some b" "b \<notin> {}" "r_retired (p_store ?p ! b)" for j b
      using that f [of j] D(2,9) [of j b] r by (auto simp: nth_append split: if_splits)
    show "p_nextLeaseID ?p \<le> MaxUint64" using D(10) by simp
  qed
  then show ?thesis by (simp add: add_record_def Let_def)
qed

section \<open>Leases and pins\<close>

lemma lease_ids_update: "fst ` set (AList.update k v xs) = insert k (fst ` set xs)"
  by (simp add: dom_update)

lemma inv_acquire [inv_intros]:
  assumes inv: "pool_inv p pins" and a: "find_rec p i = Some a" and res: "acquireLocked a owner now p = (r, p')"
  shows "pool_inv p' pins"
proof (cases "p_nextLeaseID p = MaxUint64")
  case True
  then show ?thesis using res inv by (simp add: acquireLocked_def)
next
  case False
  note D = pool_invD [OF inv]
  have la: "a < length (p_store p)" by (rule D(2) [OF a])
  define n where "n = p_nextLeaseID p + 1"
  define f where "f r = r\<lparr>r_leases := AList.update n owner (r_leases r)\<rparr>" for r :: pool_record
  define q where "q = upd_rec a f (p\<lparr>p_nextLeaseID := n\<rparr>)"
  have p': "p' = notifyLocked a q"
    using res False by (simp add: acquireLocked_def Let_def q_def f_def [abs_def] n_def split: prod.splits)
  have q: "p_records q = p_records p" "p_nextLeaseID q = n" "length (p_store q) = length (p_store p)" by (simp_all add: q_def)
  have s: "p_store q ! b = (if b = a then f (p_store p ! a) else p_store p ! b)" if "b < length (p_store p)" for b
    using upd_rec_nth [of b "p\<lparr>p_nextLeaseID := n\<rparr>" a f] that by (simp add: q_def)
  have fs: "r_backend (f r) = r_backend r" "r_waiters (f r) = r_waiters r" "r_retired (f r) = r_retired r" "r_draining (f r) = r_draining r"
    "r_retirementDrain (f r) = r_retirementDrain r" "lease_ids (f r) = insert n (lease_ids r)" "busy (f r)"
    "distinct (map fst (r_leases r)) \<Longrightarrow> distinct (map fst (r_leases (f r)))" for r
    by (auto simp: f_def lease_ids_def lease_ids_update busy_def distinct_update dest: arg_cong [of _ _ "\<lambda>xs. fst ` set xs"])
  have old: "\<forall>k \<in> lease_ids (p_store p ! b). k < n" if "b < length (p_store p)" for b
    using D(4) [OF that] by (auto simp: rec_ok_def n_def)
  have "pool_inv q pins"
  proof (rule pool_invI)
    show "distinct (map fst (p_records q))" using D(1) q by simp
    show "b < length (p_store q) \<and> b_ID (r_backend (p_store q ! b)) = j" if "find_rec q j = Some b" for j b
      using that D(2,3) [of j b] s [of b] fs q by (cases "b = a") simp_all
    show "rec_ok (p_nextLeaseID q) (p_store q ! b)" if "b < length (p_store q)" for b
      using that D(4) [of b] s [of b] q fs unfolding rec_ok_def by (auto simp: n_def)
    show "r_waiters (p_store q ! b) = int (count_list pins b)" if "b < length (p_store q)" for b
      using that D(5) [of b] s [of b] q fs by (cases "b = a") simp_all
    show "find_rec q (b_ID (r_backend (p_store q ! b))) = Some b" if "b < length (p_store q)" "busy (p_store q ! b)" for b
      using that D(6) [of b] s [of b] a D(3) [OF a] q fs by (cases "b = a") simp_all
    show "b < length (p_store q)" if "b \<in> set pins" for b using that D(7) q by simp
    show "lease_ids (p_store q ! b) \<inter> lease_ids (p_store q ! c) = {}" if "b < length (p_store q)" "c < length (p_store q)" "b \<noteq> c" for b c
      using that D(8) [of b c] s [of b] s [of c] old [of b] old [of c] q fs by (cases "b = a"; cases "c = a") auto
    show "busy (p_store q ! b)" if "find_rec q j = Some b" "b \<notin> {}" "r_retired (p_store q ! b)" for j b
      using that D(2,9) [of j b] s [of b] q fs by (cases "b = a") simp_all
    show "p_nextLeaseID q \<le> MaxUint64" using D(10) False q by (simp add: n_def)
  qed
  then show ?thesis by (simp add: p')
qed

lemma lease_ids_delete: "fst ` set (AList.delete k xs) = fst ` set xs - {k}"
  using arg_cong [OF delete_keys [of k xs], of set] by simp

lemma inv_release [inv_intros]:
  assumes inv: "pool_inv p pins" and res: "lease_Release l p = (l', p')" and a: "le_record l < length (p_store p)"
  shows "pool_inv p' pins"
proof (cases "\<not> le_released l \<and> le_id l \<in> lease_ids (p_store p ! le_record l)")
  case True
  let ?a = "le_record l" and ?f = "\<lambda>r. r\<lparr>r_leases := AList.delete (le_id l) (r_leases r)\<rparr>"
  have "busy (p_store p ! ?a)" using True by (auto simp: busy_def lease_ids_def)
  then have f: "find_rec p (b_ID (r_backend (p_store p ! ?a))) = Some ?a" by (rule pool_invD(6) [OF inv a])
  have "pool_inv_but {?a} (upd_rec ?a ?f p) pins"
    by (rule inv_upd [OF inv f]) (use pool_invD(4) [OF inv a] in \<open>auto simp: lease_ids_def lease_ids_delete rec_ok_def distinct_delete\<close>)
  then have "pool_inv (cleanupRetiredLocked ?a (notifyLocked ?a (upd_rec ?a ?f p))) pins" by (intro inv_cleanup) simp
  then show ?thesis using res True by (simp add: lease_Release_def lease_ids_def Let_def)
next
  case False
  then show ?thesis using res inv by (auto simp: lease_Release_def lease_ids_def Let_def split: if_splits)
qed

lemma count_remove1: "count_list (remove1 a xs) b = (if b = a then count_list xs a - 1 else count_list xs b)"
  by (induction xs) auto

text \<open>Pinning a record of the map; the update may also mark it as explicitly drained.\<close>

lemma inv_pin [inv_intros]:
  assumes inv: "pool_inv p pins" and a: "find_rec p i = Some a"
    and f: "r_backend (f (p_store p ! a)) = r_backend (p_store p ! a)" "r_waiters (f (p_store p ! a)) = r_waiters (p_store p ! a) + 1"
      "r_leases (f (p_store p ! a)) = r_leases (p_store p ! a)" "rec_ok (p_nextLeaseID p) (f (p_store p ! a))"
  shows "pool_inv (upd_rec a f p) (a # pins)"
proof -
  note D = pool_invD [OF inv]
  have la: "a < length (p_store p)" by (rule D(2) [OF a])
  note s = upd_rec_nth [of _ p a f]
  have w: "0 \<le> r_waiters (p_store p ! a)" using D(5) [OF la] by simp
  have b: "busy (f (p_store p ! a))" using w f(2) by (simp add: busy_def)
  show ?thesis
  proof (rule pool_invI)
    show "distinct (map fst (p_records (upd_rec a f p)))" using D(1) by simp
    show "b < length (p_store (upd_rec a f p)) \<and> b_ID (r_backend (p_store (upd_rec a f p) ! b)) = j" if "find_rec (upd_rec a f p) j = Some b" for j b
      using that D(2,3) [of j b] s [of b] f(1) by (cases "b = a") simp_all
    show "rec_ok (p_nextLeaseID (upd_rec a f p)) (p_store (upd_rec a f p) ! b)" if "b < length (p_store (upd_rec a f p))" for b
      using that D(4) [of b] s [of b] f(4) by (cases "b = a") simp_all
    show "r_waiters (p_store (upd_rec a f p) ! b) = int (count_list (a # pins) b)" if "b < length (p_store (upd_rec a f p))" for b
      using that D(5) [of b] s [of b] f(2) by (cases "b = a") simp_all
    show "find_rec (upd_rec a f p) (b_ID (r_backend (p_store (upd_rec a f p) ! b))) = Some b"
      if "b < length (p_store (upd_rec a f p))" "busy (p_store (upd_rec a f p) ! b)" for b
      using that D(6) [of b] s [of b] f(1) a D(3) [OF a] by (cases "b = a") simp_all
    show "b < length (p_store (upd_rec a f p))" if "b \<in> set (a # pins)" for b using that D(7) la by auto
    show "lease_ids (p_store (upd_rec a f p) ! b) \<inter> lease_ids (p_store (upd_rec a f p) ! c) = {}"
      if "b < length (p_store (upd_rec a f p))" "c < length (p_store (upd_rec a f p))" "b \<noteq> c" for b c
      using that D(8) [of b c] s [of b] s [of c] f(3) by (cases "b = a"; cases "c = a") (simp_all add: lease_ids_def)
    show "busy (p_store (upd_rec a f p) ! b)" if "find_rec (upd_rec a f p) j = Some b" "b \<notin> {}" "r_retired (p_store (upd_rec a f p) ! b)" for j b
      using that D(2,9) [of j b] s [of b] b by (cases "b = a") simp_all
    show "p_nextLeaseID (upd_rec a f p) \<le> MaxUint64" using D(10) by simp
  qed
qed

lemma inv_unpin [inv_intros]:
  assumes inv: "pool_inv p pins" and a: "a \<in> set pins"
  shows "pool_inv (wait_leave a p) (remove1 a pins)"
proof -
  define f where "f r = r\<lparr>r_waiters := r_waiters r - 1\<rparr>" for r :: pool_record
  note D = pool_invD [OF inv]
  have la: "a < length (p_store p)" by (rule D(7) [OF a])
  note s = upd_rec_nth [of _ p a f]
  have w: "0 < r_waiters (p_store p ! a)" using D(5) [OF la] a count_list_0_iff [of pins a] by simp
  have ok: "rec_ok n (f r) = rec_ok n r" "lease_ids (f r) = lease_ids r" "r_backend (f r) = r_backend r" "r_retired (f r) = r_retired r" for n r
    by (simp_all add: f_def rec_ok_def lease_ids_def)
  have "pool_inv_but {a} (upd_rec a f p) (remove1 a pins)"
  proof (rule pool_invI)
    show "distinct (map fst (p_records (upd_rec a f p)))" using D(1) by simp
    show "b < length (p_store (upd_rec a f p)) \<and> b_ID (r_backend (p_store (upd_rec a f p) ! b)) = j" if "find_rec (upd_rec a f p) j = Some b" for j b
      using that D(2,3) [of j b] s [of b] ok by (cases "b = a") simp_all
    show "rec_ok (p_nextLeaseID (upd_rec a f p)) (p_store (upd_rec a f p) ! b)" if "b < length (p_store (upd_rec a f p))" for b
      using that D(4) [of b] s [of b] ok by (cases "b = a") simp_all
    show "r_waiters (p_store (upd_rec a f p) ! b) = int (count_list (remove1 a pins) b)" if "b < length (p_store (upd_rec a f p))" for b
      using that D(5) [of b] s [of b] w by (cases "b = a") (simp_all add: f_def count_remove1)
    show "find_rec (upd_rec a f p) (b_ID (r_backend (p_store (upd_rec a f p) ! b))) = Some b"
      if "b < length (p_store (upd_rec a f p))" "busy (p_store (upd_rec a f p) ! b)" for b
      using that D(6) [of b] s [of b] w ok by (cases "b = a") (simp_all add: busy_def)
    show "b < length (p_store (upd_rec a f p))" if "b \<in> set (remove1 a pins)" for b using that D(7) notin_set_remove1 by fastforce
    show "lease_ids (p_store (upd_rec a f p) ! b) \<inter> lease_ids (p_store (upd_rec a f p) ! c) = {}"
      if "b < length (p_store (upd_rec a f p))" "c < length (p_store (upd_rec a f p))" "b \<noteq> c" for b c
      using that D(8) [of b c] s [of b] s [of c] ok by (cases "b = a"; cases "c = a") simp_all
    show "busy (p_store (upd_rec a f p) ! b)" if "find_rec (upd_rec a f p) j = Some b" "b \<notin> {a}" "r_retired (p_store (upd_rec a f p) ! b)" for j b
      using that D(2,9) [of j b] s [of b] by simp
    show "p_nextLeaseID (upd_rec a f p) \<le> MaxUint64" using D(10) by simp
  qed
  then show ?thesis unfolding wait_leave_def f_def [abs_def, symmetric] by (rule inv_cleanup)
qed

end
