(* ===== verification/Pool_Runs.thy ===== *)
theory Pool_Runs
  imports Pool_Invariant
begin

text \<open>
  All executions of the backend pool: the critical sections of its methods, called by any goroutines
  in any order, with any clock readings, choosers and probe outcomes. A step carries the identifier of
  the backend it undrains, if it is an \<open>Undrain\<close>; the list beside the pool are the open pins.
\<close>

inductive pool_step :: "Pool \<Rightarrow> nat list \<Rightarrow> backend_id option \<Rightarrow> Pool \<Rightarrow> nat list \<Rightarrow> bool" for p :: Pool and pins :: "nat list" where
  upsert: "pool_Upsert b now p = (rs, p') \<Longrightarrow> pool_step p pins None p' pins"
| replace: "pool_replace bs admitNew clock p = (re, p') \<Longrightarrow> pool_step p pins None p' pins"
| remove: "pool_Remove i p = (rb, p') \<Longrightarrow> pool_step p pins None p' pins"
| choose: "choose_index cs p = (c, p') \<Longrightarrow> pool_step p pins None p' pins"
| commit: "acquire_commit i owner model excluded now p = (rc, p') \<Longrightarrow> pool_step p pins None p' pins"
| acquire_id: "pool_AcquireID i owner now p = (rl, p') \<Longrightarrow> pool_step p pins None p' pins"
| release: "lease_Release l p = (l', p') \<Longrightarrow> le_record l < length (p_store p) \<Longrightarrow> pool_step p pins None p' pins"
| health: "pool_SetHealth i health now p = (rt, p') \<Longrightarrow> pool_step p pins None p' pins"
| fail_passive: "MarkPassiveFailure i now p = (rt, p') \<Longrightarrow> pool_step p pins None p' pins"
| drain: "MarkDraining i now p = (rd, p') \<Longrightarrow> pool_step p pins None p' pins"
| undrain: "Undrain i now p = (rs, p') \<Longrightarrow> pool_step p pins (Some i) p' pins"
| begin_drain: "BeginRetainedDrain i now p = (Inr d, p') \<Longrightarrow> pool_step p pins None p' (rd_record d # pins)"
| begin_pod: "BeginRetainedPodDrain namespace name now p = (Inr ds, p') \<Longrightarrow> pool_step p pins None p' (map rd_record ds @ pins)"
| close_drain: "drain_Close d p = (d', p') \<Longrightarrow> \<not> rd_closed d \<Longrightarrow> rd_record d \<in> set pins \<Longrightarrow>
    pool_step p pins None p' (remove1 (rd_record d) pins)"
| enter_wait: "wait_enter i p = (Inr a, p') \<Longrightarrow> pool_step p pins None p' (a # pins)"
| leave_wait: "a \<in> set pins \<Longrightarrow> pool_step p pins None (wait_leave a p) (remove1 a pins)"
| probe: "probeOne target err cancelled now p = (rp, p') \<Longrightarrow> pool_step p pins None p' pins"

section \<open>How a step may change the pool\<close>

text \<open>What selection reads of a backend: nothing once its record is retired.\<close>

definition selection_view :: "Pool \<Rightarrow> backend_id \<Rightarrow> (Backend \<times> string \<times> bool \<times> time) option" where
  "selection_view p i =
     (case find_rec p i of
        None \<Rightarrow> None
      | Some a \<Rightarrow> (let r = p_store p ! a in if r_retired r then None else Some (r_backend r, r_health r, r_draining r, r_quarantinedUntil r)))"

text \<open>An administrator's drain, which only \<open>Undrain\<close> ends.\<close>

definition drained :: "pool_record \<Rightarrow> bool" where
  "drained r \<longleftrightarrow> r_draining r \<and> \<not> r_retirementDrain r"

text \<open>
  \<open>evolves X p p'\<close>: channel generations only grow; whoever waits on the pool's channel is woken when the
  view of any backend changes, and whoever waits on a record's channel when its leases or its drain
  change; a record keeps its identifier; and a drained record stays drained and gains no lease, except for
  the addresses in \<open>X\<close>.
\<close>

definition evolves_at :: "nat set \<Rightarrow> nat \<Rightarrow> pool_record \<Rightarrow> pool_record \<Rightarrow> bool" where
  "evolves_at X a r r' \<longleftrightarrow>
     b_ID (r_backend r') = b_ID (r_backend r) \<and> r_changed r \<le> r_changed r' \<and> (r_changed r' = r_changed r \<longrightarrow> r_leases r' = r_leases r \<and> r_draining r' = r_draining r)
   \<and> (a \<notin> X \<longrightarrow> drained r \<longrightarrow> drained r' \<and> set (r_leases r') \<subseteq> set (r_leases r))"

definition evolves :: "nat set \<Rightarrow> Pool \<Rightarrow> Pool \<Rightarrow> bool" where
  "evolves X p p' \<longleftrightarrow>
     p_changed p \<le> p_changed p' \<and> (p_changed p' = p_changed p \<longrightarrow> selection_view p' = selection_view p)
   \<and> length (p_store p) \<le> length (p_store p') \<and> p_config p' = p_config p
   \<and> (\<forall>a < length (p_store p). evolves_at X a (p_store p ! a) (p_store p' ! a))"

lemma evolves_refl [simp]: "evolves X p p"
  by (simp add: evolves_def evolves_at_def)

lemma evolves_at_trans:
  assumes "evolves_at X a r r'" and "evolves_at X a r' r''"
  shows "evolves_at X a r r''"
proof -
  have c: "r_changed r \<le> r_changed r'" "r_changed r' \<le> r_changed r''" "b_ID (r_backend r'') = b_ID (r_backend r)" using assms unfolding evolves_at_def by simp_all
  have "r_leases r'' = r_leases r \<and> r_draining r'' = r_draining r" if "r_changed r'' = r_changed r"
  proof -
    have "r_changed r' = r_changed r" "r_changed r'' = r_changed r'" using c that by simp_all
    then show ?thesis using assms unfolding evolves_at_def by simp
  qed
  moreover have "drained r'' \<and> set (r_leases r'') \<subseteq> set (r_leases r)" if "a \<notin> X" "drained r"
    using assms that unfolding evolves_at_def by blast
  ultimately show ?thesis using c unfolding evolves_at_def by simp
qed

lemma evolves_trans:
  assumes "evolves X p q" and "evolves X q p'"
  shows "evolves X p p'"
proof -
  have c: "p_changed p \<le> p_changed q" "p_changed q \<le> p_changed p'" "length (p_store p) \<le> length (p_store q)"
    "length (p_store q) \<le> length (p_store p')" "p_config p' = p_config p" using assms unfolding evolves_def by simp_all
  have "selection_view p' = selection_view p" if "p_changed p' = p_changed p"
  proof -
    have "p_changed q = p_changed p" "p_changed p' = p_changed q" using c that by simp_all
    then show ?thesis using assms unfolding evolves_def by simp
  qed
  moreover have "evolves_at X a (p_store p ! a) (p_store p' ! a)" if "a < length (p_store p)" for a
    using assms that c(3) evolves_at_trans [of X a "p_store p ! a" "p_store q ! a"] unfolding evolves_def by simp
  ultimately show ?thesis using c unfolding evolves_def by simp
qed

lemma evolves_fields:
  assumes "p_records p' = p_records p" and "p_store p' = p_store p" and "p_changed p' = p_changed p" and "p_config p' = p_config p"
  shows "evolves X p p'"
proof -
  have "selection_view p' = selection_view p" by (rule ext) (simp only: selection_view_def assms)
  then show ?thesis by (simp add: evolves_def evolves_at_def assms)
qed

lemma evolves_selection:
  assumes "a < length (p_store p)"
    and "a \<notin> X \<Longrightarrow> drained (p_store p ! a) \<Longrightarrow> drained (f (p_store p ! a)) \<and> set (r_leases (f (p_store p ! a))) \<subseteq> set (r_leases (p_store p ! a))"
    and "r_changed (f (p_store p ! a)) = r_changed (p_store p ! a)" and "b_ID (r_backend (f (p_store p ! a))) = b_ID (r_backend (p_store p ! a))"
  shows "evolves X p (notifySelectionLocked a (upd_rec a f p))"
proof -
  let ?p = "notifySelectionLocked a (upd_rec a f p)"
  have "evolves_at X b (p_store p ! b) (p_store ?p ! b)" if b: "b < length (p_store p)" for b
    using assms b by (cases "b = a") (simp_all add: notify_nth upd_rec_nth evolves_at_def drained_def)
  then show ?thesis by (simp add: evolves_def)
qed

lemma view_upd:
  assumes "a < length (p_store p)" and "r_retired (f (p_store p ! a)) = r_retired (p_store p ! a)"
    and "r_backend (f (p_store p ! a)) = r_backend (p_store p ! a)" and "r_health (f (p_store p ! a)) = r_health (p_store p ! a)"
    and "r_draining (f (p_store p ! a)) = r_draining (p_store p ! a)" and "r_quarantinedUntil (f (p_store p ! a)) = r_quarantinedUntil (p_store p ! a)"
    and "\<And>i a. find_rec p i = Some a \<Longrightarrow> a < length (p_store p)"
  shows "selection_view (upd_rec a f p) = selection_view p" and "selection_view (notifyLocked b p) = selection_view p"
proof -
  show "selection_view (upd_rec a f p) = selection_view p"
  proof (rule ext)
    fix i
    show "selection_view (upd_rec a f p) i = selection_view p i"
      using assms(2-6) assms(7) [of i] by (auto simp: selection_view_def upd_rec_nth Let_def split: option.split)
  qed
  show "selection_view (notifyLocked b p) = selection_view p"
  proof (rule ext)
    fix i
    show "selection_view (notifyLocked b p) i = selection_view p i"
      using assms(7) [of i] by (auto simp: selection_view_def notify_nth Let_def split: option.split)
  qed
qed

text \<open>An update that leaves the view of its record alone, with and without a notification.\<close>

definition same_view :: "pool_record \<Rightarrow> pool_record \<Rightarrow> bool" where
  "same_view r r' \<longleftrightarrow> r_retired r' = r_retired r \<and> r_backend r' = r_backend r \<and> r_health r' = r_health r \<and> r_draining r' = r_draining r
     \<and> r_quarantinedUntil r' = r_quarantinedUntil r \<and> r_changed r' = r_changed r \<and> (r_retirementDrain r' \<longrightarrow> r_retirementDrain r)"

lemma evolves_notify:
  assumes inv: "pool_inv_but Y p pins" and a: "a < length (p_store p)" and f: "same_view (p_store p ! a) (f (p_store p ! a))"
    and l: "drained (p_store p ! a) \<Longrightarrow> set (r_leases (f (p_store p ! a))) \<subseteq> set (r_leases (p_store p ! a))"
  shows "evolves X p (notifyLocked a (upd_rec a f p))"
proof -
  let ?p = "notifyLocked a (upd_rec a f p)"
  have "evolves_at X b (p_store p ! b) (p_store ?p ! b)" if b: "b < length (p_store p)" for b
    using f l b by (cases "b = a") (auto simp: notify_nth upd_rec_nth evolves_at_def drained_def same_view_def)
  moreover have "selection_view (upd_rec a f p) = selection_view p"
    using f pool_invD(2) [OF inv] by (intro view_upd(1) [OF a]) (auto simp: same_view_def)
  moreover have "selection_view ?p = selection_view (upd_rec a f p)"
    using pool_invD(2) [OF inv] by (intro view_upd(2) [where a = a and f = id]) (auto simp: a)
  ultimately show ?thesis by (simp add: evolves_def)
qed

lemma evolves_silent:
  assumes inv: "pool_inv_but Y p pins" and a: "a < length (p_store p)" and f: "same_view (p_store p ! a) (f (p_store p ! a))"
    and l: "r_leases (f (p_store p ! a)) = r_leases (p_store p ! a)"
  shows "evolves X p (upd_rec a f p)"
proof -
  have "evolves_at X b (p_store p ! b) (p_store (upd_rec a f p) ! b)" if b: "b < length (p_store p)" for b
    using f l b by (cases "b = a") (auto simp: upd_rec_nth evolves_at_def drained_def same_view_def)
  moreover have "selection_view (upd_rec a f p) = selection_view p"
    using f pool_invD(2) [OF inv] by (intro view_upd(1) [OF a]) (auto simp: same_view_def)
  ultimately show ?thesis by (simp add: evolves_def)
qed

lemma evolves_add: "evolves X p (add_record r p)"
  by (simp add: add_record_def evolves_def evolves_at_def notify_nth nth_append Let_def)

lemma evolves_cleanup: "evolves X p (cleanupRetiredLocked a p)"
proof -
  have "selection_view (cleanupRetiredLocked a p) i = selection_view p i" for i
    by (auto simp: cleanupRetiredLocked_def Let_def selection_view_def delete_conv' split: option.split)
  then have "selection_view (cleanupRetiredLocked a p) = selection_view p" ..
  then show ?thesis by (simp add: evolves_def evolves_at_def)
qed

section \<open>The operations\<close>

lemma find_current_Some: "find_current p i = Some a \<Longrightarrow> find_rec p i = Some a \<and> \<not> r_retired (p_store p ! a)"
  by (auto simp: find_current_def split: option.splits if_splits)

lemma update_sel [simp]:
  "r_backend (updateRecord r b) = b" "r_draining (updateRecord r b) = r_draining r" "r_retired (updateRecord r b) = r_retired r"
  "r_retirementDrain (updateRecord r b) = r_retirementDrain r" "r_leases (updateRecord r b) = r_leases r"
  "r_waiters (updateRecord r b) = r_waiters r" "r_quarantinedUntil (updateRecord r b) = r_quarantinedUntil r"
  "r_changed (updateRecord r b) = r_changed r"
  by (simp_all add: updateRecord_def)

lemma revive_sel [simp]:
  "r_backend (reviveLocked r) = r_backend r" "r_retired (reviveLocked r) = r_retired r"
  "r_leases (reviveLocked r) = r_leases r" "r_waiters (reviveLocked r) = r_waiters r" "\<not> r_retirementDrain (reviveLocked r)"
  "r_draining (reviveLocked r) = (r_draining r \<and> \<not> r_retirementDrain r)" "r_changed (reviveLocked r) = r_changed r"
  "r_quarantinedUntil (reviveLocked r) = r_quarantinedUntil r"
  by (simp_all add: reviveLocked_def)

text \<open>A step of the pool as the properties see it.\<close>

definition good_step :: "nat set \<Rightarrow> Pool \<Rightarrow> nat list \<Rightarrow> Pool \<Rightarrow> nat list \<Rightarrow> bool" where
  "good_step X p pins p' pins' \<longleftrightarrow> pool_inv p' pins' \<and> evolves X p p'"

lemma good_refl: "pool_inv p pins \<Longrightarrow> good_step X p pins p pins"
  by (simp add: good_step_def)

lemma good_trans: "good_step X p pins q pins' \<Longrightarrow> good_step X q pins' p' pins'' \<Longrightarrow> good_step X p pins p' pins''"
  unfolding good_step_def using evolves_trans by blast

text \<open>A change of one record of the map that notifies the whole pool.\<close>

lemma good_selection:
  assumes inv: "pool_inv p pins" and a: "find_rec p i = Some a"
    and f: "b_ID (r_backend (f (p_store p ! a))) = i" "r_waiters (f (p_store p ! a)) = r_waiters (p_store p ! a)"
      "r_leases (f (p_store p ! a)) = r_leases (p_store p ! a)" "r_changed (f (p_store p ! a)) = r_changed (p_store p ! a)"
      "rec_ok (p_nextLeaseID p) (f (p_store p ! a))" "r_retired (f (p_store p ! a)) \<longrightarrow> r_retired (p_store p ! a)"
      "a \<notin> X \<longrightarrow> drained (p_store p ! a) \<longrightarrow> drained (f (p_store p ! a))"
  shows "good_step X p pins (notifySelectionLocked a (upd_rec a f p)) pins"
proof -
  have la: "a < length (p_store p)" by (rule pool_invD(2) [OF inv a])
  have "pool_inv (upd_rec a f p) pins"
    using f pool_invD(9) [OF inv a] by (intro inv_upd [OF inv a]) (auto simp: lease_ids_def busy_def)
  moreover have "evolves X p (notifySelectionLocked a (upd_rec a f p))"
    using f pool_invD(3) [OF inv a] by (intro evolves_selection [OF la]) auto
  ultimately show ?thesis by (simp add: good_step_def)
qed

text \<open>What \<open>Upsert\<close> and \<open>replace\<close> leave of a record that was there before.\<close>

definition renewed :: "Backend \<Rightarrow> pool_record \<Rightarrow> pool_record \<Rightarrow> bool" where
  "renewed b r r' \<longleftrightarrow> r_backend r' = b \<and> \<not> r_retired r' \<and> r_leases r' = r_leases r \<and> r_waiters r' = r_waiters r
     \<and> r_draining r' = (r_draining r \<and> \<not> (r_retired r \<and> r_retirementDrain r))
     \<and> r_retirementDrain r' = (r_retirementDrain r \<and> \<not> r_retired r) \<and> r_changed r' = r_changed r
     \<and> r_quarantinedUntil r' = r_quarantinedUntil r"

lemma good_renew:
  assumes inv: "pool_inv p pins" and a: "find_rec p (b_ID b) = Some a" and f: "renewed b (p_store p ! a) (f (p_store p ! a))"
  shows "good_step X p pins (notifySelectionLocked a (upd_rec a f p)) pins"
  using f pool_invD(4) [OF inv pool_invD(2) [OF inv a]]
  by (intro good_selection [OF inv a]) (auto simp: renewed_def rec_ok_def lease_ids_def drained_def)

lemma good_add:
  assumes inv: "pool_inv p pins" and fresh: "find_rec p (b_ID (r_backend r)) = None"
    and r: "r_leases r = []" "r_waiters r = 0" "\<not> r_retired r" "\<not> r_retirementDrain r"
  shows "good_step X p pins (add_record r p) pins"
  using inv_add [OF assms] evolves_add by (simp add: good_step_def)

lemma new_sel [simp]:
  "r_backend (newRecord b) = b" "r_leases (newRecord b) = []" "r_waiters (newRecord b) = 0" "\<not> r_retired (newRecord b)"
  "\<not> r_retirementDrain (newRecord b)" "\<not> r_draining (newRecord b)" "r_health (newRecord b) = HealthUnknown"
  by (simp_all add: newRecord_def)

lemma upsert_cases:
  assumes "pool_Upsert b now p = (r, p')"
  obtains x where "r = Inl x" and "p' = p"
  | v where "normalizeBackend b = Inr v" and "find_rec p (b_ID v) = None" and "p' = add_record (newRecord v) p"
  | v a f where "normalizeBackend b = Inr v" and "find_rec p (b_ID v) = Some a" and "p' = notifySelectionLocked a (upd_rec a f p)"
      and "renewed v (p_store p ! a) (f (p_store p ! a))"
proof (cases "normalizeBackend b")
  case (Inl x)
  then show thesis using assms that(1) [of x] by (simp add: pool_Upsert_def)
next
  case (Inr v)
  show thesis
  proof (cases "find_rec p (b_ID v)")
    case None
    then show thesis using assms Inr that(2) [OF Inr None] by (simp add: pool_Upsert_def Let_def)
  next
    case (Some a)
    define f where "f r = (let r' = updateRecord r v; r' = (if r_retired (p_store p ! a)
        then reviveLocked (r'\<lparr>r_revision := next_revision (r_revision r')\<rparr>) else r') in r'\<lparr>r_retired := False\<rparr>)" for r
    have "p' = notifySelectionLocked a (upd_rec a f p)"
      using assms Inr Some by (simp only: pool_Upsert_def sum.case option.case Let_def f_def [abs_def] prod.inject)
    moreover have "renewed v (p_store p ! a) (f (p_store p ! a))" by (simp add: renewed_def f_def Let_def)
    ultimately show thesis using that(3) [OF Inr Some] by blast
  qed
qed

lemma replace_cases:
  obtains "find_rec p (b_ID b) = None" and "replace_one admitNew now b p =
      add_record (if admitNew then (newRecord b)\<lparr>r_health := HealthHealthy\<rparr> else newRecord b) p"
  | a f where "find_rec p (b_ID b) = Some a" and "replace_one admitNew now b p = notifySelectionLocked a (upd_rec a f p)"
      and "renewed b (p_store p ! a) (f (p_store p ! a))"
proof (cases "find_rec p (b_ID b)")
  case None
  then show thesis using that(1) by (simp add: replace_one_def)
next
  case (Some a)
  define f where "f r = (let r' = updateRecord r b;
      r' = (if r_retired (p_store p ! a) then r'\<lparr>r_revision := next_revision (r_revision r')\<rparr> else r');
      r' = (if admitNew \<and> (r_retired (p_store p ! a) \<or> backendAddressChanged (r_backend (p_store p ! a)) b)
            then r'\<lparr>r_health := HealthHealthy, r_lastProbeAt := now, r_lastProbeError := []\<rparr> else r');
      r' = (if r_retired (p_store p ! a) then reviveLocked r' else r') in r'\<lparr>r_retired := False\<rparr>)" for r
  have "replace_one admitNew now b p = notifySelectionLocked a (upd_rec a f p)"
    using Some by (simp only: replace_one_def option.case Let_def f_def [abs_def])
  moreover have "renewed b (p_store p ! a) (f (p_store p ! a))" by (simp add: renewed_def f_def Let_def)
  ultimately show thesis using that(2) [OF Some] by blast
qed

lemma good_Upsert: "pool_inv p pins \<Longrightarrow> pool_Upsert b now p = (r, p') \<Longrightarrow> good_step X p pins p' pins"
  by (elim upsert_cases) (auto intro: good_refl good_add good_renew)

lemma good_replace_one: "pool_inv p pins \<Longrightarrow> good_step X p pins (replace_one admitNew now b p) pins"
  by (rule replace_cases [of p b admitNew now]) (auto intro!: good_add good_renew)

lemma good_retire:
  assumes inv: "pool_inv p pins" and a: "find_rec p i = Some a"
  shows "good_step X p pins (retire_record a p) pins"
proof -
  let ?q = "notifySelectionLocked a (upd_rec a retireLocked p)"
  have la: "a < length (p_store p)" by (rule pool_invD(2) [OF inv a])
  have "evolves X p ?q"
    by (rule evolves_selection [OF la]) (auto simp: drained_def retireLocked_def Let_def)
  then have "evolves X p (retire_record a p)"
    unfolding retire_record_def using evolves_cleanup evolves_trans by blast
  then show ?thesis using inv_retire [OF inv a] by (simp add: good_step_def)
qed

lemma find_retire:
  assumes inv: "pool_inv p pins" and a: "find_rec p i = Some a" and "j \<noteq> i"
  shows "find_rec (retire_record a p) j = find_rec p j"
proof -
  have la: "a < length (p_store p)" by (rule pool_invD(2) [OF inv a])
  have "b_ID (r_backend (p_store (notifySelectionLocked a (upd_rec a retireLocked p)) ! a)) = i"
    using pool_invD(3) [OF inv a] la by (simp add: notify_nth upd_rec_nth)
  then show ?thesis using assms(3) by (auto simp: retire_record_def cleanupRetiredLocked_def Let_def delete_conv')
qed

lemma good_retire_missing:
  "pool_inv p pins \<Longrightarrow> distinct (map fst xs) \<Longrightarrow> \<forall>(i, a) \<in> set xs. find_rec p i = Some a \<Longrightarrow>
     good_step X p pins (foldl (retire_missing seen) p xs) pins"
proof (induction xs arbitrary: p)
  case Nil
  then show ?case by (simp add: good_refl)
next
  case (Cons x xs)
  obtain i a where x: "x = (i, a)" by fastforce
  have a: "find_rec p i = Some a" using Cons.prems(3) x by simp
  have q: "good_step X p pins (retire_missing seen p x) pins"
    using good_retire [OF Cons.prems(1) a] good_refl [OF Cons.prems(1)] by (simp add: x retire_missing_def)
  have "\<forall>(j, b) \<in> set xs. find_rec (retire_missing seen p x) j = Some b"
  proof (intro ballI, clarify)
    fix j b assume j: "(j, b) \<in> set xs"
    then have "j \<noteq> i" using Cons.prems(2) x by force
    then show "find_rec (retire_missing seen p x) j = Some b"
      using find_retire [OF Cons.prems(1) a] Cons.prems(3) j x by (auto simp: retire_missing_def)
  qed
  then have "good_step X (retire_missing seen p x) pins (foldl (retire_missing seen) (retire_missing seen p x) xs) pins"
    using Cons q by (simp add: good_step_def)
  then show ?case using good_trans [OF q] by simp
qed

lemma good_replace_all:
  "pool_inv p pins \<Longrightarrow> good_step X p pins (fold (\<lambda>(k, b). replace_one admitNew (clock k) b) xs p) pins"
proof (induction xs arbitrary: p)
  case (Cons x xs)
  obtain k b where x: "x = (k, b)" by fastforce
  have q: "good_step X p pins (replace_one admitNew (clock k) b p) pins" by (rule good_replace_one [OF Cons.prems])
  then have "good_step X (replace_one admitNew (clock k) b p) pins
      (fold (\<lambda>(k, b). replace_one admitNew (clock k) b) xs (replace_one admitNew (clock k) b p)) pins"
    using Cons.IH by (simp add: good_step_def)
  then show ?case using good_trans [OF q] by (simp add: x)
qed (simp add: good_refl)

lemma good_replace:
  assumes inv: "pool_inv p pins" and res: "pool_replace bs admitNew clock p = (r, p')"
  shows "good_step X p pins p' pins"
proof (cases "normalize_all bs []")
  case (Inl x)
  then show ?thesis using res good_refl [OF inv] by (simp add: pool_replace_def)
next
  case (Inr vs)
  let ?q = "fold (\<lambda>(k, b). replace_one admitNew (clock k) b) (enumerate 0 vs) p"
  have q: "good_step X p pins ?q pins" by (rule good_replace_all [OF inv])
  then have i: "pool_inv ?q pins" by (simp add: good_step_def)
  have "good_step X ?q pins (foldl (retire_missing (map b_ID vs)) ?q (p_records ?q)) pins"
    by (rule good_retire_missing [OF i]) (use pool_invD(1) [OF i] in auto)
  then show ?thesis using good_trans [OF q] res Inr by (simp add: pool_replace_def Let_def)
qed

lemma good_Remove: "pool_inv p pins \<Longrightarrow> pool_Remove i p = (r, p') \<Longrightarrow> good_step X p pins p' pins"
  using good_refl good_retire by (auto simp: pool_Remove_def dest!: find_current_Some split: option.splits)

lemma good_choose: "pool_inv p pins \<Longrightarrow> choose_index cs p = (c, p') \<Longrightarrow> good_step X p pins p' pins"
  unfolding good_step_def
  by (auto simp: choose_index_def split: option.splits intro: inv_fields evolves_fields)

lemma good_acquire:
  assumes inv: "pool_inv p pins" and a: "find_rec p i = Some a" and d: "\<not> r_draining (p_store p ! a)"
    and res: "acquireLocked a owner now p = (r, p')"
  shows "good_step X p pins p' pins"
proof (cases "p_nextLeaseID p = MaxUint64")
  case True
  then show ?thesis using res good_refl [OF inv] by (simp add: acquireLocked_def)
next
  case False
  let ?n = "p_nextLeaseID p + 1" and ?f = "\<lambda>r. r\<lparr>r_leases := AList.update (p_nextLeaseID p + 1) owner (r_leases r)\<rparr>"
  have la: "a < length (p_store p)" by (rule pool_invD(2) [OF inv a])
  have "evolves X p (notifyLocked a (upd_rec a ?f p))"
    by (rule evolves_notify [OF inv la]) (simp_all add: same_view_def drained_def d)
  moreover have "evolves X (notifyLocked a (upd_rec a ?f p)) p'"
    by (rule evolves_fields) (use res False in \<open>auto simp: acquireLocked_def Let_def notifyLocked_def upd_rec_def\<close>)
  ultimately show ?thesis using inv_acquire [OF inv a res] evolves_trans unfolding good_step_def by blast
qed

lemma eligibleD: "eligibleLocked r excluded now \<Longrightarrow> \<not> r_retired r \<and> \<not> r_draining r \<and> r_health r = HealthHealthy
    \<and> r_quarantinedUntil r \<le> now \<and> b_ID (r_backend r) \<notin> set excluded"
  by (auto simp: eligibleLocked_def split: if_splits)

lemma good_commit:
  assumes inv: "pool_inv p pins" and res: "acquire_commit i owner model excluded now p = (r, p')"
  shows "good_step X p pins p' pins"
proof (cases "find_rec p i")
  case None
  then show ?thesis using res good_refl [OF inv] by (simp add: acquire_commit_def)
next
  case (Some a)
  obtain q p1 where q: "acquireLocked a owner now p = (q, p1)" by fastforce
  show ?thesis
  proof (cases "eligibleLocked (p_store p ! a) excluded now")
    case True
    then show ?thesis
      using res Some q good_acquire [OF inv Some _ q] good_refl [OF inv] eligibleD
      by (auto simp: acquire_commit_def split: if_splits option.splits)
  next
    case False
    then show ?thesis using res Some good_refl [OF inv] by (simp add: acquire_commit_def)
  qed
qed

lemma good_AcquireID:
  assumes inv: "pool_inv p pins" and res: "pool_AcquireID i owner now p = (r, p')"
  shows "good_step X p pins p' pins"
proof (cases "find_current p i")
  case None
  then show ?thesis using res good_refl [OF inv] by (auto simp: pool_AcquireID_def split: option.splits)
next
  case (Some a)
  obtain q p1 where q: "acquireLocked a owner now p = (q, p1)" by fastforce
  show ?thesis
    using res Some q good_acquire [OF inv _ _ q] good_refl [OF inv] eligibleD find_current_Some [OF Some]
    by (auto simp: pool_AcquireID_def split: if_splits option.splits)
qed

lemma good_Release:
  assumes inv: "pool_inv p pins" and res: "lease_Release l p = (l', p')" and a: "le_record l < length (p_store p)"
  shows "good_step X p pins p' pins"
proof -
  let ?a = "le_record l" and ?f = "\<lambda>r. r\<lparr>r_leases := AList.delete (le_id l) (r_leases r)\<rparr>"
  let ?q = "notifyLocked ?a (upd_rec ?a ?f p)"
  have q: "evolves X p ?q"
    by (rule evolves_notify [OF inv a]) (auto simp: same_view_def AList.delete_eq)
  have "evolves X p (cleanupRetiredLocked ?a ?q)" by (rule evolves_trans [OF q evolves_cleanup])
  then have "evolves X p p'" using res by (auto simp: lease_Release_def Let_def split: if_splits)
  then show ?thesis using inv_release [OF inv res a] by (simp add: good_step_def)
qed

lemma good_SetHealth:
  assumes inv: "pool_inv p pins" and res: "pool_SetHealth i health now p = (r, p')"
  shows "good_step X p pins p' pins"
proof (cases "find_current p i")
  case None
  then show ?thesis using res good_refl [OF inv] by (auto simp: pool_SetHealth_def split: option.splits if_splits)
next
  case (Some a)
  have a: "find_rec p i = Some a" using find_current_Some [OF Some] by simp
  let ?f = "\<lambda>r. r\<lparr>r_health := health, r_lastProbeAt := now,
    r_lastProbeError := (if health \<noteq> HealthUnhealthy then [] else r_lastProbeError r)\<rparr>"
  have "good_step X p pins (notifySelectionLocked a (upd_rec a ?f p)) pins"
    using pool_invD(3) [OF inv a] pool_invD(4) [OF inv pool_invD(2) [OF inv a]]
    by (intro good_selection [OF inv a]) (auto simp: rec_ok_def lease_ids_def drained_def)
  moreover have "p' = p \<or> p' = notifySelectionLocked a (upd_rec a ?f p)"
    using res Some by (auto simp: pool_SetHealth_def Let_def split: option.splits if_splits)
  ultimately show ?thesis using good_refl [OF inv] by blast
qed

lemma good_MarkPassiveFailure:
  assumes inv: "pool_inv p pins" and res: "MarkPassiveFailure i now p = (r, p')"
  shows "good_step X p pins p' pins"
proof (cases "find_current p i")
  case None
  then show ?thesis using res good_refl [OF inv] by (auto simp: MarkPassiveFailure_def split: option.splits)
next
  case (Some a)
  have a: "find_rec p i = Some a" using find_current_Some [OF Some] by simp
  let ?u = "now + pc_QuarantineWindow (p_config p)"
  let ?f = "\<lambda>r. r\<lparr>r_quarantinedUntil := (if r_quarantinedUntil r < ?u then ?u else r_quarantinedUntil r), r_lastFailureAt := now\<rparr>"
  have "good_step X p pins (notifySelectionLocked a (upd_rec a ?f p)) pins"
    using pool_invD(3) [OF inv a] pool_invD(4) [OF inv pool_invD(2) [OF inv a]]
    by (intro good_selection [OF inv a]) (auto simp: rec_ok_def lease_ids_def drained_def)
  moreover have "p' = p \<or> p' = notifySelectionLocked a (upd_rec a ?f p)"
    using res Some by (auto simp: MarkPassiveFailure_def Let_def split: option.splits)
  ultimately show ?thesis using good_refl [OF inv] by blast
qed

text \<open>Marking a record as draining, common to \<open>MarkDraining\<close> and the retained drains.\<close>

definition start_drain :: "nat \<Rightarrow> Pool \<Rightarrow> Pool" where
  "start_drain a p = (if \<not> r_draining (p_store p ! a) then notifySelectionLocked a (upd_rec a (\<lambda>r. r\<lparr>r_draining := True\<rparr>) p) else p)"

lemma start_drain_facts:
  assumes inv: "pool_inv p pins" and a: "find_rec p i = Some a"
  shows "good_step X p pins (start_drain a p) pins" and "find_rec (start_drain a p) j = find_rec p j"
    and "a < length (p_store (start_drain a p))" and "r_draining (p_store (start_drain a p) ! a)"
    and "r_leases (p_store (start_drain a p) ! a) = r_leases (p_store p ! a)" and "p_store (start_drain a p) ! a =
      (p_store p ! a)\<lparr>r_draining := True, r_changed := r_changed (p_store (start_drain a p) ! a)\<rparr>"
proof -
  have la: "a < length (p_store p)" by (rule pool_invD(2) [OF inv a])
  show "good_step X p pins (start_drain a p) pins"
    unfolding start_drain_def
    using good_refl [OF inv] good_selection [OF inv a, of "\<lambda>r. r\<lparr>r_draining := True\<rparr>"]
      pool_invD(3) [OF inv a] pool_invD(4) [OF inv la] by (auto simp: rec_ok_def lease_ids_def drained_def)
  show "find_rec (start_drain a p) j = find_rec p j" by (simp add: start_drain_def)
  show "a < length (p_store (start_drain a p))" using la by (simp add: start_drain_def)
  show "r_draining (p_store (start_drain a p) ! a)" "r_leases (p_store (start_drain a p) ! a) = r_leases (p_store p ! a)"
    "p_store (start_drain a p) ! a = (p_store p ! a)\<lparr>r_draining := True, r_changed := r_changed (p_store (start_drain a p) ! a)\<rparr>"
    using la by (simp_all add: start_drain_def notify_nth upd_rec_nth)
qed

lemma good_explicit:
  assumes inv: "pool_inv p pins" and a: "find_rec p i = Some a"
  shows "good_step X p pins (upd_rec a (\<lambda>r. r\<lparr>r_retirementDrain := False\<rparr>) p) pins"
proof -
  have la: "a < length (p_store p)" by (rule pool_invD(2) [OF inv a])
  let ?f = "\<lambda>r. r\<lparr>r_retirementDrain := False\<rparr>"
  have "pool_inv (upd_rec a ?f p) pins"
    using pool_invD(3,9) [OF inv a] pool_invD(4) [OF inv la] by (intro inv_upd [OF inv a]) (auto simp: rec_ok_def lease_ids_def busy_def)
  moreover have "evolves X p (upd_rec a ?f p)" by (rule evolves_silent [OF inv la]) (simp_all add: same_view_def)
  ultimately show ?thesis by (simp add: good_step_def)
qed

lemma good_MarkDraining:
  assumes inv: "pool_inv p pins" and res: "MarkDraining i now p = (r, p')"
  shows "good_step X p pins p' pins"
proof (cases "find_current p i")
  case None
  then show ?thesis using res good_refl [OF inv] by (auto simp: MarkDraining_def split: option.splits)
next
  case (Some a)
  have a: "find_rec p i = Some a" using find_current_Some [OF Some] by simp
  note s = start_drain_facts [OF inv a]
  have "good_step X (start_drain a p) pins (upd_rec a (\<lambda>r. r\<lparr>r_retirementDrain := False\<rparr>) (start_drain a p)) pins"
    using good_explicit [of "start_drain a p" pins i a] s(1,2) a by (simp add: good_step_def)
  moreover have "p' = p \<or> p' = upd_rec a (\<lambda>r. r\<lparr>r_retirementDrain := False\<rparr>) (start_drain a p)"
    using res Some by (auto simp: MarkDraining_def start_drain_def Let_def split: option.splits)
  ultimately show ?thesis using good_refl [OF inv] good_trans [OF s(1)] by blast
qed

lemma good_Undrain:
  assumes inv: "pool_inv p pins" and res: "Undrain i now p = (r, p')"
  shows "good_step {a. find_rec p i = Some a} p pins p' pins"
proof (cases "find_current p i")
  case None
  then show ?thesis using res good_refl [OF inv] by (auto simp: Undrain_def split: option.splits)
next
  case (Some a)
  have a: "find_rec p i = Some a" "\<not> r_retired (p_store p ! a)" using find_current_Some [OF Some] by simp_all
  let ?f = "\<lambda>r. r\<lparr>r_draining := False, r_retirementDrain := False\<rparr>"
  have "good_step {a. find_rec p i = Some a} p pins (notifySelectionLocked a (upd_rec a ?f p)) pins"
    using pool_invD(3) [OF inv a(1)] pool_invD(4) [OF inv pool_invD(2) [OF inv a(1)]] a
    by (intro good_selection [OF inv a(1)]) (auto simp: rec_ok_def lease_ids_def)
  moreover have "p' = p \<or> p' = notifySelectionLocked a (upd_rec a ?f p)"
    using res Some by (auto simp: Undrain_def Let_def split: option.splits if_splits)
  ultimately show ?thesis using good_refl [OF inv] by blast
qed

lemma good_pin:
  assumes inv: "pool_inv p pins" and a: "find_rec p i = Some a"
    and f: "f = (\<lambda>r. r\<lparr>r_waiters := r_waiters r + 1\<rparr>) \<or> f = (\<lambda>r. r\<lparr>r_retirementDrain := False, r_waiters := r_waiters r + 1\<rparr>)"
  shows "good_step X p pins (upd_rec a f p) (a # pins)"
proof -
  have la: "a < length (p_store p)" by (rule pool_invD(2) [OF inv a])
  have "pool_inv (upd_rec a f p) (a # pins)"
    using f pool_invD(4) [OF inv la] by (intro inv_pin [OF inv a]) (auto simp: rec_ok_def lease_ids_def)
  moreover have "evolves X p (upd_rec a f p)" using f by (intro evolves_silent [OF inv la]) (auto simp: same_view_def)
  ultimately show ?thesis by (simp add: good_step_def)
qed

lemma good_begin:
  assumes inv: "pool_inv p pins" and a: "find_rec p i = Some a" and res: "beginRetainedDrainLocked a now p = (d, p')"
  shows "good_step X p pins p' (a # pins)" and "rd_record d = a" and "find_rec p' j = find_rec p j"
proof -
  note s = start_drain_facts [OF inv a]
  let ?f = "\<lambda>r. r\<lparr>r_retirementDrain := False, r_waiters := r_waiters r + 1\<rparr>"
  have p': "p' = upd_rec a ?f (start_drain a p)" and "rd_record d = a"
    using res by (auto simp: beginRetainedDrainLocked_def start_drain_def Let_def)
  then show "rd_record d = a" "find_rec p' j = find_rec p j" using s(2) by simp_all
  have "good_step X (start_drain a p) pins p' (a # pins)"
    unfolding p' using good_pin [of "start_drain a p" pins i a ?f] s(1,2) a by (simp add: good_step_def)
  then show "good_step X p pins p' (a # pins)" by (rule good_trans [OF s(1)])
qed

lemma good_begin_drains:
  "pool_inv p pins \<Longrightarrow> \<forall>a \<in> set as. \<exists>i. find_rec p i = Some a \<Longrightarrow> begin_drains as now p = (ds, p') \<Longrightarrow>
     map rd_record ds = as \<and> good_step X p pins p' (rev as @ pins)"
proof (induction as arbitrary: p pins ds)
  case Nil
  then show ?case by (simp add: good_refl)
next
  case (Cons a as)
  obtain d q where q: "beginRetainedDrainLocked a now p = (d, q)" by fastforce
  obtain ds' where ds': "begin_drains as now q = (ds', p')" "ds = d # ds'"
    using Cons.prems(3) q by (auto simp: apfst_def map_prod_def split: prod.splits)
  obtain i where i: "find_rec p i = Some a" using Cons.prems(2) by auto
  note b = good_begin [OF Cons.prems(1) i q]
  have "map rd_record ds' = as \<and> good_step X q (a # pins) p' (rev as @ (a # pins))"
    using Cons.IH [OF _ _ ds'(1), of "a # pins"] b(1,3) Cons.prems(2) by (simp add: good_step_def)
  then show ?case using b(2) ds'(2) good_trans [OF b(1)] by simp
qed

lemma count_cong:
  assumes "mset pins = mset pins'"
  shows "pool_inv p pins = pool_inv p pins'"
proof -
  have "set pins = set pins'" using assms by (metis set_mset_mset)
  moreover have "count_list pins a = count_list pins' a" for a using assms by (metis count_mset)
  ultimately show ?thesis unfolding pool_inv_but_def by simp
qed

lemma good_pod:
  assumes inv: "pool_inv p pins" and res: "BeginRetainedPodDrain namespace name now p = (Inr ds, p')"
  shows "good_step X p pins p' (map rd_record ds @ pins)"
proof -
  let ?as = "filter (\<lambda>a. b_PodNamespace (r_backend (p_store p ! a)) = namespace \<and> b_PodName (r_backend (p_store p ! a)) = name) (map snd (p_records p))"
  obtain ds' where b: "begin_drains ?as now p = (ds', p')" and ds: "ds = sort_key (\<lambda>d. b_ID (bst_Backend (ds_Backend (rd_snapshot d)))) ds'"
    using res by (auto simp: BeginRetainedPodDrain_def Let_def split: option.splits prod.splits)
  have "\<forall>a \<in> set ?as. \<exists>i. find_rec p i = Some a" using pool_invD(1) [OF inv] by (auto intro: map_of_is_SomeI)
  from good_begin_drains [OF inv this b, of X]
  have g: "good_step X p pins p' (rev ?as @ pins)" and m: "map rd_record ds' = ?as" by simp_all
  have "mset (map rd_record ds @ pins) = mset (rev ?as @ pins)" unfolding m [symmetric] ds by simp
  then show ?thesis using g count_cong [of "map rd_record ds @ pins" "rev ?as @ pins" p'] unfolding good_step_def by blast
qed

lemma good_leave:
  assumes inv: "pool_inv p pins" and a: "a \<in> set pins"
  shows "good_step X p pins (wait_leave a p) (remove1 a pins)"
proof -
  have la: "a < length (p_store p)" by (rule pool_invD(7) [OF inv a])
  have "evolves X p (upd_rec a (\<lambda>r. r\<lparr>r_waiters := r_waiters r - 1\<rparr>) p)"
    by (rule evolves_silent [OF inv la]) (simp_all add: same_view_def)
  then have "evolves X p (wait_leave a p)" unfolding wait_leave_def by (rule evolves_trans [OF _ evolves_cleanup])
  then show ?thesis using inv_unpin [OF inv a] by (simp add: good_step_def)
qed

lemma good_probe:
  assumes inv: "pool_inv p pins" and res: "probeOne target err cancelled now p = (r, p')"
  shows "good_step X p pins p' pins"
proof (cases "find_current p (b_ID (pt_backend target))")
  case None
  then show ?thesis using res good_refl [OF inv] by (auto simp: probeOne_def Let_def split: if_splits)
next
  case (Some a)
  let ?i = "b_ID (pt_backend target)" and ?h = "if err = None then HealthHealthy else HealthUnhealthy"
  let ?f = "\<lambda>r. r\<lparr>r_health := ?h, r_lastProbeAt := now, r_lastProbeError := (case err of None \<Rightarrow> [] | Some e \<Rightarrow> boundedError e)\<rparr>"
  have a: "find_rec p ?i = Some a" using find_current_Some [OF Some] by simp
  have la: "a < length (p_store p)" by (rule pool_invD(2) [OF inv a])
  have g1: "good_step X p pins (notifySelectionLocked a (upd_rec a ?f p)) pins"
    using pool_invD(3) [OF inv a] pool_invD(4) [OF inv la] by (intro good_selection [OF inv a]) (auto simp: rec_ok_def lease_ids_def drained_def)
  then have "pool_inv (notifyLocked a (upd_rec a ?f p)) pins" by (simp add: good_step_def)
  moreover have "evolves X p (notifyLocked a (upd_rec a ?f p))" if "r_health (p_store p ! a) = ?h"
    using that by (intro evolves_notify [OF inv la]) (auto simp: same_view_def)
  ultimately have g2: "good_step X p pins (notifyLocked a (upd_rec a ?f p)) pins" if "r_health (p_store p ! a) = ?h"
    using that by (simp add: good_step_def)
  have "p' = p \<or> p' = (if r_health (p_store p ! a) \<noteq> ?h then notifySelectionLocked a (upd_rec a ?f p) else notifyLocked a (upd_rec a ?f p))"
    using res Some unfolding probeOne_def Let_def by (simp only: option.case split: if_splits) auto
  then show ?thesis using g1 g2 good_refl [OF inv] by (auto split: if_splits)
qed

section \<open>Reachable states\<close>

lemma pool_step_good:
  assumes inv: "pool_inv p pins" and st: "pool_step p pins label p' pins'"
  shows "good_step {a. \<exists>i. label = Some i \<and> find_rec p i = Some a} p pins p' pins'"
  using st
proof cases
  case (begin_drain i now d)
  then obtain a where a: "find_rec p i = Some a" "beginRetainedDrainLocked a now p = (d, p')"
    by (auto simp: BeginRetainedDrain_def apfst_def map_prod_def split: option.splits prod.splits)
  from good_begin(1,2) [OF inv this] show ?thesis using begin_drain by simp
next
  case (close_drain d d')
  then show ?thesis using good_leave [OF inv close_drain(5)] by (auto simp: drain_Close_def wait_leave_def)
next
  case (enter_wait i a)
  then have "find_rec p i = Some a" "p' = upd_rec a (\<lambda>r. r\<lparr>r_waiters := r_waiters r + 1\<rparr>) p"
    by (auto simp: wait_enter_def dest!: find_current_Some split: option.splits if_splits)
  then show ?thesis using good_pin [OF inv] enter_wait by simp
qed (use inv good_Upsert good_replace good_Remove good_choose good_commit good_AcquireID good_Release good_SetHealth good_MarkPassiveFailure
    good_MarkDraining good_Undrain good_pod good_leave good_probe in auto)

inductive pool_reach :: "PoolConfig \<Rightarrow> Pool \<Rightarrow> nat list \<Rightarrow> bool" for config :: PoolConfig where
  new_pool: "NewPool config initial clock = Inr p \<Longrightarrow> pool_reach config p []"
| step_pool: "pool_reach config p pins \<Longrightarrow> pool_step p pins label p' pins' \<Longrightarrow> pool_reach config p' pins'"

lemma pool_reach_inv: "pool_reach config p pins \<Longrightarrow> pool_inv p pins"
proof (induction rule: pool_reach.induct)
  case (new_pool initial clock p)
  let ?e = "\<lparr>p_config = configWithDefaults config, p_records = [], p_store = [], p_changed = 0, p_nextSelection = 0, p_nextLeaseID = 0\<rparr>"
  have "pool_replace initial False clock ?e = (None, p)"
    using new_pool by (auto simp: NewPool_def pool_Replace_def Let_def split: option.splits prod.splits)
  moreover have "pool_inv ?e []" by (auto simp: pool_inv_but_def)
  ultimately show ?case using good_replace by (fastforce simp: good_step_def)
next
  case (step_pool p pins label p' pins')
  then show ?case using pool_step_good by (fastforce simp: good_step_def)
qed

end
