(* ===== verification/Pool_Contract.thy ===== *)
theory Pool_Contract
  imports Pool_Runs
begin

text \<open>
  What the backend pool promises: leases are accounted for, waiters are woken, a drained backend gets no
  new lease, an acquired backend was eligible when it was leased, selection is fair, a reconciliation
  installs exactly the supplied backends, and outdated probe results are dropped.
\<close>

section \<open>A sample pool\<close>

definition demoURL :: goURL where
  "demoURL = \<lparr>u_Scheme = ''http'', u_Opaque = [], u_User = None, u_Host = ''h'', u_Path = [], u_RawPath = [], u_ForceQuery = False,
     u_RawQuery = [], u_Fragment = []\<rparr>"

definition demoBackend :: "backend_id \<Rightarrow> Backend" where
  "demoBackend i = \<lparr>b_ID = i, b_URL = Some demoURL, b_HealthURL = None, b_Model = [], b_ModelVersion = [], b_TemplateVerdict = VerdictSafe,
     b_PodNamespace = [], b_PodName = []\<rparr>"

definition demoPoolConfig :: PoolConfig where
  "demoPoolConfig = \<lparr>pc_QuarantineWindow = 0, pc_ProbeInterval = 0, pc_ProbeTimeout = 0, pc_ProbeConcurrency = 0, pc_Clock = True,
     pc_Choose = None, pc_Probe = False, pc_TickerFactory = True, pc_HTTPClient = True\<rparr>"

lemma trim_letter: "bv c < 0x80 \<Longrightarrow> \<not> unicode_is_space (bv c) \<Longrightarrow> trim_space [c] = [c]"
  by (simp add: trim_space_def trim_left.simps trim_right.simps decode_last_rune_def)

lemma letter_Validate: "0x21 \<le> bv c \<Longrightarrow> bv c < 0x7F \<Longrightarrow> bid_Validate [c] = None"
  by (simp add: bid_Validate_def trim_letter unicode_is_space_def runes_def unicode_is_control_def)

lemma demo_normal: "0x21 \<le> bv c \<Longrightarrow> bv c < 0x7F \<Longrightarrow> normalizeBackend (demoBackend [c]) = Inr (demoBackend [c])"
  by (simp add: normalizeBackend_def demoBackend_def demoURL_def letter_Validate web_url_def to_lower_def Let_def verdict_Valid_def verdict_defs
      validateBackendMetadata_def)

definition demoRecord :: "backend_id \<Rightarrow> pool_record" where
  "demoRecord i = (newRecord (demoBackend i))\<lparr>r_changed := 1\<rparr>"

definition demoPool :: Pool where
  "demoPool = \<lparr>p_config = configWithDefaults demoPoolConfig, p_records = [(''a'', 0), (''b'', 1)],
     p_store = [demoRecord ''a'', demoRecord ''b''], p_changed = 2, p_nextSelection = 0, p_nextLeaseID = 0\<rparr>"

lemma demo_sel [simp]: "b_ID (demoBackend i) = i" "r_backend (demoRecord i) = demoBackend i" "\<not> r_retired (demoRecord i)"
  by (simp_all add: demoBackend_def demoRecord_def)

lemma demo_pool: "NewPool demoPoolConfig [demoBackend ''a'', demoBackend ''b''] clock = Inr demoPool"
proof -
  have c: "pool_validateConfig (configWithDefaults demoPoolConfig) = None"
    by (simp add: demoPoolConfig_def configWithDefaults_def pool_DefaultConfig_def pool_validateConfig_def second_def)
  have "pool_Replace [demoBackend ''a'', demoBackend ''b''] clock
      \<lparr>p_config = configWithDefaults demoPoolConfig, p_records = [], p_store = [], p_changed = 0, p_nextSelection = 0, p_nextLeaseID = 0\<rparr> = (None, demoPool)"
    by (simp add: pool_Replace_def pool_replace_def demo_normal replace_one_def add_record_def notifySelectionLocked_def notifyLocked_def upd_rec_def
        retire_missing_def demoPool_def demoRecord_def newRecord_def Let_def)
  then show ?thesis using c by (simp add: NewPool_def Let_def)
qed

lemma demo_reach: "pool_reach demoPoolConfig demoPool []"
  by (rule pool_reach.new_pool [OF demo_pool])

section \<open>Accounting\<close>

text \<open>
  C8: In every reachable state a lease identifier belongs to one record only, every record with a lease or an
  open drain is in the map under its own identifier, and a retired record is draining and is kept only
  while it has a lease or an open drain.
\<close>
theorem leases_accounted:
  assumes "pool_reach config p pins" and "a < length (p_store p)"
  shows "(\<forall>b < length (p_store p). a \<noteq> b \<longrightarrow> lease_ids (p_store p ! a) \<inter> lease_ids (p_store p ! b) = {})
    \<and> (r_leases (p_store p ! a) \<noteq> [] \<or> a \<in> set pins \<longrightarrow> find_rec p (b_ID (r_backend (p_store p ! a))) = Some a)
    \<and> (find_rec p i = Some a \<longrightarrow> b_ID (r_backend (p_store p ! a)) = i)
    \<and> (r_retired (p_store p ! a) \<and> find_rec p i = Some a \<longrightarrow>
         r_draining (p_store p ! a) \<and> (r_leases (p_store p ! a) \<noteq> [] \<or> a \<in> set pins))"
proof -
  note D = pool_invD [OF pool_reach_inv [OF assms(1)]]
  have w: "r_waiters (p_store p ! a) \<noteq> 0 \<longleftrightarrow> a \<in> set pins" using D(5) [OF assms(2)] count_list_0_iff [of pins a] by simp
  then have b: "busy (p_store p ! a) \<longleftrightarrow> r_leases (p_store p ! a) \<noteq> [] \<or> a \<in> set pins" by (simp add: busy_def)
  have "r_retired (p_store p ! a) \<longrightarrow> r_draining (p_store p ! a)" using D(4) [OF assms(2)] by (simp add: rec_ok_def)
  then show ?thesis using D(8) [OF assms(2)] D(6) [OF assms(2)] D(3) [of i a] D(9) [of i a] b by blast
qed

theorem leases_accounted_witness:
  "find_rec demoPool ''a'' = Some 0 \<and> b_ID (r_backend (p_store demoPool ! 0)) = ''a''"
  using leases_accounted [OF demo_reach, of 0 "''a''"] by (simp add: demoPool_def)

section \<open>Notifications\<close>

text \<open>
  C11: No wake-up is lost. A step that changes what selection can read of any backend moves the pool's
  channel on, and a step that changes the leases or the drain of a record moves that record's channel on.
\<close>
theorem changes_are_signalled:
  assumes "pool_reach config p pins" and "pool_step p pins label p' pins'"
  shows "(selection_view p' \<noteq> selection_view p \<longrightarrow> p_changed p < p_changed p')
    \<and> (\<forall>a < length (p_store p). r_leases (p_store p' ! a) \<noteq> r_leases (p_store p ! a) \<or> r_draining (p_store p' ! a) \<noteq> r_draining (p_store p ! a)
         \<longrightarrow> r_changed (p_store p ! a) < r_changed (p_store p' ! a))"
proof -
  obtain X where e: "evolves X p p'"
    using pool_step_good [OF pool_reach_inv [OF assms(1)] assms(2)] unfolding good_step_def by blast
  have "r_changed (p_store p ! a) < r_changed (p_store p' ! a)"
    if "a < length (p_store p)" "r_leases (p_store p' ! a) \<noteq> r_leases (p_store p ! a) \<or> r_draining (p_store p' ! a) \<noteq> r_draining (p_store p ! a)" for a
  proof -
    have "evolves_at X a (p_store p ! a) (p_store p' ! a)" using e that(1) by (simp add: evolves_def)
    then show ?thesis using that(2) unfolding evolves_at_def by (metis le_neq_implies_less)
  qed
  moreover have "p_changed p < p_changed p'" if "selection_view p' \<noteq> selection_view p"
    using e that unfolding evolves_def by (metis le_neq_implies_less)
  ultimately show ?thesis by blast
qed

text \<open>The sample pool after a probe has found its first backend healthy.\<close>

definition healthyPool :: Pool where
  "healthyPool = snd (pool_SetHealth ''a'' HealthHealthy 7 demoPool)"

lemma healthy_step: "pool_step demoPool [] None healthyPool []"
  unfolding healthyPool_def by (rule pool_step.health [of "''a''" HealthHealthy 7 _ "fst (pool_SetHealth ''a'' HealthHealthy 7 demoPool)"]) simp

lemma healthy_eval:
  "healthyPool = demoPool\<lparr>p_store := [(demoRecord ''a'')\<lparr>r_health := HealthHealthy, r_lastProbeAt := 7, r_changed := 2\<rparr>, demoRecord ''b''], p_changed := 3\<rparr>"
  by (simp add: healthyPool_def pool_SetHealth_def letter_Validate health_Valid_def demoPool_def find_current_def demoRecord_def newRecord_def
      health_defs notifySelectionLocked_def notifyLocked_def upd_rec_def Let_def)

lemma healthy_reach: "pool_reach demoPoolConfig healthyPool []"
  by (rule pool_reach.step_pool [OF demo_reach healthy_step])

theorem changes_are_signalled_witness:
  "selection_view healthyPool ''a'' \<noteq> selection_view demoPool ''a'' \<and> p_changed demoPool < p_changed healthyPool"
proof -
  have "selection_view healthyPool ''a'' \<noteq> selection_view demoPool ''a''"
    by (simp add: selection_view_def healthy_eval demoPool_def demoRecord_def newRecord_def health_defs)
  then show ?thesis using changes_are_signalled [OF demo_reach healthy_step] by auto
qed

section \<open>Drains\<close>

text \<open>A run in which nobody undrains backend \<open>i\<close>.\<close>

inductive drain_run :: "backend_id \<Rightarrow> Pool \<Rightarrow> nat list \<Rightarrow> Pool \<Rightarrow> nat list \<Rightarrow> bool" for i :: backend_id and p :: Pool and pins :: "nat list" where
  start: "drain_run i p pins p pins"
| go: "drain_run i p pins q ps \<Longrightarrow> pool_step q ps label p' pins' \<Longrightarrow> label \<noteq> Some i \<Longrightarrow> drain_run i p pins p' pins'"

lemma drain_run_keeps:
  assumes "drain_run i p pins p' pins'" and "pool_inv p pins" and "a < length (p_store p)" and "b_ID (r_backend (p_store p ! a)) = i"
    and "drained (p_store p ! a)"
  shows "pool_inv p' pins' \<and> a < length (p_store p') \<and> b_ID (r_backend (p_store p' ! a)) = i \<and> drained (p_store p' ! a)
    \<and> set (r_leases (p_store p' ! a)) \<subseteq> set (r_leases (p_store p ! a))"
  using assms(1)
proof (induction rule: drain_run.induct)
  case start
  then show ?case using assms by simp
next
  case (go q ps label p' pins')
  have inv: "pool_inv q ps" and a: "a < length (p_store q)" using go.IH by simp_all
  let ?X = "{a. \<exists>j. label = Some j \<and> find_rec q j = Some a}"
  have g: "good_step ?X q ps p' pins'" by (rule pool_step_good [OF inv go.hyps(2)])
  then have e: "evolves_at ?X a (p_store q ! a) (p_store p' ! a)" "length (p_store q) \<le> length (p_store p')"
    using a by (simp_all add: good_step_def evolves_def)
  have "a \<notin> ?X" using pool_invD(3) [OF inv] go.IH go.hyps(3) by auto
  then show ?case using go.IH e g unfolding evolves_at_def good_step_def by auto
qed

text \<open>
  C9: A retained drain captures every lease that can still be outstanding. From the moment it begins, and
  until somebody undrains the backend, whatever the controller, probes and other clients do, the
  record gains no lease, so every lease left is one of the bindings in the snapshot; the record is never
  eligible, and while the drain is open the map keeps it under its identifier.
\<close>
theorem drain_captures_leases:
  assumes "pool_reach config p pins" and "BeginRetainedDrain i now p = (Inr d, p1)"
    and "drain_run i p1 (rd_record d # pins) p2 pins2"
  shows "(\<forall>(n, owner) \<in> set (r_leases (p_store p2 ! rd_record d)).
        \<lparr>bi_LeaseID = n, bi_Owner = owner\<rparr> \<in> set (ds_Bindings (rd_snapshot d)))
    \<and> \<not> eligibleLocked (p_store p2 ! rd_record d) excluded t
    \<and> (rd_record d \<in> set pins2 \<longrightarrow> find_rec p2 i = Some (rd_record d))"
proof -
  have inv: "pool_inv p pins" by (rule pool_reach_inv [OF assms(1)])
  obtain a where a: "find_rec p i = Some a" and b: "beginRetainedDrainLocked a now p = (d, p1)"
    using assms(2) by (auto simp: BeginRetainedDrain_def apfst_def map_prod_def split: option.splits prod.splits)
  note g = good_begin [OF inv a b] and s = start_drain_facts [OF inv a]
  have rd: "rd_record d = a" by (rule g(2))
  have inv1: "pool_inv p1 (a # pins)" using g(1) by (simp add: good_step_def)
  have f1: "find_rec p1 i = Some a" using g(3) a by simp
  let ?f = "\<lambda>r. r\<lparr>r_retirementDrain := False, r_waiters := r_waiters r + 1\<rparr>"
  have p1: "p1 = upd_rec a ?f (start_drain a p)" and bi: "ds_Bindings (rd_snapshot d) = bindingsLocked (p_store p1 ! a)"
    using b by (auto simp: beginRetainedDrainLocked_def start_drain_def Let_def)
  have dr: "drained (p_store p1 ! a)" using s(3,4) by (simp add: p1 upd_rec_nth drained_def)
  have "drain_run i p1 (a # pins) p2 pins2" using assms(3) rd by simp
  from drain_run_keeps [OF this inv1 pool_invD(2) [OF inv1 f1] pool_invD(3) [OF inv1 f1] dr]
  have k: "pool_inv p2 pins2" "a < length (p_store p2)" "b_ID (r_backend (p_store p2 ! a)) = i" "drained (p_store p2 ! a)"
    "set (r_leases (p_store p2 ! a)) \<subseteq> set (r_leases (p_store p1 ! a))" by simp_all
  have "find_rec p2 i = Some a" if "a \<in> set pins2"
  proof -
    have "r_waiters (p_store p2 ! a) \<noteq> 0" using pool_invD(5) [OF k(1,2)] that count_list_0_iff [of pins2 a] by simp
    then show ?thesis using pool_invD(6) [OF k(1,2)] k(3) by (simp add: busy_def)
  qed
  moreover have "\<not> eligibleLocked (p_store p2 ! a) excluded t" using k(4) by (simp add: eligibleLocked_def drained_def)
  ultimately show ?thesis using k(5) unfolding rd bi by (auto simp: bindingsLocked_def)
qed

theorem drain_captures_leases_witness:
  "\<exists>d p1. BeginRetainedDrain ''a'' 9 healthyPool = (Inr d, p1) \<and> \<not> eligibleLocked (p_store p1 ! rd_record d) [] 10"
proof -
  have f: "find_rec healthyPool ''a'' = Some 0" by (simp add: healthy_eval demoPool_def)
  obtain d p1 where "beginRetainedDrainLocked 0 9 healthyPool = (d, p1)" by fastforce
  then have b: "BeginRetainedDrain ''a'' 9 healthyPool = (Inr d, p1)" by (simp add: BeginRetainedDrain_def letter_Validate f)
  from drain_captures_leases [OF healthy_reach b drain_run.start] b show ?thesis by blast
qed

section \<open>Acquiring\<close>

lemma acquireLocked_Inr:
  assumes "acquireLocked a owner now p = (Inr l, p')" and "a < length (p_store p)"
  shows "le_record l = a" and "le_id l = p_nextLeaseID p + 1" and "le_owner l = owner" and "bst_Backend (le_backend l) = r_backend (p_store p ! a)"
    and "p_records p' = p_records p" and "p_nextLeaseID p' = p_nextLeaseID p + 1" and "p_nextSelection p' = p_nextSelection p"
    and "p_config p' = p_config p" and "length (p_store p') = length (p_store p)"
    and "\<And>b. b < length (p_store p) \<Longrightarrow> \<exists>c. p_store p' ! b =
      (if b = a then (p_store p ! a)\<lparr>r_leases := AList.update (p_nextLeaseID p + 1) owner (r_leases (p_store p ! a)), r_changed := c\<rparr> else p_store p ! b)"
    and "le_backend l = stateLocked (p_store p' ! a) now"
proof -
  let ?n = "p_nextLeaseID p + 1" and ?f = "\<lambda>r. r\<lparr>r_leases := AList.update (p_nextLeaseID p + 1) owner (r_leases r)\<rparr>"
  define q where "q = p\<lparr>p_nextLeaseID := ?n\<rparr>"
  have n: "p_nextLeaseID p \<noteq> MaxUint64" using assms(1) by (auto simp: acquireLocked_def)
  have p': "p' = notifyLocked a (upd_rec a ?f q)"
    and l: "l = \<lparr>le_record = a, le_id = ?n, le_owner = owner, le_backend = stateLocked (p_store p' ! a) now, le_released = False\<rparr>"
    using assms(1) n by (auto simp: acquireLocked_def Let_def q_def)
  have s: "p_store p' ! b = (if b = a then (p_store p ! a)\<lparr>r_leases := AList.update ?n owner (r_leases (p_store p ! a)),
      r_changed := Suc (r_changed (p_store p ! a))\<rparr> else p_store p ! b)" if "b < length (p_store p)" for b
    using that notify_nth [of b "upd_rec a ?f q" a] upd_rec_nth [of b q a ?f] upd_rec_nth [of a q a ?f] assms(2) by (simp add: p' q_def)
  show "\<exists>c. p_store p' ! b = (if b = a then (p_store p ! a)\<lparr>r_leases := AList.update ?n owner (r_leases (p_store p ! a)), r_changed := c\<rparr>
      else p_store p ! b)" if "b < length (p_store p)" for b
    using s [OF that] by blast
  show "le_record l = a" "le_id l = ?n" "le_owner l = owner" "bst_Backend (le_backend l) = r_backend (p_store p ! a)"
    using s [OF assms(2)] by (simp_all add: l stateLocked_def)
  show "le_backend l = stateLocked (p_store p' ! a) now" by (simp add: l)
  show "p_records p' = p_records p" "p_nextLeaseID p' = ?n" "p_nextSelection p' = p_nextSelection p" "p_config p' = p_config p"
    "length (p_store p') = length (p_store p)" by (simp_all add: p' q_def)
qed

text \<open>What other goroutines may do while the lock is free: any steps of the pool.\<close>

definition pool_steps_only :: "PoolConfig \<Rightarrow> (nat \<Rightarrow> Pool \<Rightarrow> Pool) \<Rightarrow> bool" where
  "pool_steps_only config interfere \<longleftrightarrow>
     (\<forall>k q ps. pool_reach config q ps \<longrightarrow> (\<exists>ps'. pool_reach config (interfere k q) ps'))"

lemma acquire_loop_safe:
  assumes "pool_steps_only config interfere"
  shows "pool_reach config p pins \<Longrightarrow> acquire_loop n k owner model excluded clock interfere p = (Inr l, p') \<Longrightarrow>
    \<exists>q a pins' j. pool_reach config q pins' \<and> find_rec q (b_ID (r_backend (p_store q ! a))) = Some a \<and> eligibleLocked (p_store q ! a) excluded (clock j)
      \<and> (\<forall>m. model = Some m \<longrightarrow> backendServesModel (r_backend (p_store q ! a)) m) \<and> acquireLocked a owner (clock j) q = (Inr l, p')"
proof (induction n arbitrary: k p pins)
  case (Suc n)
  obtain r q where at: "acquire_attempt owner model excluded (clock (2 * k)) (clock (2 * k + 1)) (interfere (2 * k)) p = (r, q)" by fastforce
  let ?cs = "case model of None \<Rightarrow> candidatesLocked excluded (clock (2 * k)) p | Some m \<Rightarrow> filterModelCandidates (candidatesLocked excluded (clock (2 * k)) p) m"
  obtain c p1 where c: "choose_index ?cs p = (c, p1)" by fastforce
  have "pool_reach config p1 pins" by (rule pool_reach.step_pool [OF Suc.prems(1) pool_step.choose [OF c]])
  then obtain pins1 where r1: "pool_reach config (interfere (2 * k) p1) pins1" using assms unfolding pool_steps_only_def by blast
  let ?q = "interfere (2 * k) p1"
  show ?case
  proof (cases r)
    case None
    then obtain i where "acquire_commit i owner model excluded (clock (2 * k + 1)) ?q = (None, q)"
      using at c by (auto simp: acquire_attempt_def Let_def split: if_splits)
    then have "pool_reach config q pins1" using pool_reach.step_pool [OF r1 pool_step.commit] by blast
    then obtain pins2 where "pool_reach config (interfere (2 * k + 1) q) pins2" using assms unfolding pool_steps_only_def by blast
    moreover have "acquire_loop n (Suc k) owner model excluded clock interfere (interfere (2 * k + 1) q) = (Inr l, p')"
      using Suc.prems(2) at None by simp
    ultimately show ?thesis by (rule Suc.IH)
  next
    case (Some r')
    then have "r' = Inr l" "q = p'" using Suc.prems(2) at by simp_all
    then obtain i where "acquire_commit i owner model excluded (clock (2 * k + 1)) ?q = (Some (Inr l), p')"
      using at c Some by (auto simp: acquire_attempt_def Let_def split: if_splits)
    then obtain a where a: "find_rec ?q i = Some a" "eligibleLocked (p_store ?q ! a) excluded (clock (2 * k + 1))"
      "\<forall>m. model = Some m \<longrightarrow> backendServesModel (r_backend (p_store ?q ! a)) m" "acquireLocked a owner (clock (2 * k + 1)) ?q = (Inr l, p')"
      by (auto simp: acquire_commit_def apfst_def map_prod_def split: option.splits if_splits prod.splits)
    have "find_rec ?q (b_ID (r_backend (p_store ?q ! a))) = Some a" using pool_invD(3) [OF pool_reach_inv [OF r1] a(1)] a(1) by simp
    then show ?thesis using r1 a(2-4) by blast
  qed
qed simp

text \<open>
  C10: Whatever other goroutines do while the chooser runs, the pool that \<open>Acquire\<close> leaves behind with a lease has that lease
  recorded for its owner on a current record that is not retired, healthy, not draining, out of quarantine by
  the clock reading of the lease's snapshot, not excluded and serving the model, and the lease's number is larger
  than that of every other lease in the pool.
\<close>
theorem acquire_safe:
  assumes "pool_reach config p pins" and "pool_steps_only config interfere"
    and "pool_acquire owner model excluded clock interfere p = (Inr l, p')" and "r = p_store p' ! le_record l"
  shows "find_rec p' (b_ID (r_backend r)) = Some (le_record l) \<and> map_of (r_leases r) (le_id l) = Some owner
    \<and> (\<exists>j. le_backend l = stateLocked r (clock j)) \<and> \<not> bst_Quarantined (le_backend l)
    \<and> \<not> r_retired r \<and> r_health r = HealthHealthy \<and> \<not> r_draining r \<and> b_ID (r_backend r) \<notin> set excluded
    \<and> (\<forall>m. model = Some m \<longrightarrow> b_Model (r_backend r) \<in> {[], m})
    \<and> (\<forall>b k. b < length (p_store p') \<and> k \<in> lease_ids (p_store p' ! b) \<longrightarrow> k < le_id l \<or> b = le_record l \<and> k = le_id l)"
proof -
  have "acquire_loop 64 0 owner model excluded clock interfere p = (Inr l, p')"
    using assms(3) by (simp add: pool_acquire_def split: option.splits)
  from acquire_loop_safe [OF assms(2,1) this] obtain q a pins' j where
    q: "pool_reach config q pins'" "find_rec q (b_ID (r_backend (p_store q ! a))) = Some a" "eligibleLocked (p_store q ! a) excluded (clock j)"
      "\<forall>m. model = Some m \<longrightarrow> backendServesModel (r_backend (p_store q ! a)) m" "acquireLocked a owner (clock j) q = (Inr l, p')"
    by blast
  have inv: "pool_inv q pins'" by (rule pool_reach_inv [OF q(1)])
  have la: "a < length (p_store q)" by (rule pool_invD(2) [OF inv q(2)])
  note L = acquireLocked_Inr [OF q(5) la]
  obtain c where r: "r = (p_store q ! a)\<lparr>r_leases := AList.update (le_id l) owner (r_leases (p_store q ! a)), r_changed := c\<rparr>"
    using L(1,2) L(10) [OF la] assms(4) by auto
  have old: "k < le_id l" if "b < length (p_store q)" "k \<in> lease_ids (p_store q ! b)" for b k
    using pool_invD(4) [OF inv that(1)] that(2) L(2) by (auto simp: rec_ok_def)
  have "k < le_id l \<or> b = le_record l \<and> k = le_id l" if "b < length (p_store p')" "k \<in> lease_ids (p_store p' ! b)" for b k
  proof (cases "b = a")
    case True
    then have "k = le_id l \<or> k \<in> lease_ids (p_store q ! a)" using that(2) r L(1) assms(4) by (auto simp: lease_ids_def dom_update)
    then show ?thesis using old [OF la] True L(1) by auto
  next
    case False
    then show ?thesis using old [of b k] that L(9) L(10) [of b] by auto
  qed
  moreover have "map_of (r_leases r) (le_id l) = Some owner" by (simp add: r update_conv')
  moreover have "find_rec p' (b_ID (r_backend r)) = Some (le_record l)" using q(2) L(1,5) by (simp add: r)
  moreover have "le_backend l = stateLocked r (clock j)" using L(1,11) assms(4) by simp
  moreover note eligibleD [OF q(3)]
  moreover have "\<not> bst_Quarantined (stateLocked r (clock j))" using eligibleD [OF q(3)] by (simp add: r stateLocked_def)
  ultimately show ?thesis using q(4) unfolding backendServesModel_def by (simp add: r) blast
qed

lemma acquire_first:
  assumes "acquire_attempt owner model excluded (clock 0) (clock (Suc 0)) (interfere 0) p = (Some r, p')"
  shows "acquire_loop 64 0 owner model excluded clock interfere p = (r, p')"
proof -
  have "(64 :: nat) = Suc 63" by simp
  then show ?thesis using assms by (simp only: acquire_loop.simps) simp
qed

theorem acquire_safe_witness:
  "\<exists>l p'. pool_acquire ''o'' None [] (\<lambda>_. 8) (\<lambda>_ p. p) healthyPool = (Inr l, p') \<and> map_of (r_leases (p_store p' ! le_record l)) (le_id l) = Some ''o''
     \<and> r_health (p_store p' ! le_record l) = HealthHealthy \<and> \<not> bst_Quarantined (le_backend l)"
proof -
  have c: "candidatesLocked [] 8 healthyPool = [stateLocked (p_store healthyPool ! 0) 8]"
    by (simp add: candidatesLocked_def map_records_def healthy_eval demoPool_def eligibleLocked_def demoRecord_def newRecord_def health_defs sort_states_def)
  have "\<exists>l p'. acquire_attempt ''o'' None [] 8 8 (\<lambda>p. p) healthyPool = (Some (Inr l), p')"
    by (simp add: acquire_attempt_def c choose_index_def acquire_commit_def stateLocked_def Let_def)
       (simp add: healthy_eval demoPool_def demoRecord_def newRecord_def eligibleLocked_def health_defs acquire_commit_def acquireLocked_def demoPoolConfig_def
         configWithDefaults_def pool_DefaultConfig_def Let_def)
  then have "\<exists>l p'. pool_acquire ''o'' None [] (\<lambda>_. 8) (\<lambda>_ p. p) healthyPool = (Inr l, p')"
    using acquire_first [of "''o''" None "[]" "\<lambda>_. 8" "\<lambda>_ p. p" healthyPool] by (auto simp: pool_acquire_def)
  then obtain l p' where a: "pool_acquire ''o'' None [] (\<lambda>_. 8) (\<lambda>_ p. p) healthyPool = (Inr l, p')" by blast
  have "pool_steps_only demoPoolConfig (\<lambda>_ p. p)" by (auto simp: pool_steps_only_def)
  from acquire_safe [OF healthy_reach this a refl] a show ?thesis by blast
qed

section \<open>Fair selection\<close>

definition candidate_ids :: "backend_id list \<Rightarrow> bytes option \<Rightarrow> time \<Rightarrow> Pool \<Rightarrow> backend_id list" where
  "candidate_ids excluded model now p =
     map (\<lambda>s. b_ID (bst_Backend s))
       (case model of None \<Rightarrow> candidatesLocked excluded now p | Some m \<Rightarrow> filterModelCandidates (candidatesLocked excluded now p) m)"

definition selectable :: "backend_id list \<Rightarrow> bytes option \<Rightarrow> time \<Rightarrow> pool_record \<Rightarrow> bool" where
  "selectable excluded model now r \<longleftrightarrow>
     eligibleLocked r excluded now \<and> (case model of None \<Rightarrow> True | Some m \<Rightarrow> backendServesModel (r_backend r) m)"

lemma candidate_ids_sorted:
  "candidate_ids excluded model now p = sort (map (\<lambda>r. b_ID (r_backend r)) (filter (selectable excluded model now) (map_records p)))"
proof -
  let ?k = "\<lambda>s. b_ID (bst_Backend s)" and ?st = "\<lambda>r. stateLocked r now"
  have srt: "map ?k (sort_states xs) = sort (map ?k xs)" for xs
    by (rule properties_for_sort [symmetric]) (simp_all add: sort_states_def)
  have f: "filterModelCandidates (sort_states xs) m = sort_states (filterModelCandidates xs m)" for xs m
    by (simp add: filterModelCandidates_def sort_states_def filter_sort)
  have k: "map ?k (map ?st rs) = map (\<lambda>r. b_ID (r_backend r)) rs" for rs by (simp add: stateLocked_def)
  show ?thesis
  proof (cases model)
    case None
    then have "selectable excluded model now = (\<lambda>r. eligibleLocked r excluded now)" by (simp add: selectable_def fun_eq_iff)
    then show ?thesis by (simp only: None candidate_ids_def candidatesLocked_def option.case srt k)
  next
    case (Some m)
    have "filterModelCandidates (map ?st (filter (\<lambda>r. eligibleLocked r excluded now) rs)) m = map ?st (filter (selectable excluded model now) rs)" for rs
      by (induction rs) (auto simp: filterModelCandidates_def selectable_def Some stateLocked_def)
    then show ?thesis by (simp only: Some candidate_ids_def candidatesLocked_def option.case f srt k)
  qed
qed

lemma candidate_record:
  assumes inv: "pool_inv p pins" and i: "i \<in> set (candidate_ids excluded model now p)"
  shows "\<exists>a. find_rec p i = Some a \<and> selectable excluded model now (p_store p ! a)"
proof -
  obtain j a where r: "(j, a) \<in> set (p_records p)" "selectable excluded model now (p_store p ! a)" "i = b_ID (r_backend (p_store p ! a))"
    using i by (auto simp: candidate_ids_sorted map_records_def)
  have "find_rec p j = Some a" using r(1) pool_invD(1) [OF inv] by simp
  then show ?thesis using r(2,3) pool_invD(3) [OF inv] by metis
qed

lemma candidate_ids_cong:
  assumes "p_records p' = p_records p" and "\<And>i a. (i, a) \<in> set (p_records p) \<Longrightarrow>
      r_backend (p_store p' ! a) = r_backend (p_store p ! a) \<and> selectable excluded model now (p_store p' ! a) = selectable excluded model now (p_store p ! a)"
  shows "candidate_ids excluded model now p' = candidate_ids excluded model now p"
proof -
  have "map (\<lambda>r. b_ID (r_backend r)) (filter (selectable excluded model now) (map (\<lambda>(_, a). p_store p' ! a) xs))
      = map (\<lambda>r. b_ID (r_backend r)) (filter (selectable excluded model now) (map (\<lambda>(_, a). p_store p ! a) xs))"
    if "set xs \<subseteq> set (p_records p)" for xs
    using that by (induction xs) (auto simp: assms(2))
  then show ?thesis unfolding candidate_ids_sorted map_records_def assms(1) by simp
qed

lemma acquire_alone:
  assumes inv: "pool_inv p pins" and ch: "pc_Choose (p_config p) = None" and ids: "candidate_ids excluded model now p \<noteq> []"
    and ex: "first_error bid_Validate excluded = None" and n: "p_nextLeaseID p < MaxUint64"
  shows "\<exists>l p'. pool_acquire owner model excluded (\<lambda>_. now) (\<lambda>_ p. p) p = (Inr l, p')
    \<and> b_ID (bst_Backend (le_backend l)) = candidate_ids excluded model now p ! (p_nextSelection p mod length (candidate_ids excluded model now p))
    \<and> pool_inv p' pins \<and> p_config p' = p_config p \<and> candidate_ids excluded model now p' = candidate_ids excluded model now p
    \<and> p_nextLeaseID p' = p_nextLeaseID p + 1 \<and> p_nextSelection p' = Suc (p_nextSelection p) mod 2 ^ 64"
proof -
  let ?cs = "case model of None \<Rightarrow> candidatesLocked excluded now p | Some m \<Rightarrow> filterModelCandidates (candidatesLocked excluded now p) m"
  let ?ids = "candidate_ids excluded model now p" and ?k = "p_nextSelection p"
  let ?i = "candidate_ids excluded model now p ! (p_nextSelection p mod length (candidate_ids excluded model now p))"
  define p1 where "p1 = p\<lparr>p_nextSelection := Suc ?k mod 2 ^ 64\<rparr>"
  have p1: "p_records p1 = p_records p" "p_store p1 = p_store p" "p_nextLeaseID p1 = p_nextLeaseID p" "p_config p1 = p_config p"
    "p_nextSelection p1 = Suc ?k mod 2 ^ 64" by (simp_all add: p1_def)
  have cs: "?ids = map (\<lambda>s. b_ID (bst_Backend s)) ?cs" by (simp only: candidate_ids_def)
  have len: "length ?cs = length ?ids" "?cs \<noteq> []" using ids unfolding cs by simp_all
  have lt: "?k mod length ?ids < length ?ids" using ids by simp
  have inv1: "pool_inv p1 pins" by (rule inv_fields [OF inv p1(1-3)])
  obtain a where a: "find_rec p ?i = Some a" "selectable excluded model now (p_store p ! a)"
    using candidate_record [OF inv nth_mem [OF lt]] by blast
  have la: "a < length (p_store p)" by (rule pool_invD(2) [OF inv a(1)])
  obtain l p' where acq: "acquireLocked a owner now p1 = (Inr l, p')" using n p1(3) by (auto simp: acquireLocked_def Let_def)
  have la1: "a < length (p_store p1)" using la p1(2) by simp
  note L = acquireLocked_Inr [OF acq la1]
  have ci: "b_ID (bst_Backend (?cs ! (?k mod length ?cs))) = ?i"
    using lt unfolding len(1) [symmetric] cs by simp
  have "acquire_commit ?i owner model excluded now p1 = (Some (Inr l), p')"
    using a acq p1 by (auto simp: acquire_commit_def selectable_def split: option.splits)
  moreover have "choose_index ?cs p = (int (?k mod length ?cs), p1)" by (simp add: choose_index_def ch p1_def)
  ultimately have "acquire_attempt owner model excluded now now (\<lambda>p. p) p = (Some (Inr l), p')"
    using len ci lt unfolding acquire_attempt_def Let_def by simp
  then have "pool_acquire owner model excluded (\<lambda>_. now) (\<lambda>_ p. p) p = (Inr l, p')"
    using acquire_first [of owner model excluded "\<lambda>_. now" "\<lambda>_ p. p" p] ex by (simp add: pool_acquire_def)
  moreover have "candidate_ids excluded model now p' = ?ids"
  proof (rule candidate_ids_cong)
    show "p_records p' = p_records p" using L(5) p1 by simp
    fix j b assume "(j, b) \<in> set (p_records p)"
    then have "b < length (p_store p1)" using pool_invD(1,2) [OF inv] p1 by simp
    from L(10) [OF this]
    show "r_backend (p_store p' ! b) = r_backend (p_store p ! b) \<and> selectable excluded model now (p_store p' ! b) = selectable excluded model now (p_store p ! b)"
      unfolding p1(2) by (cases "b = a") (auto simp: selectable_def eligibleLocked_def split: option.splits)
  qed
  moreover have "pool_inv p' pins" by (rule inv_acquire [OF inv1 _ acq]) (use a p1 in simp)
  moreover have "b_ID (bst_Backend (le_backend l)) = ?i" using L(4) pool_invD(3) [OF inv a(1)] p1 by simp
  ultimately show ?thesis using L(6-8) p1 by simp
qed

text \<open>Successive acquisitions by one goroutine, and the backends they return.\<close>

fun acquire_times :: "nat \<Rightarrow> bytes \<Rightarrow> bytes option \<Rightarrow> backend_id list \<Rightarrow> time \<Rightarrow> Pool \<Rightarrow> backend_id option list" where
  "acquire_times 0 owner model excluded now p = []"
| "acquire_times (Suc n) owner model excluded now p =
     (case pool_acquire owner model excluded (\<lambda>_. now) (\<lambda>_ p. p) p of
        (r, p') \<Rightarrow> (case r of Inl _ \<Rightarrow> None | Inr l \<Rightarrow> Some (b_ID (bst_Backend (le_backend l)))) # acquire_times n owner model excluded now p')"

lemma acquire_times_ids:
  "pool_inv p pins \<Longrightarrow> pc_Choose (p_config p) = None \<Longrightarrow> ids = candidate_ids excluded model now p \<Longrightarrow> ids \<noteq> [] \<Longrightarrow>
   first_error bid_Validate excluded = None \<Longrightarrow> p_nextLeaseID p + n \<le> MaxUint64 \<Longrightarrow> p_nextSelection p + n \<le> 2 ^ 64 \<Longrightarrow>
   acquire_times n owner model excluded now p = map (\<lambda>k. Some (ids ! (k mod length ids))) [p_nextSelection p..<p_nextSelection p + n]"
proof (induction n arbitrary: p)
  case (Suc n)
  obtain l p' where a: "pool_acquire owner model excluded (\<lambda>_. now) (\<lambda>_ p. p) p = (Inr l, p')"
    "b_ID (bst_Backend (le_backend l)) = ids ! (p_nextSelection p mod length ids)" "pool_inv p' pins" "p_config p' = p_config p"
    "candidate_ids excluded model now p' = ids" "p_nextLeaseID p' = p_nextLeaseID p + 1" "p_nextSelection p' = Suc (p_nextSelection p) mod 2 ^ 64"
    using acquire_alone [OF Suc.prems(1,2), of excluded model now owner] Suc.prems by auto
  show ?case
  proof (cases n)
    case 0
    then show ?thesis using a by simp
  next
    case (Suc n')
    then have "p_nextSelection p' = Suc (p_nextSelection p)" using a(7) Suc.prems(7) by simp
    then have "acquire_times n owner model excluded now p' = map (\<lambda>k. Some (ids ! (k mod length ids))) [Suc (p_nextSelection p)..<Suc (p_nextSelection p) + n]"
      using Suc.IH [of p'] a Suc.prems by simp
    then show ?thesis using a by (simp add: upt_conv_Cons del: upt_Suc)
  qed
qed simp

lemma rotation_mset: "0 < n \<Longrightarrow> image_mset (\<lambda>k. k mod n) (mset [s..<s + n]) = mset [0..<n]"
proof -
  assume n: "0 < n"
  have le: "x = y" if "x mod n = y mod n" "x \<le> y" "s \<le> x" "y < s + n" for x y
  proof -
    have "n dvd y - x" using that(1,2) by (metis mod_eq_dvd_iff_nat)
    then show ?thesis using that(2-4) by (auto dest: dvd_imp_le)
  qed
  have "inj_on (\<lambda>k. k mod n) {s..<s + n}"
  proof (rule inj_onI)
    fix x y assume "x \<in> {s..<s + n}" "y \<in> {s..<s + n}" "x mod n = y mod n"
    then show "x = y" using le [of x y] le [of y x] by (cases "x \<le> y") auto
  qed
  then have d: "distinct (map (\<lambda>k. k mod n) [s..<s + n])" by (simp add: distinct_map)
  have "set (map (\<lambda>k. k mod n) [s..<s + n]) = {0..<n}"
  proof (rule card_subset_eq)
    show "set (map (\<lambda>k. k mod n) [s..<s + n]) \<subseteq> {0..<n}" using n by auto
    show "card (set (map (\<lambda>k. k mod n) [s..<s + n])) = card {0..<n}" using distinct_card [OF d] by simp
  qed simp
  then show ?thesis using d by (metis atLeastLessThan_upt distinct_upt mset_map set_eq_iff_mset_eq_distinct)
qed

text \<open>
  C13: Selection is fair. While the eligible backends stay the same, any \<open>n\<close> successive acquisitions over
  \<open>n\<close> candidates lease every candidate exactly once, and an acquisition succeeds as long as there is
  a candidate.
\<close>
theorem round_robin_fair:
  assumes "pool_reach config p pins" and "pc_Choose (p_config p) = None" and "candidate_ids excluded model now p \<noteq> []"
    and "first_error bid_Validate excluded = None"
    and "p_nextLeaseID p + length (candidate_ids excluded model now p) \<le> MaxUint64"
    and "p_nextSelection p + length (candidate_ids excluded model now p) \<le> 2 ^ 64"
  shows "mset (acquire_times (length (candidate_ids excluded model now p)) owner model excluded now p)
    = image_mset Some (mset (candidate_ids excluded model now p))"
proof -
  let ?ids = "candidate_ids excluded model now p" and ?s = "p_nextSelection p"
  let ?n = "length (candidate_ids excluded model now p)"
  have "acquire_times ?n owner model excluded now p = map (\<lambda>k. Some (?ids ! (k mod ?n))) [?s..<?s + ?n]"
    by (rule acquire_times_ids [OF pool_reach_inv [OF assms(1)] assms(2) refl assms(3-6)])
  then have "mset (acquire_times ?n owner model excluded now p) = image_mset (\<lambda>j. Some (?ids ! j)) (image_mset (\<lambda>k. k mod ?n) (mset [?s..<?s + ?n]))"
    by (simp add: image_mset.compositionality comp_def)
  also have "\<dots> = image_mset (\<lambda>j. Some (?ids ! j)) (mset [0..<?n])" using rotation_mset [of ?n ?s] assms(3) by simp
  also have "\<dots> = image_mset Some (mset (map (\<lambda>j. ?ids ! j) [0..<?n]))" by (simp add: image_mset.compositionality comp_def)
  also have "\<dots> = image_mset Some (mset ?ids)" by (simp add: map_nth)
  finally show ?thesis .
qed

theorem round_robin_fair_witness:
  "mset (acquire_times 1 ''o'' None [] 8 healthyPool) = {#Some ''a''#}"
proof -
  have "candidatesLocked [] 8 healthyPool = [stateLocked (p_store healthyPool ! 0) 8]"
    by (simp add: candidatesLocked_def map_records_def healthy_eval demoPool_def eligibleLocked_def demoRecord_def newRecord_def health_defs sort_states_def)
  then have c: "candidate_ids [] None 8 healthyPool = [''a'']"
    by (simp add: candidate_ids_def stateLocked_def healthy_eval)
  have "pc_Choose (p_config healthyPool) = None" "p_nextLeaseID healthyPool = 0" "p_nextSelection healthyPool = 0"
    by (simp_all add: healthy_eval demoPool_def demoPoolConfig_def configWithDefaults_def Let_def)
  then show ?thesis using round_robin_fair [OF healthy_reach, of "[]" None 8 "''o''"] c by simp
qed

section \<open>Probes\<close>

lemma to_valid_valid: "length s \<le> n \<Longrightarrow> utf8_valid (to_valid_fuel n bad s)"
proof (induction n bad s rule: to_valid_fuel.induct)
  case (2 n bad s)
  show ?case
  proof (cases s)
    case (Cons c cs)
    show ?thesis
    proof (cases "decode_rune s = (RuneError, 1)")
      case True
      have r: "utf8_valid [CHR 0xEF, CHR 0xBF, CHR 0xBD]" by (simp add: utf8_valid.simps decode_rune.simps utf8_lead_def utf8_cont_def)
      have "utf8_valid (to_valid_fuel n True (drop 1 s))" using "2.IH"(1) "2.prems" True Cons by simp
      then show ?thesis using True Cons utf8_valid_concat [OF r] by simp
    next
      case False
      have "rune_size s \<noteq> 1 \<or> bv (hd s) < 0x80"
        using False Cons by (auto simp: decode_rune.simps split: if_splits option.splits prod.splits)
      then have e: "rune_enc (take (rune_size s) s)" by (intro rune_enc_take_first) (simp_all add: Cons)
      have "1 \<le> rune_size s" using rune_size_pos [of s] Cons by blast
      then have "length (drop (rune_size s) s) \<le> n" using "2.prems" unfolding length_drop by linarith
      then have "utf8_valid (to_valid_fuel n False (drop (rune_size s) s))" using "2.IH"(2) [OF _ False] Cons by blast
      then show ?thesis using False Cons utf8_valid_rune [OF e] by simp
    qed
  qed simp
qed simp

lemma truncate_spec:
  "utf8_valid s \<Longrightarrow> n < length s \<Longrightarrow> \<exists>k. truncate_valid n s = take k s \<and> k \<le> n \<and> n \<le> k + 3 \<and> utf8_valid (take k s)"
proof (induction n)
  case 0
  then show ?case by (intro exI [of _ 0]) simp
next
  case (Suc n)
  obtain j where j: "j \<le> Suc n" "Suc n \<le> j + 3" "rune_start (s ! j)" using utf8_valid_near_start [OF Suc.prems(1), of "Suc n"] Suc.prems(2) by blast
  have v: "utf8_valid (take j s)" using utf8_valid_split [OF Suc.prems(1), of j] j Suc.prems(2) by (simp add: utf8_aligned_def)
  have "\<exists>k. truncate_valid m s = take k s \<and> k \<le> m \<and> j \<le> k \<and> utf8_valid (take k s)" if "j \<le> m" for m
    using that
  proof (induction m)
    case (Suc m)
    show ?case
    proof (cases "utf8_valid (take (Suc m) s)")
      case True
      then show ?thesis using Suc.prems by (intro exI [of _ "Suc m"]) simp
    next
      case False
      then have "j \<le> m" using v Suc.prems by (metis le_SucE)
      then show ?thesis using Suc.IH False by (auto intro: le_SucI)
    qed
  qed (use v in \<open>auto intro!: exI [of _ 0]\<close>)
  from this [OF j(1)] show ?case using j(2) by (meson le_trans add_le_mono1)
qed

text \<open>
  C16: The error text a probe records is valid UTF-8 of at most \<open>maxProbeErrorBytes\<close> bytes; it is the
  repaired error message, cut by at most three bytes more than the limit demands.
\<close>
theorem probe_error_bounded:
  "utf8_valid (boundedError err) \<and> length (boundedError err) \<le> maxProbeErrorBytes
   \<and> (\<exists>k. boundedError err = take k (to_valid_utf8 err) \<and> (k < length (to_valid_utf8 err) \<longrightarrow> maxProbeErrorBytes \<le> k + 3))"
proof -
  have v: "utf8_valid (to_valid_utf8 err)" by (simp add: to_valid_utf8_def to_valid_valid)
  show ?thesis
  proof (cases "length (to_valid_utf8 err) \<le> maxProbeErrorBytes")
    case True
    then show ?thesis using v by (auto simp: boundedError_def Let_def intro!: exI [of _ "length (to_valid_utf8 err)"])
  next
    case False
    then obtain k where "truncate_valid maxProbeErrorBytes (to_valid_utf8 err) = take k (to_valid_utf8 err)" "k \<le> maxProbeErrorBytes"
      "maxProbeErrorBytes \<le> k + 3" "utf8_valid (take k (to_valid_utf8 err))"
      using truncate_spec [OF v, of maxProbeErrorBytes] by auto
    then show ?thesis using False by (auto simp: boundedError_def Let_def intro!: exI [of _ k])
  qed
qed

theorem probe_error_bounded_witness: "utf8_valid (boundedError [CHR 0xFF])"
  using probe_error_bounded [of "[CHR 0xFF]"] by blast

lemma next_revision_differs: "next_revision n \<noteq> n"
proof
  assume e: "next_revision n = n"
  then have "n < 2 ^ 64" unfolding next_revision_def by (metis mod_less_divisor zero_less_power zero_less_numeral)
  then consider "Suc n < 2 ^ 64" | "Suc n = 2 ^ 64" by linarith
  then show False using e by cases (auto simp: next_revision_def)
qed

lemma target_record:
  assumes "pool_inv p pins" and "find_current p i = Some a" and "target \<in> set (probeTargets p)" and "b_ID (pt_backend target) = i"
  shows "target = \<lparr>pt_backend = r_backend (p_store p ! a), pt_revision = r_revision (p_store p ! a)\<rparr>"
proof -
  obtain j c where c: "(j, c) \<in> set (p_records p)" "target = \<lparr>pt_backend = r_backend (p_store p ! c), pt_revision = r_revision (p_store p ! c)\<rparr>"
    using assms(3) by (auto simp: probeTargets_def map_records_def)
  have "find_rec p j = Some c" using pool_invD(1) [OF assms(1)] c(1) by simp
  then have "j = i" "find_rec p j = Some c" using pool_invD(3) [OF assms(1)] assms(4) c(2) by simp_all
  then show ?thesis using find_current_Some [OF assms(2)] c(2) by simp
qed

text \<open>
  C14: A probe result that was taken before an \<open>Upsert\<close> changed the backend's address is dropped: it does not touch
  the pool, and the health of the backend stays unknown.
\<close>
theorem stale_probe_dropped:
  assumes "pool_reach config p pins" and "target \<in> set (probeTargets p)" and "find_current p (b_ID (pt_backend target)) = Some a"
    and "normalizeBackend b = Inr v" and "b_ID v = b_ID (pt_backend target)" and "backendAddressChanged (pt_backend target) v"
    and "p' = snd (pool_Upsert b now p)"
  shows "\<not> pr_Applied (fst (probeOne target err cancelled now' p')) \<and> snd (probeOne target err cancelled now' p') = p'
    \<and> find_current p' (b_ID v) = Some a \<and> r_backend (p_store p' ! a) = v \<and> r_health (p_store p' ! a) = HealthUnknown"
proof -
  note inv = pool_reach_inv [OF assms(1)]
  have c: "find_rec p (b_ID v) = Some a" "\<not> r_retired (p_store p ! a)" using find_current_Some [OF assms(3)] assms(5) by simp_all
  have la: "a < length (p_store p)" by (rule pool_invD(2) [OF inv c(1)])
  note t = target_record [OF inv assms(3,2) refl]
  define f where "f r = (updateRecord r v)\<lparr>r_retired := False\<rparr>" for r
  have p': "p' = notifySelectionLocked a (upd_rec a f p)"
    using assms(4,7) c by (simp add: pool_Upsert_def Let_def f_def [abs_def])
  have r: "p_store p' ! a = (f (p_store p ! a))\<lparr>r_changed := Suc (r_changed (f (p_store p ! a)))\<rparr>" using la by (simp add: p' notify_nth upd_rec_nth)
  have ch: "backendAddressChanged (r_backend (p_store p ! a)) v" using assms(6) t by simp
  have n: "r_revision (p_store p' ! a) \<noteq> pt_revision target" using r ch t next_revision_differs by (simp add: f_def updateRecord_def)
  have f: "find_current p' (b_ID v) = Some a"
    using c(1) r ch by (simp add: find_current_def f_def updateRecord_def p' notifySelectionLocked_def notifyLocked_def upd_rec_def)
  then show ?thesis using n r ch assms(5) by (simp add: probeOne_def Let_def f_def updateRecord_def)
qed

definition otherURL :: goURL where
  "otherURL = demoURL\<lparr>u_Host := ''g''\<rparr>"

definition otherBackend :: Backend where
  "otherBackend = (demoBackend ''a'')\<lparr>b_URL := Some otherURL\<rparr>"

lemma other_normal: "normalizeBackend otherBackend = Inr otherBackend"
  by (simp add: normalizeBackend_def otherBackend_def otherURL_def demoBackend_def demoURL_def letter_Validate web_url_def to_lower_def Let_def
      verdict_Valid_def verdict_defs validateBackendMetadata_def)

lemma other_address: "backendAddressChanged (demoBackend ''a'') otherBackend"
  by (simp add: backendAddressChanged_def otherBackend_def otherURL_def demoBackend_def demoURL_def url_String_def EscapedPath_def Let_def
      url_escape_def escape_in_host_def escape_in_path_def alphanumeric_def)

lemma demo_target: "\<lparr>pt_backend = demoBackend ''a'', pt_revision = 1\<rparr> \<in> set (probeTargets demoPool)"
  by (simp add: probeTargets_def map_records_def demoPool_def demoRecord_def newRecord_def)

theorem stale_probe_dropped_witness:
  "\<not> pr_Applied (fst (probeOne \<lparr>pt_backend = demoBackend ''a'', pt_revision = 1\<rparr> None False 9 (snd (pool_Upsert otherBackend 8 demoPool))))"
proof -
  have "find_current demoPool ''a'' = Some 0" by (simp add: find_current_def demoPool_def)
  then show ?thesis using stale_probe_dropped [OF demo_reach demo_target _ other_normal, of 0 _ 8 None False 9] other_address
    by (simp add: otherBackend_def)
qed

text \<open>
  C15: The guard does not survive a removal. A record without leases and drains is deleted by \<open>Remove\<close>; the record that
  \<open>Upsert\<close> then creates starts at revision 1 again, so a probe of the first record, if it never changed its
  address, is applied to the new one, whatever its address.
\<close>
theorem recreated_backend_takes_old_probe:
  assumes "pool_reach config p pins" and "find_current p i = Some a" and "bid_Validate i = None"
    and "r_revision (p_store p ! a) = 1" and "r_leases (p_store p ! a) = []" and "a \<notin> set pins"
    and "target \<in> set (probeTargets p)" and "b_ID (pt_backend target) = i"
    and "normalizeBackend b = Inr v" and "b_ID v = i"
    and "p1 = snd (pool_Remove i p)" and "p2 = snd (pool_Upsert b now p1)"
  shows "find_rec p1 i = None \<and> pr_Applied (fst (probeOne target None False now' p2))
    \<and> (\<exists>c. find_current (snd (probeOne target None False now' p2)) i = Some c
          \<and> r_backend (p_store (snd (probeOne target None False now' p2)) ! c) = v
          \<and> r_health (p_store (snd (probeOne target None False now' p2)) ! c) = HealthHealthy)"
proof -
  note inv = pool_reach_inv [OF assms(1)]
  have c: "find_rec p i = Some a" "\<not> r_retired (p_store p ! a)" using find_current_Some [OF assms(2)] by simp_all
  have la: "a < length (p_store p)" by (rule pool_invD(2) [OF inv c(1)])
  have w: "r_waiters (p_store p ! a) = 0" using pool_invD(5) [OF inv la] assms(6) by (simp add: count_list_0_iff)
  have id: "b_ID (r_backend (p_store p ! a)) = i" by (rule pool_invD(3) [OF inv c(1)])
  have "p1 = retire_record a p" using assms(2,3,11) by (simp add: pool_Remove_def)
  then have p1: "find_rec p1 i = None"
    using la w id c(1) assms(5) by (simp add: retire_record_def cleanupRetiredLocked_def notify_nth upd_rec_nth retireLocked_def Let_def delete_conv')
  define c where "c = length (p_store p1)"
  have p2: "p2 = add_record (newRecord v) p1" using assms(9,10,12) p1 by (simp add: pool_Upsert_def Let_def)
  have f: "find_rec p2 i = Some c" "p_store p2 ! c = (newRecord v)\<lparr>r_changed := 1\<rparr>" "c < length (p_store p2)"
    using assms(10) by (simp_all add: p2 c_def add_record_def Let_def notify_nth newRecord_def update_conv')
  have t: "pt_revision target = 1" using target_record [OF inv assms(2,7,8)] assms(4) by simp
  have "find_current p2 i = Some c" using f by (simp add: find_current_def newRecord_def)
  then have "probeOne target None False now' p2 = (fst (probeOne target None False now' p2),
      notifySelectionLocked c (upd_rec c (\<lambda>r. r\<lparr>r_health := HealthHealthy, r_lastProbeAt := now', r_lastProbeError := []\<rparr>) p2))"
    and ap: "pr_Applied (fst (probeOne target None False now' p2))"
    using f t assms(8) by (simp_all add: probeOne_def Let_def newRecord_def health_defs)
  then have q: "snd (probeOne target None False now' p2) =
      notifySelectionLocked c (upd_rec c (\<lambda>r. r\<lparr>r_health := HealthHealthy, r_lastProbeAt := now', r_lastProbeError := []\<rparr>) p2)"
    by (metis snd_conv)
  show ?thesis using p1 ap f unfolding q
    by (intro conjI exI [of _ c]) (simp_all add: find_current_def notify_nth upd_rec_nth newRecord_def)
qed

theorem recreated_backend_takes_old_probe_witness:
  "backendAddressChanged (demoBackend ''a'') otherBackend
   \<and> pr_Applied (fst (probeOne \<lparr>pt_backend = demoBackend ''a'', pt_revision = 1\<rparr> None False 9
       (snd (pool_Upsert otherBackend 8 (snd (pool_Remove ''a'' demoPool))))))"
proof -
  have "find_current demoPool ''a'' = Some 0" by (simp add: find_current_def demoPool_def)
  moreover have "p_store demoPool ! 0 = demoRecord ''a''" by (simp add: demoPool_def)
  ultimately show ?thesis
    using recreated_backend_takes_old_probe [OF demo_reach _ _ _ _ _ demo_target _ other_normal _ refl refl, of "''a''" 0 9 8] other_address
    by (simp add: letter_Validate demoRecord_def newRecord_def otherBackend_def)
qed

section \<open>The catalogue\<close>

text \<open>What the pool is a catalogue of: the current backend of every identifier.\<close>

definition catalog :: "Pool \<Rightarrow> backend_id \<rightharpoonup> Backend" where
  "catalog p i = map_option (\<lambda>a. r_backend (p_store p ! a)) (find_current p i)"

lemma catalog_add:
  assumes "pool_inv p pins" and "find_rec p (b_ID (r_backend r)) = None" and "\<not> r_retired r"
  shows "catalog (add_record r p) = (catalog p)(b_ID (r_backend r) \<mapsto> r_backend r)"
proof
  fix j
  have s: "p_store (add_record r p) ! c = p_store p ! c" if "find_rec p j = Some c" for c
    using pool_invD(2) [OF assms(1) that] by (simp add: add_record_def Let_def notify_nth nth_append)
  have n: "p_store (add_record r p) ! length (p_store p) = r\<lparr>r_changed := Suc (r_changed r)\<rparr>"
    by (simp add: add_record_def Let_def notify_nth)
  have f: "find_rec (add_record r p) = (find_rec p)(b_ID (r_backend r) \<mapsto> length (p_store p))"
    by (rule ext) (simp add: add_record_def Let_def update_conv')
  show "catalog (add_record r p) j = ((catalog p)(b_ID (r_backend r) \<mapsto> r_backend r)) j"
  proof (cases "j = b_ID (r_backend r)")
    case True
    then show ?thesis using n assms(3) by (simp add: catalog_def find_current_def f)
  next
    case False
    then show ?thesis using s by (simp add: catalog_def find_current_def f split: option.splits)
  qed
qed

lemma catalog_upd:
  assumes "pool_inv_but X p pins" and "find_rec p i = Some a"
  shows "catalog (notifySelectionLocked a (upd_rec a f p)) =
    (catalog p)(i := if r_retired (f (p_store p ! a)) then None else Some (r_backend (f (p_store p ! a))))"
proof
  fix j
  have la: "a < length (p_store p)" by (rule pool_invD(2) [OF assms])
  have o: "p_store (notifySelectionLocked a (upd_rec a f p)) ! c = p_store p ! c" if "find_rec p j = Some c" "j \<noteq> i" for c
  proof -
    have "c \<noteq> a" using pool_invD(3) [OF assms(1)] that assms(2) by metis
    then show ?thesis using pool_invD(2) [OF assms(1) that(1)] by (simp add: notify_nth upd_rec_nth)
  qed
  show "catalog (notifySelectionLocked a (upd_rec a f p)) j =
    ((catalog p)(i := if r_retired (f (p_store p ! a)) then None else Some (r_backend (f (p_store p ! a))))) j"
  proof (cases "j = i")
    case True
    then show ?thesis using la assms(2) by (simp add: catalog_def find_current_def notify_nth upd_rec_nth)
  next
    case False
    then show ?thesis using o by (simp add: catalog_def find_current_def split: option.splits)
  qed
qed

lemma catalog_cleanup: "catalog (cleanupRetiredLocked a p) = catalog p"
  by (rule ext) (auto simp: catalog_def find_current_def cleanupRetiredLocked_def Let_def delete_conv' split: option.splits)

lemma catalog_retire:
  assumes "pool_inv p pins" and "find_rec p i = Some a"
  shows "catalog (retire_record a p) = (catalog p)(i := None)"
  using catalog_upd [OF assms, of retireLocked] by (simp add: retire_record_def catalog_cleanup retireLocked_def Let_def)

lemma catalog_replace_one:
  assumes "pool_inv p pins"
  shows "catalog (replace_one admitNew now b p) = (catalog p)(b_ID b \<mapsto> b)"
proof (rule replace_cases [of p b admitNew now])
  assume a: "find_rec p (b_ID b) = None"
    and r: "replace_one admitNew now b p = add_record (if admitNew then (newRecord b)\<lparr>r_health := HealthHealthy\<rparr> else newRecord b) p"
  show ?thesis
    unfolding r using catalog_add [OF assms, of "if admitNew then (newRecord b)\<lparr>r_health := HealthHealthy\<rparr> else newRecord b"] a
    by (simp add: newRecord_def split: if_splits)
next
  fix a f assume a: "find_rec p (b_ID b) = Some a" and r: "replace_one admitNew now b p = notifySelectionLocked a (upd_rec a f p)"
    and n: "renewed b (p_store p ! a) (f (p_store p ! a))"
  show ?thesis unfolding r using catalog_upd [OF assms a, of f] n by (simp add: renewed_def)
qed

lemma catalog_replace_all:
  "pool_inv p pins \<Longrightarrow> catalog (fold (\<lambda>(k, b). replace_one admitNew (clock k) b) kbs p) = catalog p ++ map_of (rev (map (\<lambda>(k, b). (b_ID b, b)) kbs))"
proof (induction kbs arbitrary: p)
  case (Cons kb kbs)
  obtain k b where kb: "kb = (k, b)" by fastforce
  have "pool_inv (replace_one admitNew (clock k) b p) pins" using good_replace_one [OF Cons.prems] by (simp add: good_step_def)
  from Cons.IH [OF this] show ?case by (simp add: kb catalog_replace_one [OF Cons.prems] map_add_def fun_eq_iff split: option.splits)
qed simp

lemma catalog_retire_missing:
  "pool_inv p pins \<Longrightarrow> distinct (map fst xs) \<Longrightarrow> \<forall>(i, a) \<in> set xs. find_rec p i = Some a \<Longrightarrow>
     catalog (foldl (retire_missing seen) p xs) = (\<lambda>i. if i \<in> fst ` set xs - set seen then None else catalog p i)"
proof (induction xs arbitrary: p)
  case (Cons x xs)
  obtain i a where x: "x = (i, a)" by fastforce
  have a: "find_rec p i = Some a" using Cons.prems(3) x by simp
  let ?q = "retire_missing seen p x"
  have g: "pool_inv ?q pins"
    using good_retire [OF Cons.prems(1) a, of "{}"] Cons.prems(1) by (simp add: x retire_missing_def good_step_def)
  have "\<forall>(j, b) \<in> set xs. find_rec ?q j = Some b"
  proof (intro ballI, clarify)
    fix j b assume jb: "(j, b) \<in> set xs"
    then have "j \<noteq> i" using Cons.prems(2) x by force
    then show "find_rec ?q j = Some b" using find_retire [OF Cons.prems(1) a] jb Cons.prems(3) by (auto simp: x retire_missing_def)
  qed
  note ih = Cons.IH [OF g _ this]
  have q: "catalog ?q = (if i \<in> set seen then catalog p else (catalog p)(i := None))"
    using catalog_retire [OF Cons.prems(1) a] a by (auto simp: x retire_missing_def catalog_def find_current_def fun_eq_iff)
  have "catalog (foldl (retire_missing seen) p (x # xs)) = (\<lambda>j. if j \<in> fst ` set xs - set seen then None else catalog ?q j)"
    using ih Cons.prems(2) by simp
  also have "\<dots> = (\<lambda>j. if j \<in> fst ` set (x # xs) - set seen then None else catalog p j)"
    unfolding q by (rule ext) (simp add: x)
  finally show ?case .
qed simp

lemma normalize_all_distinct:
  "normalize_all bs seen = Inr vs \<Longrightarrow> distinct (map b_ID vs) \<and> b_ID ` set vs \<inter> set seen = {}"
proof (induction bs seen arbitrary: vs rule: normalize_all.induct)
  case (2 b bs seen)
  obtain v where v: "normalizeBackend b = Inr v" using "2.prems" by (cases "normalizeBackend b") auto
  then have n: "b_ID v \<notin> set seen" using "2.prems" by (auto split: if_splits)
  then obtain ws where "normalize_all bs (b_ID v # seen) = Inr ws" "vs = v # ws"
    using "2.prems" v by (auto split: sum.splits)
  then show ?case using "2.IH" [OF v n] n by auto
qed simp

lemma catalog_replace:
  assumes "pool_inv p pins" and "normalize_all bs [] = Inr vs"
  shows "fst (pool_replace bs admitNew clock p) = None
    \<and> catalog (snd (pool_replace bs admitNew clock p)) = map_of (map (\<lambda>v. (b_ID v, v)) vs)"
proof -
  define q where "q = fold (\<lambda>(k, b). replace_one admitNew (clock k) b) (enumerate 0 vs) p"
  let ?m = "map (\<lambda>v. (b_ID v, v)) vs"
  have d: "distinct (map fst ?m)" using normalize_all_distinct [OF assms(2)] by (simp add: o_def)
  have e: "map (\<lambda>(k, b). (b_ID b, b)) (enumerate 0 vs) = ?m"
    by (rule nth_equalityI) (simp_all add: nth_enumerate_eq)
  have "distinct (map fst (rev ?m))" using d by (simp flip: rev_map)
  then have "map_of (rev ?m) = map_of ?m" using map_of_inject_set [of "rev ?m" ?m] d by simp
  then have q: "catalog q = catalog p ++ map_of ?m"
    using catalog_replace_all [OF assms(1), of admitNew clock "enumerate 0 vs"] by (simp add: q_def e)
  have inv: "pool_inv q pins" using good_replace_all [OF assms(1)] unfolding q_def good_step_def by blast
  have k: "distinct (map fst (p_records q))" by (rule pool_invD(1) [OF inv])
  have r: "catalog (foldl (retire_missing (map b_ID vs)) q (p_records q)) = map_of ?m"
  proof
    fix i
    have "catalog (foldl (retire_missing (map b_ID vs)) q (p_records q)) i =
        (if i \<in> fst ` set (p_records q) - b_ID ` set vs then None else catalog q i)"
      using catalog_retire_missing [OF inv k] k by auto
    moreover have "catalog q i = None" if "i \<notin> fst ` set (p_records q)"
    proof -
      have "find_rec q i = None" using that by (simp add: map_of_eq_None_iff)
      then show ?thesis by (simp add: catalog_def find_current_def)
    qed
    moreover have "map_of ?m i = None" if "i \<notin> b_ID ` set vs" using that by (simp add: map_of_eq_None_iff image_image)
    moreover have "catalog q i = map_of ?m i" if "i \<in> b_ID ` set vs"
    proof -
      have "map_of ?m i \<noteq> None" using that by (simp add: map_of_eq_None_iff image_image)
      then show ?thesis by (auto simp: q map_add_def)
    qed
    ultimately show "catalog (foldl (retire_missing (map b_ID vs)) q (p_records q)) i = map_of ?m i"
      by (cases "i \<in> b_ID ` set vs") auto
  qed
  show ?thesis using r assms(2) by (simp add: pool_replace_def q_def Let_def)
qed

lemma catalog_Upsert:
  assumes "pool_inv p pins" and "normalizeBackend b = Inr v"
  shows "catalog (snd (pool_Upsert b now p)) = (catalog p)(b_ID v \<mapsto> v)"
proof -
  obtain r p' where u: "pool_Upsert b now p = (r, p')" by fastforce
  from u show ?thesis
  proof (cases rule: upsert_cases)
    case (1 x)
    then show ?thesis using u assms(2) by (auto simp: pool_Upsert_def Let_def split: option.splits)
  next
    case (2 w)
    then show ?thesis using u assms catalog_add [OF assms(1), of "newRecord v"] by (simp add: newRecord_def)
  next
    case (3 w a f)
    then show ?thesis using u assms(2) catalog_upd [OF assms(1), of "b_ID v" a f] by (simp add: renewed_def)
  qed
qed

text \<open>
  C12: The pool is a catalogue. \<open>Upsert\<close> binds the identifier of the normalised backend and no other, \<open>Remove\<close> unbinds its
  identifier, and a reconciliation installs exactly the supplied backends; a call that fails changes nothing.
\<close>
theorem pool_is_catalogue:
  assumes "pool_reach config p pins"
  shows "(case normalizeBackend b of
        Inl x \<Rightarrow> pool_Upsert b now p = (Inl x, p)
      | Inr v \<Rightarrow> catalog (snd (pool_Upsert b now p)) = (catalog p)(b_ID v \<mapsto> v))
    \<and> (case bid_Validate i of
        Some x \<Rightarrow> pool_Remove i p = (Inl x, p)
      | None \<Rightarrow> fst (pool_Remove i p) = Inr (i \<in> dom (catalog p)) \<and> catalog (snd (pool_Remove i p)) = (catalog p)(i := None))
    \<and> (case normalize_all bs [] of
        Inl x \<Rightarrow> pool_replace bs admitNew clock p = (Some x, p)
      | Inr vs \<Rightarrow> fst (pool_replace bs admitNew clock p) = None
          \<and> catalog (snd (pool_replace bs admitNew clock p)) = map_of (map (\<lambda>v. (b_ID v, v)) vs))"
proof -
  note inv = pool_reach_inv [OF assms]
  have "fst (pool_Remove i p) = Inr (i \<in> dom (catalog p)) \<and> catalog (snd (pool_Remove i p)) = (catalog p)(i := None)" if "bid_Validate i = None"
  proof (cases "find_current p i")
    case None
    then show ?thesis using that by (auto simp: pool_Remove_def catalog_def)
  next
    case (Some a)
    then show ?thesis
      using that catalog_retire [OF inv, of i a] find_current_Some [OF Some] by (auto simp: pool_Remove_def catalog_def)
  qed
  then show ?thesis
    using catalog_Upsert [OF inv] catalog_replace [OF inv]
    by (auto simp: pool_Remove_def pool_Upsert_def pool_replace_def split: sum.splits option.splits)
qed

theorem pool_is_catalogue_witness:
  "catalog (snd (pool_Upsert otherBackend 8 demoPool)) = (catalog demoPool)(''a'' \<mapsto> otherBackend)"
  using pool_is_catalogue [OF demo_reach, of otherBackend 8] by (simp add: other_normal) (simp add: otherBackend_def)

end
