(* ===== verification/Journal_Sse.thy ===== *)
theory Journal_Sse
  imports Journal_Payload
begin

text \<open>
  The mapping of journal entries to downstream SSE frames (\<open>internal/proxy/journal_sse.go\<close>) and the
  frames of the process-local relay (\<open>internal/proxy/degradation.go\<close>) that the same writer emits. The
  lemmas show that a chunk's data reaches the client byte for byte and that a client that decodes what
  was written gets one event per visible entry, in order, each carrying its sequence number.
\<close>

section \<open>Mappings\<close>

definition streamOpenEvent :: bytes where "streamOpenEvent = ''streamweld.stream.open''"
definition streamMigrationEvent :: bytes where "streamMigrationEvent = ''streamweld.stream.migration''"
definition streamWarningEvent :: bytes where "streamWarningEvent = ''streamweld.stream.warning''"
definition streamErrorEvent :: bytes where "streamErrorEvent = ''streamweld.stream.error''"
definition streamDoneEvent :: bytes where "streamDoneEvent = ''streamweld.stream.done''"
definition streamStoppedEvent :: bytes where "streamStoppedEvent = ''streamweld.stream.stopped''"
definition readerErrorEvent :: bytes where "readerErrorEvent = ''streamweld.reader.error''"
definition doneSentinelData :: bytes where "doneSentinelData = ''[DONE]''"
definition readerLagErrorData :: bytes where
  "readerLagErrorData = CHR ''{'' # QUOTE # ''code'' @ [QUOTE, CHR '':'', QUOTE] @ ''reader_lag_exceeded'' @ [QUOTE, CHR ''}'']"

lemmas event_name_defs = streamOpenEvent_def streamMigrationEvent_def streamWarningEvent_def streamErrorEvent_def streamDoneEvent_def
  streamStoppedEvent_def readerErrorEvent_def

record journalSSEMapping =
  jm_eventType :: bytes
  jm_verboseOnly :: bool
  jm_terminal :: bool

definition journalSSEMappings :: "EntryKind \<Rightarrow> journalSSEMapping option" where
  "journalSSEMappings kind =
     (if kind = KindOpen then Some \<lparr>jm_eventType = streamOpenEvent, jm_verboseOnly = False, jm_terminal = False\<rparr>
      else if kind = KindChunk then Some \<lparr>jm_eventType = [], jm_verboseOnly = False, jm_terminal = False\<rparr>
      else if kind = KindMigration then Some \<lparr>jm_eventType = streamMigrationEvent, jm_verboseOnly = True, jm_terminal = False\<rparr>
      else if kind = KindWarning then Some \<lparr>jm_eventType = streamWarningEvent, jm_verboseOnly = True, jm_terminal = False\<rparr>
      else if kind = KindError then Some \<lparr>jm_eventType = streamErrorEvent, jm_verboseOnly = False, jm_terminal = True\<rparr>
      else if kind = KindDone then Some \<lparr>jm_eventType = streamDoneEvent, jm_verboseOnly = False, jm_terminal = True\<rparr>
      else if kind = KindStopped then Some \<lparr>jm_eventType = streamStoppedEvent, jm_verboseOnly = False, jm_terminal = True\<rparr>
      else None)"

datatype jsse_error =
    WriterNotInitialized | ErrInvalidJournalEntry | ErrMalformedJournalPayload | EncodeFailed "sse_error + write_error"

record SSEWriteResult =
  wr_Visible :: bool
  wr_Terminal :: bool

record JournalSSEWriter =
  jw_encoder :: bool
  jw_verbose :: bool

definition NewJournalSSEWriter :: "bool \<Rightarrow> bool \<Rightarrow> JournalSSEWriter" where
  "NewJournalSSEWriter writer verbose = \<lparr>jw_encoder = writer, jw_verbose = verbose\<rparr>"

definition downstreamPayload :: "Entry \<Rightarrow> jsse_error + bytes" where
  "downstreamPayload entry =
     (let trimmed = trim_space (e_Payload entry) in
      if \<not> utf8_valid (e_Payload entry) \<or> length trimmed < 2 \<or> hd trimmed \<noteq> CHR ''{'' \<or> last trimmed \<noteq> CHR ''}'' \<or> \<not> json_valid trimmed
        then Inl ErrMalformedJournalPayload
      else if e_Kind entry \<noteq> KindChunk then Inr (e_Payload entry)
      else
        (case json_unmarshal um_map None trimmed of
           None \<Rightarrow> Inl ErrMalformedJournalPayload
         | Some fs \<Rightarrow>
             (case map_of (case fs of None \<Rightarrow> [] | Some m \<Rightarrow> m) ''data'' of
                None \<Rightarrow> Inl ErrMalformedJournalPayload
              | Some rawData \<Rightarrow>
                  (case json_unmarshal (um_ptr [] um_string) None rawData of
                     Some (Some d) \<Rightarrow> Inr d
                   | _ \<Rightarrow> Inl ErrMalformedJournalPayload))))"

section \<open>Writing\<close>

text \<open>
  The writer answers the \<open>k\<close>-th frame of one call through \<open>out k\<close>. A call returns the bytes written and
  the error or the result.
\<close>

definition encode_event :: "writer \<Rightarrow> Event \<Rightarrow> bytes \<times> jsse_error option" where
  "encode_event out event = apsnd (map_option EncodeFailed) (Encode out event)"

definition WriteDoneSentinel :: "writer \<Rightarrow> JournalSSEWriter \<Rightarrow> bytes \<times> jsse_error option" where
  "WriteDoneSentinel out w =
     (if \<not> jw_encoder w then ([], Some WriterNotInitialized)
      else encode_event out (emptyEvent\<lparr>ev_Data := Some doneSentinelData, ev_HasData := True\<rparr>))"

definition entry_event :: "journalSSEMapping \<Rightarrow> Entry \<Rightarrow> bytes \<Rightarrow> Event" where
  "entry_event mapping entry payload =
     (let event = emptyEvent\<lparr>ev_Data := Some payload, ev_ID := append_dec (e_Seq entry), ev_HasData := True, ev_HasID := True\<rparr> in
      if jm_eventType mapping \<noteq> [] then event\<lparr>ev_Type := jm_eventType mapping, ev_HasType := True\<rparr> else event)"

definition WriteEntry :: "(nat \<Rightarrow> writer) \<Rightarrow> JournalSSEWriter \<Rightarrow> Entry \<Rightarrow> bytes \<times> (jsse_error + SSEWriteResult)" where
  "WriteEntry out w entry =
     (if \<not> jw_encoder w then ([], Inl WriterNotInitialized)
      else if e_Seq entry = 0 then ([], Inl ErrInvalidJournalEntry)
      else if e_Err entry \<noteq> None then ([], Inl ErrInvalidJournalEntry)
      else
        (case journalSSEMappings (e_Kind entry) of
           None \<Rightarrow> ([], Inl ErrInvalidJournalEntry)
         | Some mapping \<Rightarrow>
             (case downstreamPayload entry of
                Inl x \<Rightarrow> ([], Inl x)
              | Inr payload \<Rightarrow>
                  if jm_verboseOnly mapping \<and> \<not> jw_verbose w then ([], Inr \<lparr>wr_Visible = False, wr_Terminal = False\<rparr>)
                  else
                    (case encode_event (out 0) (entry_event mapping entry payload) of
                       (written, Some x) \<Rightarrow> (written, Inl x)
                     | (written, None) \<Rightarrow>
                         if e_Kind entry = KindDone
                         then (case WriteDoneSentinel (out 1) w of
                                 (sentinel, Some x) \<Rightarrow> (written @ sentinel, Inl x)
                               | (sentinel, None) \<Rightarrow> (written @ sentinel, Inr \<lparr>wr_Visible = True, wr_Terminal = jm_terminal mapping\<rparr>))
                         else (written, Inr \<lparr>wr_Visible = True, wr_Terminal = jm_terminal mapping\<rparr>)))))"

definition WriteReaderLagError :: "writer \<Rightarrow> JournalSSEWriter \<Rightarrow> bytes \<times> jsse_error option" where
  "WriteReaderLagError out w =
     (if \<not> jw_encoder w then ([], Some WriterNotInitialized)
      else encode_event out (emptyEvent\<lparr>ev_Data := Some readerLagErrorData, ev_Type := readerErrorEvent, ev_HasData := True, ev_HasType := True\<rparr>))"

section \<open>Frames without a sequence number\<close>

record degradedFrame =
  df_entry :: "Entry option"
  df_event :: Event
  df_terminal :: bool
  df_verboseOnly :: bool
  df_size :: int

definition WriteDegradedFrame :: "writer \<Rightarrow> JournalSSEWriter \<Rightarrow> degradedFrame \<Rightarrow> bytes \<times> (jsse_error + SSEWriteResult)" where
  "WriteDegradedFrame out w frame =
     (if \<not> jw_encoder w then ([], Inl WriterNotInitialized)
      else if df_verboseOnly frame \<and> \<not> jw_verbose w then ([], Inr \<lparr>wr_Visible = False, wr_Terminal = False\<rparr>)
      else
        (case encode_event out ((df_event frame)\<lparr>ev_ID := [], ev_HasID := False\<rparr>) of
           (written, Some x) \<Rightarrow> (written, Inl x)
         | (written, None) \<Rightarrow> (written, Inr \<lparr>wr_Visible = True, wr_Terminal = df_terminal frame\<rparr>)))"

definition offset_expired_fields :: "StreamID \<Rightarrow> (bytes \<times> bytes option) list" where
  "offset_expired_fields streamID = [(''code'', Some ''stream_offset_expired''), (''message'', Some ''stream contains an unjournaled gap''),
     (''stream_id'', Some streamID)]"

definition WriteOffsetExpiredError :: "writer \<Rightarrow> JournalSSEWriter \<Rightarrow> StreamID \<Rightarrow> bytes \<times> jsse_error option" where
  "WriteOffsetExpiredError out w streamID =
     (let payload = CHR ''{'' # members_text (offset_expired_fields streamID) @ ''}'' in
      case WriteDegradedFrame out w
             \<lparr>df_entry = None, df_event = emptyEvent\<lparr>ev_Type := streamErrorEvent, ev_Data := Some payload, ev_HasType := True, ev_HasData := True\<rparr>,
              df_terminal = True, df_verboseOnly = False, df_size = 0\<rparr> of
        (written, Inl x) \<Rightarrow> (written, Some x)
      | (written, Inr _) \<Rightarrow> (written, None))"

definition degradedEntrySize :: "Entry \<Rightarrow> int" where
  "degradedEntrySize entry = int (length (e_Payload entry)) + 128"

definition degradedEventSize :: "degradedFrame \<Rightarrow> int" where
  "degradedEventSize frame =
     int (length (nonNil (ev_Data (df_event frame))) + length (ev_Type (df_event frame)) + length (ev_ID (df_event frame))) + 64"

text \<open>A frame with the size its event gives it.\<close>

definition sized_frame :: "Event \<Rightarrow> bool \<Rightarrow> bool \<Rightarrow> degradedFrame" where
  "sized_frame event terminal verboseOnly =
     (let frame = \<lparr>df_entry = None, df_event = event, df_terminal = terminal, df_verboseOnly = verboseOnly, df_size = 0\<rparr>
      in frame\<lparr>df_size := degradedEventSize frame\<rparr>)"

definition degradedChunkFrame :: "Event \<Rightarrow> degradedFrame" where
  "degradedChunkFrame event = sized_frame (event\<lparr>ev_ID := [], ev_HasID := False\<rparr>) False False"

definition degradedEntryFrame :: "Entry \<Rightarrow> jsse_error + degradedFrame" where
  "degradedEntryFrame entry =
     (case journalSSEMappings (e_Kind entry) of
        None \<Rightarrow> Inl ErrInvalidJournalEntry
      | Some mapping \<Rightarrow>
          (case downstreamPayload \<lparr>e_Seq = 1, e_TS = 0, e_Kind = e_Kind entry, e_Payload = e_Payload entry, e_Err = None\<rparr> of
             Inl x \<Rightarrow> Inl x
           | Inr payload \<Rightarrow>
               Inr (sized_frame (emptyEvent\<lparr>ev_Data := Some payload, ev_Type := jm_eventType mapping, ev_HasData := True,
                      ev_HasType := (jm_eventType mapping \<noteq> [])\<rparr>) (jm_terminal mapping) (jm_verboseOnly mapping))))"

text \<open>The marshalled warning: its last member is an empty map.\<close>

definition degraded_warning_payload :: bytes where
  "degraded_warning_payload =
     CHR ''{'' # marshal_string ''code'' @ '':'' @ marshal_string ''journal_degraded'' @ '','' @ marshal_string ''message'' @ '':''
       @ marshal_string ''stream journaling failed; subsequent events are not resumable'' @ '','' @ marshal_string ''details'' @ '':'' @ CHR ''{'' # ''}}''"

definition degradedWarningFrame :: degradedFrame where
  "degradedWarningFrame =
     sized_frame (emptyEvent\<lparr>ev_Type := streamWarningEvent, ev_Data := Some degraded_warning_payload, ev_HasType := True, ev_HasData := True\<rparr>) False False"

definition degradedTerminalFrame :: "EntryKind \<Rightarrow> bytes \<Rightarrow> jsse_error + degradedFrame" where
  "degradedTerminalFrame kind payload =
     (if kind = KindDone then Inr (sized_frame (emptyEvent\<lparr>ev_Data := Some doneSentinelData, ev_HasData := True\<rparr>) True False)
      else degradedEntryFrame \<lparr>e_Seq = 0, e_TS = 0, e_Kind = kind, e_Payload = payload, e_Err = None\<rparr>)"

section \<open>Chunks\<close>

text \<open>The payload \<open>appendChunk\<close> marshals for upstream data and event type.\<close>

definition chunk_payload :: "bytes \<Rightarrow> bytes option \<Rightarrow> bytes" where
  "chunk_payload d upstreamEvent = CHR ''{'' # members_text [(''data'', Some d), (''upstream_event'', upstreamEvent)] @ ''}''"

lemma quote_byte_valid:
  assumes "bv c < 0x80"
  shows "utf8_valid (quote_byte c)"
proof (rule utf8_valid_all_ascii)
  have h: "bv (hex_digit n) < 0x80" if "n < 16" for n
    using hex_digit_props(1) [OF that] by (auto simp: isHex_def)
  have "bv c div 16 < 16" using assms by simp
  then show "list_all (\<lambda>c. bv c < 0x80) (quote_byte c)" using assms h by (auto simp: quote_byte_def)
qed

lemma quote_rune_valid:
  assumes "rune_enc r"
  shows "utf8_valid (quote_rune r)"
proof -
  have "utf8_valid r" using utf8_valid_rune [OF assms, of "[]"] by simp
  moreover have "utf8_valid (BACKSLASH # ''u202'' @ [hex_digit n])" if "n < 16" for n
    using hex_digit_props(1) [OF that] by (intro utf8_valid_all_ascii) (auto simp: isHex_def)
  ultimately show ?thesis by (simp add: quote_rune_def Let_def)
qed

lemma quote_body_valid: "utf8_valid s \<Longrightarrow> utf8_valid (quote_body s)"
proof (induction s rule: utf8_valid_induct)
  case (rune r t)
  show ?case
  proof (cases "length r = 1")
    case True
    then obtain c where "r = [c]" "bv c < 0x80" using rune.hyps by (cases r) auto
    then show ?thesis using rune.IH by (simp add: quote_body_eqs quote_byte_valid utf8_valid_concat)
  next
    case False
    then show ?thesis using rune by (simp add: quote_body_rune quote_rune_valid utf8_valid_concat)
  qed
qed (simp add: quote_body_eqs)

lemma marshal_string_valid: "utf8_valid s \<Longrightarrow> utf8_valid (marshal_string s)"
  using utf8_valid_concat [OF quote_body_valid, of s "[QUOTE]"] by (simp add: marshal_string_def)

lemma members_text_valid: "texts_valid kvs \<Longrightarrow> utf8_valid (members_text kvs)"
proof (induction kvs rule: members_text.induct)
  case (2 k v)
  then have "utf8_valid (field_text v)" by (auto simp: texts_valid_def field_text_def marshal_string_valid split: option.splits)
  then show ?case using 2 by (simp add: texts_valid_def marshal_string_valid utf8_valid_concat)
next
  case (3 k v kv kvs)
  then have "utf8_valid (field_text v)" by (auto simp: texts_valid_def field_text_def marshal_string_valid split: option.splits)
  then show ?case using 3 by (simp add: texts_valid_def marshal_string_valid utf8_valid_concat)
qed simp

lemma object_text_valid: "texts_valid kvs \<Longrightarrow> utf8_valid (CHR ''{'' # members_text kvs @ ''}'')"
  by (simp add: members_text_valid utf8_valid_concat)

lemma parse_value:
  assumes "json_first s = Some (v, [])" and "skipWhitespace s = s"
  shows "json_unmarshal f zero s = (case f zero v s of (x, ok) \<Rightarrow> if ok then Some x else None)"
  using assms by (simp add: json_unmarshal_def json_parse_def raw_of_def skipWhitespace_def)

lemma string_first: "utf8_valid s \<Longrightarrow> json_first (marshal_string s) = Some (JString s, [])"
  using value_marshal [of s "2 * length (marshal_string s)" 0 "[]"] skip_marshal [of s "[]"] by (simp add: json_first_def Let_def)

lemma string_unmarshal:
  "utf8_valid s \<Longrightarrow> json_unmarshal f zero (marshal_string s) = (case f zero (JString s) (marshal_string s) of (x, ok) \<Rightarrow> if ok then Some x else None)"
  using parse_value [OF string_first, of s f zero] skip_marshal [of s "[]"] by simp

lemma object_payload:
  assumes "texts_valid kvs" and "kvs \<noteq> []" and "e_Payload e = CHR ''{'' # members_text kvs @ ''}''" and "e_Kind e \<noteq> KindChunk"
  shows "downstreamPayload e = Inr (e_Payload e)"
  using assms object_parse(2) [OF assms(1,2)] object_text_valid [OF assms(1)] trim_braces [of "e_Payload e"]
  by (simp add: downstreamPayload_def Let_def)

lemma chunk_payload_data:
  assumes "utf8_valid d" and "case u of None \<Rightarrow> True | Some t \<Rightarrow> utf8_valid t"
    and "e_Kind e = KindChunk" and "e_Payload e = chunk_payload d u"
  shows "downstreamPayload e = Inr d"
proof -
  let ?kvs = "[(''data'', Some d), (''upstream_event'', u)]" and ?p = "chunk_payload d u"
  have v: "texts_valid ?kvs"
    using assms(1,2) by (simp add: texts_valid_def utf8_valid_all_ascii)
  have ne: "?kvs \<noteq> []" by simp
  have f: "json_first ?p = Some (JObject (map (\<lambda>(k, v). (k, field_value v, field_text v)) ?kvs), [])" "json_valid ?p"
    unfolding chunk_payload_def by (rule object_parse [OF v ne])+
  have t: "trim_space ?p = ?p" by (rule trim_braces) (simp_all add: chunk_payload_def)
  have s: "skipWhitespace ?p = ?p" by (simp add: chunk_payload_def skipWhitespace_def isWhitespace_def)
  have m: "json_unmarshal um_map None ?p = Some (Some [(''data'', marshal_string d), (''upstream_event'', field_text u)])"
    using parse_value [OF f(1) s, of um_map None] by (simp add: um_map_def field_text_def)
  have "json_unmarshal (um_ptr [] um_string) None (marshal_string d) = Some (Some d)"
    by (simp add: string_unmarshal [OF assms(1)] um_ptr_def um_string_def)
  then show ?thesis
    using f(2) t m object_text_valid [OF v, folded chunk_payload_def] assms(3,4)
    by (simp add: downstreamPayload_def Let_def) (simp add: chunk_payload_def)
qed

text \<open>
  C29: Upstream data reaches the client unchanged: the payload that is journaled for a chunk decodes to exactly the
  bytes the upstream event carried, whatever they are, as long as they are UTF-8.
\<close>
theorem chunk_payload_roundtrip:
  assumes "utf8_valid d" and "case u of None \<Rightarrow> True | Some t \<Rightarrow> utf8_valid t"
    and "e_Kind e = KindChunk" and "e_Payload e = chunk_payload d u"
  shows "downstreamPayload e = Inr d"
  by (rule chunk_payload_data [OF assms])

theorem chunk_payload_roundtrip_witness:
  "downstreamPayload \<lparr>e_Seq = 2, e_TS = 0, e_Kind = KindChunk, e_Payload = chunk_payload [CHR ''a'', QUOTE, LF] (Some ''delta''), e_Err = None\<rparr>
     = Inr [CHR ''a'', QUOTE, LF]"
  by (rule chunk_payload_roundtrip) (simp_all add: utf8_valid_all_ascii)

section \<open>What a client sees\<close>

definition done_sentinel :: Event where
  "done_sentinel = emptyEvent\<lparr>ev_Data := Some doneSentinelData, ev_HasData := True\<rparr>"

text \<open>The events of one entry, as a decoder reports them.\<close>

definition client_events :: "bool \<Rightarrow> Entry \<Rightarrow> Event list" where
  "client_events verbose entry =
     (case (journalSSEMappings (e_Kind entry), downstreamPayload entry) of
        (Some mapping, Inr payload) \<Rightarrow>
          if jm_verboseOnly mapping \<and> \<not> verbose then []
          else entry_event mapping entry payload # (if e_Kind entry = KindDone then [done_sentinel] else [])
      | _ \<Rightarrow> [])"

inductive decodes :: "Decoder \<Rightarrow> Event list \<Rightarrow> Decoder \<Rightarrow> bool" where
  decodes_nil: "decodes d [] d"
| decodes_more: "Decode d = (Inr e, d1) \<Longrightarrow> decodes d1 es d' \<Longrightarrow> decodes d (e # es) d'"

lemma decodes_append: "decodes d es d1 \<Longrightarrow> decodes d1 es' d2 \<Longrightarrow> decodes d (es @ es') d2"
  by (induction rule: decodes.induct) (auto intro: decodes_more)

lemma encode_event_ok:
  assumes "encode_event out e = (b, None)"
  shows "encode_frame e = Inr b"
  using assms by (auto simp: encode_event_def Encode_def dest: writeAll_prefix split: sum.splits prod.splits)

lemma event_normal: "normal_event (entry_event mapping entry payload) = entry_event mapping entry payload"
    "normal_event done_sentinel = done_sentinel" "ev_Retry (entry_event mapping entry payload) = 0" "ev_Retry done_sentinel = 0"
  by (auto simp: normal_event_def entry_event_def done_sentinel_def emptyEvent_def Let_def hasData_def hasType_def hasID_def hasRetry_def)

lemma decode_event:
  assumes "encode_frame e = Inr b" and "normal_event e = e" and "ev_Retry e = 0"
    and "between_frames d" and "d_input d = b @ rest" and "int (length b) \<le> d_maxEventBytes d"
  shows "\<exists>d'. decodes d [e] d' \<and> between_frames d' \<and> d_input d' = rest \<and> d_maxEventBytes d' = d_maxEventBytes d"
proof -
  have "int (wire_bytes b) \<le> d_maxEventBytes d" using assms(6) length_filter_le [of "\<lambda>c. c \<noteq> LF" b] unfolding wire_bytes_def by linarith
  then obtain d' where "Decode d = (Inr e, d')" "between_frames d'" "d_input d' = rest" "d_maxEventBytes d' = d_maxEventBytes d"
    using decode_encoded [OF assms(1) _ assms(4,5)] assms(2,3) by auto
  then show ?thesis by (blast intro: decodes.intros)
qed

lemma WriteEntry_decodes:
  assumes "WriteEntry out w e = (b, Inr res)"
    and "between_frames d" and "d_input d = b @ rest" and "int (length b) \<le> d_maxEventBytes d"
  shows "\<exists>d'. decodes d (client_events (jw_verbose w) e) d' \<and> between_frames d' \<and> d_input d' = rest \<and> d_maxEventBytes d' = d_maxEventBytes d"
proof -
  obtain mapping payload where m: "jw_encoder w" "journalSSEMappings (e_Kind e) = Some mapping" "downstreamPayload e = Inr payload"
    using assms(1) by (auto simp: WriteEntry_def split: if_splits option.splits sum.splits)
  show ?thesis
  proof (cases "jm_verboseOnly mapping \<and> \<not> jw_verbose w")
    case True
    then have "b = []" "client_events (jw_verbose w) e = []" using assms(1) m by (auto simp: WriteEntry_def client_events_def split: if_splits)
    then show ?thesis using assms(2,3) by (auto intro: decodes_nil)
  next
    case False
    obtain b1 x where x: "encode_event (out 0) (entry_event mapping e payload) = (b1, x)" by fastforce
    have xn: "x = None" using assms(1) m False x by (cases x) (auto simp: WriteEntry_def split: if_splits)
    note f = encode_event_ok [OF x [unfolded xn]]
    show ?thesis
    proof (cases "e_Kind e = KindDone")
      case True
      obtain b2 y where y: "encode_event (out 1) done_sentinel = (b2, y)" by fastforce
      have b: "y = None" "b = b1 @ b2"
        using assms(1) m False x xn True y by (auto simp: WriteEntry_def WriteDoneSentinel_def done_sentinel_def split: if_splits option.splits)
      note f2 = encode_event_ok [OF y [unfolded b(1)]]
      obtain d1 where d1: "decodes d [entry_event mapping e payload] d1" "between_frames d1" "d_input d1 = b2 @ rest" "d_maxEventBytes d1 = d_maxEventBytes d"
        using decode_event [OF f event_normal(1,3) assms(2), of "b2 @ rest"] assms(3,4) b(2) by auto
      obtain d2 where "decodes d1 [done_sentinel] d2" "between_frames d2" "d_input d2 = rest" "d_maxEventBytes d2 = d_maxEventBytes d"
        using decode_event [OF f2 event_normal(2,4) d1(2,3)] assms(4) b(2) d1(4) by auto
      then show ?thesis using decodes_append [OF d1(1)] m False True by (auto simp: client_events_def)
    next
      case nd: False
      then have "b = b1" using assms(1) m False x xn by (auto simp: WriteEntry_def split: if_splits)
      then show ?thesis using decode_event [OF f event_normal(1,3) assms(2)] assms(3,4) m False nd by (auto simp: client_events_def)
    qed
  qed
qed

text \<open>Entries written one after the other, each call of \<open>WriteEntry\<close> having succeeded.\<close>

inductive written :: "JournalSSEWriter \<Rightarrow> Entry list \<Rightarrow> bytes \<Rightarrow> bool" for w where
  written_nil: "written w [] []"
| written_more: "WriteEntry out w e = (b, Inr res) \<Longrightarrow> written w es bs \<Longrightarrow> written w (e # es) (b @ bs)"

lemma written_decodes:
  assumes "written w es b" and "between_frames d" and "d_input d = b @ rest" and "int (length b) \<le> d_maxEventBytes d"
  shows "\<exists>d'. decodes d (concat (map (client_events (jw_verbose w)) es)) d' \<and> between_frames d' \<and> d_input d' = rest"
  using assms
proof (induction arbitrary: d rule: written.induct)
  case written_nil
  then show ?case by (auto intro: decodes_nil)
next
  case (written_more out e b res es bs)
  obtain d1 where d1: "decodes d (client_events (jw_verbose w) e) d1" "between_frames d1" "d_input d1 = bs @ rest" "d_maxEventBytes d1 = d_maxEventBytes d"
    using WriteEntry_decodes [OF written_more.hyps(1) written_more.prems(1), of "bs @ rest"] written_more.prems by auto
  then obtain d2 where "decodes d1 (concat (map (client_events (jw_verbose w)) es)) d2" "between_frames d2" "d_input d2 = rest"
    using written_more.IH [OF d1(2,3)] written_more.prems by auto
  then show ?case using decodes_append [OF d1(1)] by auto
qed

lemma written_visible:
  assumes "written w es b"
  shows "map ev_ID (filter ev_HasID (concat (map (client_events (jw_verbose w)) es)))
    = map (\<lambda>e. append_dec (e_Seq e)) (filter (\<lambda>e. jw_verbose w \<or> e_Kind e \<notin> {KindMigration, KindWarning}) es)"
  using assms
proof (induction rule: written.induct)
  case (written_more out e b res es bs)
  obtain mapping payload where m: "journalSSEMappings (e_Kind e) = Some mapping" "downstreamPayload e = Inr payload"
    using written_more.hyps(1) by (auto simp: WriteEntry_def split: if_splits option.splits sum.splits)
  have "jm_verboseOnly mapping \<longleftrightarrow> e_Kind e \<in> {KindMigration, KindWarning}"
    using m(1) by (auto simp: journalSSEMappings_def kind_defs split: if_splits)
  then show ?case
    using written_more.IH m by (auto simp: client_events_def entry_event_def done_sentinel_def emptyEvent_def Let_def)
qed simp

text \<open>
  C28: A client that decodes what the writer wrote for a sequence of entries gets exactly the events of the visible
  entries, in order; the identifiers they carry are the sequence numbers, and only the \<open>[DONE]\<close> sentinel has none.
\<close>
theorem replay_decodes:
  assumes "written w es b" and "between_frames d" and "d_input d = b @ rest" and "int (length b) \<le> d_maxEventBytes d"
  shows "\<exists>evs d'. decodes d evs d' \<and> d_input d' = rest \<and> evs = concat (map (client_events (jw_verbose w)) es)
    \<and> map ev_ID (filter ev_HasID evs)
        = map (\<lambda>e. append_dec (e_Seq e)) (filter (\<lambda>e. jw_verbose w \<or> e_Kind e \<notin> {KindMigration, KindWarning}) es)
    \<and> (\<forall>ev \<in> set evs. \<not> ev_HasID ev \<longrightarrow> ev_Data ev = Some doneSentinelData)"
proof -
  have "\<forall>ev \<in> set (client_events v e). \<not> ev_HasID ev \<longrightarrow> ev_Data ev = Some doneSentinelData" for v e
    by (auto simp: client_events_def entry_event_def done_sentinel_def emptyEvent_def Let_def split: option.splits sum.splits if_splits)
  then show ?thesis using written_decodes [OF assms] written_visible [OF assms(1)] by fastforce
qed

lemma writeAll_whole: "writeAll (\<lambda>i s. (length s, None)) i b = (b, None)"
  by (cases "b = []") (simp_all add: writeAll.simps)

lemma entry_event_encodes:
  assumes "journalSSEMappings kind = Some mapping" and "utf8_valid payload" and "CR \<notin> set payload"
  shows "\<exists>b. encode_frame (entry_event mapping entry payload) = Inr b"
proof -
  have "dec_digit c \<Longrightarrow> bv c < 0x80 \<and> c \<noteq> CR \<and> c \<noteq> LF \<and> c \<noteq> CHR 0x00" for c by (auto simp: dec_digit_def)
  then have i: "validateSingleLine (append_dec n) True" for n
    using append_dec_props [of n] utf8_valid_all_ascii [of "append_dec n"]
    by (auto simp: list_all_iff validateSingleLine_def contains_def)
  have t: "validateSingleLine (jm_eventType mapping) False"
    using assms(1) by (auto simp: journalSSEMappings_def validateSingleLine_def contains_def event_name_defs utf8_valid_all_ascii split: if_splits)
  show ?thesis
    using i t assms(2,3)
    by (auto simp: encode_frame_def validateEvent_def contains_def entry_event_def emptyEvent_def Let_def hasData_def hasType_def hasID_def hasRetry_def)
qed

text \<open>A writer that takes everything writes every valid entry without a carriage return.\<close>

lemma WriteEntry_succeeds:
  assumes "jw_encoder w" and "e_Seq e \<noteq> 0" and "e_Err e = None" and "journalSSEMappings (e_Kind e) = Some mapping"
    and "downstreamPayload e = Inr payload" and "utf8_valid payload" and "CR \<notin> set payload"
  shows "\<exists>b res. WriteEntry (\<lambda>k i s. (length s, None)) w e = (b, Inr res)"
proof -
  have n: "encode_event (\<lambda>i s. (length s, None)) ev = (b, None)" if "encode_frame ev = Inr b" for ev b
    using that by (simp add: encode_event_def Encode_def writeAll_whole)
  obtain b where b: "encode_frame (entry_event mapping e payload) = Inr b" using entry_event_encodes [OF assms(4,6,7)] by blast
  have "encode_frame done_sentinel = Inr (''data: [DONE]'' @ [LF, LF])"
    by (simp add: encode_frame_def done_sentinel_def doneSentinelData_def emptyEvent_def hasData_def hasType_def hasID_def hasRetry_def validateEvent_def
        contains_def writeField_def utf8_valid_all_ascii)
  note s = n [OF this]
  show ?thesis
    using assms n [OF b] s by (auto simp: WriteEntry_def WriteDoneSentinel_def done_sentinel_def)
qed

theorem replay_decodes_witness:
  "\<exists>e b d evs d'. written (NewJournalSSEWriter True False) [e] b \<and> e_Seq e = 7 \<and> decodes d evs d' \<and> d_input d = b \<and> d_input d' = []
     \<and> map ev_ID (filter ev_HasID evs) = [append_dec 7]"
proof -
  let ?w = "NewJournalSSEWriter True False"
  define e where "e = \<lparr>e_Seq = 7, e_TS = 0, e_Kind = KindChunk, e_Payload = chunk_payload ''x'' None, e_Err = None\<rparr>"
  have p: "downstreamPayload e = Inr ''x''"
    using chunk_payload_data [of "''x''" None e] by (simp add: e_def)
  have "journalSSEMappings (e_Kind e) = Some \<lparr>jm_eventType = [], jm_verboseOnly = False, jm_terminal = False\<rparr>"
    by (simp add: e_def journalSSEMappings_def kind_defs)
  then obtain b res where "WriteEntry (\<lambda>k i s. (length s, None)) ?w e = (b, Inr res)"
    using WriteEntry_succeeds [of ?w e _ "''x''"] p by (auto simp: NewJournalSSEWriter_def e_def)
  then have w: "written ?w [e] b" using written_more [OF _ written_nil] by fastforce
  let ?d = "(newDecoder b True)\<lparr>d_maxEventBytes := int (length b)\<rparr>"
  have "between_frames ?d" "d_input ?d = b @ []" "int (length b) \<le> d_maxEventBytes ?d" by (simp_all add: newDecoder_def between_frames_def)
  from replay_decodes [OF w this] obtain evs d' where r: "decodes ?d evs d'" "d_input d' = []" "map ev_ID (filter ev_HasID evs)
      = map (\<lambda>e. append_dec (e_Seq e)) (filter (\<lambda>e. jw_verbose ?w \<or> e_Kind e \<notin> {KindMigration, KindWarning}) [e])"
    by blast
  have "map ev_ID (filter ev_HasID evs) = [append_dec 7]" using r(3) by (simp add: e_def kind_defs)
  moreover have "e_Seq e = 7" "d_input ?d = b" by (simp_all add: e_def newDecoder_def)
  ultimately show ?thesis
    using w r(1,2) by (intro exI [of _ e] exI [of _ b] exI [of _ ?d] exI [of _ evs] exI [of _ d']) simp
qed

end
