(* ===== verification/Chunk.thy ===== *)
theory Chunk
  imports Journal_Sse
begin

text \<open>
  What the proxy reads off an upstream chunk and how it accounts for it (\<open>internal/proxy/chunk.go\<close>): the
  text delta, the reported usage, the finish reason, and the running token count of a stream over its
  producer attempts. The type \<open>tokenUsage\<close> of the proxy has the fields and the JSON form of the journal's
  \<open>Usage\<close>. Token sums are \<open>uint64\<close> and wrap.
\<close>

section \<open>Observing a chunk\<close>

type_synonym tokenUsage = Usage

record chunkObservation =
  ob_TextDelta :: bytes
  ob_Usage :: "tokenUsage option"
  ob_FinishReason :: bytes
  ob_ErrorPayload :: bytes
  ob_ToolCall :: bool

record chunkChoice =
  cc_Index :: int
  cc_Text :: "bytes option"
  cc_FinishReason :: "bytes option"
  cc_Delta :: "bytes option"

record openAIChunk =
  oc_Choices :: "chunkChoice goslice"
  oc_Usage :: "tokenUsage option"
  oc_Error :: "bytes option"

record chatDelta =
  cd_Content :: "bytes option"
  cd_ToolCalls :: "bytes option"
  cd_FunctionCall :: "bytes option"

definition zeroChoice :: chunkChoice where
  "zeroChoice = \<lparr>cc_Index = 0, cc_Text = None, cc_FinishReason = None, cc_Delta = None\<rparr>"

definition um_choice :: "chunkChoice decoder" where
  "um_choice = um_struct [''index'', ''text'', ''finish_reason'', ''delta'']
     (\<lambda>name c v raw.
        if name = ''index'' then apfst (\<lambda>x. c\<lparr>cc_Index := x\<rparr>) (um_int (cc_Index c) v raw)
        else if name = ''text'' then apfst (\<lambda>x. c\<lparr>cc_Text := x\<rparr>) (um_ptr [] um_string (cc_Text c) v raw)
        else if name = ''finish_reason'' then apfst (\<lambda>x. c\<lparr>cc_FinishReason := x\<rparr>) (um_ptr [] um_string (cc_FinishReason c) v raw)
        else apfst (\<lambda>x. c\<lparr>cc_Delta := x\<rparr>) (um_raw (cc_Delta c) v raw))"

definition um_openAIChunk :: "openAIChunk decoder" where
  "um_openAIChunk = um_struct [''choices'', ''usage'', ''error'']
     (\<lambda>name c v raw.
        if name = ''choices'' then apfst (\<lambda>x. c\<lparr>oc_Choices := x\<rparr>) (um_slice zeroChoice um_choice (oc_Choices c) v raw)
        else if name = ''usage'' then apfst (\<lambda>x. c\<lparr>oc_Usage := x\<rparr>) (um_ptr zeroUsage um_Usage (oc_Usage c) v raw)
        else apfst (\<lambda>x. c\<lparr>oc_Error := x\<rparr>) (um_raw (oc_Error c) v raw))"

definition um_chatDelta :: "chatDelta decoder" where
  "um_chatDelta = um_struct [''content'', ''tool_calls'', ''function_call'']
     (\<lambda>name c v raw.
        if name = ''content'' then apfst (\<lambda>x. c\<lparr>cd_Content := x\<rparr>) (um_ptr [] um_string (cd_Content c) v raw)
        else if name = ''tool_calls'' then apfst (\<lambda>x. c\<lparr>cd_ToolCalls := x\<rparr>) (um_raw (cd_ToolCalls c) v raw)
        else apfst (\<lambda>x. c\<lparr>cd_FunctionCall := x\<rparr>) (um_raw (cd_FunctionCall c) v raw))"

definition isPresentJSON :: "bytes option \<Rightarrow> bool" where
  "isPresentJSON raw =
     (let trimmed = trim_space (nonNil raw) in 0 < length trimmed \<and> trimmed \<noteq> ''null'' \<and> trimmed \<noteq> ''[]'')"

fun observe_choices :: "chunkChoice list \<Rightarrow> chunkObservation \<Rightarrow> chunkObservation option" where
  "observe_choices [] ob = Some ob"
| "observe_choices (c # cs) ob =
     (if cc_Index c \<noteq> 0 then observe_choices cs ob
      else
        (let ob = (case cc_Text c of None \<Rightarrow> ob | Some t \<Rightarrow> ob\<lparr>ob_TextDelta := ob_TextDelta ob @ t\<rparr>);
             ob = (case cc_FinishReason c of None \<Rightarrow> ob | Some f \<Rightarrow> ob\<lparr>ob_FinishReason := f\<rparr>) in
         if nonNil (cc_Delta c) = [] \<or> trim_space (nonNil (cc_Delta c)) = ''null'' then observe_choices cs ob
         else
           (case json_unmarshal um_chatDelta \<lparr>cd_Content = None, cd_ToolCalls = None, cd_FunctionCall = None\<rparr> (nonNil (cc_Delta c)) of
              None \<Rightarrow> None
            | Some delta \<Rightarrow>
                (let ob = (case cd_Content delta of None \<Rightarrow> ob | Some t \<Rightarrow> ob\<lparr>ob_TextDelta := ob_TextDelta ob @ t\<rparr>);
                     ob = (if isPresentJSON (cd_ToolCalls delta) \<or> isPresentJSON (cd_FunctionCall delta) then ob\<lparr>ob_ToolCall := True\<rparr> else ob)
                 in observe_choices cs ob))))"

definition observeOpenAIChunk :: "bytes \<Rightarrow> chunkObservation option" where
  "observeOpenAIChunk d =
     (case json_unmarshal um_openAIChunk \<lparr>oc_Choices = None, oc_Usage = None, oc_Error = None\<rparr> d of
        None \<Rightarrow> None
      | Some chunk \<Rightarrow>
          (let trimmed = trim_space (nonNil (oc_Error chunk));
               errorPayload = (if 0 < length trimmed \<and> trimmed \<noteq> ''null'' then nonNil (oc_Error chunk) else []) in
           observe_choices (slice_list (oc_Choices chunk))
             \<lparr>ob_TextDelta = [], ob_Usage = oc_Usage chunk, ob_FinishReason = [], ob_ErrorPayload = errorPayload, ob_ToolCall = False\<rparr>))"

section \<open>Progress\<close>

record streamProgress =
  sp_text :: bytes
  sp_usage :: tokenUsage
  sp_exactUsage :: bool
  sp_toolCall :: bool
  sp_attemptCompletionBase :: uint64
  sp_attemptPromptBase :: uint64
  sp_attemptBaseEstimated :: bool
  sp_textBytesAtUsage :: int

definition zeroProgress :: streamProgress where
  "zeroProgress = \<lparr>sp_text = [], sp_usage = zeroUsage, sp_exactUsage = False, sp_toolCall = False, sp_attemptCompletionBase = 0,
     sp_attemptPromptBase = 0, sp_attemptBaseEstimated = False, sp_textBytesAtUsage = 0\<rparr>"

abbreviation wrap64 :: "nat \<Rightarrow> uint64" where
  "wrap64 n \<equiv> n mod 2 ^ 64"

definition progress_Apply :: "chunkObservation \<Rightarrow> streamProgress \<Rightarrow> streamProgress" where
  "progress_Apply ob p0 =
     (let p = p0\<lparr>sp_text := sp_text p0 @ ob_TextDelta ob\<rparr>;
          p = (case ob_Usage ob of
                 None \<Rightarrow> p
               | Some u \<Rightarrow>
                   (let completion = wrap64 (sp_attemptCompletionBase p + u_CompletionTokens u);
                        prompt = wrap64 (sp_attemptPromptBase p + u_PromptTokens u);
                        c = (if completion > u_CompletionTokens (sp_usage p) then completion else u_CompletionTokens (sp_usage p));
                        q = (if prompt > u_PromptTokens (sp_usage p) then prompt else u_PromptTokens (sp_usage p)) in
                    p\<lparr>sp_usage := \<lparr>u_PromptTokens = q, u_CompletionTokens = c, u_TotalTokens = wrap64 (q + c),
                        u_Estimated = (sp_attemptBaseEstimated p \<or> u_Estimated u)\<rparr>,
                      sp_exactUsage := True, sp_textBytesAtUsage := int (length (sp_text p))\<rparr>))
      in if ob_ToolCall ob then p\<lparr>sp_toolCall := True\<rparr> else p)"

definition progress_Snapshot :: "streamProgress \<Rightarrow> bytes \<times> tokenUsage" where
  "progress_Snapshot p =
     (let usage = sp_usage p;
          extraBytes = int (length (sp_text p)) - sp_textBytesAtUsage p;
          extraBytes = (if extraBytes < 0 then 0 else extraBytes) in
      (sp_text p,
       if \<not> sp_exactUsage p \<or> extraBytes \<noteq> 0
       then (let c = wrap64 (u_CompletionTokens usage + nat extraBytes) in
             usage\<lparr>u_CompletionTokens := c, u_TotalTokens := wrap64 (u_PromptTokens usage + c), u_Estimated := True\<rparr>)
       else usage))"

definition progress_BeginAttempt :: "streamProgress \<Rightarrow> streamProgress" where
  "progress_BeginAttempt p =
     (let usage = snd (progress_Snapshot p) in
      p\<lparr>sp_usage := usage, sp_attemptCompletionBase := u_CompletionTokens usage, sp_attemptPromptBase := u_PromptTokens usage,
        sp_attemptBaseEstimated := u_Estimated usage, sp_textBytesAtUsage := int (length (sp_text p)),
        sp_exactUsage := (\<not> u_Estimated usage)\<rparr>)"

section \<open>Counting tokens\<close>

text \<open>
  A history of a stream: the observations of accepted chunks, each with the number of tokens its text
  really is, and the beginnings of further attempts. A token is at least one byte, and what an upstream
  reports covers the tokens of its attempt so far.
\<close>

datatype progress_event = Accept chunkObservation nat | NewAttempt

fun play :: "streamProgress \<Rightarrow> progress_event list \<Rightarrow> streamProgress" where
  "play p [] = p"
| "play p (Accept ob n # h) = play (progress_Apply ob p) h"
| "play p (NewAttempt # h) = play (progress_BeginAttempt p) h"

fun true_tokens :: "progress_event list \<Rightarrow> nat" where
  "true_tokens [] = 0"
| "true_tokens (Accept ob n # h) = n + true_tokens h"
| "true_tokens (NewAttempt # h) = true_tokens h"

fun true_text :: "progress_event list \<Rightarrow> bytes" where
  "true_text [] = []"
| "true_text (Accept ob n # h) = ob_TextDelta ob @ true_text h"
| "true_text (NewAttempt # h) = true_text h"

text \<open>\<open>honest a h\<close>: \<open>a\<close> tokens of the current attempt came before \<open>h\<close>.\<close>

fun honest :: "nat \<Rightarrow> progress_event list \<Rightarrow> bool" where
  "honest a [] \<longleftrightarrow> True"
| "honest a (Accept ob n # h) \<longleftrightarrow>
     n \<le> length (ob_TextDelta ob) \<and> (case ob_Usage ob of None \<Rightarrow> True | Some u \<Rightarrow> a + n \<le> u_CompletionTokens u) \<and> honest (a + n) h"
| "honest a (NewAttempt # h) \<longleftrightarrow> honest 0 h"

text \<open>A bound on the counters.\<close>

fun reported :: "progress_event list \<Rightarrow> nat" where
  "reported [] = 0"
| "reported (Accept ob n # h) = length (ob_TextDelta ob) + (case ob_Usage ob of None \<Rightarrow> 0 | Some u \<Rightarrow> u_CompletionTokens u) + reported h"
| "reported (NewAttempt # h) = reported h"

definition progress_count :: "streamProgress \<Rightarrow> nat" where
  "progress_count p = u_CompletionTokens (sp_usage p) + (length (sp_text p) - nat (sp_textBytesAtUsage p))"

definition progress_ok :: "streamProgress \<Rightarrow> nat \<Rightarrow> nat \<Rightarrow> nat \<Rightarrow> bool" where
  "progress_ok p tokens attempt bound \<longleftrightarrow>
     0 \<le> sp_textBytesAtUsage p \<and> sp_textBytesAtUsage p \<le> int (length (sp_text p))
   \<and> tokens \<le> progress_count p \<and> tokens \<le> sp_attemptCompletionBase p + attempt
   \<and> progress_count p + bound < 2 ^ 64 \<and> sp_attemptCompletionBase p \<le> progress_count p"

lemma snapshot_count:
  assumes "progress_ok p tokens attempt bound"
  shows "u_CompletionTokens (snd (progress_Snapshot p)) = progress_count p"
  using assms by (auto simp: progress_ok_def progress_Snapshot_def progress_count_def Let_def nat_diff_distrib)

lemma snapshot_text: "fst (progress_Snapshot p) = sp_text p"
  by (simp add: progress_Snapshot_def Let_def)

lemma apply_text [simp]: "sp_text (progress_Apply ob p) = sp_text p @ ob_TextDelta ob"
  by (simp add: progress_Apply_def Let_def split: option.split)

lemma begin_text [simp]: "sp_text (progress_BeginAttempt p) = sp_text p"
  by (simp add: progress_BeginAttempt_def Let_def)

lemma apply_ok:
  assumes "progress_ok p tokens attempt (length (ob_TextDelta ob) + (case ob_Usage ob of None \<Rightarrow> 0 | Some u \<Rightarrow> u_CompletionTokens u) + bound)"
    and "n \<le> length (ob_TextDelta ob)" and "case ob_Usage ob of None \<Rightarrow> True | Some u \<Rightarrow> attempt + n \<le> u_CompletionTokens u"
  shows "progress_ok (progress_Apply ob p) (tokens + n) (attempt + n) bound"
proof -
  note ok = assms(1) [unfolded progress_ok_def progress_count_def]
  show ?thesis
  proof (cases "ob_Usage ob")
    case None
    then show ?thesis using ok assms(2) by (auto simp: progress_ok_def progress_count_def progress_Apply_def Let_def)
  next
    case (Some u)
    have w: "wrap64 (sp_attemptCompletionBase p + u_CompletionTokens u) = sp_attemptCompletionBase p + u_CompletionTokens u"
      using ok Some by auto
    show ?thesis
      using ok assms(2,3) Some w by (auto simp: progress_ok_def progress_count_def progress_Apply_def Let_def)
  qed
qed

lemma begin_ok:
  assumes "progress_ok p tokens attempt bound"
  shows "progress_ok (progress_BeginAttempt p) tokens 0 bound"
proof -
  have "progress_count (progress_BeginAttempt p) = progress_count p"
    using snapshot_count [OF assms] by (simp add: progress_BeginAttempt_def progress_count_def Let_def)
  moreover have "sp_attemptCompletionBase (progress_BeginAttempt p) = progress_count p"
    using snapshot_count [OF assms] by (simp add: progress_BeginAttempt_def Let_def)
  ultimately show ?thesis using assms by (simp add: progress_ok_def) (simp add: progress_BeginAttempt_def Let_def)
qed

lemma play_ok:
  "honest attempt h \<Longrightarrow> progress_ok p tokens attempt (reported h + bound) \<Longrightarrow> \<exists>attempt'. progress_ok (play p h) (tokens + true_tokens h) attempt' bound"
proof (induction p h arbitrary: tokens attempt rule: play.induct)
  case (2 p ob n h)
  have "progress_ok (progress_Apply ob p) (tokens + n) (attempt + n) (reported h + bound)"
    by (rule apply_ok) (use "2.prems" in \<open>simp_all add: add.assoc\<close>)
  then show ?case using "2.IH" [of "attempt + n" "tokens + n"] "2.prems" by (simp add: add.assoc)
next
  case (3 p h)
  then show ?case using "3.IH" [OF _ begin_ok] by simp
qed auto

lemma play_text: "sp_text (play p h) = sp_text p @ true_text h"
  by (induction p h rule: play.induct) simp_all

text \<open>
  C30: The token count the proxy works with is conservative: over any number of attempts, whether or not upstreams report
  usage, the completion tokens of a snapshot are at least the tokens of the accepted text, so a recomputed token
  limit never authorises more tokens than the client asked for. The snapshot's text is exactly the accepted text.
\<close>
theorem token_count_conservative:
  assumes "honest 0 h" and "reported h < 2 ^ 64"
  shows "true_tokens h \<le> u_CompletionTokens (snd (progress_Snapshot (play zeroProgress h)))
    \<and> fst (progress_Snapshot (play zeroProgress h)) = true_text h"
proof -
  have z: "progress_ok zeroProgress 0 0 (reported h + 0)"
    using assms(2) by (simp add: progress_ok_def progress_count_def zeroProgress_def zeroUsage_def)
  obtain a where a: "progress_ok (play zeroProgress h) (true_tokens h) a 0" using play_ok [OF assms(1) z] by auto
  have t: "fst (progress_Snapshot (play zeroProgress h)) = true_text h"
    using play_text [of zeroProgress h] by (simp add: snapshot_text) (simp add: zeroProgress_def)
  show ?thesis using snapshot_count [OF a] a t by (simp add: progress_ok_def)
qed

definition demoObservation :: "bytes \<Rightarrow> nat option \<Rightarrow> chunkObservation" where
  "demoObservation t n = \<lparr>ob_TextDelta = t, ob_Usage = map_option (\<lambda>n. zeroUsage\<lparr>u_CompletionTokens := n\<rparr>) n, ob_FinishReason = [],
     ob_ErrorPayload = [], ob_ToolCall = False\<rparr>"

theorem token_count_conservative_witness:
  "5 \<le> u_CompletionTokens (snd (progress_Snapshot (play zeroProgress
     [Accept (demoObservation ''hello'' (Some 2)) 2, NewAttempt, Accept (demoObservation ''big world'' None) 3])))"
  using token_count_conservative [of "[Accept (demoObservation ''hello'' (Some 2)) 2, NewAttempt, Accept (demoObservation ''big world'' None) 3]"]
  by (simp add: demoObservation_def)

end
