(* ===== verification/Tool_Call.thy ===== *)
theory Tool_Call
  imports Journal_Sse
begin

text \<open>
  The tracker of fragmented tool calls (\<open>internal/migrate/toolcall.go\<close>), which tells whether a migration would
  split one. Go's maps by choice and by tool index are association lists. The lemmas relate the
  tracker, which is updated fragment by fragment over the interleaved choices of all chunks, to a specification that
  is read off the whole history of each choice.
\<close>

section \<open>Parsing a chunk\<close>

record toolCallProgress =
  tc_name :: bytes
  tc_arguments :: bytes

record toolChoiceProgress =
  tp_calls :: "(int \<times> toolCallProgress) list"
  tp_boundaryDeclared :: bool

type_synonym ToolCallTracker = "(int \<times> toolChoiceProgress) list"

record parsedToolCall =
  pc_index :: int
  pc_name :: bytes
  pc_arguments :: bytes

record parsedToolChoice =
  pt_index :: int
  pt_calls :: "parsedToolCall list"
  pt_boundaryDeclared :: bool

record toolChoiceChunk =
  tk_Index :: "int option"
  tk_Delta :: "bytes option"
  tk_FinishReason :: "bytes option"

record toolFunction =
  tf_Name :: "bytes option"
  tf_Arguments :: "bytes option"

record toolCallChunk =
  tl_Index :: "int option"
  tl_Function :: "toolFunction option"

definition isJSONNull :: "bytes \<Rightarrow> bool" where
  "isJSONNull raw \<longleftrightarrow> trim_space raw = ''null''"

definition um_toolChoice :: "toolChoiceChunk decoder" where
  "um_toolChoice = um_struct [''index'', ''delta'', ''finish_reason'']
     (\<lambda>name c v raw.
        if name = ''index'' then apfst (\<lambda>x. c\<lparr>tk_Index := x\<rparr>) (um_ptr 0 um_int (tk_Index c) v raw)
        else if name = ''delta'' then apfst (\<lambda>x. c\<lparr>tk_Delta := x\<rparr>) (um_raw (tk_Delta c) v raw)
        else apfst (\<lambda>x. c\<lparr>tk_FinishReason := x\<rparr>) (um_ptr [] um_string (tk_FinishReason c) v raw))"

definition um_toolFunction :: "toolFunction decoder" where
  "um_toolFunction = um_struct [''name'', ''arguments'']
     (\<lambda>name c v raw.
        if name = ''name'' then apfst (\<lambda>x. c\<lparr>tf_Name := x\<rparr>) (um_ptr [] um_string (tf_Name c) v raw)
        else apfst (\<lambda>x. c\<lparr>tf_Arguments := x\<rparr>) (um_ptr [] um_string (tf_Arguments c) v raw))"

definition um_toolCall :: "toolCallChunk decoder" where
  "um_toolCall = um_struct [''index'', ''function'']
     (\<lambda>name c v raw.
        if name = ''index'' then apfst (\<lambda>x. c\<lparr>tl_Index := x\<rparr>) (um_ptr 0 um_int (tl_Index c) v raw)
        else apfst (\<lambda>x. c\<lparr>tl_Function := x\<rparr>) (um_ptr \<lparr>tf_Name = None, tf_Arguments = None\<rparr> um_toolFunction (tl_Function c) v raw))"

fun parse_calls :: "toolCallChunk list \<Rightarrow> parsedToolCall list option" where
  "parse_calls [] = Some []"
| "parse_calls (c # cs) =
     (case tl_Index c of
        None \<Rightarrow> None
      | Some i \<Rightarrow>
          if i < 0 then None
          else map_option ((#) \<lparr>pc_index = i,
                 pc_name = (case tl_Function c of None \<Rightarrow> [] | Some f \<Rightarrow> nonNil (tf_Name f)),
                 pc_arguments = (case tl_Function c of None \<Rightarrow> [] | Some f \<Rightarrow> nonNil (tf_Arguments f))\<rparr>) (parse_calls cs))"

definition parse_delta :: "bytes \<Rightarrow> parsedToolCall list option" where
  "parse_delta delta =
     (if delta = [] \<or> isJSONNull delta then Some []
      else
        (case json_unmarshal (um_struct [''tool_calls''] (\<lambda>_. um_raw)) None delta of
           None \<Rightarrow> None
         | Some toolCalls \<Rightarrow>
             if nonNil toolCalls = [] \<or> isJSONNull (nonNil toolCalls) then Some []
             else
               (case json_unmarshal (um_slice \<lparr>tl_Index = None, tl_Function = None\<rparr> um_toolCall) None (nonNil toolCalls) of
                  Some (Some calls) \<Rightarrow> parse_calls (slice_list (Some calls))
                | _ \<Rightarrow> None)))"

fun parse_choices :: "toolChoiceChunk list \<Rightarrow> parsedToolChoice list option" where
  "parse_choices [] = Some []"
| "parse_choices (c # cs) =
     (case tk_Index c of
        None \<Rightarrow> None
      | Some i \<Rightarrow>
          if i < 0 then None
          else
            (case parse_delta (nonNil (tk_Delta c)) of
               None \<Rightarrow> None
             | Some calls \<Rightarrow>
                 map_option ((#) \<lparr>pt_index = i, pt_calls = calls, pt_boundaryDeclared = (tk_FinishReason c = Some ''tool_calls'')\<rparr>)
                   (parse_choices cs)))"

definition parseToolCallChunk :: "bytes \<Rightarrow> parsedToolChoice list option" where
  "parseToolCallChunk payload =
     (let trimmed = trim_space payload in
      if length trimmed < 2 \<or> hd trimmed \<noteq> CHR ''{'' \<or> last trimmed \<noteq> CHR ''}'' \<or> \<not> json_valid trimmed then None
      else
        (case json_unmarshal (um_struct [''choices''] (\<lambda>_. um_slice \<lparr>tk_Index = None, tk_Delta = None, tk_FinishReason = None\<rparr> um_toolChoice))
                None trimmed of
           None \<Rightarrow> None
         | Some choices \<Rightarrow> parse_choices (slice_list choices)))"

section \<open>Tracking\<close>

definition toolChoiceComplete :: "toolChoiceProgress \<Rightarrow> bool" where
  "toolChoiceComplete choice =
     (if \<not> tp_boundaryDeclared choice \<or> tp_calls choice = [] then False
      else list_all (\<lambda>(_, call). \<not> (trim_space (tc_arguments call) = [] \<or> \<not> json_valid (tc_arguments call))) (tp_calls choice))"

definition add_call :: "toolChoiceProgress \<Rightarrow> parsedToolCall \<Rightarrow> toolChoiceProgress" where
  "add_call progress call =
     (let old = (case map_of (tp_calls progress) (pc_index call) of None \<Rightarrow> \<lparr>tc_name = [], tc_arguments = []\<rparr> | Some c \<Rightarrow> c) in
      progress\<lparr>tp_calls := AList.update (pc_index call)
          \<lparr>tc_name = tc_name old @ pc_name call, tc_arguments = tc_arguments old @ pc_arguments call\<rparr> (tp_calls progress)\<rparr>)"

definition observe_choice :: "ToolCallTracker \<Rightarrow> parsedToolChoice \<Rightarrow> ToolCallTracker" where
  "observe_choice choices choice =
     (case (case map_of choices (pt_index choice) of
              Some progress \<Rightarrow> Some progress
            | None \<Rightarrow> if pt_calls choice \<noteq> [] then Some \<lparr>tp_calls = [], tp_boundaryDeclared = False\<rparr> else None) of
        None \<Rightarrow> choices
      | Some progress \<Rightarrow>
          (let progress = foldl add_call progress (pt_calls choice);
               progress = (if pt_boundaryDeclared choice then progress\<lparr>tp_boundaryDeclared := True\<rparr> else progress) in
           if toolChoiceComplete progress then AList.delete (pt_index choice) choices
           else AList.update (pt_index choice) progress choices))"

text \<open>\<open>ObserveChunk\<close>: the new tracker and whether the chunk was accepted.\<close>

definition ObserveChunk :: "bytes \<Rightarrow> ToolCallTracker \<Rightarrow> ToolCallTracker \<times> bool" where
  "ObserveChunk payload tracker =
     (case parseToolCallChunk payload of
        None \<Rightarrow> (tracker, False)
      | Some parsed \<Rightarrow> (foldl observe_choice tracker parsed, True))"

definition InsideToolCall :: "ToolCallTracker \<Rightarrow> bool" where
  "InsideToolCall tracker \<longleftrightarrow> length tracker \<noteq> 0"

definition ActiveToolCalls :: "ToolCallTracker \<Rightarrow> nat" where
  "ActiveToolCalls tracker = sum_list (map (\<lambda>(_, choice). length (tp_calls choice)) tracker)"

section \<open>The history of a choice\<close>

text \<open>
  The specification looks at the parsed choices of one index in the order they came. In a part of that history the
  arguments of a tool call are all its fragments put together. The part is settled if it has calls, a boundary was
  declared in it, and the arguments of each of its calls are a JSON text. What is open is the part since the last
  settled one, from its first call on.
\<close>

definition choices_of :: "bytes list \<Rightarrow> parsedToolChoice list" where
  "choices_of payloads = concat (map (\<lambda>p. case parseToolCallChunk p of None \<Rightarrow> [] | Some cs \<Rightarrow> cs) payloads)"

definition history_of :: "bytes list \<Rightarrow> int \<Rightarrow> parsedToolChoice list" where
  "history_of payloads i = filter (\<lambda>c. pt_index c = i) (choices_of payloads)"

definition calls_in :: "parsedToolChoice list \<Rightarrow> parsedToolCall list" where
  "calls_in part = concat (map pt_calls part)"

definition name_in :: "parsedToolChoice list \<Rightarrow> int \<Rightarrow> bytes" where
  "name_in part j = concat (map pc_name (filter (\<lambda>c. pc_index c = j) (calls_in part)))"

definition arguments_in :: "parsedToolChoice list \<Rightarrow> int \<Rightarrow> bytes" where
  "arguments_in part j = concat (map pc_arguments (filter (\<lambda>c. pc_index c = j) (calls_in part)))"

definition boundary_in :: "parsedToolChoice list \<Rightarrow> bool" where
  "boundary_in part \<longleftrightarrow> (\<exists>c \<in> set part. pt_boundaryDeclared c)"

definition settled_part :: "parsedToolChoice list \<Rightarrow> bool" where
  "settled_part part \<longleftrightarrow> calls_in part \<noteq> [] \<and> boundary_in part
     \<and> (\<forall>c \<in> set (calls_in part). trim_space (arguments_in part (pc_index c)) \<noteq> [] \<and> json_valid (arguments_in part (pc_index c)))"

fun open_part :: "parsedToolChoice list \<Rightarrow> parsedToolChoice list \<Rightarrow> parsedToolChoice list" where
  "open_part part [] = part"
| "open_part part (c # cs) =
     open_part (if calls_in (part @ [c]) = [] \<or> settled_part (part @ [c]) then [] else part @ [c]) cs"

text \<open>The progress the tracker keeps for a choice represents the part that is open.\<close>

definition represents :: "toolChoiceProgress option \<Rightarrow> parsedToolChoice list \<Rightarrow> bool" where
  "represents st part \<longleftrightarrow>
     (case st of
        None \<Rightarrow> part = []
      | Some p \<Rightarrow> calls_in part \<noteq> [] \<and> distinct (map fst (tp_calls p)) \<and> tp_boundaryDeclared p = boundary_in part
          \<and> (\<forall>j. map_of (tp_calls p) j = (if j \<in> pc_index ` set (calls_in part)
               then Some \<lparr>tc_name = name_in part j, tc_arguments = arguments_in part j\<rparr> else None)))"

definition observe_all :: "bytes list \<Rightarrow> ToolCallTracker" where
  "observe_all payloads = fold (\<lambda>p tracker. fst (ObserveChunk p tracker)) payloads []"

lemma part_append [simp]:
  "calls_in (part @ part') = calls_in part @ calls_in part'" "name_in (part @ part') j = name_in part j @ name_in part' j"
  "arguments_in (part @ part') j = arguments_in part j @ arguments_in part' j" "boundary_in (part @ part') \<longleftrightarrow> boundary_in part \<or> boundary_in part'"
  by (auto simp: calls_in_def name_in_def arguments_in_def boundary_in_def)

lemma part_single [simp]:
  "calls_in [] = []" "name_in [] j = []" "arguments_in [] j = []" "\<not> boundary_in []"
  "calls_in [c] = pt_calls c" "boundary_in [c] = pt_boundaryDeclared c"
  by (auto simp: calls_in_def name_in_def arguments_in_def boundary_in_def)

definition call_in :: "toolChoiceProgress \<Rightarrow> int \<Rightarrow> toolCallProgress" where
  "call_in p j = (case map_of (tp_calls p) j of None \<Rightarrow> \<lparr>tc_name = [], tc_arguments = []\<rparr> | Some c \<Rightarrow> c)"

lemma add_call_lookup:
  "map_of (tp_calls (add_call p c)) j =
     (if j = pc_index c then Some \<lparr>tc_name = tc_name (call_in p j) @ pc_name c, tc_arguments = tc_arguments (call_in p j) @ pc_arguments c\<rparr>
      else map_of (tp_calls p) j)"
  "tp_boundaryDeclared (add_call p c) = tp_boundaryDeclared p"
  "distinct (map fst (tp_calls p)) \<Longrightarrow> distinct (map fst (tp_calls (add_call p c)))"
  by (simp_all add: add_call_def Let_def update_conv' distinct_update call_in_def)

lemma add_calls:
  "tp_boundaryDeclared (foldl add_call p cs) = tp_boundaryDeclared p"
  "distinct (map fst (tp_calls p)) \<Longrightarrow> distinct (map fst (tp_calls (foldl add_call p cs)))"
  by (induction cs arbitrary: p) (simp_all add: add_call_lookup)

lemma add_calls_lookup:
  "map_of (tp_calls (foldl add_call p cs)) j =
     (if j \<in> pc_index ` set cs
      then Some \<lparr>tc_name = tc_name (call_in p j) @ concat (map pc_name (filter (\<lambda>c. pc_index c = j) cs)),
                 tc_arguments = tc_arguments (call_in p j) @ concat (map pc_arguments (filter (\<lambda>c. pc_index c = j) cs))\<rparr>
      else map_of (tp_calls p) j)"
proof (induction cs arbitrary: p)
  case (Cons c cs)
  have none: "filter (\<lambda>c. pc_index c = j) cs = []" if "j \<notin> pc_index ` set cs" using that by (auto simp: filter_empty_conv)
  have "call_in (add_call p c) j = (if j = pc_index c then \<lparr>tc_name = tc_name (call_in p j) @ pc_name c, tc_arguments = tc_arguments (call_in p j) @ pc_arguments c\<rparr>
      else call_in p j)" by (simp add: call_in_def [of "add_call p c"] add_call_lookup(1)) (simp add: call_in_def)
  then show ?case
    using none Cons.IH [of "add_call p c"] by (cases "j = pc_index c"; cases "j \<in> pc_index ` set cs") (simp_all add: add_call_lookup(1))
qed simp

lemma complete_settled:
  assumes "represents (Some p) part"
  shows "toolChoiceComplete p \<longleftrightarrow> settled_part part"
proof -
  have r: "calls_in part \<noteq> []" "distinct (map fst (tp_calls p))" "tp_boundaryDeclared p = boundary_in part"
    "\<And>j. map_of (tp_calls p) j = (if j \<in> pc_index ` set (calls_in part) then Some \<lparr>tc_name = name_in part j, tc_arguments = arguments_in part j\<rparr> else None)"
    using assms by (simp_all add: represents_def)
  have "tp_calls p \<noteq> []"
  proof
    assume "tp_calls p = []"
    then show False using r(1) r(4) [of "pc_index (hd (calls_in part))"] by simp
  qed
  moreover have "set (tp_calls p) = (\<lambda>c. (pc_index c, \<lparr>tc_name = name_in part (pc_index c), tc_arguments = arguments_in part (pc_index c)\<rparr>)) ` set (calls_in part)"
  proof -
    have "(j, v) \<in> set (tp_calls p) \<longleftrightarrow> j \<in> pc_index ` set (calls_in part) \<and> v = \<lparr>tc_name = name_in part j, tc_arguments = arguments_in part j\<rparr>" for j v
      using map_of_eq_Some_iff [OF r(2), of j v] r(4) [of j] by (auto split: if_splits)
    then show ?thesis by auto
  qed
  ultimately show ?thesis using r(1,3) by (auto simp: toolChoiceComplete_def settled_part_def list_all_iff)
qed

lemma observe_choice_other: "i \<noteq> pt_index c \<Longrightarrow> map_of (observe_choice choices c) i = map_of choices i"
  by (auto simp: observe_choice_def Let_def delete_conv' update_conv' split: option.splits)

lemma observe_choice_same:
  assumes r: "represents (map_of choices (pt_index c)) part"
  shows "represents (map_of (observe_choice choices c) (pt_index c)) (if calls_in (part @ [c]) = [] \<or> settled_part (part @ [c]) then [] else part @ [c])"
proof (cases "calls_in (part @ [c]) = []")
  case True
  then have "map_of choices (pt_index c) = None" using r by (auto simp: represents_def split: option.splits)
  then show ?thesis using True by (simp add: observe_choice_def represents_def)
next
  case False
  define p0 where "p0 = (case map_of choices (pt_index c) of None \<Rightarrow> \<lparr>tp_calls = [], tp_boundaryDeclared = False\<rparr> | Some p \<Rightarrow> p)"
  define p where "p = (let p1 = foldl add_call p0 (pt_calls c) in if pt_boundaryDeclared c then p1\<lparr>tp_boundaryDeclared := True\<rparr> else p1)"
  have part: "part = []" if "map_of choices (pt_index c) = None" using r that by (simp add: represents_def)
  have old: "map_of (tp_calls p0) j = (if j \<in> pc_index ` set (calls_in part) then Some \<lparr>tc_name = name_in part j, tc_arguments = arguments_in part j\<rparr> else None)"
    "distinct (map fst (tp_calls p0))" "tp_boundaryDeclared p0 = boundary_in part" for j
    using r part by (auto simp: p0_def represents_def split: option.splits)
  have c0: "call_in p0 j = \<lparr>tc_name = name_in part j, tc_arguments = arguments_in part j\<rparr>" for j
    by (auto simp: call_in_def old name_in_def arguments_in_def filter_empty_conv image_iff)
  have new: "name_in [c] j = concat (map pc_name (filter (\<lambda>c. pc_index c = j) (pt_calls c)))"
    "arguments_in [c] j = concat (map pc_arguments (filter (\<lambda>c. pc_index c = j) (pt_calls c)))" for j by (simp_all add: name_in_def arguments_in_def)
  have no: "name_in [c] j = [] \<and> arguments_in [c] j = []" if "j \<notin> pc_index ` set (pt_calls c)" for j
    using that by (auto simp: new filter_empty_conv)
  have "map_of (tp_calls p) j = (if j \<in> pc_index ` set (calls_in (part @ [c]))
      then Some \<lparr>tc_name = name_in (part @ [c]) j, tc_arguments = arguments_in (part @ [c]) j\<rparr> else None)" for j
    using no [of j] by (cases "j \<in> pc_index ` set (pt_calls c)") (simp_all add: p_def Let_def add_calls_lookup c0 old new image_Un)
  then have "represents (Some p) (part @ [c])"
    using False old(2,3) add_calls [of p0 "pt_calls c"] by (simp add: represents_def p_def Let_def)
  moreover have "observe_choice choices c = (if toolChoiceComplete p then AList.delete (pt_index c) choices else AList.update (pt_index c) p choices)"
    using False part by (auto simp: observe_choice_def p_def p0_def Let_def split: option.splits)
  ultimately show ?thesis
    using False complete_settled [of p "part @ [c]"] by (auto simp: delete_conv' update_conv' represents_def)
qed

lemma observe_choices:
  "represents (map_of choices i) part \<Longrightarrow>
     represents (map_of (foldl observe_choice choices cs) i) (open_part part (filter (\<lambda>c. pt_index c = i) cs))"
proof (induction cs arbitrary: choices part)
  case (Cons c cs)
  show ?case
  proof (cases "pt_index c = i")
    case True
    then show ?thesis using Cons.IH [OF observe_choice_same [of choices c part, unfolded True]] Cons.prems by simp
  next
    case False
    then show ?thesis using Cons.IH [of "observe_choice choices c" part] Cons.prems by (simp add: observe_choice_other)
  qed
qed simp

lemma observe_all_choices: "observe_all payloads = foldl observe_choice [] (choices_of payloads)"
proof -
  have "fold (\<lambda>p tracker. fst (ObserveChunk p tracker)) payloads t = foldl observe_choice t (choices_of payloads)" for t
    by (induction payloads arbitrary: t) (auto simp: choices_of_def ObserveChunk_def split: option.splits)
  then show ?thesis by (simp add: observe_all_def)
qed

text \<open>
  C32: After any sequence of chunks, malformed ones included and the choices interleaved in any way, the tracker is inside a
  tool call exactly if the history of some choice has an open part: a call since the last point at which a boundary
  was declared and the arguments of every call, all fragments put together, were a JSON text. What the tracker holds
  for a choice is exactly the names and arguments put together from its open part.
\<close>
theorem tool_call_automata:
  "(InsideToolCall (observe_all payloads) \<longleftrightarrow> (\<exists>i. open_part [] (history_of payloads i) \<noteq> []))
   \<and> represents (map_of (observe_all payloads) i) (open_part [] (history_of payloads i))"
proof
  have r: "represents (map_of (observe_all payloads) i) (open_part [] (history_of payloads i))" for i
    using observe_choices [of "[]" i "[]"] by (simp add: observe_all_choices history_of_def represents_def [of None])
  then show "represents (map_of (observe_all payloads) i) (open_part [] (history_of payloads i))" .
  have "map_of (observe_all payloads) i \<noteq> None \<longleftrightarrow> open_part [] (history_of payloads i) \<noteq> []" for i
    using r [of i] by (auto simp: represents_def split: option.splits)
  moreover have "InsideToolCall t \<longleftrightarrow> (\<exists>i. map_of t i \<noteq> None)" for t
    by (cases t) (auto simp: InsideToolCall_def)
  ultimately show "InsideToolCall (observe_all payloads) \<longleftrightarrow> (\<exists>i. open_part [] (history_of payloads i) \<noteq> [])" by simp
qed

end
