(* ===== verification/Continuation.thy ===== *)
theory Continuation
  imports Tool_Call
begin

text \<open>
  Rewriting a request for another producer (\<open>internal/migrate/continuation.go\<close>) and normalising it when
  it arrives (\<open>internal/proxy/normalize.go\<close>). A Go map of raw messages is an association list; its
  marshalled form does not depend on the order.
\<close>

section \<open>Requests\<close>

datatype continuation_error = ErrInvalidRequest | ErrUnsupportedContinuationShape | ErrTokenBudgetExhausted

type_synonym RequestKind = string

definition RequestChatCompletion :: RequestKind where "RequestChatCompletion = ''chat_completion''"
definition RequestCompletion :: RequestKind where "RequestCompletion = ''completion''"

record ContinuationOptions =
  co_AccumulatedText :: bytes
  co_TokensAlreadyEmitted :: uint64

definition decodeRequestObject :: "bytes \<Rightarrow> continuation_error + raw_map" where
  "decodeRequestObject original =
     (let trimmed = trim_space original in
      if length trimmed < 2 \<or> hd trimmed \<noteq> CHR ''{'' \<or> last trimmed \<noteq> CHR ''}'' then Inl ErrInvalidRequest
      else (case json_unmarshal um_map None trimmed of Some (Some m) \<Rightarrow> Inr m | _ \<Rightarrow> Inl ErrInvalidRequest))"

text \<open>A field that is present and not null.\<close>

definition present :: "raw_map \<Rightarrow> bytes \<Rightarrow> bytes option" where
  "present m name = (case map_of m name of None \<Rightarrow> None | Some raw \<Rightarrow> if isJSONNull raw then None else Some raw)"

definition requireSingleChoice :: "raw_map \<Rightarrow> continuation_error option" where
  "requireSingleChoice m =
     (case present m ''n'' of
        None \<Rightarrow> None
      | Some raw \<Rightarrow>
          (case json_unmarshal um_uint64 0 raw of
             None \<Rightarrow> Some ErrInvalidRequest
           | Some choices \<Rightarrow>
               if choices = 0 then Some ErrInvalidRequest
               else if choices \<noteq> 1 then Some ErrUnsupportedContinuationShape
               else None))"

definition assistant_message :: "bytes \<Rightarrow> bytes" where
  "assistant_message accumulated = CHR ''{'' # members_text [(''role'', Some ''assistant''), (''content'', Some accumulated)] @ ''}''"

definition rewriteChatMessages :: "raw_map \<Rightarrow> bytes \<Rightarrow> continuation_error + raw_map" where
  "rewriteChatMessages m accumulated =
     (case present m ''messages'' of
        None \<Rightarrow> Inl ErrInvalidRequest
      | Some raw \<Rightarrow>
          (case json_unmarshal (um_slice None um_raw) None raw of
             Some (Some messages) \<Rightarrow>
               (case marshal_raws (map nonNil (slice_list (Some messages)) @ [assistant_message accumulated]) of
                  None \<Rightarrow> Inl ErrInvalidRequest
                | Some encoded \<Rightarrow> Inr (AList.update ''messages'' encoded m))
           | _ \<Rightarrow> Inl ErrInvalidRequest))"

definition rewriteLegacyPrompt :: "raw_map \<Rightarrow> bytes \<Rightarrow> continuation_error + raw_map" where
  "rewriteLegacyPrompt m accumulated =
     (case present m ''prompt'' of
        None \<Rightarrow> Inl ErrUnsupportedContinuationShape
      | Some raw \<Rightarrow>
          (case json_unmarshal um_string [] raw of
             None \<Rightarrow> Inl ErrUnsupportedContinuationShape
           | Some prompt \<Rightarrow> Inr (AList.update ''prompt'' (marshal_string (prompt @ accumulated)) m)))"

definition recomputeTokenLimit :: "raw_map \<Rightarrow> bytes \<Rightarrow> uint64 \<Rightarrow> continuation_error + raw_map" where
  "recomputeTokenLimit m name emitted =
     (case present m name of
        None \<Rightarrow> Inr m
      | Some raw \<Rightarrow>
          (case json_unmarshal um_uint64 0 raw of
             None \<Rightarrow> Inl ErrInvalidRequest
           | Some original \<Rightarrow>
               if original \<le> emitted then Inl ErrTokenBudgetExhausted
               else Inr (AList.update name (append_dec (original - emitted)) m)))"

definition rewrite_prompt :: "RequestKind \<Rightarrow> raw_map \<Rightarrow> bytes \<Rightarrow> continuation_error + raw_map" where
  "rewrite_prompt kind m accumulated =
     (if kind = RequestChatCompletion
      then (case rewriteChatMessages m accumulated of
              Inl x \<Rightarrow> Inl x
            | Inr m \<Rightarrow> Inr (AList.update ''add_generation_prompt'' ''false'' (AList.update ''continue_final_message'' ''true'' m)))
      else if kind = RequestCompletion then rewriteLegacyPrompt m accumulated
      else Inl ErrInvalidRequest)"

definition rewrite_limits :: "raw_map \<Rightarrow> uint64 \<Rightarrow> continuation_error + raw_map" where
  "rewrite_limits m emitted =
     (case recomputeTokenLimit m ''max_tokens'' emitted of
        Inl x \<Rightarrow> Inl x
      | Inr m \<Rightarrow> recomputeTokenLimit m ''max_completion_tokens'' emitted)"

definition RewriteContinuation :: "RequestKind \<Rightarrow> bytes \<Rightarrow> ContinuationOptions \<Rightarrow> continuation_error + bytes" where
  "RewriteContinuation kind original options =
     (if \<not> utf8_valid original \<or> \<not> utf8_valid (co_AccumulatedText options) then Inl ErrInvalidRequest
      else
        (case decodeRequestObject original of
           Inl x \<Rightarrow> Inl x
         | Inr m \<Rightarrow>
             (case requireSingleChoice m of
                Some x \<Rightarrow> Inl x
              | None \<Rightarrow>
                  (case rewrite_prompt kind m (co_AccumulatedText options) of
                     Inl x \<Rightarrow> Inl x
                   | Inr m \<Rightarrow>
                       (case rewrite_limits m (co_TokensAlreadyEmitted options) of
                          Inl x \<Rightarrow> Inl x
                        | Inr m \<Rightarrow>
                            (case marshal_map (AList.update ''stream'' ''true'' m) of
                               None \<Rightarrow> Inl ErrInvalidRequest
                             | Some rewritten \<Rightarrow> Inr rewritten))))))"

definition IsStructuredRequest :: "bytes \<Rightarrow> continuation_error + bool" where
  "IsStructuredRequest original =
     (if \<not> utf8_valid original then Inl ErrInvalidRequest
      else
        (case decodeRequestObject original of
           Inl x \<Rightarrow> Inl x
         | Inr m \<Rightarrow>
             (case present m ''response_format'' of
                None \<Rightarrow> Inr False
              | Some raw \<Rightarrow>
                  (case json_unmarshal um_map None raw of
                     Some (Some responseFormat) \<Rightarrow>
                       (case present responseFormat ''type'' of
                          None \<Rightarrow> Inr False
                        | Some rawType \<Rightarrow>
                            (case json_unmarshal um_string [] rawType of
                               None \<Rightarrow> Inl ErrInvalidRequest
                             | Some responseType \<Rightarrow> Inr (responseType = ''json_object'' \<or> responseType = ''json_schema'')))
                   | _ \<Rightarrow> Inl ErrInvalidRequest))))"

section \<open>Normalisation\<close>

datatype normalize_error = errRequestNotJSONObject | DecodeRequest | MoreThanOneValue | TrailingData | StreamNotBool | ModelNotString | Canonicalize

record normalizedRequest =
  nr_Body :: bytes
  nr_Model :: bytes
  nr_Stream :: bool

text \<open>
  \<open>decoder.Decode\<close> twice on one reader: the first value and what follows it. A second \<open>Decode\<close> succeeds if another
  value follows and reports \<open>io.EOF\<close> exactly if only white space does.
\<close>

definition normalizeRequest :: "bytes \<Rightarrow> normalize_error + normalizedRequest" where
  "normalizeRequest body =
     (let trimmed = trim_space body in
      if 0 < length trimmed \<and> hd trimmed \<noteq> CHR ''{'' then Inl errRequestNotJSONObject
      else
        (case json_first body of
           None \<Rightarrow> Inl DecodeRequest
         | Some (v, rest) \<Rightarrow>
             (case um_map None v (raw_of (skipWhitespace body) rest) of
                (_, False) \<Rightarrow> Inl DecodeRequest
              | (None, True) \<Rightarrow> Inl errRequestNotJSONObject
              | (Some m, True) \<Rightarrow>
                  if skipWhitespace rest \<noteq> [] then (if json_first rest \<noteq> None then Inl MoreThanOneValue else Inl TrailingData)
                  else
                    (case (case map_of m ''stream'' of
                             None \<Rightarrow> Some False
                           | Some raw \<Rightarrow> if trim_space raw = ''null'' then None else json_unmarshal um_bool False raw) of
                       None \<Rightarrow> Inl StreamNotBool
                     | Some stream \<Rightarrow>
                         (case (case map_of m ''model'' of
                                  None \<Rightarrow> Some []
                                | Some raw \<Rightarrow> if trim_space raw = ''null'' then None else json_unmarshal um_string [] raw) of
                            None \<Rightarrow> Inl ModelNotString
                          | Some model \<Rightarrow>
                              (case marshal_map m of
                                 None \<Rightarrow> Inl Canonicalize
                               | Some canonical \<Rightarrow> Inr \<lparr>nr_Body = canonical, nr_Model = model, nr_Stream = stream\<rparr>))))))"

section \<open>What a continuation keeps\<close>

lemma append_dec_head: "0 < n \<Longrightarrow> hd (append_dec n) \<noteq> CHR ''0''"
proof (induction n rule: append_dec.induct)
  case (1 n)
  show ?case
  proof (cases "n < 10")
    case True
    have "bv (hd (append_dec n)) = 48 + n" using True dec_chars [of n] by (simp add: append_dec.simps [of n])
    then show ?thesis using "1.prems" by auto
  next
    case False
    then show ?thesis using 1 append_dec_props [of "n div 10"] by (simp add: append_dec.simps [of n])
  qed
qed

lemma digits_first:
  assumes "0 < n"
  shows "json_first (append_dec n) = Some (JNumber (append_dec n), [])" and "skipWhitespace (append_dec n) = append_dec n"
    and "list_all isDigit (append_dec n)"
proof -
  let ?s = "append_dec n"
  obtain c cs where s: "?s = c # cs" using append_dec_props [of n] by (cases ?s) auto
  show d: "list_all isDigit ?s" using append_dec_props [of n] by (simp add: list_all_iff dec_digit_def isDigit_def)
  then have c: "isDigit c" "c \<noteq> CHR ''0''" using append_dec_head [OF assms] by (simp_all add: s)
  then have n: "c \<noteq> CHR ''-''" "c \<noteq> QUOTE" "c \<noteq> CHR ''t''" "c \<noteq> CHR ''f''" "c \<noteq> CHR ''n''" "c \<noteq> CHR ''{''" "c \<noteq> CHR ''[''" "\<not> isWhitespace c"
    by (auto simp: isDigit_def isWhitespace_def)
  have dw: "dropWhile isDigit ?s = []" using d by (simp add: dropWhile_eq_Nil_conv list_all_iff)
  have "parseNumber ?s = ([], jsonPrefixComplete)"
    using c n dw by (simp add: parseNumber_def number_integer_def number_fraction_def number_exponent_def s)
  moreover show w: "skipWhitespace ?s = ?s" using n by (simp add: s skipWhitespace_def)
  ultimately show "json_first ?s = Some (JNumber ?s, [])"
    using c n by (simp add: json_first_def json_value.simps scan_scalar_def s raw_of_def)
qed

lemma digits_unmarshal:
  assumes "0 < n" and "n \<le> MaxUint64"
  shows "json_unmarshal um_uint64 x (append_dec n) = Some n"
  using parse_value [OF digits_first(1,2) [OF assms(1)], of um_uint64 x] digits_first(3) [OF assms(1)] append_dec_props [of n] assms(2)
  by (simp add: um_uint64_def parse_uint64_def ParseUint_def)

lemma uint64_bound: "json_unmarshal um_uint64 0 raw = Some n \<Longrightarrow> n \<le> MaxUint64"
  by (auto simp: json_unmarshal_def um_uint64_def parse_uint64_def ParseUint_def split: option.splits gojson.splits if_splits prod.splits)

text \<open>What a recomputed limit is.\<close>

definition limit_reduced :: "raw_map \<Rightarrow> raw_map \<Rightarrow> bytes \<Rightarrow> uint64 \<Rightarrow> bool" where
  "limit_reduced m m' name emitted \<longleftrightarrow>
     (case present m name of
        None \<Rightarrow> map_of m' name = map_of m name
      | Some raw \<Rightarrow> \<exists>original raw'. json_unmarshal um_uint64 0 raw = Some original \<and> emitted < original
          \<and> map_of m' name = Some raw' \<and> json_unmarshal um_uint64 0 raw' = Some (original - emitted))"

lemma recompute_limit:
  assumes "recomputeTokenLimit m name emitted = Inr m'"
  shows "limit_reduced m m' name emitted" and "k \<noteq> name \<Longrightarrow> map_of m' k = map_of m k"
proof -
  show "k \<noteq> name \<Longrightarrow> map_of m' k = map_of m k"
    using assms by (auto simp: recomputeTokenLimit_def update_conv' split: option.splits if_splits)
  show "limit_reduced m m' name emitted"
  proof (cases "present m name")
    case None
    then show ?thesis using assms by (simp add: recomputeTokenLimit_def limit_reduced_def)
  next
    case (Some raw)
    then obtain original where o: "json_unmarshal um_uint64 0 raw = Some original" "emitted < original" "m' = AList.update name (append_dec (original - emitted)) m"
      using assms by (auto simp: recomputeTokenLimit_def split: option.splits if_splits)
    have "original - emitted \<le> MaxUint64" using uint64_bound [OF o(1)] by simp
    then show ?thesis using o Some digits_unmarshal [of "original - emitted" 0] by (simp add: limit_reduced_def update_conv')
  qed
qed

lemma present_cong: "map_of m k = map_of m' k \<Longrightarrow> present m k = present m' k"
  by (simp add: present_def)

lemma rewrite_limits_spec:
  assumes "rewrite_limits m emitted = Inr m'"
  shows "limit_reduced m m' ''max_tokens'' emitted" and "limit_reduced m m' ''max_completion_tokens'' emitted"
    and "k \<noteq> ''max_tokens'' \<Longrightarrow> k \<noteq> ''max_completion_tokens'' \<Longrightarrow> map_of m' k = map_of m k"
proof -
  obtain m1 where m1: "recomputeTokenLimit m ''max_tokens'' emitted = Inr m1" "recomputeTokenLimit m1 ''max_completion_tokens'' emitted = Inr m'"
    using assms by (auto simp: rewrite_limits_def split: sum.splits)
  have k: "map_of m1 ''max_completion_tokens'' = map_of m ''max_completion_tokens''" "map_of m' ''max_tokens'' = map_of m1 ''max_tokens''"
    by (rule recompute_limit(2) [OF m1(1)] recompute_limit(2) [OF m1(2)]; simp)+
  show "limit_reduced m m' ''max_tokens'' emitted" using recompute_limit(1) [OF m1(1)] k(2) by (simp add: limit_reduced_def split: option.splits)
  show "limit_reduced m m' ''max_completion_tokens'' emitted"
    using recompute_limit(1) [OF m1(2)] k(1) present_cong [OF k(1)] by (simp add: limit_reduced_def split: option.splits)
  show "k \<noteq> ''max_tokens'' \<Longrightarrow> k \<noteq> ''max_completion_tokens'' \<Longrightarrow> map_of m' k = map_of m k"
    using recompute_limit(2) [OF m1(1)] recompute_limit(2) [OF m1(2)] by simp
qed

definition prompt_continued :: "RequestKind \<Rightarrow> raw_map \<Rightarrow> raw_map \<Rightarrow> bytes \<Rightarrow> bool" where
  "prompt_continued kind m m' accumulated \<longleftrightarrow>
     (if kind = RequestChatCompletion
      then \<exists>raw messages. present m ''messages'' = Some raw \<and> json_unmarshal (um_slice None um_raw) None raw = Some (Some messages)
          \<and> map_of m' ''messages'' = marshal_raws (map nonNil (slice_list (Some messages)) @ [assistant_message accumulated])
          \<and> map_of m' ''messages'' \<noteq> None \<and> map_of m' ''continue_final_message'' = Some ''true'' \<and> map_of m' ''add_generation_prompt'' = Some ''false''
      else \<exists>raw prompt. present m ''prompt'' = Some raw \<and> json_unmarshal um_string [] raw = Some prompt
          \<and> map_of m' ''prompt'' = Some (marshal_string (prompt @ accumulated)))"

definition rewritten_keys :: "RequestKind \<Rightarrow> bytes set" where
  "rewritten_keys kind = {''max_tokens'', ''max_completion_tokens'', ''stream''}
     \<union> (if kind = RequestChatCompletion then {''messages'', ''continue_final_message'', ''add_generation_prompt''} else {''prompt''})"

lemma rewrite_prompt_spec:
  assumes "rewrite_prompt kind m accumulated = Inr m'"
  shows "prompt_continued kind m m' accumulated" and "k \<notin> rewritten_keys kind \<Longrightarrow> map_of m' k = map_of m k"
    and "k \<in> {''max_tokens'', ''max_completion_tokens'', ''stream''} \<Longrightarrow> map_of m' k = map_of m k"
    and "kind = RequestChatCompletion \<or> kind = RequestCompletion"
proof -
  show "kind = RequestChatCompletion \<or> kind = RequestCompletion" using assms by (auto simp: rewrite_prompt_def split: if_splits)
  show "prompt_continued kind m m' accumulated"
    using assms by (auto simp: rewrite_prompt_def rewriteChatMessages_def rewriteLegacyPrompt_def prompt_continued_def update_conv'
        split: if_splits option.splits sum.splits)
  show "k \<notin> rewritten_keys kind \<Longrightarrow> map_of m' k = map_of m k"
    using assms by (auto simp: rewrite_prompt_def rewriteChatMessages_def rewriteLegacyPrompt_def rewritten_keys_def update_conv'
        split: if_splits option.splits sum.splits)
  show "k \<in> {''max_tokens'', ''max_completion_tokens'', ''stream''} \<Longrightarrow> map_of m' k = map_of m k"
    using assms by (auto simp: rewrite_prompt_def rewriteChatMessages_def rewriteLegacyPrompt_def update_conv'
        split: if_splits option.splits sum.splits)
qed

lemma prompt_continued_cong:
  "prompt_continued kind m m' accumulated \<Longrightarrow> kind = RequestChatCompletion \<or> kind = RequestCompletion \<Longrightarrow>
     \<forall>k. k \<notin> {''max_tokens'', ''max_completion_tokens'', ''stream''} \<longrightarrow> map_of m'' k = map_of m' k \<Longrightarrow> prompt_continued kind m m'' accumulated"
  by (auto simp: prompt_continued_def split: if_splits)

text \<open>
  C31: A continuation request is the original one carried on: it is the canonical form of the original fields in which
  only the accumulated text was appended (to the prompt, or as a final assistant message to be continued), streaming
  was switched on, and every token limit was reduced by exactly the tokens already emitted, to a positive rest.
\<close>
theorem continuation_carries_on:
  assumes "RewriteContinuation kind original options = Inr body"
  shows "\<exists>m m'. decodeRequestObject original = Inr m \<and> requireSingleChoice m = None \<and> marshal_map m' = Some body
    \<and> (\<forall>k. k \<notin> rewritten_keys kind \<longrightarrow> map_of m' k = map_of m k) \<and> map_of m' ''stream'' = Some ''true''
    \<and> limit_reduced m m' ''max_tokens'' (co_TokensAlreadyEmitted options)
    \<and> limit_reduced m m' ''max_completion_tokens'' (co_TokensAlreadyEmitted options)
    \<and> prompt_continued kind m m' (co_AccumulatedText options)"
proof -
  obtain m m1 m2 where m: "decodeRequestObject original = Inr m" "requireSingleChoice m = None"
      "rewrite_prompt kind m (co_AccumulatedText options) = Inr m1" "rewrite_limits m1 (co_TokensAlreadyEmitted options) = Inr m2"
      "marshal_map (AList.update ''stream'' ''true'' m2) = Some body"
    using assms by (auto simp: RewriteContinuation_def split: if_splits sum.splits option.splits)
  let ?m = "AList.update ''stream'' ''true'' m2"
  note p = rewrite_prompt_spec [OF m(3)] and l = rewrite_limits_spec [OF m(4)]
  have u: "map_of ?m k = (if k = ''stream'' then Some ''true'' else map_of m2 k)" for k by (simp add: update_conv')
  have e: "map_of m1 ''max_tokens'' = map_of m ''max_tokens''" "map_of m1 ''max_completion_tokens'' = map_of m ''max_completion_tokens''"
    using p(3) by simp_all
  have "limit_reduced m ?m name emitted" if "limit_reduced m1 m2 name emitted" "map_of m1 name = map_of m name" "name \<noteq> ''stream''" for name emitted
    using that present_cong [OF that(2)] u [of name] by (simp add: limit_reduced_def split: option.splits)
  then have lim: "limit_reduced m ?m ''max_tokens'' (co_TokensAlreadyEmitted options)" "limit_reduced m ?m ''max_completion_tokens'' (co_TokensAlreadyEmitted options)"
    using l(1,2) e by simp_all
  have keep: "map_of ?m k = map_of m k" if "k \<notin> rewritten_keys kind" for k
    using that p(2) [OF that] l(3) [of k] u [of k] by (auto simp: rewritten_keys_def)
  have "\<forall>k. k \<notin> {''max_tokens'', ''max_completion_tokens'', ''stream''} \<longrightarrow> map_of ?m k = map_of m1 k" using l(3) u by simp
  from prompt_continued_cong [OF p(1,4) this] show ?thesis using m keep lim u [of "''stream''"] by (intro exI [of _ m] exI [of _ ?m]) simp
qed

lemma decode_text:
  assumes "texts_valid kvs" and "kvs \<noteq> []"
  shows "decodeRequestObject (CHR ''{'' # members_text kvs @ ''}'')
    = Inr (foldl (\<lambda>m (k, v). AList.update k (field_text v) m) [] kvs)"
proof -
  let ?p = "CHR ''{'' # members_text kvs @ ''}''"
  have t: "trim_space ?p = ?p" by (rule trim_braces) simp_all
  have s: "skipWhitespace ?p = ?p" by (simp add: skipWhitespace_def isWhitespace_def)
  have "foldl (\<lambda>m (k, v, raw). AList.update k raw m) m (map (\<lambda>(k, v). (k, field_value v, field_text v)) kvs)
      = foldl (\<lambda>m (k, v). AList.update k (field_text v) m) m kvs" for m
    by (induction kvs arbitrary: m) auto
  then have "json_unmarshal um_map None ?p = Some (Some (foldl (\<lambda>m (k, v). AList.update k (field_text v) m) [] kvs))"
    using parse_value [OF object_parse(1) [OF assms] s, of um_map None] by (simp add: um_map_def)
  then show ?thesis using t by (simp add: decodeRequestObject_def Let_def)
qed

lemma json_valid_string: "utf8_valid s \<Longrightarrow> json_valid (marshal_string s)"
  using string_first [of s] by (simp add: json_valid_def json_parse_def skipWhitespace_def)

lemma json_valid_true: "json_valid ''true''"
  by (simp add: json_valid_def json_parse_def json_first_def skipWhitespace_def isWhitespace_def json_value.simps scan_scalar_def scan_literal_def)

definition demoRequest :: bytes where
  "demoRequest = CHR ''{'' # members_text [(''prompt'', Some ''hi''), (''seed'', Some ''s'')] @ ''}''"

lemma demo_request:
  "decodeRequestObject demoRequest = Inr [(''prompt'', marshal_string ''hi''), (''seed'', marshal_string ''s'')]" (is ?d)
  "utf8_valid demoRequest" "\<not> isJSONNull (marshal_string ''hi'')" "json_unmarshal um_string [] (marshal_string ''hi'') = Some ''hi''"
proof -
  have v: "texts_valid [(''prompt'', Some ''hi''), (''seed'', Some ''s'')]" by (simp add: texts_valid_def utf8_valid_all_ascii)
  show ?d using decode_text [OF v] by (simp add: demoRequest_def field_text_def)
  show "utf8_valid demoRequest" unfolding demoRequest_def by (rule object_text_valid [OF v])
  have "trim_space (marshal_string s) = marshal_string s" if "s = ''hi''" for s
    using that by (simp add: marshal_string_def quote_body_eqs quote_byte_def html_safe_def trim_space_def trim_left.simps trim_right.simps
        decode_last_rune_def unicode_is_space_def)
  then show "\<not> isJSONNull (marshal_string ''hi'')" by (simp add: isJSONNull_def marshal_string_def)
  show "json_unmarshal um_string [] (marshal_string ''hi'') = Some ''hi''"
    by (simp add: string_unmarshal utf8_valid_all_ascii um_string_def)
qed

lemma demo_rewrites:
  assumes "utf8_valid t"
  shows "\<exists>body. RewriteContinuation RequestCompletion demoRequest \<lparr>co_AccumulatedText = t, co_TokensAlreadyEmitted = k\<rparr> = Inr body"
proof -
  have "utf8_valid (''hi'' @ t)" by (rule utf8_valid_concat [OF _ assms]) (simp add: utf8_valid_all_ascii)
  then show ?thesis
    using assms demo_request json_valid_string [of "''hi'' @ t"] json_valid_string [of "''s''"] json_valid_true
    by (simp add: RewriteContinuation_def utf8_valid_all_ascii requireSingleChoice_def present_def rewrite_prompt_def RequestCompletion_def
        RequestChatCompletion_def rewriteLegacyPrompt_def rewrite_limits_def recomputeTokenLimit_def marshal_map_def)
qed

theorem continuation_carries_on_witness:
  "\<exists>body m'. RewriteContinuation RequestCompletion demoRequest \<lparr>co_AccumulatedText = ''x'', co_TokensAlreadyEmitted = 3\<rparr> = Inr body
     \<and> marshal_map m' = Some body \<and> map_of m' ''prompt'' = Some (marshal_string ''hix'') \<and> map_of m' ''seed'' = Some (marshal_string ''s'')"
proof -
  obtain body where b: "RewriteContinuation RequestCompletion demoRequest \<lparr>co_AccumulatedText = ''x'', co_TokensAlreadyEmitted = 3\<rparr> = Inr body"
    using demo_rewrites [of "''x''"] by (auto simp: utf8_valid_all_ascii)
  obtain m' where m: "marshal_map m' = Some body" "\<forall>k. k \<notin> rewritten_keys RequestCompletion \<longrightarrow> map_of m' k = map_of [(''prompt'', marshal_string ''hi''), (''seed'', marshal_string ''s'')] k"
      "prompt_continued RequestCompletion [(''prompt'', marshal_string ''hi''), (''seed'', marshal_string ''s'')] m' ''x''"
    using continuation_carries_on [OF b] demo_request(1) by auto
  have "map_of m' ''seed'' = Some (marshal_string ''s'')" using m(2) by (simp add: rewritten_keys_def RequestCompletion_def RequestChatCompletion_def)
  moreover have "map_of m' ''prompt'' = Some (marshal_string ''hix'')"
    using m(3) demo_request(3,4) by (simp add: prompt_continued_def present_def RequestCompletion_def RequestChatCompletion_def)
  ultimately show ?thesis using b m(1) by blast
qed

end
