(* ===== verification/Degraded_Feed.thy ===== *)
theory Degraded_Feed
  imports Journal_Sse
begin

text \<open>
  The process-local relay of \<open>internal/proxy/degradation.go\<close>: every attached reader has a bounded queue that
  shadows the committed entries and, once journaling failed, carries the frames that got no sequence number.
  The feed is a record; the channels that a subscriber's \<open>changed\<close> replaces are numbered, \<open>evicted\<close> and
  \<open>activated\<close> say whether those channels are closed. The lemmas show that the relay loses nothing, repeats
  nothing and keeps its queues bounded.
\<close>

section \<open>The feed\<close>

record degradedSubscriber =
  su_required :: bool
  su_queue :: "degradedFrame list"
  su_bytes :: int
  su_ackedSeq :: uint64
  su_changed :: nat
  su_evicted :: bool
  su_lagged :: bool

record degradedFeed =
  fd_maxLagBytes :: int
  fd_activated :: bool
  fd_active :: bool
  fd_boundary :: uint64
  fd_closed :: bool
  fd_nextSubscriberID :: uint64
  fd_subscribers :: "(uint64 \<times> degradedSubscriber) list"

definition newDegradedFeed :: "int \<Rightarrow> degradedFeed" where
  "newDegradedFeed maxLagBytes = \<lparr>fd_maxLagBytes = maxLagBytes, fd_activated = False, fd_active = False, fd_boundary = 0, fd_closed = False,
     fd_nextSubscriberID = 0, fd_subscribers = []\<rparr>"

text \<open>\<open>subscribe\<close>: the identifier of the subscription, if the feed still takes readers.\<close>

definition feed_subscribe :: "bool \<Rightarrow> degradedFeed \<Rightarrow> uint64 option \<times> degradedFeed" where
  "feed_subscribe required feed =
     (if fd_active feed \<or> fd_closed feed then (None, feed)
      else (let i = Suc (fd_nextSubscriberID feed) mod 2 ^ 64 in
            (Some i, feed\<lparr>fd_nextSubscriberID := i,
               fd_subscribers := AList.update i \<lparr>su_required = required, su_queue = [], su_bytes = 0, su_ackedSeq = 0, su_changed = 0,
                 su_evicted = False, su_lagged = False\<rparr> (fd_subscribers feed)\<rparr>)))"

definition feed_status :: "degradedFeed \<Rightarrow> uint64 \<times> bool" where
  "feed_status feed = (fd_boundary feed, fd_active feed)"

definition subscriberCount :: "degradedFeed \<Rightarrow> nat" where
  "subscriberCount feed = length (fd_subscribers feed)"

definition queuedBytes :: "degradedFeed \<Rightarrow> int" where
  "queuedBytes feed = sum_list (map (su_bytes \<circ> snd) (fd_subscribers feed))"

definition signalLocked :: "degradedSubscriber \<Rightarrow> degradedSubscriber" where
  "signalLocked s = s\<lparr>su_changed := Suc (su_changed s)\<rparr>"

definition upd_sub :: "uint64 \<Rightarrow> (degradedSubscriber \<Rightarrow> degradedSubscriber) \<Rightarrow> degradedFeed \<Rightarrow> degradedFeed" where
  "upd_sub i f feed =
     (case map_of (fd_subscribers feed) i of None \<Rightarrow> feed | Some s \<Rightarrow> feed\<lparr>fd_subscribers := AList.update i (f s) (fd_subscribers feed)\<rparr>)"

definition committedFrameAcknowledged :: "degradedSubscriber \<Rightarrow> degradedFrame \<Rightarrow> bool" where
  "committedFrameAcknowledged s frame = (case df_entry frame of None \<Rightarrow> False | Some e \<Rightarrow> e_Seq e \<le> su_ackedSeq s)"

definition enqueue_one :: "int \<Rightarrow> degradedFrame \<Rightarrow> degradedSubscriber \<Rightarrow> degradedSubscriber" where
  "enqueue_one maxLagBytes frame s =
     (if su_lagged s \<or> committedFrameAcknowledged s frame then s
      else if su_bytes s \<noteq> 0 \<and> su_bytes s + df_size frame > maxLagBytes
      then signalLocked (s\<lparr>su_queue := [], su_bytes := 0, su_lagged := True, su_evicted := True\<rparr>)
      else signalLocked (s\<lparr>su_queue := su_queue s @ [frame], su_bytes := su_bytes s + df_size frame\<rparr>))"

definition enqueueSecondary :: "uint64 \<Rightarrow> degradedFrame \<Rightarrow> degradedFeed \<Rightarrow> degradedFeed" where
  "enqueueSecondary i frame feed = (if fd_closed feed then feed else upd_sub i (enqueue_one (fd_maxLagBytes feed) frame) feed)"

text \<open>\<open>broadcast\<close> releases the lock between the readers; \<open>enqueueSecondary\<close> is the atomic step.\<close>

definition frame_sized :: "degradedFrame \<Rightarrow> degradedFrame" where
  "frame_sized frame = (if df_size frame \<le> 0 then frame\<lparr>df_size := degradedEventSize frame\<rparr> else frame)"

definition broadcast :: "gocontext \<Rightarrow> degradedFrame \<Rightarrow> degradedFeed \<Rightarrow> journal_error option \<times> degradedFeed" where
  "broadcast ctx frame feed =
     (if ctx = NilContext then (Some ErrInvalidContext, feed)
      else if fd_closed feed \<or> fd_subscribers feed = [] then (None, feed)
      else (None, fold (\<lambda>i. enqueueSecondary i (frame_sized frame)) (map fst (fd_subscribers feed)) feed))"

fun broadcast_all :: "gocontext \<Rightarrow> degradedFrame list \<Rightarrow> degradedFeed \<Rightarrow> journal_error option \<times> degradedFeed" where
  "broadcast_all ctx [] feed = (None, feed)"
| "broadcast_all ctx (f # fs) feed = (case broadcast ctx f feed of (Some x, feed) \<Rightarrow> (Some x, feed) | (None, feed) \<Rightarrow> broadcast_all ctx fs feed)"

definition committed_frame :: "Entry \<Rightarrow> degradedFrame" where
  "committed_frame entry =
     \<lparr>df_entry = Some entry, df_event = emptyEvent, df_terminal = False, df_verboseOnly = False, df_size = degradedEntrySize entry\<rparr>"

definition publishCommitted :: "gocontext \<Rightarrow> Entry \<Rightarrow> degradedFeed \<Rightarrow> journal_error option \<times> degradedFeed" where
  "publishCommitted ctx entry = broadcast ctx (committed_frame entry)"

definition feed_activate :: "gocontext \<Rightarrow> uint64 \<Rightarrow> degradedFrame list \<Rightarrow> degradedFeed \<Rightarrow> journal_error option \<times> degradedFeed" where
  "feed_activate ctx boundary frames feed =
     (if fd_closed feed then (None, feed)
      else broadcast_all ctx frames
             (if \<not> fd_active feed then feed\<lparr>fd_active := True, fd_boundary := boundary, fd_activated := True\<rparr> else feed))"

definition feed_append :: "gocontext \<Rightarrow> degradedFrame list \<Rightarrow> degradedFeed \<Rightarrow> journal_error option \<times> degradedFeed" where
  "feed_append ctx frames feed = (if \<not> (fd_active feed \<and> \<not> fd_closed feed) then (None, feed) else broadcast_all ctx frames feed)"

definition feed_close :: "degradedFeed \<Rightarrow> degradedFeed" where
  "feed_close feed =
     (if fd_closed feed then feed
      else feed\<lparr>fd_closed := True, fd_subscribers := map (\<lambda>(i, s). (i, signalLocked s)) (fd_subscribers feed)\<rparr>)"

section \<open>Subscriptions\<close>

fun drop_acked :: "uint64 \<Rightarrow> degradedFrame list \<Rightarrow> int \<Rightarrow> degradedFrame list \<times> int" where
  "drop_acked seq [] bytes = ([], bytes)"
| "drop_acked seq (f # q) bytes =
     (case df_entry f of
        None \<Rightarrow> (f # q, bytes)
      | Some e \<Rightarrow> if e_Seq e > seq then (f # q, bytes) else drop_acked seq q (bytes - df_size f))"

definition feed_acknowledge :: "uint64 \<Rightarrow> uint64 \<Rightarrow> degradedFeed \<Rightarrow> degradedFeed" where
  "feed_acknowledge i seq feed =
     (if seq = 0 then feed
      else upd_sub i (\<lambda>s. if seq \<le> su_ackedSeq s then s
             else (case drop_acked seq (su_queue s) (su_bytes s) of
                     (q, b) \<Rightarrow> signalLocked (s\<lparr>su_ackedSeq := seq, su_queue := q, su_bytes := b\<rparr>))) feed)"

text \<open>
  One pass of the loop in \<open>next\<close>: a result (a frame, the end of the stream, or an error), or \<open>None\<close> when the
  subscriber has to wait for its channel.
\<close>

definition feed_next :: "uint64 \<Rightarrow> degradedFeed \<Rightarrow> (journal_error + degradedFrame option) option \<times> degradedFeed" where
  "feed_next i feed =
     (case map_of (fd_subscribers feed) i of
        None \<Rightarrow> (Some (Inr None), feed)
      | Some s \<Rightarrow>
          if su_lagged s then (Some (Inl ErrReaderLagged), feed)
          else
            (case su_queue s of
               frame # q \<Rightarrow> (Some (Inr (Some frame)), upd_sub i (\<lambda>s. signalLocked (s\<lparr>su_queue := q, su_bytes := su_bytes s - df_size frame\<rparr>)) feed)
             | [] \<Rightarrow> if fd_closed feed then (Some (Inr None), feed) else (None, feed)))"

definition feed_unsubscribe :: "uint64 \<Rightarrow> degradedFeed \<Rightarrow> degradedFeed" where
  "feed_unsubscribe i feed = feed\<lparr>fd_subscribers := AList.delete i (fd_subscribers feed)\<rparr>"

section \<open>Runs\<close>

text \<open>
  What subscriber \<open>i\<close> goes through: the frames that the producer offered it since it subscribed and those
  that \<open>next\<close> handed to it, while other subscribers come and go.
\<close>

inductive feed_run :: "uint64 \<Rightarrow> degradedFeed \<Rightarrow> degradedFrame list \<Rightarrow> degradedFrame list \<Rightarrow> bool" for i where
  joined: "feed_subscribe required feed = (Some i, feed') \<Longrightarrow> feed_run i feed' [] []"
| offered: "feed_run i feed sent got \<Longrightarrow> \<not> fd_closed feed \<Longrightarrow> 0 < df_size frame \<Longrightarrow>
    feed_run i (enqueueSecondary i frame feed) (sent @ [frame]) got"
| offered_other: "feed_run i feed sent got \<Longrightarrow> j \<noteq> i \<Longrightarrow> feed_run i (enqueueSecondary j frame feed) sent got"
| acknowledged: "feed_run i feed sent got \<Longrightarrow> feed_run i (feed_acknowledge j seq feed) sent got"
| taken: "feed_run i feed sent got \<Longrightarrow> feed_next i feed = (Some (Inr (Some frame)), feed') \<Longrightarrow> feed_run i feed' sent (got @ [frame])"
| taken_other: "feed_run i feed sent got \<Longrightarrow> j \<noteq> i \<Longrightarrow> feed_next j feed = (r, feed') \<Longrightarrow> feed_run i feed' sent got"
| left_other: "feed_run i feed sent got \<Longrightarrow> j \<noteq> i \<Longrightarrow> feed_run i (feed_unsubscribe j feed) sent got"
| joined_other: "feed_run i feed sent got \<Longrightarrow> feed_subscribe required feed = (Some j, feed') \<Longrightarrow> j \<noteq> i \<Longrightarrow> feed_run i feed' sent got"
| activated: "feed_run i feed sent got \<Longrightarrow> feed_run i (feed\<lparr>fd_active := True, fd_boundary := b, fd_activated := True\<rparr>) sent got"
| closed: "feed_run i feed sent got \<Longrightarrow> feed_run i (feed_close feed) sent got"

text \<open>\<open>thinned acked sent kept\<close>: \<open>kept\<close> is \<open>sent\<close> without some committed frames up to sequence \<open>acked\<close>.\<close>

inductive thinned :: "uint64 \<Rightarrow> degradedFrame list \<Rightarrow> degradedFrame list \<Rightarrow> bool" for acked where
  thinned_nil: "thinned acked [] []"
| thinned_keep: "thinned acked sent kept \<Longrightarrow> thinned acked (f # sent) (f # kept)"
| thinned_drop: "thinned acked sent kept \<Longrightarrow> df_entry f = Some e \<Longrightarrow> e_Seq e \<le> acked \<Longrightarrow> thinned acked (f # sent) kept"

lemma thinned_mono: "thinned acked sent kept \<Longrightarrow> acked \<le> acked' \<Longrightarrow> thinned acked' sent kept"
  by (induction rule: thinned.induct) (auto intro: thinned.intros)

lemma thinned_append: "thinned acked s1 k1 \<Longrightarrow> thinned acked s2 k2 \<Longrightarrow> thinned acked (s1 @ s2) (k1 @ k2)"
  by (induction rule: thinned.induct) (auto intro: thinned.intros)

lemma thinned_trans: "thinned acked s k \<Longrightarrow> thinned acked k k' \<Longrightarrow> thinned acked s k'"
proof (induction arbitrary: k' rule: thinned.induct)
  case (thinned_keep sent kept f)
  from thinned_keep.prems show ?case
    by (cases rule: thinned.cases) (auto intro: thinned.intros thinned_keep.IH)
qed (auto intro: thinned.intros)

lemma thinned_refl: "thinned acked s s"
  by (induction s) (auto intro: thinned.intros)

lemma drop_acked_thinned:
  assumes "drop_acked seq q b = (q', b')"
  shows "thinned seq q q'" and "b' = b - sum_list (map df_size q) + sum_list (map df_size q')"
    and "\<exists>k. q' = drop k q"
proof -
  have "thinned seq q q' \<and> b' = b - sum_list (map df_size q) + sum_list (map df_size q') \<and> (\<exists>k. q' = drop k q)"
    using assms
  proof (induction seq q b rule: drop_acked.induct)
    case (2 seq f q bytes)
    show ?case
    proof (cases "\<exists>e. df_entry f = Some e \<and> e_Seq e \<le> seq")
      case True
      then obtain e where e: "df_entry f = Some e" "e_Seq e \<le> seq" by blast
      then have r: "drop_acked seq q (bytes - df_size f) = (q', b')" using "2.prems" by simp
      have i: "thinned seq q q'" "b' = bytes - df_size f - sum_list (map df_size q) + sum_list (map df_size q')" "\<exists>k. q' = drop k q"
        using "2.IH" [OF e(1) _ r] e(2) by auto
      then obtain k where "q' = drop k q" by blast
      then have "q' = drop (Suc k) (f # q)" by simp
      then show ?thesis using i e thinned_drop by fastforce
    next
      case False
      then have "q' = f # q" "b' = bytes" using "2.prems" by (auto split: option.splits if_splits)
      then show ?thesis by (auto intro: thinned_refl exI [of _ 0])
    qed
  qed (auto intro: thinned.intros)
  then show "thinned seq q q'" "b' = b - sum_list (map df_size q) + sum_list (map df_size q')" "\<exists>k. q' = drop k q" by blast+
qed

section \<open>The invariant of a subscriber\<close>

definition sub_ok :: "int \<Rightarrow> degradedSubscriber \<Rightarrow> degradedFrame list \<Rightarrow> degradedFrame list \<Rightarrow> bool" where
  "sub_ok maxLagBytes s sent got \<longleftrightarrow>
     (if su_lagged s then su_queue s = [] \<and> su_bytes s = 0
      else su_bytes s = sum_list (map df_size (su_queue s)) \<and> list_all (\<lambda>f. 0 < df_size f) (su_queue s)
        \<and> (su_bytes s \<le> maxLagBytes \<or> length (su_queue s) \<le> 1) \<and> thinned (su_ackedSeq s) sent (got @ su_queue s))"

lemma map_upd_sub: "map_of (fd_subscribers (upd_sub j f feed)) i = (if i = j then map_option f (map_of (fd_subscribers feed) i) else map_of (fd_subscribers feed) i)"
  by (simp add: upd_sub_def update_conv' split: option.split)

lemma fd_upd_sub [simp]: "fd_maxLagBytes (upd_sub j f feed) = fd_maxLagBytes feed" "fd_closed (upd_sub j f feed) = fd_closed feed"
  by (simp_all add: upd_sub_def split: option.split)

lemma sizes_pos: "list_all (\<lambda>f. 0 < df_size f) q \<Longrightarrow> 0 \<le> sum_list (map df_size q) \<and> (sum_list (map df_size q) = 0 \<longleftrightarrow> q = [])"
  by (induction q) auto

lemma sub_ok_enqueue:
  assumes "sub_ok m s sent got" and "0 < df_size frame"
  shows "sub_ok m (enqueue_one m frame s) (sent @ [frame]) got"
proof (cases "su_lagged s")
  case True
  then show ?thesis using assms(1) by (simp add: sub_ok_def enqueue_one_def)
next
  case False
  note ok = assms(1) [unfolded sub_ok_def, simplified False if_False]
  show ?thesis
  proof (cases "committedFrameAcknowledged s frame")
    case True
    then obtain e where "df_entry frame = Some e" "e_Seq e \<le> su_ackedSeq s" by (auto simp: committedFrameAcknowledged_def split: option.splits)
    then have "thinned (su_ackedSeq s) [frame] []" by (auto intro: thinned.intros)
    from thinned_append [OF _ this] ok True False show ?thesis by (auto simp: sub_ok_def enqueue_one_def)
  next
    case na: False
    have t: "thinned (su_ackedSeq s) (sent @ [frame]) (got @ su_queue s @ [frame])"
      using thinned_append [OF _ thinned_refl, of "su_ackedSeq s" sent "got @ su_queue s" "[frame]"] ok by simp
    have "su_queue s = []" if "su_bytes s = 0" using sizes_pos [of "su_queue s"] ok that by simp
    then show ?thesis using ok t assms(2) False na by (auto simp: sub_ok_def enqueue_one_def signalLocked_def)
  qed
qed

lemma sub_ok_ack:
  assumes "sub_ok m s sent got" and "su_ackedSeq s \<le> seq" and "drop_acked seq (su_queue s) (su_bytes s) = (q, b)"
  shows "sub_ok m (s\<lparr>su_ackedSeq := seq, su_queue := q, su_bytes := b\<rparr>) sent got"
proof (cases "su_lagged s")
  case True
  then show ?thesis using assms by (simp add: sub_ok_def)
next
  case False
  note ok = assms(1) [unfolded sub_ok_def, simplified False if_False] and d = drop_acked_thinned [OF assms(3)]
  obtain k where k: "q = drop k (su_queue s)" using d(3) by blast
  have b: "b = sum_list (map df_size q)" using d(2) ok by simp
  have p: "list_all (\<lambda>f. 0 < df_size f) q" "list_all (\<lambda>f. 0 < df_size f) (take k (su_queue s))"
    using ok by (auto simp: k list_all_iff dest: in_set_dropD in_set_takeD)
  have "su_bytes s = sum_list (map df_size (take k (su_queue s))) + b"
    using ok by (metis append_take_drop_id b k map_append sum_list_append)
  then have "b \<le> su_bytes s" using sizes_pos [OF p(2)] by simp
  moreover have "length q \<le> length (su_queue s)" by (simp add: k)
  moreover have "thinned seq sent (got @ q)"
    using thinned_trans [OF thinned_mono [OF _ assms(2)] thinned_append [OF thinned_refl d(1)]] ok by blast
  ultimately show ?thesis using ok b p(1) False by (auto simp: sub_ok_def)
qed

lemma sub_ok_take:
  assumes "sub_ok m s sent got" and "\<not> su_lagged s" and "su_queue s = frame # q"
  shows "sub_ok m (s\<lparr>su_queue := q, su_bytes := su_bytes s - df_size frame\<rparr>) sent (got @ [frame])"
  using assms by (auto simp: sub_ok_def)

lemma sub_ok_signal [simp]: "sub_ok m (signalLocked s) sent got = sub_ok m s sent got"
  by (simp add: sub_ok_def signalLocked_def)

lemma run_ok:
  assumes "feed_run i feed sent got"
  shows "\<exists>s. map_of (fd_subscribers feed) i = Some s \<and> sub_ok (fd_maxLagBytes feed) s sent got"
  using assms
proof (induction rule: feed_run.induct)
  case (joined required feed feed')
  then show ?case by (auto simp: feed_subscribe_def Let_def update_conv' sub_ok_def thinned_nil split: if_splits)
next
  case (offered feed sent got frame)
  then show ?case using sub_ok_enqueue by (auto simp: enqueueSecondary_def map_upd_sub)
next
  case (acknowledged feed sent got j seq)
  then obtain s where s: "map_of (fd_subscribers feed) i = Some s" "sub_ok (fd_maxLagBytes feed) s sent got" by blast
  obtain q b where qb: "drop_acked seq (su_queue s) (su_bytes s) = (q, b)" by fastforce
  then show ?case
    using s sub_ok_ack [OF s(2) _ qb] by (cases "i = j"; cases "seq \<le> su_ackedSeq s") (simp_all add: feed_acknowledge_def map_upd_sub)
next
  case (taken feed sent got frame feed')
  then obtain s where s: "map_of (fd_subscribers feed) i = Some s" "sub_ok (fd_maxLagBytes feed) s sent got" by blast
  then obtain q where q: "\<not> su_lagged s" "su_queue s = frame # q"
      "feed' = upd_sub i (\<lambda>s. signalLocked (s\<lparr>su_queue := q, su_bytes := su_bytes s - df_size frame\<rparr>)) feed"
    using taken.hyps(2) by (auto simp: feed_next_def split: if_splits list.splits)
  then show ?case using sub_ok_take [OF s(2) q(1,2)] s(1) by (simp add: map_upd_sub)
next
  case (taken_other feed sent got j r feed')
  then show ?case by (auto simp: feed_next_def map_upd_sub split: option.splits if_splits list.splits)
next
  case (joined_other feed sent got required j feed')
  then show ?case by (auto simp: feed_subscribe_def Let_def update_conv' split: if_splits)
next
  case (closed feed sent got)
  then obtain s where s: "map_of (fd_subscribers feed) i = Some s" "sub_ok (fd_maxLagBytes feed) s sent got" by blast
  have "map_of (map (\<lambda>(i, s). (i, signalLocked s)) xs) i = map_option signalLocked (map_of xs i)" for xs :: "(uint64 \<times> degradedSubscriber) list"
    by (induction xs) auto
  then show ?case using s by (auto simp: feed_close_def)
qed (auto simp: enqueueSecondary_def map_upd_sub feed_unsubscribe_def delete_conv')

text \<open>
  C33: The relay neither loses nor repeats a frame. Until a subscriber is declared lagged, what it has taken followed by
  what waits in its queue is everything it was offered, in order, except for committed entries that it
  acknowledged having read from the journal; once it is lagged it gets \<open>ErrReaderLagged\<close> and never a frame
  after a gap. Its queue holds at most the lag limit, or a single frame.
\<close>
theorem relay_complete:
  assumes "feed_run i feed sent got"
  shows "\<exists>s. map_of (fd_subscribers feed) i = Some s
    \<and> (if su_lagged s then fst (feed_next i feed) = Some (Inl ErrReaderLagged) \<and> su_queue s = []
       else thinned (su_ackedSeq s) sent (got @ su_queue s)
         \<and> (sum_list (map df_size (su_queue s)) \<le> fd_maxLagBytes feed \<or> length (su_queue s) \<le> 1))"
proof -
  obtain s where s: "map_of (fd_subscribers feed) i = Some s" "sub_ok (fd_maxLagBytes feed) s sent got" using run_ok [OF assms] by blast
  then show ?thesis by (intro exI [of _ s]) (auto simp: sub_ok_def feed_next_def)
qed

definition demoFeed :: degradedFeed where
  "demoFeed = snd (feed_subscribe True (newDegradedFeed 1000))"

definition demoFrame :: degradedFrame where
  "demoFrame = committed_frame \<lparr>e_Seq = 2, e_TS = 0, e_Kind = KindChunk, e_Payload = ''x'', e_Err = None\<rparr>"

theorem relay_complete_witness:
  "\<exists>s. map_of (fd_subscribers (enqueueSecondary 1 demoFrame demoFeed)) 1 = Some s \<and> thinned 0 [demoFrame] (su_queue s) \<and> \<not> su_lagged s"
proof -
  have "feed_run 1 demoFeed [] []"
    by (rule joined [of True "newDegradedFeed 1000"]) (simp add: demoFeed_def feed_subscribe_def newDegradedFeed_def Let_def)
  then have r: "feed_run 1 (enqueueSecondary 1 demoFrame demoFeed) ([] @ [demoFrame]) []"
    by (rule offered) (simp_all add: demoFeed_def demoFrame_def feed_subscribe_def newDegradedFeed_def Let_def committed_frame_def degradedEntrySize_def)
  obtain s where s: "map_of (fd_subscribers (enqueueSecondary 1 demoFrame demoFeed)) 1 = Some s"
      "if su_lagged s then fst (feed_next 1 (enqueueSecondary 1 demoFrame demoFeed)) = Some (Inl ErrReaderLagged) \<and> su_queue s = []
       else thinned (su_ackedSeq s) ([] @ [demoFrame]) ([] @ su_queue s)
         \<and> (sum_list (map df_size (su_queue s)) \<le> fd_maxLagBytes (enqueueSecondary 1 demoFrame demoFeed) \<or> length (su_queue s) \<le> 1)"
    using relay_complete [OF r] by blast
  moreover have "\<not> su_lagged s" "su_ackedSeq s = 0"
    using s(1) by (auto simp: enqueueSecondary_def upd_sub_def demoFeed_def demoFrame_def feed_subscribe_def newDegradedFeed_def Let_def
        committed_frame_def enqueue_one_def committedFrameAcknowledged_def signalLocked_def)
  ultimately show ?thesis by simp
qed

end
