(* ===== verification/Routes.thy ===== *)
theory Routes
  imports Pool_Contract
begin

text \<open>
  The registry of \<open>internal/proxy/routes.go\<close> that programs the backend pool from the routes a controller applies:
  validation of an update, the ordering of generations and tombstones, the combination of all live routes into one
  backend set, and the admission of requests by model. Go maps are association lists. The parts of the standard
  library it calls (\<open>url.Parse\<close>, \<open>time.ParseDuration\<close>, the digest of the canonical JSON) are functions in the
  record \<open>route_lib\<close>, of which nothing is assumed.
\<close>

section \<open>Updates\<close>

record streamPolicy =
  po_MaxMigrations :: int
  po_MaxMigrationTokens :: uint64
  po_MaxStreamDuration :: duration
  po_OrphanPolicy :: string
  po_OrphanTimeout :: duration
  po_AllowCrossVersion :: bool
  po_AllowStructuredResume :: bool
  po_SeamWindowBytes :: int
  po_JournalTTL :: duration
  po_TemplateMode :: TemplateMode

record routePolicyInput =
  ri_MaxMigrations :: int
  ri_MaxMigrationTokens :: uint64
  ri_MaxStreamDuration :: bytes
  ri_OrphanPolicy :: string
  ri_OrphanTimeout :: bytes
  ri_AllowCrossVersion :: bool
  ri_AllowStructuredResume :: bool
  ri_SeamWindowBytes :: int
  ri_JournalTTL :: bytes

record routeBackendInput =
  rb_ID :: bytes
  rb_URL :: bytes
  rb_ModelVersion :: bytes
  rb_TemplateVerdict :: Verdict
  rb_PodNamespace :: bytes
  rb_PodName :: bytes

record routeBackendUpdate =
  ru_Model :: bytes
  ru_UID :: bytes
  ru_ObservedGeneration :: int
  ru_Deleted :: bool
  ru_Policy :: routePolicyInput
  ru_Backends :: "routeBackendInput list"

record routeApplyResult =
  ra_Route :: bytes
  ra_Model :: bytes
  ra_AppliedGeneration :: int
  ra_BackendCount :: nat
  ra_DrainingBackends :: nat
  ra_DrainingBackendIDs :: "bytes list"
  ra_ActiveStreams :: nat

definition emptyResult :: routeApplyResult where
  "emptyResult = \<lparr>ra_Route = [], ra_Model = [], ra_AppliedGeneration = 0, ra_BackendCount = 0, ra_DrainingBackends = 0,
     ra_DrainingBackendIDs = [], ra_ActiveStreams = 0\<rparr>"

record routeSnapshot =
  rs_model :: bytes
  rs_uid :: bytes
  rs_generation :: int
  rs_deleted :: bool
  rs_digest :: bytes
  rs_policy :: streamPolicy
  rs_backends :: "Backend list"

record route_lib =
  rl_parseURL :: "bytes \<Rightarrow> goURL option"
  rl_parseDuration :: "bytes \<Rightarrow> duration option"
  rl_digest :: "routeBackendUpdate \<Rightarrow> bytes"

datatype route_error = RouteInvalid | RouteUIDConflict | RouteGenerationStale | RouteShared | RoutePool pool_error

definition maxRouteBackends :: nat where "maxRouteBackends = 4096"

definition maxRouteResultDrainingBackendIDs :: nat where "maxRouteResultDrainingBackendIDs = 32"

section \<open>Validation\<close>

definition label_byte :: "byte \<Rightarrow> bool" where
  "label_byte c \<longleftrightarrow> (0x61 \<le> bv c \<and> bv c \<le> 0x7A) \<or> (0x30 \<le> bv c \<and> bv c \<le> 0x39)"

definition routeNamespacePattern :: "bytes \<Rightarrow> bool" where
  "routeNamespacePattern s \<longleftrightarrow> s \<noteq> [] \<and> label_byte (hd s) \<and> label_byte (last s) \<and> list_all (\<lambda>c. label_byte c \<or> c = CHR ''-'') s"

definition routeNamePattern :: "bytes \<Rightarrow> bool" where
  "routeNamePattern s \<longleftrightarrow> s \<noteq> [] \<and> label_byte (hd s) \<and> label_byte (last s) \<and> list_all (\<lambda>c. label_byte c \<or> c = CHR ''-'' \<or> c = CHR ''.'') s"

definition validateRouteIdentity :: "bytes \<Rightarrow> bool" where
  "validateRouteIdentity route =
     (let namespace = takeWhile (\<lambda>c. c \<noteq> CHR ''/'') route; rest = dropWhile (\<lambda>c. c \<noteq> CHR ''/'') route in
      rest \<noteq> [] \<and> CHR ''/'' \<notin> set (tl rest) \<and> routeNamespacePattern namespace \<and> routeNamePattern (tl rest))"

definition validateRouteText :: "bytes \<Rightarrow> nat \<Rightarrow> bool" where
  "validateRouteText v limit \<longleftrightarrow>
     \<not> (v = [] \<or> length v > limit \<or> trim_space v \<noteq> v) \<and> list_all (\<lambda>r. \<not> (r < 0x20 \<or> r = 0x7F)) (runes v)"

definition normalizeRoutePolicy :: "route_lib \<Rightarrow> routePolicyInput \<Rightarrow> streamPolicy option" where
  "normalizeRoutePolicy lib input =
     (if ri_MaxMigrations input < 0 then None
      else if ri_SeamWindowBytes input \<le> 0 then None
      else if \<not> orphan_Valid (ri_OrphanPolicy input) then None
      else
        (case (rl_parseDuration lib (ri_MaxStreamDuration input), rl_parseDuration lib (ri_OrphanTimeout input),
               rl_parseDuration lib (ri_JournalTTL input)) of
           (Some maxDuration, Some orphanTimeout, Some journalTTL) \<Rightarrow>
             if maxDuration \<le> 0 \<or> orphanTimeout \<le> 0 \<or> journalTTL \<le> 0 \<or> journalTTL > (2 ^ 63 - 1) div 2 then None
             else Some \<lparr>po_MaxMigrations = ri_MaxMigrations input, po_MaxMigrationTokens = ri_MaxMigrationTokens input,
               po_MaxStreamDuration = maxDuration, po_OrphanPolicy = ri_OrphanPolicy input, po_OrphanTimeout = orphanTimeout,
               po_AllowCrossVersion = ri_AllowCrossVersion input, po_AllowStructuredResume = ri_AllowStructuredResume input,
               po_SeamWindowBytes = ri_SeamWindowBytes input, po_JournalTTL = journalTTL, po_TemplateMode = TemplateStrict\<rparr>
         | _ \<Rightarrow> None))"

definition route_backend :: "route_lib \<Rightarrow> bytes \<Rightarrow> routeBackendInput \<Rightarrow> Backend option" where
  "route_backend lib model input =
     (if \<not> validateRouteText (rb_ID input) 512 then None
      else
        (case rl_parseURL lib (rb_URL input) of
           None \<Rightarrow> None
         | Some parsed \<Rightarrow>
             if \<not> web_url parsed \<or> u_User parsed \<noteq> None \<or> u_RawQuery parsed \<noteq> [] \<or> u_Fragment parsed \<noteq> []
                \<or> (u_Path parsed \<noteq> [] \<and> u_Path parsed \<noteq> ''/'') then None
             else if \<not> verdict_Valid (rb_TemplateVerdict input) then None
             else if (rb_PodNamespace input = []) \<noteq> (rb_PodName input = []) then None
             else if rb_PodNamespace input \<noteq> []
                \<and> (\<not> routeNamespacePattern (rb_PodNamespace input) \<or> \<not> routeNamePattern (rb_PodName input)) then None
             else Some \<lparr>b_ID = rb_ID input, b_URL = Some parsed, b_HealthURL = None, b_Model = model,
               b_ModelVersion = rb_ModelVersion input, b_TemplateVerdict = rb_TemplateVerdict input,
               b_PodNamespace = rb_PodNamespace input, b_PodName = rb_PodName input\<rparr>))"

text \<open>The loop over the backends of an update: the backends and the inputs with their URL in canonical form.\<close>

fun route_backends :: "route_lib \<Rightarrow> bytes \<Rightarrow> bytes list \<Rightarrow> routeBackendInput list \<Rightarrow> (Backend list \<times> routeBackendInput list) option" where
  "route_backends lib model seen [] = Some ([], [])"
| "route_backends lib model seen (input # inputs) =
     (case route_backend lib model input of
        None \<Rightarrow> None
      | Some b \<Rightarrow>
          if b_ID b \<in> set seen then None
          else (case route_backends lib model (b_ID b # seen) inputs of
                  None \<Rightarrow> None
                | Some (bs, canonical) \<Rightarrow> Some (b # bs, input\<lparr>rb_URL := url_String (the (b_URL b))\<rparr> # canonical)))"

definition normalizeRouteSnapshot :: "route_lib \<Rightarrow> bytes \<Rightarrow> routeBackendUpdate \<Rightarrow> routeSnapshot option" where
  "normalizeRouteSnapshot lib route update =
     (if \<not> validateRouteIdentity route then None
      else if \<not> validateRouteText (ru_Model update) 512 then None
      else if \<not> validateRouteText (ru_UID update) 128 then None
      else if ru_ObservedGeneration update \<le> 0 then None
      else if length (ru_Backends update) > maxRouteBackends then None
      else if ru_Deleted update \<and> length (ru_Backends update) \<noteq> 0 then None
      else
        (case normalizeRoutePolicy lib (ru_Policy update) of
           None \<Rightarrow> None
         | Some policy \<Rightarrow>
             (case route_backends lib (ru_Model update) [] (ru_Backends update) of
                None \<Rightarrow> None
              | Some (items, canonical) \<Rightarrow>
                  Some \<lparr>rs_model = ru_Model update, rs_uid = ru_UID update, rs_generation = ru_ObservedGeneration update,
                    rs_deleted = ru_Deleted update, rs_digest = rl_digest lib (update\<lparr>ru_Backends := sort_key rb_ID canonical\<rparr>),
                    rs_policy = policy, rs_backends = sort_key b_ID items\<rparr>)))"

section \<open>The registry\<close>

record routeBackendRegistry =
  rr_static :: "Backend list"
  rr_routes :: "(bytes \<times> routeSnapshot) list"
  rr_routeIDs :: "(bytes \<times> backend_id list) list"

definition newRouteBackendRegistry :: "time \<Rightarrow> Pool \<Rightarrow> routeBackendRegistry" where
  "newRouteBackendRegistry now p = \<lparr>rr_static = map bst_Backend (pool_List now p), rr_routes = [], rr_routeIDs = []\<rparr>"

text \<open>The backends of the live routes in the order of their names; no model and no identifier may occur in two of them.\<close>

fun claim_ids :: "backend_id list \<Rightarrow> Backend list \<Rightarrow> backend_id list option" where
  "claim_ids seen [] = Some seen"
| "claim_ids seen (b # bs) = (if b_ID b \<in> set seen then None else claim_ids (b_ID b # seen) bs)"

fun combine_routes :: "bytes list \<Rightarrow> backend_id list \<Rightarrow> routeSnapshot list \<Rightarrow> Backend list option" where
  "combine_routes models seen [] = Some []"
| "combine_routes models seen (s # ss) =
     (if rs_model s \<in> set models then None
      else (case claim_ids seen (rs_backends s) of
              None \<Rightarrow> None
            | Some seen' \<Rightarrow> map_option ((@) (rs_backends s)) (combine_routes (rs_model s # models) seen' ss)))"

definition live_routes :: "(bytes \<times> routeSnapshot) list \<Rightarrow> routeSnapshot list" where
  "live_routes routes = filter (\<lambda>s. \<not> rs_deleted s) (map snd (sort_key fst routes))"

definition combined :: "routeBackendRegistry \<Rightarrow> (bytes \<times> routeSnapshot) list \<Rightarrow> Backend list option" where
  "combined registry routes =
     (if live_routes routes = [] then Some (rr_static registry) else combine_routes [] [] (live_routes routes))"

definition policyForModel :: "routeBackendRegistry \<Rightarrow> bytes \<Rightarrow> streamPolicy option" where
  "policyForModel registry model = map_option (rs_policy \<circ> snd) (List.find (\<lambda>(_, s). \<not> rs_deleted s \<and> rs_model s = model) (rr_routes registry))"

definition routeForModel :: "routeBackendRegistry \<Rightarrow> bytes \<Rightarrow> bytes option" where
  "routeForModel registry model = map_option fst (List.find (\<lambda>(_, s). \<not> rs_deleted s \<and> rs_model s = model) (rr_routes registry))"

definition acquireModel ::
    "routeBackendRegistry \<Rightarrow> bytes \<Rightarrow> bytes \<Rightarrow> backend_id list \<Rightarrow> (nat \<Rightarrow> time) \<Rightarrow> (nat \<Rightarrow> Pool \<Rightarrow> Pool) \<Rightarrow> Pool \<Rightarrow> (pool_error + Lease) \<times> Pool" where
  "acquireModel registry owner model excluded clock interfere p =
     (let matching = filter (\<lambda>(_, s). rs_model s = model) (rr_routes registry);
          live = list_ex (\<lambda>(_, s). \<not> rs_deleted s) matching; tombstoned = list_ex (\<lambda>(_, s). rs_deleted s) matching in
      if tombstoned \<and> \<not> live then (Inl PoolNoEligibleBackend, p)
      else pool_AcquireModel owner model excluded clock interfere p)"

definition resultLocked :: "bytes \<Rightarrow> routeSnapshot \<Rightarrow> time \<Rightarrow> Pool \<Rightarrow> routeBackendRegistry \<Rightarrow> routeApplyResult \<times> routeBackendRegistry" where
  "resultLocked route snapshot now p registry =
     (let ids = (case map_of (rr_routeIDs registry) route of None \<Rightarrow> [] | Some x \<Rightarrow> x);
          retained = pool_ListRetained now p;
          own = filter (\<lambda>s. b_ID (bst_Backend s) \<in> set ids) retained;
          draining = filter bst_Draining own;
          remaining = filter (\<lambda>i. i \<in> (b_ID \<circ> bst_Backend) ` set retained) ids in
      (\<lparr>ra_Route = route, ra_Model = rs_model snapshot, ra_AppliedGeneration = rs_generation snapshot,
        ra_BackendCount = length (rs_backends snapshot), ra_DrainingBackends = length draining,
        ra_DrainingBackendIDs = (if length draining > maxRouteResultDrainingBackendIDs then [] else map (b_ID \<circ> bst_Backend) draining),
        ra_ActiveStreams = sum_list (map bst_InFlight own)\<rparr>,
       case map_of (rr_routeIDs registry) route of
         None \<Rightarrow> registry
       | Some _ \<Rightarrow> registry\<lparr>rr_routeIDs := AList.update route remaining (rr_routeIDs registry)\<rparr>))"

text \<open>Whether an update is refused, or already applied, given the snapshot the registry holds for the route.\<close>

datatype route_order = OrderConflict | OrderStale | OrderApplied | OrderNew

definition order_update :: "routeSnapshot option \<Rightarrow> routeSnapshot \<Rightarrow> route_order" where
  "order_update existing normalized =
     (case existing of
        None \<Rightarrow> OrderNew
      | Some e \<Rightarrow>
          if rs_uid normalized \<noteq> rs_uid e then (if \<not> rs_deleted e then OrderConflict else OrderNew)
          else if rs_generation normalized < rs_generation e \<or> (rs_deleted e \<and> \<not> rs_deleted normalized) then OrderStale
          else if rs_generation normalized = rs_generation e \<and> rs_digest normalized = rs_digest e then OrderApplied
          else OrderNew)"

definition apply_route ::
    "route_lib \<Rightarrow> bytes \<Rightarrow> routeBackendUpdate \<Rightarrow> (nat \<Rightarrow> time) \<Rightarrow> time \<Rightarrow> routeBackendRegistry \<Rightarrow> Pool
     \<Rightarrow> (routeApplyResult \<times> route_error option) \<times> routeBackendRegistry \<times> Pool" where
  "apply_route lib route update clock now registry p =
     (case normalizeRouteSnapshot lib route update of
        None \<Rightarrow> ((emptyResult, Some RouteInvalid), registry, p)
      | Some normalized \<Rightarrow>
          (let existing = map_of (rr_routes registry) route;
               report = (\<lambda>err. case resultLocked route (the existing) now p registry of (r, registry') \<Rightarrow> ((r, err), registry', p)) in
           case order_update existing normalized of
             OrderConflict \<Rightarrow> report (Some RouteUIDConflict)
           | OrderStale \<Rightarrow> report (Some RouteGenerationStale)
           | OrderApplied \<Rightarrow> report None
           | OrderNew \<Rightarrow>
               (case combined registry (AList.update route normalized (rr_routes registry)) of
                  None \<Rightarrow> ((emptyResult, Some RouteShared), registry, p)
                | Some bs \<Rightarrow>
                    (case pool_ReplaceReady bs clock p of
                       (Some x, p1) \<Rightarrow> ((emptyResult, Some (RoutePool x)), registry, p1)
                     | (None, p1) \<Rightarrow>
                         (let ids = (case map_of (rr_routeIDs registry) route of None \<Rightarrow> [] | Some x \<Rightarrow> x);
                              ids = remdups (ids @ map b_ID (rs_backends normalized)) in
                          case resultLocked route normalized now p1
                                 (registry\<lparr>rr_routeIDs := AList.update route ids (rr_routeIDs registry),
                                    rr_routes := AList.update route normalized (rr_routes registry)\<rparr>) of
                            (r, registry') \<Rightarrow> ((r, None), registry', p1))))))"

section \<open>The pool follows the routes\<close>

lemma claim_ids_Some:
  "claim_ids seen bs = Some seen' \<Longrightarrow> distinct (map b_ID bs) \<and> b_ID ` set bs \<inter> set seen = {} \<and> set seen' = b_ID ` set bs \<union> set seen"
  by (induction seen bs rule: claim_ids.induct) (auto split: if_splits)

lemma combine_routes_Some:
  "combine_routes models seen ss = Some bs \<Longrightarrow>
     bs = concat (map rs_backends ss) \<and> distinct (map rs_model ss) \<and> rs_model ` set ss \<inter> set models = {}"
  by (induction models seen ss arbitrary: bs rule: combine_routes.induct) (simp, fastforce split: if_splits option.splits)

lemma normalizeBackend_ID: "normalizeBackend b = Inr v \<Longrightarrow> b_ID v = b_ID b"
  by (auto simp: normalizeBackend_def Let_def split: option.splits sum.splits if_splits)

lemma normalize_all_Inr: "normalize_all bs seen = Inr vs \<Longrightarrow> list_all2 (\<lambda>b v. normalizeBackend b = Inr v) bs vs"
  by (induction bs seen arbitrary: vs rule: normalize_all.induct) (auto split: sum.splits if_splits)

lemma catalog_of_list:
  assumes "normalize_all bs [] = Inr vs"
  shows "map_of (map (\<lambda>v. (b_ID v, v)) vs) i = Some v \<longleftrightarrow> (\<exists>b \<in> set bs. b_ID b = i \<and> normalizeBackend b = Inr v)"
proof -
  have d: "distinct (map fst (map (\<lambda>v. (b_ID v, v)) vs))" using normalize_all_distinct [OF assms] by (simp add: o_def)
  note l = normalize_all_Inr [OF assms]
  have "v \<in> set vs \<longleftrightarrow> (\<exists>b \<in> set bs. normalizeBackend b = Inr v)"
    using l by (induction rule: list_all2_induct) auto
  moreover have "map_of (map (\<lambda>v. (b_ID v, v)) vs) i = Some v \<longleftrightarrow> v \<in> set vs \<and> b_ID v = i" using map_of_eq_Some_iff [OF d, of i v] by auto
  ultimately show ?thesis using normalizeBackend_ID [of _ v] by auto
qed

text \<open>
  The executions of a registry and its pool: updates arrive in any order, and between them the other users of the
  pool lease, probe, drain and quarantine backends. Only the registry changes which backends there are.
\<close>

inductive route_run :: "route_lib \<Rightarrow> PoolConfig \<Rightarrow> routeBackendRegistry \<Rightarrow> Pool \<Rightarrow> nat list \<Rightarrow> bool" for lib config where
  started: "pool_reach config p pins \<Longrightarrow> route_run lib config (newRouteBackendRegistry now p) p pins"
| applied: "route_run lib config registry p pins \<Longrightarrow> apply_route lib route update clock now registry p = (res, registry', p') \<Longrightarrow>
    route_run lib config registry' p' pins"
| elsewhere: "route_run lib config registry p pins \<Longrightarrow> pool_step p pins label p' pins' \<Longrightarrow> catalog p' = catalog p \<Longrightarrow>
    route_run lib config registry p' pins'"

lemma resultLocked_routes:
  "resultLocked route snapshot now p registry = (r, reg) \<Longrightarrow> rr_routes reg = rr_routes registry \<and> rr_static reg = rr_static registry"
  by (auto simp: resultLocked_def Let_def split: option.splits)

text \<open>A call of \<open>apply\<close> either leaves the routes and the pool as they are or installs the new snapshot and reconciles the pool.\<close>

lemma apply_route_cases:
  assumes "apply_route lib route update clock now registry p = (res, registry', p')"
  obtains "rr_routes registry' = rr_routes registry" and "rr_static registry' = rr_static registry" and "p' = p"
  | normalized bs where "rr_routes registry' = AList.update route normalized (rr_routes registry)" and "rr_static registry' = rr_static registry"
      and "order_update (map_of (rr_routes registry) route) normalized = OrderNew" and "normalizeRouteSnapshot lib route update = Some normalized"
      and "combined registry (rr_routes registry') = Some bs" and "pool_ReplaceReady bs clock p = (None, p')" and "snd res = None"
proof (cases "normalizeRouteSnapshot lib route update")
  case None
  then show thesis using assms that(1) by (simp add: apply_route_def)
next
  case (Some normalized)
  have report: "rr_routes registry' = rr_routes registry \<and> rr_static registry' = rr_static registry \<and> p' = p"
    if "(case resultLocked route (the (map_of (rr_routes registry) route)) now p registry of (r, reg) \<Rightarrow> ((r, err), reg, p)) = (res, registry', p')" for err
    using that by (auto split: prod.splits dest: resultLocked_routes)
  show thesis
  proof (cases "order_update (map_of (rr_routes registry) route) normalized = OrderNew")
    case False
    then have "\<exists>err. (case resultLocked route (the (map_of (rr_routes registry) route)) now p registry of (r, reg) \<Rightarrow> ((r, err), reg, p)) = (res, registry', p')"
      using assms Some by (cases "order_update (map_of (rr_routes registry) route) normalized") (auto simp: apply_route_def Let_def)
    then show thesis using report that(1) by blast
  next
    case True
    define u where "u = AList.update route normalized (rr_routes registry)"
    show thesis
    proof (cases "combined registry u")
      case None
      then show thesis using assms Some True that(1) by (simp add: apply_route_def Let_def u_def)
    next
      case (Some bs)
      note c = Some
      obtain x p1 where r: "pool_ReplaceReady bs clock p = (x, p1)" by fastforce
      show thesis
      proof (cases x)
        case None
        define ids where "ids = remdups ((case map_of (rr_routeIDs registry) route of None \<Rightarrow> [] | Some x \<Rightarrow> x) @ map b_ID (rs_backends normalized))"
        define reg where "reg = registry\<lparr>rr_routeIDs := AList.update route ids (rr_routeIDs registry), rr_routes := u\<rparr>"
        have "(case resultLocked route normalized now p1 reg of (r, registry') \<Rightarrow> ((r, None), registry', p1)) = (res, registry', p')"
          using assms \<open>normalizeRouteSnapshot lib route update = Some normalized\<close> True c r None
          by (simp add: apply_route_def Let_def u_def reg_def ids_def)
        then have "rr_routes registry' = u" "rr_static registry' = rr_static registry" "p' = p1" "snd res = None"
          by (auto simp: reg_def split: prod.splits dest: resultLocked_routes)
        then show thesis using that(2) [of normalized bs] c r None True \<open>normalizeRouteSnapshot lib route update = Some normalized\<close> by (simp add: u_def)
      next
        case (Some y)
        then have "pool_ReplaceReady bs clock p = (Some y, p)"
          using r by (auto simp: pool_ReplaceReady_def pool_replace_def Let_def split: sum.splits)
        then show thesis
          using assms \<open>normalizeRouteSnapshot lib route update = Some normalized\<close> True c that(1) by (simp add: apply_route_def Let_def u_def)
      qed
    qed
  qed
qed

lemma route_run_reach: "route_run lib config registry p pins \<Longrightarrow> pool_reach config p pins"
proof (induction rule: route_run.induct)
  case (applied registry p pins route update clock now res registry' p')
  show ?case
  proof (rule apply_route_cases [OF applied.hyps(2)])
    fix normalized bs assume "pool_ReplaceReady bs clock p = (None, p')"
    then have "pool_step p pins None p' pins" unfolding pool_ReplaceReady_def by (rule pool_step.replace)
    then show ?case by (rule step_pool [OF applied.IH])
  qed (use applied.IH in simp)
qed (auto intro: step_pool)

definition routes_ok :: "routeBackendRegistry \<Rightarrow> Pool \<Rightarrow> bool" where
  "routes_ok registry p \<longleftrightarrow> distinct (map fst (rr_routes registry))
   \<and> (rr_routes registry \<noteq> [] \<longrightarrow> (\<exists>bs vs. combined registry (rr_routes registry) = Some bs \<and> normalize_all bs [] = Inr vs
        \<and> catalog p = map_of (map (\<lambda>v. (b_ID v, v)) vs)))"

lemma combined_static: "rr_static registry' = rr_static registry \<Longrightarrow> combined registry' routes = combined registry routes"
  by (simp add: combined_def)

lemma route_run_ok: "route_run lib config registry p pins \<Longrightarrow> routes_ok registry p"
proof (induction rule: route_run.induct)
  case (applied registry p pins route update clock now res registry' p')
  show ?case
  proof (rule apply_route_cases [OF applied.hyps(2)])
    fix normalized bs assume a: "rr_routes registry' = AList.update route normalized (rr_routes registry)"
      "rr_static registry' = rr_static registry" "combined registry (rr_routes registry') = Some bs" "pool_ReplaceReady bs clock p = (None, p')"
    have inv: "pool_inv p pins" using pool_reach_inv [OF route_run_reach [OF applied.hyps(1)]] .
    obtain vs where vs: "normalize_all bs [] = Inr vs"
      using a(4) by (cases "normalize_all bs []") (auto simp: pool_ReplaceReady_def pool_replace_def)
    then have "catalog p' = map_of (map (\<lambda>v. (b_ID v, v)) vs)"
      using catalog_replace [OF inv vs, of True clock] a(4) by (simp add: pool_ReplaceReady_def)
    then show ?case
      using a vs applied.IH combined_static [OF a(2)] by (auto simp: routes_ok_def distinct_update)
  qed (use applied.IH in \<open>auto simp: routes_ok_def combined_def\<close>)
qed (auto simp: routes_ok_def newRouteBackendRegistry_def)

text \<open>Under a distinct list of models the lookups by model find the one route there is.\<close>

lemma find_distinct:
  assumes "distinct (map f (filter P xs))" and "x \<in> set xs" and "P x"
  shows "List.find (\<lambda>y. P y \<and> f y = f x) xs = Some x"
proof (rule ccontr)
  assume n: "List.find (\<lambda>y. P y \<and> f y = f x) xs \<noteq> Some x"
  obtain y where y: "List.find (\<lambda>y. P y \<and> f y = f x) xs = Some y" using assms(2,3) by (cases "List.find (\<lambda>y. P y \<and> f y = f x) xs") (auto simp: find_None_iff)
  then have "y \<in> set xs" "P y" "f y = f x" by (auto simp: find_Some_iff)
  then have "y = x" using assms by (auto simp: distinct_map inj_on_def)
  then show False using n y by simp
qed

lemma live_models:
  assumes "distinct (map rs_model (live_routes routes))"
  shows "distinct (map (rs_model \<circ> snd) (filter (\<lambda>x. \<not> rs_deleted (snd x)) routes))"
proof -
  have l: "map rs_model (live_routes routes) = map (rs_model \<circ> snd) (filter (\<lambda>x. \<not> rs_deleted (snd x)) (sort_key fst routes))"
    by (simp add: live_routes_def filter_map o_def)
  have "mset (map (rs_model \<circ> snd) (filter (\<lambda>x. \<not> rs_deleted (snd x)) (sort_key fst routes)))
      = mset (map (rs_model \<circ> snd) (filter (\<lambda>x. \<not> rs_deleted (snd x)) routes))"
    by (simp add: mset_filter)
  then show ?thesis using assms l by (metis mset_eq_imp_distinct_iff)
qed

text \<open>
  C37: Whatever updates arrive, once a live route is programmed the pool serves exactly the backends of the live routes,
  each with the model of its route; no model is live in two routes, so that the policy and the route found for a
  model do not depend on the order in which the map of routes is visited.
\<close>
theorem routes_program_pool:
  assumes "route_run lib config registry p pins" and "live_routes (rr_routes registry) \<noteq> []"
  shows "(catalog p i = Some b \<longleftrightarrow> (\<exists>s \<in> set (live_routes (rr_routes registry)). \<exists>b0 \<in> set (rs_backends s). b_ID b0 = i \<and> normalizeBackend b0 = Inr b))
    \<and> ((route, s) \<in> set (rr_routes registry) \<and> \<not> rs_deleted s \<longrightarrow>
        policyForModel registry (rs_model s) = Some (rs_policy s) \<and> routeForModel registry (rs_model s) = Some route)"
proof -
  have "rr_routes registry \<noteq> []" using assms(2) by (auto simp: live_routes_def)
  then obtain bs vs where b: "combined registry (rr_routes registry) = Some bs" "normalize_all bs [] = Inr vs"
    "catalog p = map_of (map (\<lambda>v. (b_ID v, v)) vs)" using route_run_ok [OF assms(1)] by (auto simp: routes_ok_def)
  have c: "bs = concat (map rs_backends (live_routes (rr_routes registry)))" "distinct (map rs_model (live_routes (rr_routes registry)))"
    using b(1) assms(2) combine_routes_Some by (auto simp: combined_def)
  note d = live_models [OF c(2)]
  have "List.find (\<lambda>(_, t). \<not> rs_deleted t \<and> rs_model t = rs_model s) (rr_routes registry) = Some (route, s)"
    if "(route, s) \<in> set (rr_routes registry)" "\<not> rs_deleted s"
    using find_distinct [OF d that(1)] that(2) by (simp add: case_prod_unfold)
  then show ?thesis
    using catalog_of_list [OF b(2), of i b] b(3) c(1) by (auto simp: policyForModel_def routeForModel_def)
qed

text \<open>
  C38: Updates are ordered against the snapshot the registry holds. An update either leaves the snapshot of a route as it is,
  or it succeeds and replaces the snapshot of its own route by its normal form: by one of the same object at no
  older generation, still deleted if the held one was, or by one of another object only if the held one is deleted.
\<close>
theorem route_updates_ordered:
  assumes "apply_route lib route update clock now registry p = (res, registry', p')" and "map_of (rr_routes registry) name = Some e"
  shows "\<exists>e'. map_of (rr_routes registry') name = Some e'
    \<and> (e' = e \<or> name = route \<and> snd res = None \<and> normalizeRouteSnapshot lib route update = Some e'
        \<and> (if rs_uid e' = rs_uid e then rs_generation e \<le> rs_generation e' \<and> (rs_deleted e \<longrightarrow> rs_deleted e') else rs_deleted e))"
proof (rule apply_route_cases [OF assms(1)])
  fix normalized bs assume a: "rr_routes registry' = AList.update route normalized (rr_routes registry)"
    "order_update (map_of (rr_routes registry) route) normalized = OrderNew" "normalizeRouteSnapshot lib route update = Some normalized" "snd res = None"
  show ?thesis
  proof (cases "name = route")
    case True
    then show ?thesis using a assms(2) by (auto simp: update_conv' order_update_def split: if_splits)
  next
    case False
    then show ?thesis using a assms(2) by (auto simp: update_conv')
  qed
qed (use assms(2) in auto)

section \<open>Example\<close>

definition demoLib :: route_lib where
  "demoLib = \<lparr>rl_parseURL = (\<lambda>_. Some demoURL), rl_parseDuration = (\<lambda>_. Some 1), rl_digest = ru_UID\<rparr>"

definition demoUpdate :: "int \<Rightarrow> routeBackendUpdate" where
  "demoUpdate generation = \<lparr>ru_Model = ''m'', ru_UID = ''u'', ru_ObservedGeneration = generation, ru_Deleted = False,
     ru_Policy = \<lparr>ri_MaxMigrations = 3, ri_MaxMigrationTokens = 9, ri_MaxStreamDuration = [], ri_OrphanPolicy = ''cancel'', ri_OrphanTimeout = [],
       ri_AllowCrossVersion = False, ri_AllowStructuredResume = False, ri_SeamWindowBytes = 64, ri_JournalTTL = []\<rparr>,
     ru_Backends = [\<lparr>rb_ID = ''c'', rb_URL = ''http://h'', rb_ModelVersion = [], rb_TemplateVerdict = VerdictSafe, rb_PodNamespace = [], rb_PodName = []\<rparr>]\<rparr>"

definition demoPolicy :: streamPolicy where
  "demoPolicy = \<lparr>po_MaxMigrations = 3, po_MaxMigrationTokens = 9, po_MaxStreamDuration = 1, po_OrphanPolicy = ''cancel'', po_OrphanTimeout = 1,
     po_AllowCrossVersion = False, po_AllowStructuredResume = False, po_SeamWindowBytes = 64, po_JournalTTL = 1, po_TemplateMode = TemplateStrict\<rparr>"

definition demoSnapshot :: "int \<Rightarrow> routeSnapshot" where
  "demoSnapshot generation = \<lparr>rs_model = ''m'', rs_uid = ''u'', rs_generation = generation, rs_deleted = False, rs_digest = ''u'',
     rs_policy = demoPolicy, rs_backends = [(demoBackend ''c'')\<lparr>b_Model := ''m''\<rparr>]\<rparr>"

lemma letter_text: "0x21 \<le> bv c \<Longrightarrow> bv c < 0x7F \<Longrightarrow> 0 < n \<Longrightarrow> validateRouteText [c] n"
  by (simp add: validateRouteText_def trim_letter unicode_is_space_def runes_def)

lemma demo_snapshot: "0 < g \<Longrightarrow> normalizeRouteSnapshot demoLib ''n/r'' (demoUpdate g) = Some (demoSnapshot g)"
  by (simp add: normalizeRouteSnapshot_def demoUpdate_def demoLib_def demoSnapshot_def letter_text validateRouteIdentity_def routeNamespacePattern_def
      routeNamePattern_def label_byte_def maxRouteBackends_def normalizeRoutePolicy_def orphan_Valid_def route_backend_def demoURL_def web_url_def
      verdict_Valid_def verdict_defs demoPolicy_def demoBackend_def)

lemma demo_route_backend: "normalizeBackend ((demoBackend ''c'')\<lparr>b_Model := ''m''\<rparr>) = Inr ((demoBackend ''c'')\<lparr>b_Model := ''m''\<rparr>)"
  by (simp add: normalizeBackend_def demoBackend_def demoURL_def letter_Validate web_url_def to_lower_def Let_def verdict_Valid_def verdict_defs
      validateBackendMetadata_def trim_letter unicode_is_space_def runes_def unicode_is_control_def)

lemma demo_route:
  "\<exists>registry p. route_run demoLib demoPoolConfig registry p [] \<and> rr_routes registry = [(''n/r'', demoSnapshot 2)]"
proof -
  let ?r = "newRouteBackendRegistry 0 demoPool"
  let ?b = "(demoBackend ''c'')\<lparr>b_Model := ''m''\<rparr>"
  have run: "route_run demoLib demoPoolConfig ?r demoPool []" by (rule started [OF demo_reach])
  note n = demo_route_backend
  have c: "combined ?r [(''n/r'', demoSnapshot 2)] = Some [?b]"
    by (simp add: combined_def live_routes_def demoSnapshot_def newRouteBackendRegistry_def)
  have "fst (pool_ReplaceReady [?b] (\<lambda>_. 0) demoPool) = None"
    using n by (simp add: pool_ReplaceReady_def pool_replace_def Let_def)
  then obtain p1 where p1: "pool_ReplaceReady [?b] (\<lambda>_. 0) demoPool = (None, p1)" by (cases "pool_ReplaceReady [?b] (\<lambda>_. 0) demoPool") auto
  obtain res registry' p' where a: "apply_route demoLib ''n/r'' (demoUpdate 2) (\<lambda>_. 0) 0 ?r demoPool = (res, registry', p')"
    by (cases "apply_route demoLib ''n/r'' (demoUpdate 2) (\<lambda>_. 0) 0 ?r demoPool")
  have e: "rr_routes ?r = []" "rr_routeIDs ?r = []" by (simp_all add: newRouteBackendRegistry_def)
  have "rr_routes registry' = [(''n/r'', demoSnapshot 2)]"
    using a c p1 e demo_snapshot [of 2]
    by (auto simp: apply_route_def order_update_def Let_def split: prod.splits dest: resultLocked_routes)
  then show ?thesis using applied [OF run a] by blast
qed

theorem routes_program_pool_witness:
  "\<exists>registry p. catalog p ''c'' = Some ((demoBackend ''c'')\<lparr>b_Model := ''m''\<rparr>) \<and> catalog p ''a'' = None
     \<and> policyForModel registry ''m'' = Some demoPolicy \<and> routeForModel registry ''m'' = Some ''n/r''"
proof -
  obtain registry p where r: "route_run demoLib demoPoolConfig registry p []" "rr_routes registry = [(''n/r'', demoSnapshot 2)]"
    using demo_route by blast
  have l: "live_routes (rr_routes registry) = [demoSnapshot 2]" using r(2) by (simp add: live_routes_def demoSnapshot_def)
  let ?b = "(demoBackend ''c'')\<lparr>b_Model := ''m''\<rparr>"
  note n = demo_route_backend
  note t = routes_program_pool [OF r(1), unfolded l]
  have "catalog p ''c'' = Some ?b"
    using t [of "''c''" ?b "[]" "demoSnapshot 2"] n by (simp add: demoSnapshot_def)
  moreover have "catalog p ''a'' \<noteq> Some b" for b
    using t [of "''a''" b "[]" "demoSnapshot 2"] by (simp add: demoSnapshot_def)
  moreover have "policyForModel registry ''m'' = Some demoPolicy \<and> routeForModel registry ''m'' = Some ''n/r''"
    using t [of "[]" ?b "''n/r''" "demoSnapshot 2"] r(2) by (simp add: demoSnapshot_def)
  ultimately show ?thesis by (intro exI [of _ registry] exI [of _ p]) auto
qed

theorem route_updates_ordered_witness:
  "\<exists>registry p res registry' p'. apply_route demoLib ''n/r'' (demoUpdate 1) (\<lambda>_. 0) 0 registry p = (res, registry', p')
     \<and> map_of (rr_routes registry) ''n/r'' = Some (demoSnapshot 2) \<and> map_of (rr_routes registry') ''n/r'' = Some (demoSnapshot 2)"
proof -
  obtain registry p where r: "route_run demoLib demoPoolConfig registry p []" "rr_routes registry = [(''n/r'', demoSnapshot 2)]"
    using demo_route by blast
  obtain res registry' p' where a: "apply_route demoLib ''n/r'' (demoUpdate 1) (\<lambda>_. 0) 0 registry p = (res, registry', p')"
    by (cases "apply_route demoLib ''n/r'' (demoUpdate 1) (\<lambda>_. 0) 0 registry p")
  have m: "map_of (rr_routes registry) ''n/r'' = Some (demoSnapshot 2)" using r(2) by simp
  have "map_of (rr_routes registry') ''n/r'' = Some (demoSnapshot 2)"
    using route_updates_ordered [OF a m] demo_snapshot [of 1] by (auto simp: demoSnapshot_def)
  then show ?thesis using a m by blast
qed

section \<open>An object that comes back\<close>

text \<open>The updates of one route, applied in order, and the snapshot that is held afterwards.\<close>

fun apply_updates :: "route_lib \<Rightarrow> bytes \<Rightarrow> routeBackendUpdate list \<Rightarrow> routeBackendRegistry \<times> Pool \<Rightarrow> routeBackendRegistry \<times> Pool" where
  "apply_updates lib route [] st = st"
| "apply_updates lib route (u # us) (registry, p) = apply_updates lib route us (snd (apply_route lib route u (\<lambda>_. 0) 0 registry p))"

definition held_after :: "routeBackendUpdate list \<Rightarrow> routeSnapshot option" where
  "held_after us = map_of (rr_routes (fst (apply_updates demoLib ''n/r'' us (newRouteBackendRegistry 0 demoPool, demoPool)))) ''n/r''"

text \<open>An update for an object, live or as its tombstone, and its normal form.\<close>

definition objectUpdate :: "byte \<Rightarrow> int \<Rightarrow> bool \<Rightarrow> routeBackendUpdate" where
  "objectUpdate u g deleted = (demoUpdate g)\<lparr>ru_UID := [u], ru_Deleted := deleted, ru_Backends := (if deleted then [] else ru_Backends (demoUpdate g))\<rparr>"

definition objectSnapshot :: "byte \<Rightarrow> int \<Rightarrow> bool \<Rightarrow> routeSnapshot" where
  "objectSnapshot u g deleted = (demoSnapshot g)\<lparr>rs_uid := [u], rs_digest := [u], rs_deleted := deleted,
     rs_backends := (if deleted then [] else rs_backends (demoSnapshot g))\<rparr>"

lemma object_snapshot:
  "0x21 \<le> bv u \<Longrightarrow> bv u < 0x7F \<Longrightarrow> 0 < g \<Longrightarrow> normalizeRouteSnapshot demoLib ''n/r'' (objectUpdate u g deleted) = Some (objectSnapshot u g deleted)"
  by (simp add: normalizeRouteSnapshot_def objectUpdate_def objectSnapshot_def demoUpdate_def demoLib_def demoSnapshot_def letter_text validateRouteIdentity_def
      routeNamespacePattern_def routeNamePattern_def label_byte_def maxRouteBackends_def normalizeRoutePolicy_def orphan_Valid_def route_backend_def demoURL_def
      web_url_def verdict_Valid_def verdict_defs demoPolicy_def demoBackend_def)

lemma static_normal: "\<exists>vs. normalize_all (rr_static (newRouteBackendRegistry 0 demoPool)) [] = Inr vs"
  using demo_normal
  by (simp add: newRouteBackendRegistry_def pool_List_def map_records_def demoPool_def stateLocked_def sort_states_def demoRecord_def newRecord_def)

lemma object_accepted:
  assumes "rr_static registry = rr_static (newRouteBackendRegistry 0 demoPool)" and "rr_routes registry = routes" and "routes = [] \<or> (\<exists>e. routes = [(''n/r'', e)])"
    and "0x21 \<le> bv u" "bv u < 0x7F" "0 < g" and "order_update (map_of routes ''n/r'') (objectSnapshot u g deleted) = OrderNew"
  shows "\<exists>registry' p'. snd (apply_route demoLib ''n/r'' (objectUpdate u g deleted) (\<lambda>_. 0) 0 registry p) = (registry', p')
    \<and> rr_static registry' = rr_static registry \<and> rr_routes registry' = [(''n/r'', objectSnapshot u g deleted)]"
proof -
  have up: "AList.update ''n/r'' (objectSnapshot u g deleted) routes = [(''n/r'', objectSnapshot u g deleted)]" using assms(3) by auto
  obtain bs vs where bs: "combined registry [(''n/r'', objectSnapshot u g deleted)] = Some bs" "normalize_all bs [] = Inr vs"
    using static_normal assms(1) demo_route_backend by (cases deleted) (auto simp: combined_def live_routes_def objectSnapshot_def demoSnapshot_def)
  then have "fst (pool_ReplaceReady bs (\<lambda>_. 0) p) = None" by (simp add: pool_ReplaceReady_def pool_replace_def Let_def split: prod.split)
  then obtain p1 where p1: "pool_ReplaceReady bs (\<lambda>_. 0) p = (None, p1)" by (cases "pool_ReplaceReady bs (\<lambda>_. 0) p") auto
  obtain res registry' p' where a: "apply_route demoLib ''n/r'' (objectUpdate u g deleted) (\<lambda>_. 0) 0 registry p = (res, registry', p')"
    by (cases "apply_route demoLib ''n/r'' (objectUpdate u g deleted) (\<lambda>_. 0) 0 registry p")
  then have "rr_routes registry' = [(''n/r'', objectSnapshot u g deleted)] \<and> rr_static registry' = rr_static registry"
    using assms(2,7) bs(1) p1 up object_snapshot [OF assms(4-6), of deleted]
    by (auto simp: apply_route_def Let_def split: prod.splits dest: resultLocked_routes)
  then show ?thesis using a by simp
qed

lemma update_accepted:
  assumes "rr_static registry = rr_static (newRouteBackendRegistry 0 demoPool)" and "0x21 \<le> bv u" "bv u < 0x7F" "0 < g"
    and "rr_routes registry = [] \<or> (\<exists>e. rr_routes registry = [(''n/r'', e)])"
    and "order_update (map_of (rr_routes registry) ''n/r'') (objectSnapshot u g deleted) = OrderNew"
  obtains registry' p' where "\<And>us. apply_updates demoLib ''n/r'' (objectUpdate u g deleted # us) (registry, p) = apply_updates demoLib ''n/r'' us (registry', p')"
    "rr_static registry' = rr_static (newRouteBackendRegistry 0 demoPool)" "rr_routes registry' = [(''n/r'', objectSnapshot u g deleted)]"
  using object_accepted [OF assms(1) refl assms(5,2-4,6), of p] assms(1) that by auto


end
