(* ===== verification/Stream_Runtime.thy ===== *)
theory Stream_Runtime
  imports Seam Continuation Chunk Degraded_Feed Memory_Contract Routes
begin

text \<open>
  The per-stream runtime of \<open>internal/proxy/durable.go\<close> and of the last part of \<open>degradation.go\<close>: how a stream
  accepts chunks, journals them, relays them to attached readers, degrades when the journal fails, and ends.
  The world of one stream is its runtime, the journal, the backend pool and a ghost list of the frames handed
  to the relay. The journal is a parameter (a record of the two calls a runtime makes); each definition is one
  critical section under \<open>writeMu\<close> or \<open>mu\<close>. Telemetry and logging change nothing that is read back and
  are left out.
\<close>

section \<open>The state of a stream\<close>

record stopResponse =
  st_StreamID :: StreamID
  st_Outcome :: bytes
  st_PartialText :: bytes
  st_Usage :: tokenUsage

record migrationCause =
  mc_reason :: bytes
  mc_deadline :: time

text \<open>
  An empty \<open>rt_terminal\<close> is the source's empty kind. \<open>rt_cause\<close> is the cause the producer context was cancelled
  with, \<open>rt_attemptCancel\<close> says whether the cancel function of an attempt is set and \<open>rt_attemptCause\<close> holds
  what it was first called with, \<open>rt_done\<close> counts the calls that close the done channel.
\<close>

record streamRuntime =
  rt_id :: StreamID
  rt_model :: bytes
  rt_policy :: streamPolicy
  rt_endpoint :: bytes
  rt_requestBody :: bytes
  rt_orphanPolicy :: string
  rt_currentLease :: "Lease option"
  rt_currentBackend :: BackendState
  rt_originBackend :: BackendState
  rt_createdAt :: time
  rt_requestKind :: RequestKind
  rt_structured :: bool
  rt_multipleChoice :: bool
  rt_migrationsUsed :: uint64
  rt_estimateWarned :: bool
  rt_toolCalls :: ToolCallTracker
  rt_toolTrackFailed :: bool
  rt_attemptCancel :: bool
  rt_attemptCause :: "migrationCause option"
  rt_pendingTrigger :: bytes
  rt_pendingDeadline :: time
  rt_pendingFallback :: bool
  rt_cause :: "bytes option"
  rt_done :: nat
  rt_firstEntry :: "Entry option"
  rt_degradedFeed :: degradedFeed
  rt_terminating :: bool
  rt_terminal :: EntryKind
  rt_readers :: int
  rt_orphanTimer :: "duration option"
  rt_orphanClaim :: bytes
  rt_remoteReaderWasAttached :: bool
  rt_progress :: streamProgress
  rt_finishReason :: bytes
  rt_lastSeq :: uint64
  rt_stopResult :: "stopResponse option"
  rt_stopRequested :: bool
  rt_stopWait :: nat
  rt_degraded :: bool
  rt_degradationMarker :: bool
  rt_degradationTerminal :: bool

text \<open>What the runtime uses of the service: the timeout of journal calls and whether the journal can be marked degraded.\<close>

record durableService =
  sv_ReadinessTimeout :: duration
  sv_DegradationMarker :: bool
  sv_ReaderMaxLagBytes :: int
  sv_rootContext :: gocontext

record 'j Journal =
  jn_Append :: "gocontext \<Rightarrow> StreamID \<Rightarrow> Entry \<Rightarrow> time \<Rightarrow> 'j \<Rightarrow> (journal_error + uint64) \<times> 'j"
  jn_Close :: "gocontext \<Rightarrow> StreamID \<Rightarrow> Entry \<Rightarrow> time \<Rightarrow> 'j \<Rightarrow> journal_error option \<times> 'j"

record 'j world =
  w_rt :: streamRuntime
  w_journal :: 'j
  w_pool :: Pool
  w_sent :: "degradedFrame list"

datatype runtime_error =
    JournalFailed journal_error | FrameFailed jsse_error | SeamFailed migrate_error | RewriteFailed | SeamExceeded
  | Joined runtime_error runtime_error

definition upd_rt :: "(streamRuntime \<Rightarrow> streamRuntime) \<Rightarrow> 'j world \<Rightarrow> 'j world" where
  "upd_rt f w = w\<lparr>w_rt := f (w_rt w)\<rparr>"

definition rt_ended :: "streamRuntime \<Rightarrow> bool" where
  "rt_ended rt \<longleftrightarrow> rt_terminal rt \<noteq> [] \<or> rt_terminating rt"

section \<open>Payloads\<close>

definition optionalString :: "bytes \<Rightarrow> bool \<Rightarrow> bytes option" where
  "optionalString v given = (if \<not> given \<or> v = [] then None else Some v)"

text \<open>The text of an object from the texts of its members.\<close>

fun json_members_text :: "(bytes \<times> bytes) list \<Rightarrow> bytes" where
  "json_members_text [] = []"
| "json_members_text [(k, t)] = marshal_string k @ CHR '':'' # t"
| "json_members_text ((k, t) # kvs) = marshal_string k @ CHR '':'' # t @ CHR '','' # json_members_text kvs"

definition json_object_text :: "(bytes \<times> bytes) list \<Rightarrow> bytes" where
  "json_object_text kvs = CHR ''{'' # json_members_text kvs @ ''}''"

definition bool_text :: "bool \<Rightarrow> bytes" where
  "bool_text b = (if b then ''true'' else ''false'')"

definition usage_text :: "tokenUsage \<Rightarrow> bytes" where
  "usage_text u = json_object_text
     [(''prompt_tokens'', append_dec (u_PromptTokens u)), (''completion_tokens'', append_dec (u_CompletionTokens u)),
      (''total_tokens'', append_dec (u_TotalTokens u)), (''estimated'', bool_text (u_Estimated u))]"

definition done_payload :: "bytes \<Rightarrow> tokenUsage \<Rightarrow> bytes" where
  "done_payload finishReason usage = json_object_text
     [(''finish_reason'', field_text (optionalString finishReason (finishReason \<noteq> []))), (''usage'', usage_text usage)]"

definition error_payload :: "bytes \<Rightarrow> bytes \<Rightarrow> bytes \<Rightarrow> tokenUsage \<Rightarrow> bytes" where
  "error_payload code message reason usage = json_object_text
     [(''code'', marshal_string code), (''message'', marshal_string message), (''reason'', marshal_string reason),
      (''retriable'', bool_text False), (''usage'', usage_text usage)]"

definition stopped_payload :: "bytes \<Rightarrow> tokenUsage \<Rightarrow> bytes" where
  "stopped_payload partialText usage = json_object_text [(''partial_text'', marshal_string partialText), (''usage'', usage_text usage)]"

definition new_entry :: "EntryKind \<Rightarrow> bytes \<Rightarrow> Entry" where
  "new_entry kind payload = \<lparr>e_Seq = 0, e_TS = 0, e_Kind = kind, e_Payload = payload, e_Err = None\<rparr>"

section \<open>Contexts\<close>

text \<open>
  The context of a journal call: \<open>now\<close> is the clock when it is made, \<open>polls\<close> the clock at the polls of the
  journal. The parent (the background context, or the producer's with its cancellation removed) is never done.
\<close>

definition boundedContext :: "time \<Rightarrow> (nat \<Rightarrow> time) \<Rightarrow> duration \<Rightarrow> time \<Rightarrow> gocontext" where
  "boundedContext now polls timeout deadline =
     (let timeoutDeadline = now + timeout;
          d = (if deadline \<noteq> 0 \<and> deadline < timeoutDeadline then deadline else timeoutDeadline) in
      Context (\<lambda>k. if d \<le> polls k then Some DeadlineExceeded else None))"

text \<open>The clock readings of one journal call: at its context, at its polls, in the journal.\<close>

record journal_call =
  cl_now :: time
  cl_polls :: "nat \<Rightarrow> time"
  cl_commit :: time

definition journalMutationContextUntil :: "durableService \<Rightarrow> journal_call \<Rightarrow> time \<Rightarrow> gocontext" where
  "journalMutationContextUntil sv call deadline = boundedContext (cl_now call) (cl_polls call) (sv_ReadinessTimeout sv) deadline"

definition rt_context :: "streamRuntime \<Rightarrow> gocontext" where
  "rt_context rt = Context (\<lambda>_. if rt_cause rt = None then None else Some Canceled)"

definition rt_cancel :: "bytes \<Rightarrow> streamRuntime \<Rightarrow> streamRuntime" where
  "rt_cancel cause rt = (if rt_cause rt = None then rt\<lparr>rt_cause := Some cause\<rparr> else rt)"

section \<open>Relaying\<close>

text \<open>The relay calls, with every frame handed to the feed noted in the ghost list.\<close>

definition relay_committed :: "gocontext \<Rightarrow> Entry \<Rightarrow> 'j world \<Rightarrow> journal_error option \<times> 'j world" where
  "relay_committed ctx entry w =
     (case publishCommitted ctx entry (rt_degradedFeed (w_rt w)) of
        (x, feed) \<Rightarrow> (x, (upd_rt (\<lambda>rt. rt\<lparr>rt_degradedFeed := feed\<rparr>) w)\<lparr>w_sent := w_sent w @ [committed_frame entry]\<rparr>))"

definition relay_append :: "gocontext \<Rightarrow> degradedFrame list \<Rightarrow> 'j world \<Rightarrow> journal_error option \<times> 'j world" where
  "relay_append ctx frames w =
     (let feed0 = rt_degradedFeed (w_rt w) in
      case feed_append ctx frames feed0 of
        (x, feed) \<Rightarrow> (x, (upd_rt (\<lambda>rt. rt\<lparr>rt_degradedFeed := feed\<rparr>) w)
          \<lparr>w_sent := w_sent w @ (if fd_active feed0 \<and> \<not> fd_closed feed0 then frames else [])\<rparr>))"

definition relay_activate :: "gocontext \<Rightarrow> uint64 \<Rightarrow> degradedFrame list \<Rightarrow> 'j world \<Rightarrow> journal_error option \<times> 'j world" where
  "relay_activate ctx boundary frames w =
     (let feed0 = rt_degradedFeed (w_rt w) in
      case feed_activate ctx boundary frames feed0 of
        (x, feed) \<Rightarrow> (x, (upd_rt (\<lambda>rt. rt\<lparr>rt_degradedFeed := feed\<rparr>) w)
          \<lparr>w_sent := w_sent w @ (if fd_closed feed0 then [] else frames)\<rparr>))"

definition relay_close :: "'j world \<Rightarrow> 'j world" where
  "relay_close = upd_rt (\<lambda>rt. rt\<lparr>rt_degradedFeed := feed_close (rt_degradedFeed rt)\<rparr>)"

definition publishFirst :: "Entry \<Rightarrow> 'j world \<Rightarrow> 'j world" where
  "publishFirst entry = upd_rt (\<lambda>rt. case rt_firstEntry rt of None \<Rightarrow> rt\<lparr>rt_firstEntry := Some entry\<rparr> | Some _ \<Rightarrow> rt)"

section \<open>Degradation\<close>

definition startJournalDegradedLease :: "durableService \<Rightarrow> streamRuntime \<Rightarrow> streamRuntime" where
  "startJournalDegradedLease sv rt = (if sv_DegradationMarker sv then rt\<lparr>rt_degradationMarker := True\<rparr> else rt)"

definition signalJournalDegradedTerminal :: "durableService \<Rightarrow> streamRuntime \<Rightarrow> streamRuntime" where
  "signalJournalDegradedTerminal sv rt =
     (if sv_DegradationMarker sv then (startJournalDegradedLease sv rt)\<lparr>rt_degradationTerminal := True\<rparr> else rt)"

definition enterJournalDegradedLocked :: "durableService \<Rightarrow> degradedFrame list \<Rightarrow> 'j world \<Rightarrow> 'j world" where
  "enterJournalDegradedLocked sv failed w =
     (if rt_degraded (w_rt w) then snd (relay_append (rt_context (w_rt w)) failed w)
      else
        (let boundary = rt_lastSeq (w_rt w);
             w1 = upd_rt (\<lambda>rt. startJournalDegradedLease sv (rt\<lparr>rt_degraded := True\<rparr>)) w in
         snd (relay_activate (rt_context (w_rt w1)) boundary (degradedWarningFrame # failed) w1)))"

definition failTerminalTransition :: "'j world \<Rightarrow> 'j world" where
  "failTerminalTransition = upd_rt (\<lambda>rt. rt\<lparr>rt_terminating := False\<rparr>)"

text \<open>The part both terminal paths share: the terminal kind is set, the done channel closed and the lease released.\<close>

definition release_lease :: "Lease option \<Rightarrow> 'j world \<Rightarrow> 'j world" where
  "release_lease lease w = (case lease of None \<Rightarrow> w | Some l \<Rightarrow> w\<lparr>w_pool := snd (lease_Release l (w_pool w))\<rparr>)"

definition settle_terminal :: "EntryKind \<Rightarrow> stopResponse option \<Rightarrow> 'j world \<Rightarrow> 'j world" where
  "settle_terminal kind stopResult w =
     release_lease (rt_currentLease (w_rt w))
       (upd_rt (\<lambda>rt. rt\<lparr>rt_terminal := kind, rt_terminating := False, rt_stopResult := stopResult, rt_currentLease := None,
          rt_orphanTimer := None, rt_done := Suc (rt_done rt)\<rparr>) w)"

definition finishDegradedLocked ::
    "durableService \<Rightarrow> EntryKind \<Rightarrow> bytes \<Rightarrow> stopResponse option \<Rightarrow> 'j world \<Rightarrow> runtime_error option \<times> 'j world" where
  "finishDegradedLocked sv kind payload stopResult w =
     (case degradedTerminalFrame kind payload of
        Inl x \<Rightarrow> (Some (FrameFailed x), failTerminalTransition w)
      | Inr frame \<Rightarrow>
          (let w1 = settle_terminal kind stopResult (upd_rt (signalJournalDegradedTerminal sv) w) in
           (None, relay_close (snd (relay_append (sv_rootContext sv) [frame] w1)))))"

section \<open>Chunks and other entries\<close>

definition accept_observation :: "chunkObservation \<Rightarrow> streamRuntime \<Rightarrow> streamRuntime" where
  "accept_observation ob rt =
     rt\<lparr>rt_progress := progress_Apply ob (rt_progress rt),
        rt_finishReason := (if ob_FinishReason ob \<noteq> [] then ob_FinishReason ob else rt_finishReason rt)\<rparr>"

definition track_tools :: "Event \<Rightarrow> streamRuntime \<Rightarrow> streamRuntime" where
  "track_tools event rt =
     (if rt_requestKind rt = RequestChatCompletion
      then (case ObserveChunk (nonNil (ev_Data event)) (rt_toolCalls rt) of
              (tracker, ok) \<Rightarrow> rt\<lparr>rt_toolCalls := tracker, rt_toolTrackFailed := (rt_toolTrackFailed rt \<or> \<not> ok)\<rparr>)
      else rt)"

text \<open>An entry the journal accepted: its number is mirrored, it is relayed and offered as the first entry.\<close>

definition commit_entry :: "Entry \<Rightarrow> uint64 \<Rightarrow> 'j world \<Rightarrow> runtime_error option \<times> 'j world" where
  "commit_entry entry seq w =
     (let committed = entry\<lparr>e_Seq := seq\<rparr>;
          w1 = upd_rt (\<lambda>rt. rt\<lparr>rt_lastSeq := seq\<rparr>) w in
      case relay_committed (rt_context (w_rt w1)) committed w1 of
        (Some x, w2) \<Rightarrow> (Some (JournalFailed x), w2)
      | (None, w2) \<Rightarrow> (None, publishFirst committed w2))"

definition appendChunk ::
    "durableService \<Rightarrow> 'j Journal \<Rightarrow> journal_call \<Rightarrow> Event \<Rightarrow> chunkObservation \<Rightarrow> 'j world \<Rightarrow> runtime_error option \<times> 'j world" where
  "appendChunk sv jn call event ob w0 =
     (let w = upd_rt (track_tools event) w0;
          payload = chunk_payload (nonNil (ev_Data event)) (optionalString (ev_Type event) (ev_HasType event));
          entry = new_entry KindChunk payload in
      if rt_ended (w_rt w) then (Some (JournalFailed ErrTerminalState), w)
      else if rt_degraded (w_rt w)
      then (None, snd (relay_append (rt_context (w_rt w)) [degradedChunkFrame event] (upd_rt (accept_observation ob) w)))
      else
        (case jn_Append jn (journalMutationContextUntil sv call 0) (rt_id (w_rt w)) entry (cl_commit call) (w_journal w) of
           (Inl x, j) \<Rightarrow> (None, enterJournalDegradedLocked sv [degradedChunkFrame event] (upd_rt (accept_observation ob) (w\<lparr>w_journal := j\<rparr>)))
         | (Inr seq, j) \<Rightarrow> commit_entry entry seq (upd_rt (accept_observation ob) (w\<lparr>w_journal := j\<rparr>))))"

fun degradedFramesForEntries :: "Entry list \<Rightarrow> jsse_error + degradedFrame list" where
  "degradedFramesForEntries [] = Inr []"
| "degradedFramesForEntries (e # es) =
     (case degradedEntryFrame e of
        Inl x \<Rightarrow> Inl x
      | Inr f \<Rightarrow> (case degradedFramesForEntries es of Inl x \<Rightarrow> Inl x | Inr fs \<Rightarrow> Inr (f # fs)))"

text \<open>The loop of \<open>appendNonTerminalUntil\<close>; \<open>calls k\<close> are the clock readings of its \<open>k\<close>-th journal call.\<close>

fun append_entries ::
    "durableService \<Rightarrow> 'j Journal \<Rightarrow> time \<Rightarrow> bool \<Rightarrow> (nat \<Rightarrow> journal_call) \<Rightarrow> Entry list \<Rightarrow> 'j world \<Rightarrow> runtime_error option \<times> 'j world" where
  "append_entries sv jn deadline degraded calls [] w = (None, w)"
| "append_entries sv jn deadline degraded calls (e # es) w =
     (if degraded
      then (case degradedFramesForEntries (e # es) of
              Inl x \<Rightarrow> (Some (FrameFailed x), w)
            | Inr frames \<Rightarrow> apfst (map_option JournalFailed) (relay_append (rt_context (w_rt w)) frames w))
      else
        (case jn_Append jn (journalMutationContextUntil sv (calls 0) deadline) (rt_id (w_rt w)) e (cl_commit (calls 0)) (w_journal w) of
           (Inl x, j) \<Rightarrow>
             (case degradedFramesForEntries (e # es) of
                Inl y \<Rightarrow> (Some (Joined (JournalFailed x) (FrameFailed y)), w\<lparr>w_journal := j\<rparr>)
              | Inr frames \<Rightarrow> (None, enterJournalDegradedLocked sv frames (w\<lparr>w_journal := j\<rparr>)))
         | (Inr seq, j) \<Rightarrow>
             (case commit_entry e seq (w\<lparr>w_journal := j\<rparr>) of
                (Some x, w1) \<Rightarrow> (Some x, w1)
              | (None, w1) \<Rightarrow> append_entries sv jn deadline degraded (\<lambda>k. calls (Suc k)) es w1)))"

definition appendNonTerminalUntil ::
    "durableService \<Rightarrow> 'j Journal \<Rightarrow> time \<Rightarrow> (nat \<Rightarrow> journal_call) \<Rightarrow> Entry list \<Rightarrow> 'j world \<Rightarrow> runtime_error option \<times> 'j world" where
  "appendNonTerminalUntil sv jn deadline calls entries w =
     (if entries = [] then (None, w)
      else if rt_ended (w_rt w) then (Some (JournalFailed ErrTerminalState), w)
      else append_entries sv jn deadline (rt_degraded (w_rt w)) calls entries w)"

section \<open>Ending a stream\<close>

text \<open>
  \<open>closeTerminalUntil\<close>: the payload builder is run on the runtime, which it may update (the finish reason), and
  also gives the response of a stop. The structures it marshals consist of strings, numbers and flags, so
  marshalling does not fail.
\<close>

definition closeTerminalUntil ::
    "durableService \<Rightarrow> 'j Journal \<Rightarrow> journal_call \<Rightarrow> EntryKind \<Rightarrow> bytes \<Rightarrow> (streamRuntime \<Rightarrow> bool) \<Rightarrow> time
     \<Rightarrow> (streamRuntime \<Rightarrow> streamRuntime \<times> bytes \<times> stopResponse option) \<Rightarrow> 'j world \<Rightarrow> runtime_error option \<times> 'j world" where
  "closeTerminalUntil sv jn call kind cause guard deadline build w0 =
     (if rt_ended (w_rt w0) then (Some (JournalFailed ErrTerminalState), w0)
      else if \<not> guard (w_rt w0) then (None, w0)
      else
        (case build (rt_cancel cause ((w_rt w0)\<lparr>rt_terminating := True\<rparr>)) of
           (rt, payload, stopResult) \<Rightarrow>
             (let w = w0\<lparr>w_rt := rt\<rparr> in
              if rt_degraded rt then finishDegradedLocked sv kind payload stopResult w
              else
                (case jn_Close jn (boundedContext (cl_now call) (cl_polls call) (sv_ReadinessTimeout sv) deadline) (rt_id rt)
                        (new_entry kind payload) (cl_commit call) (w_journal w) of
                   (Some x, j) \<Rightarrow> finishDegradedLocked sv kind payload stopResult (enterJournalDegradedLocked sv [] (w\<lparr>w_journal := j\<rparr>))
                 | (None, j) \<Rightarrow>
                     (let seq = rt_lastSeq rt + 1;
                          terminalEntry = (new_entry kind payload)\<lparr>e_Seq := seq\<rparr>;
                          w1 = settle_terminal kind stopResult (upd_rt (\<lambda>rt. rt\<lparr>rt_lastSeq := seq\<rparr>) (w\<lparr>w_journal := j\<rparr>));
                          w2 = snd (relay_committed (sv_rootContext sv) terminalEntry w1) in
                      (None, publishFirst terminalEntry (relay_close w2)))))))"

definition build_done :: "bytes \<Rightarrow> streamRuntime \<Rightarrow> streamRuntime \<times> bytes \<times> stopResponse option" where
  "build_done fallbackFinishReason rt0 =
     (let rt = (if rt_finishReason rt0 = [] then rt0\<lparr>rt_finishReason := fallbackFinishReason\<rparr> else rt0) in
      (rt, done_payload (rt_finishReason rt) (snd (progress_Snapshot (rt_progress rt))), None))"

definition build_error :: "bytes \<Rightarrow> bytes \<Rightarrow> bytes \<Rightarrow> streamRuntime \<Rightarrow> streamRuntime \<times> bytes \<times> stopResponse option" where
  "build_error code message reason rt = (rt, error_payload code message reason (snd (progress_Snapshot (rt_progress rt))), None)"

definition build_stopped :: "streamRuntime \<Rightarrow> streamRuntime \<times> bytes \<times> stopResponse option" where
  "build_stopped rt =
     (case progress_Snapshot (rt_progress rt) of
        (partialText, usage) \<Rightarrow>
          (rt, stopped_payload partialText usage,
           Some \<lparr>st_StreamID = rt_id rt, st_Outcome = ''stopped'', st_PartialText = partialText, st_Usage = usage\<rparr>))"

definition finishDoneUntil ::
    "durableService \<Rightarrow> 'j Journal \<Rightarrow> journal_call \<Rightarrow> time \<Rightarrow> bytes \<Rightarrow> 'j world \<Rightarrow> runtime_error option \<times> 'j world" where
  "finishDoneUntil sv jn call deadline fallbackFinishReason =
     closeTerminalUntil sv jn call KindDone ''stream generation completed'' (\<lambda>_. True) deadline (build_done fallbackFinishReason)"

definition finishErrorUntil ::
    "durableService \<Rightarrow> 'j Journal \<Rightarrow> journal_call \<Rightarrow> time \<Rightarrow> bytes \<Rightarrow> bytes \<Rightarrow> bytes \<Rightarrow> 'j world \<Rightarrow> runtime_error option \<times> 'j world" where
  "finishErrorUntil sv jn call deadline code message reason =
     closeTerminalUntil sv jn call KindError reason (\<lambda>_. True) deadline (build_error code message reason)"

definition finishErrorWhen ::
    "durableService \<Rightarrow> 'j Journal \<Rightarrow> journal_call \<Rightarrow> bytes \<Rightarrow> bytes \<Rightarrow> bytes \<Rightarrow> (streamRuntime \<Rightarrow> bool)
     \<Rightarrow> 'j world \<Rightarrow> runtime_error option \<times> 'j world" where
  "finishErrorWhen sv jn call code message reason guard =
     closeTerminalUntil sv jn call KindError reason guard 0 (build_error code message reason)"

definition finishError ::
    "durableService \<Rightarrow> 'j Journal \<Rightarrow> journal_call \<Rightarrow> bytes \<Rightarrow> bytes \<Rightarrow> bytes \<Rightarrow> 'j world \<Rightarrow> runtime_error option \<times> 'j world" where
  "finishError sv jn call code message reason = finishErrorWhen sv jn call code message reason (\<lambda>_. True)"

definition finishCanceledProducer :: "durableService \<Rightarrow> 'j Journal \<Rightarrow> journal_call \<Rightarrow> 'j world \<Rightarrow> 'j world" where
  "finishCanceledProducer sv jn call w =
     (if rt_ended (w_rt w) then w
      else snd (finishError sv jn call ''proxy_shutdown_timeout'' ''proxy shutdown canceled the upstream producer'' ''proxy_shutdown'' w))"

text \<open>
  \<open>stop\<close> has two critical sections. The first answers from an earlier stop, has to wait for one that is under
  way (\<open>None\<close>), fails, or claims the stop; the second closes the stream and wakes the waiters.
\<close>

datatype stop_claim = StopAnswered stopResponse | StopRefused | StopClaimed

definition stop_begin :: "'j world \<Rightarrow> stop_claim option \<times> 'j world" where
  "stop_begin w =
     (let rt = w_rt w in
      if rt_terminal rt = KindStopped \<and> rt_stopResult rt \<noteq> None then (Some (StopAnswered (the (rt_stopResult rt))), w)
      else if rt_stopRequested rt then (None, w)
      else if rt_ended rt then (Some StopRefused, w)
      else (Some StopClaimed, upd_rt (\<lambda>rt. rt\<lparr>rt_stopRequested := True\<rparr>) w))"

definition stop_close :: "durableService \<Rightarrow> 'j Journal \<Rightarrow> journal_call \<Rightarrow> 'j world \<Rightarrow> runtime_error option \<times> 'j world" where
  "stop_close sv jn call w =
     (case closeTerminalUntil sv jn call KindStopped ''stream explicitly stopped'' (\<lambda>_. True) 0 build_stopped w of
        (x, w1) \<Rightarrow> (x, upd_rt (\<lambda>rt. rt\<lparr>rt_stopWait := Suc (rt_stopWait rt), rt_stopRequested := False\<rparr>) w1))"

section \<open>Readers and orphans\<close>

definition remoteReaderPollPeriod :: duration where
  "remoteReaderPollPeriod = 100 * 10 ^ 6"

definition attachReader :: "'j world \<Rightarrow> bool \<times> 'j world" where
  "attachReader w =
     (let rt = w_rt w in
      if rt_terminating rt \<or> (rt_orphanClaim rt \<noteq> [] \<and> rt_terminal rt = []) then (False, w)
      else (True, upd_rt (\<lambda>rt. rt\<lparr>rt_remoteReaderWasAttached := False, rt_orphanTimer := None, rt_readers := rt_readers rt + 1\<rparr>) w))"

text \<open>What a detaching reader leaves to do: nothing, an orphan check now, or one after the timeout (in the timer).\<close>

definition detachReader :: "'j world \<Rightarrow> bool \<times> 'j world" where
  "detachReader w0 =
     (let w = upd_rt (\<lambda>rt. if rt_readers rt > 0 then rt\<lparr>rt_readers := rt_readers rt - 1\<rparr> else rt) w0; rt = w_rt w in
      if rt_readers rt \<noteq> 0 \<or> rt_terminal rt \<noteq> [] then (False, w)
      else if rt_orphanPolicy rt = ''cancel'' then (True, w)
      else if rt_orphanPolicy rt = ''cancel_after''
      then (False, upd_rt (\<lambda>rt. rt\<lparr>rt_orphanTimer := Some (po_OrphanTimeout (rt_policy rt))\<rparr>) w)
      else (False, w))"

definition scheduleOrphanCheck :: "duration \<Rightarrow> 'j world \<Rightarrow> 'j world" where
  "scheduleOrphanCheck delay w =
     (let rt = w_rt w in
      if rt_readers rt \<noteq> 0 \<or> rt_ended rt \<or> rt_orphanClaim rt \<noteq> [] then w
      else upd_rt (\<lambda>rt. rt\<lparr>rt_orphanTimer := Some delay\<rparr>) w)"

text \<open>
  \<open>cancelOrphan\<close> by its critical sections: \<open>orphan_claim\<close> with the answer of the journal to the claim, if it
  takes claims, \<open>orphan_count\<close> with its count of readers otherwise, and the closing of the stream. The result
  says what follows.
\<close>

datatype orphan_next = OrphanStop | OrphanRetry duration | OrphanReleaseRetry bytes duration | OrphanFinishClaimed bytes | OrphanCount | OrphanFinish

datatype orphan_answer = ClaimUnsupported | ClaimFailed | ClaimDenied | ClaimGranted bytes

definition orphan_claim :: "orphan_answer \<Rightarrow> 'j world \<Rightarrow> orphan_next \<times> 'j world" where
  "orphan_claim answer w0 =
     (if rt_readers (w_rt w0) \<noteq> 0 \<or> rt_ended (w_rt w0) then (OrphanStop, w0)
      else
        (let w = upd_rt (\<lambda>rt. rt\<lparr>rt_orphanTimer := None\<rparr>) w0; rt = w_rt w in
         case answer of
           ClaimUnsupported \<Rightarrow> (OrphanCount, w)
         | ClaimFailed \<Rightarrow> (OrphanRetry remoteReaderPollPeriod, w)
         | ClaimDenied \<Rightarrow> (OrphanRetry remoteReaderPollPeriod, upd_rt (\<lambda>rt. rt\<lparr>rt_remoteReaderWasAttached := True\<rparr>) w)
         | ClaimGranted claimID \<Rightarrow>
             if rt_orphanPolicy rt = ''cancel_after'' \<and> rt_remoteReaderWasAttached rt
             then (OrphanReleaseRetry claimID (po_OrphanTimeout (rt_policy rt)), upd_rt (\<lambda>rt. rt\<lparr>rt_remoteReaderWasAttached := False\<rparr>) w)
             else (OrphanFinishClaimed claimID,
                   upd_rt (\<lambda>rt. rt\<lparr>rt_remoteReaderWasAttached := False, rt_orphanClaim := claimID\<rparr>) w)))"

definition orphan_count :: "int option \<Rightarrow> 'j world \<Rightarrow> orphan_next \<times> 'j world" where
  "orphan_count remoteReaders w =
     (case remoteReaders of
        None \<Rightarrow> (OrphanRetry remoteReaderPollPeriod, w)
      | Some n \<Rightarrow>
          if n \<noteq> 0 then (OrphanRetry remoteReaderPollPeriod, upd_rt (\<lambda>rt. rt\<lparr>rt_remoteReaderWasAttached := True\<rparr>) w)
          else
            (let needsRemoteGrace = (rt_orphanPolicy (w_rt w) = ''cancel_after'' \<and> rt_remoteReaderWasAttached (w_rt w));
                 w1 = upd_rt (\<lambda>rt. rt\<lparr>rt_remoteReaderWasAttached := False\<rparr>) w in
             (if needsRemoteGrace then OrphanRetry (po_OrphanTimeout (rt_policy (w_rt w))) else OrphanFinish, w1)))"

definition orphan_finish :: "durableService \<Rightarrow> 'j Journal \<Rightarrow> journal_call \<Rightarrow> (streamRuntime \<Rightarrow> bool) \<Rightarrow> 'j world \<Rightarrow> runtime_error option \<times> 'j world" where
  "orphan_finish sv jn call guard =
     finishErrorWhen sv jn call ''orphan_cancelled'' ''producer canceled after its final reader disconnected'' ''orphan_policy'' guard"

text \<open>The second section of \<open>finishClaimedOrphan\<close>: whether the claim is to be released.\<close>

definition orphan_settle :: "bytes \<Rightarrow> 'j world \<Rightarrow> bool \<times> 'j world" where
  "orphan_settle claimID w =
     (let rt = w_rt w; owned = (rt_orphanClaim rt = claimID) in
      (owned \<and> rt_terminal rt = [], if owned then upd_rt (\<lambda>rt. rt\<lparr>rt_orphanClaim := []\<rparr>) w else w))"

section \<open>Opening\<close>

definition requestKindForEndpoint :: "bytes \<Rightarrow> RequestKind" where
  "requestKindForEndpoint endpoint = (if endpoint = ''/v1/completions'' then RequestCompletion else RequestChatCompletion)"

definition requestHasMultipleChoices :: "bytes \<Rightarrow> bool" where
  "requestHasMultipleChoices body =
     (case json_unmarshal um_map None body of
        None \<Rightarrow> False
      | Some fs \<Rightarrow>
          (case map_of (case fs of None \<Rightarrow> [] | Some m \<Rightarrow> m) ''n'' of
             None \<Rightarrow> False
           | Some raw \<Rightarrow> (case json_unmarshal um_uint64 0 raw of None \<Rightarrow> False | Some choices \<Rightarrow> choices \<noteq> 1)))"

text \<open>The runtime \<open>resolve\<close> makes once the journal has opened the stream.\<close>

definition newRuntime :: "durableService \<Rightarrow> StreamID \<Rightarrow> normalizedRequest \<Rightarrow> streamPolicy \<Rightarrow> bytes \<Rightarrow> Lease \<Rightarrow> time \<Rightarrow> streamRuntime" where
  "newRuntime sv sid normalized policy endpoint lease now =
     \<lparr>rt_id = sid, rt_model = nr_Model normalized, rt_policy = policy, rt_endpoint = endpoint, rt_requestBody = nr_Body normalized,
      rt_orphanPolicy = po_OrphanPolicy policy, rt_currentLease = Some lease, rt_currentBackend = le_backend lease,
      rt_originBackend = le_backend lease, rt_createdAt = now, rt_requestKind = requestKindForEndpoint endpoint,
      rt_structured = (case IsStructuredRequest (nr_Body normalized) of Inl _ \<Rightarrow> False | Inr b \<Rightarrow> b),
      rt_multipleChoice = requestHasMultipleChoices (nr_Body normalized), rt_migrationsUsed = 0, rt_estimateWarned = False,
      rt_toolCalls = [], rt_toolTrackFailed = False, rt_attemptCancel = False, rt_attemptCause = None, rt_pendingTrigger = [],
      rt_pendingDeadline = 0, rt_pendingFallback = False, rt_cause = None, rt_done = 0, rt_firstEntry = None,
      rt_degradedFeed = newDegradedFeed (sv_ReaderMaxLagBytes sv), rt_terminating = False, rt_terminal = [], rt_readers = 0,
      rt_orphanTimer = None, rt_orphanClaim = [], rt_remoteReaderWasAttached = False, rt_progress = zeroProgress,
      rt_finishReason = [], rt_lastSeq = 1, rt_stopResult = None, rt_stopRequested = False, rt_stopWait = 0, rt_degraded = False,
      rt_degradationMarker = False, rt_degradationTerminal = False\<rparr>"

end
