(* ===== verification/Producer.thy ===== *)
theory Producer
  imports Stream_Runtime
begin

text \<open>
  The producer of \<open>internal/proxy/producer.go\<close>: one attempt after another at an upstream, the decision after each
  failure whether the stream may continue elsewhere, the reservation of the target, the reconciliation of the seam,
  and the migrations that drains and health checks trigger from outside. What other goroutines do between two
  critical sections of the producer is a function on worlds that the definitions take as a parameter.
\<close>

section \<open>Refusals and warnings\<close>

fun predicate_code :: "Predicate \<Rightarrow> bytes" where
  "predicate_code PredicateMaxMigrations = ''max_migrations''"
| "predicate_code PredicateMaxMigrationTokens = ''max_migration_tokens''"
| "predicate_code PredicateMaxStreamDuration = ''max_stream_duration''"
| "predicate_code PredicateTemplateVerdict = ''template_verdict''"
| "predicate_code PredicateStructuredResume = ''allow_structured_resume''"
| "predicate_code PredicateModelVersion = ''model_version''"
| "predicate_code PredicateBackendAvailable = ''backend_available''"

fun warning_code :: "WarningCode \<Rightarrow> bytes" where
  "warning_code WarningTemplateDegraded = ''template_degraded''"
| "warning_code WarningTemplateUnsafePermissive = ''template_unsafe_permissive''"

fun failure_code :: "CorrectnessFailure \<Rightarrow> bytes" where
  "failure_code FailureToolCallBoundary = ''tool_call_boundary''"
| "failure_code FailureStructuredPrefixInvalid = ''structured_prefix_invalid''"
| "failure_code FailureUnsupportedContinuationShape = ''unsupported_continuation_shape''"
| "failure_code FailureTokenBudgetExhausted = ''token_budget_exhausted''"

definition warningMessage :: "bytes \<Rightarrow> bytes" where
  "warningMessage code =
     (if code = ''tool_call_boundary'' then ''migration would split a fragmented tool call''
      else if code = ''structured_prefix_invalid'' then ''accumulated structured output is not a valid JSON prefix''
      else if code = ''unsupported_continuation_shape'' then ''the request cannot be represented as one continuation''
      else if code = ''token_budget_exhausted'' then ''the estimated completion-token count leaves no safe continuation budget''
      else if code = ''template_degraded'' then ''the target chat template has degraded continuation conformance''
      else if code = ''template_unsafe_permissive'' then ''an unsafe target chat template was admitted by permissive policy''
      else if code = ''seam_anomaly'' then ''continuation may have restarted instead of continuing''
      else code)"

definition warningEntry :: "bytes \<Rightarrow> bytes \<Rightarrow> bytes option \<Rightarrow> Entry" where
  "warningEntry code message predicate =
     new_entry KindWarning (json_object_text
       [(''code'', marshal_string code), (''message'', marshal_string message), (''predicate'', field_text predicate), (''details'', CHR ''{'' # ''}'')])"

definition estimate_warning :: "bool \<Rightarrow> Entry list" where
  "estimate_warning estimateWarning =
     (if estimateWarning then [warningEntry ''token_count_estimated'' ''completion token count is a conservative estimate'' None] else [])"

definition buildRefusalEntries :: "bool \<Rightarrow> Predicate list \<Rightarrow> CorrectnessFailure list \<Rightarrow> Entry list \<times> bytes" where
  "buildRefusalEntries estimateWarning predicates correctness =
     (estimate_warning estimateWarning
        @ map (\<lambda>p. warningEntry ''eligibility_failed'' ''migration eligibility predicate failed'' (Some (predicate_code p))) predicates
        @ map (\<lambda>f. warningEntry (failure_code f) (warningMessage (failure_code f)) None) correctness,
      if correctness \<noteq> [] then failure_code (hd correctness)
      else if predicates \<noteq> [] then predicate_code (hd predicates) else ''migration_ineligible'')"

definition migration_payload :: "backend_id \<Rightarrow> backend_id \<Rightarrow> bytes \<Rightarrow> uint64 \<Rightarrow> bool \<Rightarrow> uint64 \<Rightarrow> bytes" where
  "migration_payload from_backend to_backend reason rescuedTokens estimated attempt = json_object_text
     [(''from_backend'', marshal_string from_backend), (''to_backend'', marshal_string to_backend), (''reason'', marshal_string reason),
      (''rescued_tokens'', append_dec rescuedTokens), (''token_count_estimated'', bool_text estimated), (''attempt'', append_dec attempt)]"

definition refuseMigrationUntil ::
    "durableService \<Rightarrow> 'j Journal \<Rightarrow> (nat \<Rightarrow> journal_call) \<Rightarrow> time \<Rightarrow> bool \<Rightarrow> Predicate list \<Rightarrow> CorrectnessFailure list \<Rightarrow> 'j world \<Rightarrow> 'j world" where
  "refuseMigrationUntil sv jn calls deadline estimateWarning predicates correctness w =
     (case buildRefusalEntries estimateWarning predicates correctness of
        (entries, reason) \<Rightarrow>
          (case appendNonTerminalUntil sv jn deadline (\<lambda>k. calls (Suc k)) entries w of
             (err, w1) \<Rightarrow>
               (let w2 = (if err \<noteq> None \<and> rt_cause (w_rt w1) = None then w1
                          else if estimateWarning then upd_rt (\<lambda>rt. rt\<lparr>rt_estimateWarned := True\<rparr>) w1 else w1) in
                snd (finishErrorUntil sv jn (calls 0) deadline ''migration_refused'' ''continuation is not safe'' reason w2))))"

section \<open>The decision to migrate\<close>

definition migrate_policy :: "streamPolicy \<Rightarrow> Policy" where
  "migrate_policy p =
     \<lparr>MaxMigrations = nat (po_MaxMigrations p mod 2 ^ 64), MaxMigrationTokens = po_MaxMigrationTokens p,
      MaxStreamDuration = po_MaxStreamDuration p, AllowStructuredResume = po_AllowStructuredResume p,
      AllowCrossVersion = po_AllowCrossVersion p, SeamWindowBytes = po_SeamWindowBytes p, PolicyTemplateMode = po_TemplateMode p\<rparr>"

definition completedGenerationReason ::
    "bytes \<Rightarrow> tokenUsage \<Rightarrow> CorrectnessFailure list \<Rightarrow> continuation_error option \<Rightarrow> bytes option" where
  "completedGenerationReason finishReason usage correctness rewriteErr =
     (if correctness \<noteq> [] \<or> (rewriteErr \<noteq> None \<and> rewriteErr \<noteq> Some ErrTokenBudgetExhausted) then None
      else if finishReason \<noteq> [] then Some finishReason
      else if \<not> u_Estimated usage \<and> rewriteErr = Some ErrTokenBudgetExhausted then Some ''length''
      else None)"

text \<open>What both decisions, the producer's and that of an external trigger, read of the runtime.\<close>

record migration_view =
  mv_accumulated :: bytes
  mv_usage :: tokenUsage
  mv_correctness :: "CorrectnessFailure list"
  mv_rewritten :: "continuation_error + bytes"
  mv_estimateWarning :: bool

definition view_runtime :: "streamRuntime \<Rightarrow> migration_view" where
  "view_runtime rt =
     (case progress_Snapshot (rt_progress rt) of
        (accumulated, usage) \<Rightarrow>
          \<lparr>mv_accumulated = accumulated, mv_usage = usage,
           mv_correctness = EvaluateCorrectness \<lparr>ToolCallInProgress = (InsideToolCall (rt_toolCalls rt) \<or> rt_toolTrackFailed rt),
             cs_StructuredResponse = rt_structured rt, AccumulatedText = accumulated, MultipleChoices = rt_multipleChoice rt\<rparr>,
           mv_rewritten = RewriteContinuation (rt_requestKind rt) (rt_requestBody rt)
             \<lparr>co_AccumulatedText = accumulated, co_TokensAlreadyEmitted = u_CompletionTokens usage\<rparr>,
           mv_estimateWarning = (u_Estimated usage \<and> \<not> rt_estimateWarned rt)\<rparr>)"

definition rewrite_error :: "migration_view \<Rightarrow> continuation_error option" where
  "rewrite_error v = (case mv_rewritten v of Inl x \<Rightarrow> Some x | Inr _ \<Rightarrow> None)"

definition eligibility_snapshot :: "streamRuntime \<Rightarrow> migration_view \<Rightarrow> time \<Rightarrow> Verdict \<Rightarrow> bytes \<Rightarrow> bytes \<Rightarrow> bool \<Rightarrow> EligibilitySnapshot" where
  "eligibility_snapshot rt v now verdict originVersion targetVersion available =
     \<lparr>MigrationsUsed = rt_migrationsUsed rt, AccumulatedTokens = u_CompletionTokens (mv_usage v), Elapsed = now - rt_createdAt rt,
      SnapshotVerdict = verdict, StructuredResponse = rt_structured rt, OriginModelVersion = originVersion,
      TargetModelVersion = targetVersion, TargetBackendAvailable = available\<rparr>"

section \<open>Targets\<close>

record acquire_env =
  ae_clock :: "nat \<Rightarrow> time"
  ae_interfere :: "nat \<Rightarrow> Pool \<Rightarrow> Pool"

definition acquireBackend ::
    "routeBackendRegistry option \<Rightarrow> acquire_env \<Rightarrow> bytes \<Rightarrow> bytes \<Rightarrow> backend_id list \<Rightarrow> Pool \<Rightarrow> (pool_error + Lease) \<times> Pool" where
  "acquireBackend routes env owner model excluded p =
     (case routes of
        None \<Rightarrow> pool_AcquireModel owner model excluded (ae_clock env) (ae_interfere env) p
      | Some registry \<Rightarrow> acquireModel registry owner model excluded (ae_clock env) (ae_interfere env) p)"

text \<open>
  \<open>acquireMigrationTarget\<close>: one round per pass of its loop, with the clock when the deadline is checked and
  what the others did while it waited for a change, a timer or the cancellation. \<open>None\<close>: it still waits.
\<close>

record 'j acquire_round =
  ar_env :: acquire_env
  ar_recheck :: acquire_env
  ar_now :: time
  ar_wait :: "'j world \<Rightarrow> 'j world"

datatype acquire_error = AcquirePool pool_error | AcquireCanceled

definition pool_call :: "(Pool \<Rightarrow> (pool_error + Lease) \<times> Pool) \<Rightarrow> 'j world \<Rightarrow> (acquire_error + Lease) \<times> 'j world" where
  "pool_call f w = (case f (w_pool w) of (r, p) \<Rightarrow> (case r of Inl x \<Rightarrow> Inl (AcquirePool x) | Inr l \<Rightarrow> Inr l, w\<lparr>w_pool := p\<rparr>))"

fun acquireMigrationTarget ::
    "routeBackendRegistry option \<Rightarrow> bytes \<Rightarrow> time \<Rightarrow> backend_id \<Rightarrow> 'j acquire_round list \<Rightarrow> 'j world \<Rightarrow> ((acquire_error + Lease) \<times> 'j world) option" where
  "acquireMigrationTarget routes reason deadline excluded [] w = None"
| "acquireMigrationTarget routes reason deadline excluded (rd # rds) w =
     (let rt = w_rt w in
      case pool_call (acquireBackend routes (ar_env rd) (rt_id rt) (rt_model rt) [excluded]) w of
        (r, w1) \<Rightarrow>
          if r \<noteq> Inl (AcquirePool PoolNoEligibleBackend) \<or> reason \<noteq> ''drain'' \<or> deadline = 0 then Some (r, w1)
          else if \<not> ar_now rd < deadline
          then Some (pool_call (acquireBackend routes (ar_recheck rd) (rt_id rt) (rt_model rt) [excluded]) w1)
          else
            (let w2 = ar_wait rd w1 in
             if rt_cause (w_rt w2) \<noteq> None then Some (Inl AcquireCanceled, w2)
             else acquireMigrationTarget routes reason deadline excluded rds w2))"

definition mergePendingTriggerLocked :: "bytes \<Rightarrow> time \<Rightarrow> bool \<Rightarrow> streamRuntime \<Rightarrow> streamRuntime" where
  "mergePendingTriggerLocked reason deadline fallback rt =
     (if rt_pendingTrigger rt = [] then rt\<lparr>rt_pendingTrigger := reason, rt_pendingDeadline := deadline, rt_pendingFallback := fallback\<rparr>
      else if rt_pendingTrigger rt \<noteq> ''drain'' \<or> reason \<noteq> ''drain'' then rt
      else if rt_pendingFallback rt \<and> \<not> fallback then rt\<lparr>rt_pendingDeadline := deadline, rt_pendingFallback := False\<rparr>
      else if rt_pendingFallback rt = fallback \<and> (rt_pendingDeadline rt = 0 \<or> (deadline \<noteq> 0 \<and> deadline < rt_pendingDeadline rt))
      then rt\<lparr>rt_pendingDeadline := deadline\<rparr>
      else rt)"

definition defaultDrainTimeout :: duration where
  "defaultDrainTimeout = 10 * second"

text \<open>
  \<open>reserveMigrationTarget\<close>: the exchange of the leases, the check of the target's latest state, and the section
  that leaves a trigger for the next attempt if the target has failed in the meantime.
\<close>

definition reserve_exchange :: "Lease option \<Rightarrow> Lease \<Rightarrow> BackendState \<Rightarrow> 'j world \<Rightarrow> bool \<times> 'j world" where
  "reserve_exchange failedLease targetLease target w =
     (if rt_ended (w_rt w) \<or> rt_currentLease (w_rt w) \<noteq> failedLease then (False, w)
      else (True, release_lease failedLease
              (upd_rt (\<lambda>rt. rt\<lparr>rt_currentLease := Some targetLease, rt_currentBackend := target, rt_attemptCancel := False\<rparr>) w)))"

definition reserve_reason :: "BackendState \<Rightarrow> time \<Rightarrow> Pool \<Rightarrow> bytes" where
  "reserve_reason target now p =
     (case pool_Get (b_ID (bst_Backend target)) now p of
        Inl _ \<Rightarrow> ''health''
      | Inr latest \<Rightarrow>
          if bst_Health latest \<noteq> HealthHealthy \<or> bst_Quarantined latest then ''health''
          else if bst_Draining latest then ''drain'' else [])"

definition reserve_pending :: "bytes \<Rightarrow> Lease \<Rightarrow> time \<Rightarrow> 'j world \<Rightarrow> 'j world" where
  "reserve_pending reason targetLease now w =
     (if reason \<noteq> [] \<and> rt_currentLease (w_rt w) = Some targetLease
      then upd_rt (if reason = ''drain'' then mergePendingTriggerLocked reason (now + defaultDrainTimeout) True
                   else mergePendingTriggerLocked reason 0 False) w
      else w)"

definition reserveMigrationTarget ::
    "Lease option \<Rightarrow> Lease \<Rightarrow> BackendState \<Rightarrow> (nat \<Rightarrow> time) \<Rightarrow> (nat \<Rightarrow> 'j world \<Rightarrow> 'j world) \<Rightarrow> 'j world \<Rightarrow> bool \<times> 'j world" where
  "reserveMigrationTarget failedLease targetLease target clock interfere w =
     (case reserve_exchange failedLease targetLease target w of
        (False, w1) \<Rightarrow> (False, w1)
      | (True, w1) \<Rightarrow>
          (let w2 = interfere 0 w1 in
           (True, reserve_pending (reserve_reason target (clock 0) (w_pool w2)) targetLease (clock 1) (interfere 1 w2))))"

section \<open>Preparing a migration\<close>

record attemptSpec =
  as_body :: bytes
  as_continuation :: bool
  as_seamBase :: bytes
  as_migrationEntries :: "Entry list"
  as_estimateWarning :: bool
  as_migrationReason :: bytes
  as_fromBackend :: bytes
  as_toBackend :: bytes
  as_rescuedTokens :: uint64
  as_attempt :: uint64

definition first_spec :: "bytes \<Rightarrow> attemptSpec" where
  "first_spec body = \<lparr>as_body = body, as_continuation = False, as_seamBase = [], as_migrationEntries = [], as_estimateWarning = False,
     as_migrationReason = [], as_fromBackend = [], as_toBackend = [], as_rescuedTokens = 0, as_attempt = 0\<rparr>"

record 'j migration_env =
  me_calls :: "nat \<Rightarrow> journal_call"
  me_clock :: "nat \<Rightarrow> time"
  me_rounds :: "'j acquire_round list"
  me_interfere :: "nat \<Rightarrow> 'j world \<Rightarrow> 'j world"

definition finish_invalid_policy :: "durableService \<Rightarrow> 'j Journal \<Rightarrow> journal_call \<Rightarrow> 'j world \<Rightarrow> 'j world" where
  "finish_invalid_policy sv jn call w =
     snd (finishError sv jn call ''migration_refused'' ''migration policy could not be evaluated'' ''invalid_policy'' w)"

text \<open>The part after a target was looked for: the gates, and the reservation if they are open.\<close>

definition migrate_to ::
    "durableService \<Rightarrow> 'j Journal \<Rightarrow> 'j migration_env \<Rightarrow> streamRuntime \<Rightarrow> migration_view \<Rightarrow> bytes \<Rightarrow> time \<Rightarrow> Lease option \<Rightarrow> 'j world
     \<Rightarrow> attemptSpec option \<times> 'j world" where
  "migrate_to sv jn env rt v reason deadline targetLease w =
     (let failed = rt_currentBackend rt;
          target = (case targetLease of None \<Rightarrow> bst_Backend failed | Some l \<Rightarrow> bst_Backend (le_backend l));
          w1 = release_lease targetLease w in
      case EvaluateEligibility (migrate_policy (rt_policy rt))
             (eligibility_snapshot rt v (me_clock env 2) (b_TemplateVerdict target) (b_ModelVersion (bst_Backend (rt_originBackend rt)))
                (b_ModelVersion target) (targetLease \<noteq> None)) of
        Inl _ \<Rightarrow> (None, finish_invalid_policy sv jn (me_calls env 0) w1)
      | Inr eligibility \<Rightarrow>
          if \<not> er_Eligible eligibility \<or> mv_correctness v \<noteq> []
          then (None, refuseMigrationUntil sv jn (me_calls env) deadline (mv_estimateWarning v) (er_Failures eligibility) (mv_correctness v) w1)
          else
            (case mv_rewritten v of
               Inl _ \<Rightarrow> (None, refuseMigrationUntil sv jn (me_calls env) deadline (mv_estimateWarning v) [] [FailureUnsupportedContinuationShape] w1)
             | Inr rewritten \<Rightarrow>
                 (let lease = the targetLease;
                      attempt = wrap64 (rt_migrationsUsed rt + 2);
                      entries = estimate_warning (mv_estimateWarning v)
                        @ map (\<lambda>c. warningEntry (warning_code c) (warningMessage (warning_code c)) None) (er_Warnings eligibility)
                        @ [new_entry KindMigration (migration_payload (b_ID (bst_Backend failed)) (b_ID target) reason
                             (u_CompletionTokens (mv_usage v)) (u_Estimated (mv_usage v)) attempt)] in
                  case reserveMigrationTarget (rt_currentLease rt) lease (le_backend lease) (\<lambda>k. me_clock env (3 + k)) (\<lambda>k. me_interfere env (4 + k)) w of
                    (False, w2) \<Rightarrow> (None, release_lease (Some lease) w2)
                  | (True, w2) \<Rightarrow>
                      (Some \<lparr>as_body = rewritten, as_continuation = True, as_seamBase = mv_accumulated v, as_migrationEntries = entries,
                        as_estimateWarning = mv_estimateWarning v, as_migrationReason = reason, as_fromBackend = b_ID (bst_Backend failed),
                        as_toBackend = b_ID target, as_rescuedTokens = u_CompletionTokens (mv_usage v), as_attempt = attempt\<rparr>, w2))))"

text \<open>\<open>None\<close>: the wait for a target has not ended. Otherwise the next attempt, if there is one.\<close>

definition prepareMigration ::
    "durableService \<Rightarrow> 'j Journal \<Rightarrow> routeBackendRegistry option \<Rightarrow> 'j migration_env \<Rightarrow> bytes \<Rightarrow> bool \<Rightarrow> time \<Rightarrow> 'j world
     \<Rightarrow> (attemptSpec option \<times> 'j world) option" where
  "prepareMigration sv jn routes env reason passive deadline w0 =
     (let w = me_interfere env 0 w0; rt = w_rt w; v = view_runtime rt; failed = rt_currentBackend rt;
          refuse = refuseMigrationUntil sv jn (me_calls env) deadline (mv_estimateWarning v) in
      if rt_ended rt \<or> rt_cause rt \<noteq> None then Some (None, w)
      else
        (let w1 = me_interfere env 1 w in
         case completedGenerationReason (rt_finishReason rt) (mv_usage v) (mv_correctness v) (rewrite_error v) of
           Some completedReason \<Rightarrow> Some (None, snd (finishDoneUntil sv jn (me_calls env 0) deadline completedReason w1))
         | None \<Rightarrow>
             (let w2 = (if passive then w1\<lparr>w_pool := snd (MarkPassiveFailure (b_ID (bst_Backend failed)) (me_clock env 0) (w_pool w1))\<rparr> else w1);
                  preflight = EvaluateEligibility (migrate_policy (rt_policy rt))
                    (eligibility_snapshot rt v (me_clock env 1) VerdictSafe ''drain-preflight'' ''drain-preflight'' True);
                  maxDurationDeadline = rt_createdAt rt + po_MaxStreamDuration (rt_policy rt);
                  retryDeadline = (if reason = ''drain'' \<and> deadline \<noteq> 0 \<and> maxDurationDeadline < deadline then maxDurationDeadline else deadline) in
              if rewrite_error v = Some ErrTokenBudgetExhausted
              then Some (None, refuse [] (if mv_correctness v \<noteq> [] then mv_correctness v else [FailureTokenBudgetExhausted]) w2)
              else if reason = ''drain'' \<and> (case preflight of Inl _ \<Rightarrow> True | Inr _ \<Rightarrow> False)
              then Some (None, finish_invalid_policy sv jn (me_calls env 0) w2)
              else if reason = ''drain'' \<and> (\<not> er_Eligible (projr preflight) \<or> mv_correctness v \<noteq> [])
              then Some (None, refuse (er_Failures (projr preflight)) (mv_correctness v) w2)
              else
                (case acquireMigrationTarget routes reason retryDeadline (b_ID (bst_Backend failed)) (me_rounds env) (me_interfere env 2 w2) of
                   None \<Rightarrow> None
                 | Some (r, w3) \<Rightarrow>
                     if (case r of Inl _ \<Rightarrow> True | Inr _ \<Rightarrow> False) \<and> rt_cause (w_rt w3) \<noteq> None
                     then Some (None, finishCanceledProducer sv jn (me_calls env 0) w3)
                     else Some (migrate_to sv jn env rt v reason deadline (case r of Inl _ \<Rightarrow> None | Inr l \<Rightarrow> Some l) (me_interfere env 3 w3))))))"

section \<open>Dispatching\<close>

definition markAttemptDispatched :: "'j world \<Rightarrow> bool \<times> 'j world" where
  "markAttemptDispatched w =
     (let rt = w_rt w in
      if rt_ended rt \<or> rt_cause rt \<noteq> None then (False, w)
      else (True, upd_rt (\<lambda>rt. rt\<lparr>rt_migrationsUsed := wrap64 (rt_migrationsUsed rt + 1), rt_progress := progress_BeginAttempt (rt_progress rt)\<rparr>) w))"

definition commitDispatchedAttempt ::
    "durableService \<Rightarrow> 'j Journal \<Rightarrow> (nat \<Rightarrow> journal_call) \<Rightarrow> attemptSpec \<Rightarrow> 'j world \<Rightarrow> runtime_error option \<times> 'j world" where
  "commitDispatchedAttempt sv jn calls spec w =
     (case appendNonTerminalUntil sv jn 0 calls (as_migrationEntries spec) w of
        (Some x, w1) \<Rightarrow> (Some x, w1)
      | (None, w1) \<Rightarrow> (None, if as_estimateWarning spec then upd_rt (\<lambda>rt. rt\<lparr>rt_estimateWarned := True\<rparr>) w1 else w1))"

section \<open>The seam\<close>

definition isUTF8Boundary :: "bytes \<Rightarrow> nat \<Rightarrow> bool" where
  "isUTF8Boundary v offset \<longleftrightarrow> offset = 0 \<or> offset = length v \<or> \<not> (0x80 \<le> bv (v ! offset) \<and> bv (v ! offset) < 0xC0)"

definition stripTextPrefix :: "bytes \<Rightarrow> nat \<Rightarrow> (bytes \<times> nat) option" where
  "stripTextPrefix t remaining =
     (if remaining = 0 then Some (t, remaining)
      else (let remove = min (length t) remaining in
            if \<not> isUTF8Boundary t remove then None else Some (drop remove t, remaining - remove)))"

text \<open>A member of an object, if it is there and not null, stripped of the text that is left to remove.\<close>

definition strip_member :: "raw_map \<Rightarrow> bytes \<Rightarrow> nat \<Rightarrow> (raw_map \<times> nat) option" where
  "strip_member m name remaining =
     (case map_of m name of
        None \<Rightarrow> Some (m, remaining)
      | Some raw \<Rightarrow>
          if trim_space raw = ''null'' then Some (m, remaining)
          else (case json_unmarshal um_string [] raw of
                  None \<Rightarrow> None
                | Some t \<Rightarrow> (case stripTextPrefix t remaining of
                     None \<Rightarrow> None
                   | Some (t', n) \<Rightarrow> Some (AList.update name (marshal_string t') m, n))))"

definition strip_delta :: "raw_map \<Rightarrow> nat \<Rightarrow> (raw_map \<times> nat) option" where
  "strip_delta choice remaining =
     (case map_of choice ''delta'' of
        None \<Rightarrow> Some (choice, remaining)
      | Some raw \<Rightarrow>
          if trim_space raw = ''null'' then Some (choice, remaining)
          else (case json_unmarshal um_map None raw of
                  None \<Rightarrow> None
                | Some delta \<Rightarrow> (case strip_member (case delta of None \<Rightarrow> [] | Some d \<Rightarrow> d) ''content'' remaining of
                     None \<Rightarrow> None
                   | Some (d, n) \<Rightarrow> Some (AList.update ''delta'' (nonNil (marshal_map d)) choice, n))))"

definition strip_choice :: "raw_map \<Rightarrow> nat \<Rightarrow> (raw_map \<times> nat) option" where
  "strip_choice choice remaining =
     (if (case map_of choice ''index'' of None \<Rightarrow> True | Some raw \<Rightarrow> json_unmarshal um_int 0 raw \<noteq> Some 0) then Some (choice, remaining)
      else (case strip_member choice ''text'' remaining of None \<Rightarrow> None | Some (c, n) \<Rightarrow> strip_delta c n))"

fun strip_choices :: "raw_map option list \<Rightarrow> nat \<Rightarrow> (raw_map option list \<times> nat) option" where
  "strip_choices [] remaining = Some ([], remaining)"
| "strip_choices (c # cs) remaining =
     (case strip_choice (case c of None \<Rightarrow> [] | Some m \<Rightarrow> m) remaining of
        None \<Rightarrow> None
      | Some (m, n) \<Rightarrow> (case strip_choices cs n of None \<Rightarrow> None | Some (cs', k) \<Rightarrow> Some ((if c = None then None else Some m) # cs', k)))"

definition marshal_choices :: "raw_map option goslice \<Rightarrow> raw_map option list \<Rightarrow> bytes option" where
  "marshal_choices sl choices =
     (if sl = None then Some ''null''
      else marshal_raws (map (\<lambda>c. case c of None \<Rightarrow> ''null'' | Some m \<Rightarrow> nonNil (marshal_map m)) choices))"

definition rewriteLeadingAssistantText :: "bytes \<Rightarrow> nat \<Rightarrow> (bytes \<times> nat) option" where
  "rewriteLeadingAssistantText d remaining =
     (case json_unmarshal um_map None d of
        None \<Rightarrow> None
      | Some root0 \<Rightarrow>
          (let root = (case root0 of None \<Rightarrow> [] | Some m \<Rightarrow> m) in
           case (case map_of root ''choices'' of None \<Rightarrow> Some None | Some raw \<Rightarrow> json_unmarshal (um_slice None um_map) None raw) of
             None \<Rightarrow> None
           | Some choices \<Rightarrow>
               (case strip_choices (slice_list choices) remaining of
                  None \<Rightarrow> None
                | Some (cs, n) \<Rightarrow>
                    (case marshal_choices choices cs of
                       None \<Rightarrow> None
                     | Some encoded \<Rightarrow> map_option (\<lambda>t. (t, n)) (marshal_map (AList.update ''choices'' encoded root))))))"

record bufferedAttemptFrame =
  bf_event :: Event
  bf_observation :: chunkObservation

fun flush_frames ::
    "durableService \<Rightarrow> 'j Journal \<Rightarrow> (nat \<Rightarrow> journal_call) \<Rightarrow> bufferedAttemptFrame list \<Rightarrow> nat \<Rightarrow> 'j world \<Rightarrow> runtime_error option \<times> 'j world" where
  "flush_frames sv jn calls [] remaining w = (if remaining \<noteq> 0 then Some SeamExceeded else None, w)"
| "flush_frames sv jn calls (f # fs) remaining w =
     (case (if remaining \<noteq> 0
            then map_option (\<lambda>(d, n). ((bf_event f)\<lparr>ev_Data := Some d\<rparr>, n)) (rewriteLeadingAssistantText (nonNil (ev_Data (bf_event f))) remaining)
            else Some (bf_event f, remaining)) of
        None \<Rightarrow> (Some RewriteFailed, w)
      | Some (event, n) \<Rightarrow>
          (case observeOpenAIChunk (nonNil (ev_Data event)) of
             None \<Rightarrow> (Some RewriteFailed, w)
           | Some observation \<Rightarrow>
               (case appendChunk sv jn (calls 0) event observation w of
                  (Some x, w1) \<Rightarrow> (Some x, w1)
                | (None, w1) \<Rightarrow> flush_frames sv jn (\<lambda>k. calls (Suc k)) fs n w1)))"

definition flushSeam ::
    "(nat \<Rightarrow> bool) \<Rightarrow> durableService \<Rightarrow> 'j Journal \<Rightarrow> (nat \<Rightarrow> journal_call) \<Rightarrow> bytes \<Rightarrow> bufferedAttemptFrame list \<Rightarrow> bytes \<Rightarrow> 'j world
     \<Rightarrow> runtime_error option \<times> 'j world" where
  "flushSeam is_upper sv jn calls accumulated frames continuation w =
     (case ReconcileSeam is_upper accumulated continuation (po_SeamWindowBytes (rt_policy (w_rt w))) of
        Inl x \<Rightarrow> (Some (SeamFailed x), w)
      | Inr result \<Rightarrow>
          (case (if sr_Anomaly result then appendNonTerminalUntil sv jn 0 calls [warningEntry ''seam_anomaly'' (warningMessage ''seam_anomaly'') None] w
                 else (None, w)) of
             (Some x, w1) \<Rightarrow> (Some x, w1)
           | (None, w1) \<Rightarrow> flush_frames sv jn (\<lambda>k. calls (Suc k)) frames (sr_OverlapBytes result) w1))"

section \<open>Attempts\<close>

record attemptOutcome =
  ao_terminal :: bool
  ao_trigger :: bytes
  ao_deadline :: time
  ao_passive :: bool
  ao_rejection :: "(nat \<times> bytes) option"
  ao_err :: bool

definition outcome :: attemptOutcome where
  "outcome = \<lparr>ao_terminal = False, ao_trigger = [], ao_deadline = 0, ao_passive = False, ao_rejection = None, ao_err = False\<rparr>"

text \<open>The configuration an attempt reads, and the upstream's answer: its status, whether its media type is an event stream, and its body.\<close>

record attempt_config =
  ac_MaxSSEEventBytes :: int
  ac_isUpper :: "nat \<Rightarrow> bool"

record upstream_response =
  up_StatusCode :: nat
  up_EventStream :: bool
  up_ErrorBody :: bytes
  up_Body :: Decoder

text \<open>
  What surrounds an attempt: the journal calls of its parts, the upstream's answer (\<open>None\<close> when the exchange
  fails), and what the other goroutines do at its numbered points and before the \<open>k\<close>-th decoded event.
\<close>

record 'j attempt_env =
  at_request :: bool
  at_response :: "upstream_response option"
  at_calls :: "nat \<Rightarrow> nat \<Rightarrow> journal_call"
  at_interfere :: "nat \<Rightarrow> 'j world \<Rightarrow> 'j world"
  at_between :: "nat \<Rightarrow> 'j world \<Rightarrow> 'j world"

definition maxUpstreamErrorBytes :: nat where
  "maxUpstreamErrorBytes = 65536"

definition readBoundedErrorBody :: "bytes \<Rightarrow> bytes" where
  "readBoundedErrorBody body =
     (if length body > maxUpstreamErrorBytes then []
      else (case json_unmarshal (um_struct [''error''] (\<lambda>_. um_raw)) None body of
              None \<Rightarrow> []
            | Some raw \<Rightarrow> if nonNil raw = [] then [] else body))"

definition classifyReadFailure :: "sse_error \<Rightarrow> bytes" where
  "classifyReadFailure err = (case err of EndOfFile \<Rightarrow> ''unexpected_eof'' | ErrIncompleteEventAt _ \<Rightarrow> ''unexpected_eof'' | _ \<Rightarrow> ''tcp_reset'')"

definition outcomeForAttemptError ::
    "durableService \<Rightarrow> 'j Journal \<Rightarrow> journal_call \<Rightarrow> bytes \<Rightarrow> 'j world \<Rightarrow> attemptOutcome \<times> 'j world" where
  "outcomeForAttemptError sv jn call fallbackReason w =
     (if rt_cause (w_rt w) \<noteq> None then (outcome\<lparr>ao_terminal := True\<rparr>, finishCanceledProducer sv jn call w)
      else (case rt_attemptCause (w_rt w) of
              Some cause \<Rightarrow> (outcome\<lparr>ao_trigger := mc_reason cause, ao_deadline := mc_deadline cause, ao_passive := (mc_reason cause = ''stall'')\<rparr>, w)
            | None \<Rightarrow> (outcome\<lparr>ao_trigger := fallbackReason, ao_passive := True\<rparr>, w)))"

text \<open>\<open>finishError\<close> as the attempt uses it: the terminal outcome, or the error of closing the stream.\<close>

definition end_attempt ::
    "durableService \<Rightarrow> 'j Journal \<Rightarrow> journal_call \<Rightarrow> bytes \<Rightarrow> bytes \<Rightarrow> attemptOutcome \<Rightarrow> 'j world \<Rightarrow> attemptOutcome \<times> 'j world" where
  "end_attempt sv jn call message reason ended w =
     (case finishError sv jn call ''upstream_error'' message reason w of
        (Some _, w1) \<Rightarrow> (outcome\<lparr>ao_err := True\<rparr>, w1)
      | (None, w1) \<Rightarrow> (ended\<lparr>ao_terminal := True, ao_trigger := reason\<rparr>, w1))"

text \<open>\<open>flushContinuation\<close>: whether the attempt goes on, as one that is no continuation any more.\<close>

definition flushContinuation ::
    "attempt_config \<Rightarrow> durableService \<Rightarrow> 'j Journal \<Rightarrow> (nat \<Rightarrow> journal_call) \<Rightarrow> bool \<Rightarrow> bytes \<Rightarrow> bufferedAttemptFrame list \<Rightarrow> bytes \<Rightarrow> 'j world
     \<Rightarrow> bool \<times> 'j world" where
  "flushContinuation cfg sv jn calls continuation seamBase frames continuationText w =
     (if \<not> continuation \<or> frames = [] then (True, w)
      else (case flushSeam (ac_isUpper cfg) sv jn (\<lambda>k. calls (Suc k)) seamBase frames continuationText w of
              (None, w1) \<Rightarrow> (True, w1)
            | (Some _, w1) \<Rightarrow>
                (False, if rt_cause (w_rt w1) = None
                        then snd (finishError sv jn (calls 0) ''migration_refused'' ''continuation seam could not be reconciled'' ''unsupported_continuation_shape'' w1)
                        else w1)))"

definition unsupported_shape :: attemptOutcome where
  "unsupported_shape = outcome\<lparr>ao_terminal := True, ao_trigger := ''unsupported_continuation_shape''\<rparr>"

definition frame_cost :: "Event \<Rightarrow> chunkObservation \<Rightarrow> int" where
  "frame_cost event observation =
     int (length (nonNil (ev_Data event)) + length (ev_Type event) + length (ev_ID event) + length (ob_TextDelta observation)) + 256
     + sum_list (map (\<lambda>c. int (length c) + 16) (ev_Comments event))"

text \<open>
  What the loop of an attempt keeps: whether it still buffers a continuation, the frames and the text it holds,
  and the size counted against the limit.
\<close>

record seam_buffer =
  sb_continuation :: bool
  sb_frames :: "bufferedAttemptFrame list"
  sb_text :: bytes
  sb_bytes :: int

definition flushed_buffer :: "seam_buffer \<Rightarrow> seam_buffer" where
  "flushed_buffer b = (if \<not> sb_continuation b \<or> sb_frames b = [] then b else b\<lparr>sb_continuation := False, sb_frames := [], sb_text := []\<rparr>)"

text \<open>One decoded event: the attempt ends (\<open>Inl\<close>) or goes on with the buffer (\<open>Inr\<close>).\<close>

definition attempt_event ::
    "attempt_config \<Rightarrow> durableService \<Rightarrow> 'j Journal \<Rightarrow> (nat \<Rightarrow> journal_call) \<Rightarrow> bytes \<Rightarrow> Event \<Rightarrow> seam_buffer \<Rightarrow> 'j world
     \<Rightarrow> (attemptOutcome + seam_buffer) \<times> 'j world" where
  "attempt_event cfg sv jn calls seamBase event b w =
     (let flush = (\<lambda>b k. case flushContinuation cfg sv jn (\<lambda>n. calls (Suc n)) (sb_continuation b) seamBase (sb_frames b) (sb_text b) w of
                     (False, w1) \<Rightarrow> (Inl unsupported_shape, w1)
                   | (True, w1) \<Rightarrow> k w1) in
      if \<not> ev_HasData event then (Inr b, w)
      else if trim_space (nonNil (ev_Data event)) = doneSentinelData
      then flush b (\<lambda>w1. case finishDoneUntil sv jn (calls 0) 0 [] w1 of
                         (Some _, w2) \<Rightarrow> (Inl (outcome\<lparr>ao_err := True\<rparr>), w2)
                       | (None, w2) \<Rightarrow> (Inl (outcome\<lparr>ao_terminal := True\<rparr>), w2))
      else
        (case observeOpenAIChunk (nonNil (ev_Data event)) of
           None \<Rightarrow> flush b (\<lambda>w1. apfst Inl (end_attempt sv jn (calls 0) ''upstream emitted an invalid chunk'' ''invalid_chunk'' outcome w1))
         | Some observation \<Rightarrow>
             if ob_ErrorPayload observation \<noteq> []
             then flush b (\<lambda>w1. (Inl (outcome\<lparr>ao_trigger := ''error_chunk'', ao_passive := True\<rparr>), w1))
             else if sb_continuation b
             then
               (let b1 = b\<lparr>sb_frames := sb_frames b @ [\<lparr>bf_event = event, bf_observation = observation\<rparr>], sb_text := sb_text b @ ob_TextDelta observation\<rparr> in
                if int (length (sb_text b1)) < po_SeamWindowBytes (rt_policy (w_rt w))
                then
                  (let b2 = b1\<lparr>sb_bytes := sb_bytes b1 + frame_cost event observation\<rparr> in
                   if sb_bytes b2 > max (ac_MaxSSEEventBytes cfg) (po_SeamWindowBytes (rt_policy (w_rt w)))
                   then (Inl unsupported_shape,
                         snd (finishError sv jn (calls 0) ''migration_refused'' ''continuation seam buffer exceeded its limit'' ''unsupported_continuation_shape''
                           (snd (appendNonTerminalUntil sv jn 0 (\<lambda>n. calls (Suc n))
                              [warningEntry ''unsupported_continuation_shape''
                                 ''continuation exceeded the seam buffering limit before producing enough text'' None] w))))
                   else (Inr b2, w))
                else flush b1 (\<lambda>w1. (Inr (flushed_buffer b1), w1)))
             else
               (case appendChunk sv jn (calls 1) event observation w of
                  (None, w1) \<Rightarrow> (Inr b, w1)
                | (Some _, w1) \<Rightarrow>
                    (Inl (outcome\<lparr>ao_terminal := True, ao_trigger := ''journal_capacity''\<rparr>),
                     if rt_cause (w_rt w1) = None
                     then snd (finishError sv jn (calls 0) ''journal_capacity_exceeded'' ''durable journal could not accept a chunk'' ''journal_capacity'' w1)
                     else w1))))"

text \<open>The loop over the events of the body. Every event takes input, so the loop ends.\<close>

function attempt_loop ::
    "attempt_config \<Rightarrow> durableService \<Rightarrow> 'j Journal \<Rightarrow> 'j attempt_env \<Rightarrow> bytes \<Rightarrow> nat \<Rightarrow> Decoder \<Rightarrow> seam_buffer \<Rightarrow> 'j world
     \<Rightarrow> attemptOutcome \<times> 'j world" where
  "attempt_loop cfg sv jn env seamBase k decoder b w0 =
     (let w = at_between env k w0; calls = at_calls env (Suc k) in
      case Decode decoder of
        (Inl err, _) \<Rightarrow>
          (if rt_cause (w_rt w) \<noteq> None then outcomeForAttemptError sv jn (calls 0) (classifyReadFailure err) w
           else (case flushContinuation cfg sv jn (\<lambda>n. calls (Suc n)) (sb_continuation b) seamBase (sb_frames b) (sb_text b) w of
                   (False, w1) \<Rightarrow> (unsupported_shape, w1)
                 | (True, w1) \<Rightarrow> outcomeForAttemptError sv jn (calls 0) (classifyReadFailure err) w1))
      | (Inr event, decoder') \<Rightarrow>
          (case attempt_event cfg sv jn calls seamBase event b w of
             (Inl ended, w1) \<Rightarrow> (ended, w1)
           | (Inr b', w1) \<Rightarrow> attempt_loop cfg sv jn env seamBase (Suc k) decoder' b' w1))"
  by pat_completeness auto


lemma Decode_shrinks: "Decode d = (Inr event, d') \<Longrightarrow> length (d_input d') < length (d_input d)"
proof (induction d arbitrary: event d' rule: Decode.induct)
  case (1 d)
  obtain r d1 where r: "readLine d = (r, d1)" by fastforce
  show ?case
  proof (cases r)
    case (Inl x)
    then show ?thesis using "1.prems" r by (simp add: Decode.simps [of d])
  next
    case (Inr line)
    have l: "length (d_input d1) < length (d_input d)" using readLine_shrinks r Inr by simp
    show ?thesis
    proof (cases "length line = 0")
      case True
      obtain event' ok d2 where f: "finishFrame d1 = ((event', ok), d2)" by (metis prod.exhaust)
      have d2: "d_input d2 = d_input d1" using finishFrame_input [of d1] f by simp
      show ?thesis
      proof (cases ok)
        case True
        then show ?thesis using "1.prems" r Inr \<open>length line = 0\<close> f d2 l by (simp add: Decode.simps [of d])
      next
        case False
        then have "Decode d2 = (Inr event, d')" using "1.prems" r Inr True f by (simp add: Decode.simps [of d])
        from "1.IH"(1) [OF r [symmetric] Inr True f [symmetric] refl False this] show ?thesis using d2 l by simp
      qed
    next
      case False
      then have "Decode (consumeLine (d1\<lparr>d_blockStarted := True\<rparr>) line) = (Inr event, d')"
        using "1.prems" r Inr by (simp add: Decode.simps [of d])
      from "1.IH"(2) [OF r [symmetric] Inr False this] show ?thesis using l by (simp add: consumeLine_input)
    qed
  qed
qed

termination attempt_loop
  by (relation "measure (\<lambda>(cfg, sv, jn, env, seamBase, k, decoder, b, w). length (d_input decoder))")
     (auto dest: Decode_shrinks [OF sym])

declare attempt_loop.simps [simp del]

text \<open>The critical section that starts an attempt and takes over a trigger that came while there was none to cancel.\<close>

definition attempt_begin :: "'j world \<Rightarrow> 'j world" where
  "attempt_begin =
     upd_rt (\<lambda>rt. rt\<lparr>rt_attemptCancel := True,
       rt_attemptCause := (if rt_pendingTrigger rt \<noteq> [] then Some \<lparr>mc_reason = rt_pendingTrigger rt, mc_deadline = rt_pendingDeadline rt\<rparr> else None),
       rt_pendingTrigger := [], rt_pendingDeadline := 0, rt_pendingFallback := False\<rparr>)"

definition runAttempt ::
    "attempt_config \<Rightarrow> durableService \<Rightarrow> 'j Journal \<Rightarrow> 'j attempt_env \<Rightarrow> attemptSpec \<Rightarrow> 'j world \<Rightarrow> attemptOutcome \<times> 'j world" where
  "runAttempt cfg sv jn env spec w0 =
     (let w = attempt_begin w0; calls = at_calls env 0 in
      if rt_cause (w_rt w) \<noteq> None \<or> rt_attemptCause (w_rt w) \<noteq> None then outcomeForAttemptError sv jn (calls 0) ''tcp_reset'' w
      else if \<not> at_request env then (outcome\<lparr>ao_err := True\<rparr>, w)
      else
        (case (if as_continuation spec then markAttemptDispatched (at_interfere env 0 w) else (True, at_interfere env 0 w)) of
           (False, w1) \<Rightarrow> (outcome\<lparr>ao_terminal := True\<rparr>, w1)
         | (True, w1) \<Rightarrow>
             (case (if as_continuation spec then commitDispatchedAttempt sv jn (\<lambda>k. calls (Suc k)) spec (at_interfere env 1 w1)
                    else (None, at_interfere env 1 w1)) of
                (Some _, w2) \<Rightarrow>
                  (outcome\<lparr>ao_terminal := True, ao_trigger := ''journal_capacity''\<rparr>,
                   if rt_cause (w_rt w2) = None
                   then snd (finishError sv jn (calls 0) ''journal_capacity_exceeded'' ''durable journal could not record migration'' ''journal_capacity'' w2)
                   else w2)
              | (None, w2) \<Rightarrow>
                  (case at_response env of
                     None \<Rightarrow> outcomeForAttemptError sv jn (calls 0) ''tcp_reset'' w2
                   | Some response \<Rightarrow>
                       if 400 \<le> up_StatusCode response \<and> up_StatusCode response < 500
                       then end_attempt sv jn (calls 0)
                              (if as_continuation spec then ''continuation request was rejected'' else ''upstream rejected the request'')
                              ''upstream_rejected''
                              (if as_continuation spec then outcome
                               else outcome\<lparr>ao_rejection := Some (up_StatusCode response, readBoundedErrorBody (up_ErrorBody response))\<rparr>) w2
                       else if up_StatusCode response < 200 \<or> 300 \<le> up_StatusCode response
                       then (outcome\<lparr>ao_trigger := ''upstream_5xx'', ao_passive := True\<rparr>, w2)
                       else if \<not> up_EventStream response
                       then end_attempt sv jn (calls 0) ''upstream response was not an event stream'' ''invalid_content_type'' outcome w2
                       else (case WithMaxEventBytes (ac_MaxSSEEventBytes cfg) (up_Body response) of
                               None \<Rightarrow> (outcome\<lparr>ao_err := True\<rparr>, w2)
                             | Some decoder \<Rightarrow>
                                 attempt_loop cfg sv jn env (as_seamBase spec) 0 decoder
                                   \<lparr>sb_continuation = as_continuation spec, sb_frames = [], sb_text = [], sb_bytes = 0\<rparr> w2)))))"

section \<open>The producer\<close>

text \<open>
  \<open>runProducer\<close> with the surroundings of its attempts and of the decisions between them; \<open>None\<close> when they do not
  reach its end. The result is the rejection or the error it hands to the caller that started the stream.
\<close>

datatype producer_result = Finished | Rejected nat bytes | Failed

fun run_producer ::
    "attempt_config \<Rightarrow> durableService \<Rightarrow> 'j Journal \<Rightarrow> routeBackendRegistry option \<Rightarrow> ('j attempt_env \<times> 'j migration_env \<times> journal_call) list
     \<Rightarrow> attemptSpec \<Rightarrow> 'j world \<Rightarrow> (producer_result \<times> 'j world) option" where
  "run_producer cfg sv jn routes [] spec w = None"
| "run_producer cfg sv jn routes ((aenv, menv, call) # envs) spec w =
     (case runAttempt cfg sv jn aenv spec w of
        (out, w1) \<Rightarrow>
          if ao_err out
          then Some (Failed, snd (finishError sv jn call ''upstream_error'' ''the upstream producer failed before the stream could continue'' ''producer_failure'' w1))
          else
            (case ao_rejection out of
               Some (status, body) \<Rightarrow> Some (Rejected status body, w1)
             | None \<Rightarrow>
                 if ao_terminal out then Some (Finished, w1)
                 else (case prepareMigration sv jn routes menv (ao_trigger out) (ao_passive out) (ao_deadline out) w1 of
                         None \<Rightarrow> None
                       | Some (None, w2) \<Rightarrow> Some (Finished, w2)
                       | Some (Some spec', w2) \<Rightarrow> run_producer cfg sv jn routes envs spec' w2)))"

definition runProducer ::
    "attempt_config \<Rightarrow> durableService \<Rightarrow> 'j Journal \<Rightarrow> routeBackendRegistry option \<Rightarrow> ('j attempt_env \<times> 'j migration_env \<times> journal_call) list
     \<Rightarrow> 'j world \<Rightarrow> (producer_result \<times> 'j world) option" where
  "runProducer cfg sv jn routes envs w = run_producer cfg sv jn routes envs (first_spec (rt_requestBody (w_rt w))) w"

section \<open>Triggers from outside\<close>

text \<open>
  \<open>closeExternalMigrationRefusal\<close> marks the stream as terminating under \<open>mu\<close> alone, before it waits for \<open>writeMu\<close>;
  the rest is a second critical section, in which a failure takes the mark back.
\<close>

definition refusal_begin :: "backend_id \<Rightarrow> 'j world \<Rightarrow> bool \<times> 'j world" where
  "refusal_begin i w =
     (if rt_ended (w_rt w) \<or> b_ID (bst_Backend (rt_currentBackend (w_rt w))) \<noteq> i then (False, w)
      else (True, upd_rt (\<lambda>rt. rt\<lparr>rt_terminating := True\<rparr>) w))"

text \<open>The warnings are appended and relayed one by one; \<open>None\<close> when a call fails.\<close>

fun refusal_warnings ::
    "durableService \<Rightarrow> 'j Journal \<Rightarrow> time \<Rightarrow> (nat \<Rightarrow> journal_call) \<Rightarrow> Entry list \<Rightarrow> 'j world \<Rightarrow> Entry list option \<times> 'j world" where
  "refusal_warnings sv jn deadline calls [] w = (Some [], w)"
| "refusal_warnings sv jn deadline calls (e # es) w =
     (case jn_Append jn (journalMutationContextUntil sv (calls 0) deadline) (rt_id (w_rt w)) e (cl_commit (calls 0)) (w_journal w) of
        (Inl _, j) \<Rightarrow> (None, w\<lparr>w_journal := j\<rparr>)
      | (Inr seq, j) \<Rightarrow>
          (let committed = e\<lparr>e_Seq := seq\<rparr>; w1 = upd_rt (\<lambda>rt. rt\<lparr>rt_lastSeq := seq\<rparr>) (w\<lparr>w_journal := j\<rparr>) in
           case relay_committed (rt_context (w_rt w1)) committed w1 of
             (Some _, w2) \<Rightarrow> (None, w2)
           | (None, w2) \<Rightarrow> apfst (map_option ((#) committed)) (refusal_warnings sv jn deadline (\<lambda>k. calls (Suc k)) es w2)))"

definition refusal_commit ::
    "durableService \<Rightarrow> 'j Journal \<Rightarrow> (nat \<Rightarrow> journal_call) \<Rightarrow> Entry list \<Rightarrow> bytes \<Rightarrow> bool \<Rightarrow> time \<Rightarrow> 'j world \<Rightarrow> bool \<times> 'j world" where
  "refusal_commit sv jn calls warnings reason estimateWarning deadline w =
     (case refusal_warnings sv jn deadline (\<lambda>k. calls (Suc k)) warnings w of
        (None, w1) \<Rightarrow> (False, failTerminalTransition w1)
      | (Some relayed, w1) \<Rightarrow>
          (let payload = error_payload ''migration_refused'' ''continuation is not safe'' reason (snd (progress_Snapshot (rt_progress (w_rt w1)))) in
           case jn_Close jn (boundedContext (cl_now (calls 0)) (cl_polls (calls 0)) (sv_ReadinessTimeout sv) deadline) (rt_id (w_rt w1))
                  (new_entry KindError payload) (cl_commit (calls 0)) (w_journal w1) of
             (Some _, j) \<Rightarrow> (False, failTerminalTransition (w1\<lparr>w_journal := j\<rparr>))
           | (None, j) \<Rightarrow>
               (let seq = rt_lastSeq (w_rt w1) + 1;
                    terminalEntry = (new_entry KindError payload)\<lparr>e_Seq := seq\<rparr>;
                    lease = rt_currentLease (w_rt w1);
                    w2 = upd_rt (\<lambda>rt. rt\<lparr>rt_lastSeq := seq, rt_terminal := KindError, rt_terminating := False, rt_currentLease := None,
                           rt_estimateWarned := (estimateWarning \<or> rt_estimateWarned rt), rt_orphanTimer := None, rt_done := Suc (rt_done rt)\<rparr>)
                         (w1\<lparr>w_journal := j\<rparr>);
                    w3 = relay_close (snd (relay_committed (sv_rootContext sv) terminalEntry w2));
                    w4 = release_lease lease (upd_rt (rt_cancel reason) w3) in
                (True, fold publishFirst (relayed @ [terminalEntry]) w4))))"

text \<open>The decision of \<open>refuseExternalTriggerIfIneligible\<close>: the refusal it has to make, if any.\<close>

definition external_refusal ::
    "routeBackendRegistry option \<Rightarrow> acquire_env \<Rightarrow> time \<Rightarrow> backend_id \<Rightarrow> bool \<Rightarrow> 'j world \<Rightarrow> (Predicate list \<times> CorrectnessFailure list \<times> bool) option \<times> 'j world" where
  "external_refusal routes env now i deferUnavailable w =
     (let rt = w_rt w; v = view_runtime rt; failed = bst_Backend (rt_currentBackend rt) in
      if rt_ended rt \<or> b_ID failed \<noteq> i then (None, w)
      else if completedGenerationReason (rt_finishReason rt) (mv_usage v) (mv_correctness v) (rewrite_error v) \<noteq> None then (None, w)
      else
        (case acquireBackend routes env (rt_id rt) (rt_model rt) [b_ID failed] (w_pool w) of
           (r, p) \<Rightarrow>
             (let target = (case r of Inl _ \<Rightarrow> failed | Inr l \<Rightarrow> bst_Backend (le_backend l));
                  w1 = w\<lparr>w_pool := (case r of Inl _ \<Rightarrow> p | Inr l \<Rightarrow> snd (lease_Release l p))\<rparr> in
              case EvaluateEligibility (migrate_policy (rt_policy rt))
                     (eligibility_snapshot rt v now (b_TemplateVerdict target) (b_ModelVersion (bst_Backend (rt_originBackend rt)))
                        (b_ModelVersion target) (case r of Inl _ \<Rightarrow> False | Inr _ \<Rightarrow> True)) of
                Inl _ \<Rightarrow> (None, w1)
              | Inr eligibility \<Rightarrow>
                  if deferUnavailable \<and> r = Inl PoolNoEligibleBackend \<and> mv_correctness v = [] \<and> er_Failures eligibility = [PredicateBackendAvailable]
                  then (None, w1)
                  else if er_Eligible eligibility \<and> mv_correctness v = [] then (None, w1)
                  else (Some (er_Failures eligibility, mv_correctness v, mv_estimateWarning v), w1))))"

text \<open>The surroundings of an external trigger: its clock, journal calls and what happens between its critical sections.\<close>

record 'j trigger_env =
  te_acquire :: acquire_env
  te_now :: time
  te_calls :: "nat \<Rightarrow> journal_call"
  te_interfere :: "nat \<Rightarrow> 'j world \<Rightarrow> 'j world"

definition closeExternalMigrationRefusal ::
    "durableService \<Rightarrow> 'j Journal \<Rightarrow> 'j trigger_env \<Rightarrow> backend_id \<Rightarrow> Entry list \<Rightarrow> bytes \<Rightarrow> bool \<Rightarrow> time \<Rightarrow> 'j world \<Rightarrow> bool \<times> 'j world" where
  "closeExternalMigrationRefusal sv jn env i warnings reason estimateWarning deadline w =
     (case refusal_begin i w of
        (False, w1) \<Rightarrow> (False, w1)
      | (True, w1) \<Rightarrow> refusal_commit sv jn (te_calls env) warnings reason estimateWarning deadline (te_interfere env 1 w1))"

definition refuseExternalTriggerIfIneligible ::
    "durableService \<Rightarrow> 'j Journal \<Rightarrow> routeBackendRegistry option \<Rightarrow> 'j trigger_env \<Rightarrow> backend_id \<Rightarrow> bool \<Rightarrow> time \<Rightarrow> 'j world \<Rightarrow> bool \<times> 'j world" where
  "refuseExternalTriggerIfIneligible sv jn routes env i deferUnavailable deadline w =
     (case external_refusal routes (te_acquire env) (te_now env) i deferUnavailable w of
        (None, w1) \<Rightarrow> (False, w1)
      | (Some (predicates, correctness, estimateWarning), w1) \<Rightarrow>
          (case buildRefusalEntries estimateWarning predicates correctness of
             (entries, reason) \<Rightarrow> closeExternalMigrationRefusal sv jn env i entries reason estimateWarning deadline (te_interfere env 0 w1)))"

text \<open>The last section of \<open>triggerMigrationUntil\<close>: the running attempt is cancelled, or the trigger left for the next.\<close>

definition trigger_attempt :: "bytes \<Rightarrow> backend_id \<Rightarrow> time \<Rightarrow> 'j world \<Rightarrow> bool \<times> 'j world" where
  "trigger_attempt reason i deadline w =
     (let rt = w_rt w in
      if rt_ended rt \<or> b_ID (bst_Backend (rt_currentBackend rt)) \<noteq> i then (False, w)
      else if \<not> rt_attemptCancel rt then (True, upd_rt (mergePendingTriggerLocked reason deadline False) w)
      else (True, upd_rt (\<lambda>rt. case rt_attemptCause rt of
                            None \<Rightarrow> rt\<lparr>rt_attemptCause := Some \<lparr>mc_reason = reason, mc_deadline = deadline\<rparr>\<rparr>
                          | Some _ \<Rightarrow> rt) w))"

definition triggerMigrationUntil ::
    "durableService \<Rightarrow> 'j Journal \<Rightarrow> routeBackendRegistry option \<Rightarrow> 'j trigger_env \<Rightarrow> bytes \<Rightarrow> backend_id \<Rightarrow> time \<Rightarrow> 'j world \<Rightarrow> bool \<times> 'j world" where
  "triggerMigrationUntil sv jn routes env reason i deadline w =
     (case (if reason = ''drain'' \<or> reason = ''health''
            then refuseExternalTriggerIfIneligible sv jn routes env i (reason = ''drain'') deadline w else (False, w)) of
        (True, w1) \<Rightarrow> (True, w1)
      | (False, w1) \<Rightarrow> trigger_attempt reason i deadline (te_interfere env 2 w1))"

end
