(* ===== verification/Runtime_Invariant.thy ===== *)
theory Runtime_Invariant
  imports Producer
begin

text \<open>
  All interleavings of the critical sections of one stream, whoever runs them: the producer, stops, orphan checks,
  readers, and triggers from outside, together with the other users of the journal and of the pool. The invariant
  relates the runtime to the journal's log and to what was relayed. It is proved over a journal of which only the
  two laws of the locale \<open>journal_contract\<close> are known, and the memory journal is shown to obey them.
\<close>

section \<open>Steps\<close>

inductive feed_client :: "degradedFeed \<Rightarrow> degradedFeed \<Rightarrow> bool" for feed where
  client_subscribe: "feed_subscribe required feed = (r, feed') \<Longrightarrow> feed_client feed feed'"
| client_acknowledge: "feed_client feed (feed_acknowledge i seq feed)"
| client_next: "feed_next i feed = (r, feed') \<Longrightarrow> feed_client feed feed'"
| client_unsubscribe: "feed_client feed (feed_unsubscribe i feed)"

text \<open>The entries the runtime builds carry no time and no error.\<close>

definition fresh_entry :: "Entry \<Rightarrow> bool" where
  "fresh_entry e \<longleftrightarrow> e_TS e = 0 \<and> e_Err e = None"

text \<open>
  Two kinds of sections are marked as hazards, so that statements can leave them out: refusals from outside and the
  shutdown of the proxy, which cancels the producer's context.
\<close>

datatype hazard = Refusal | Shutdown

inductive rt_section ::
    "hazard set \<Rightarrow> durableService \<Rightarrow> 'j Journal \<Rightarrow> ('j \<Rightarrow> bool) \<Rightarrow> ('j \<Rightarrow> StreamID \<Rightarrow> Entry list) \<Rightarrow> 'j world \<Rightarrow> 'j world \<Rightarrow> bool"
  for H sv jn jinv jlog w where
  tools: "rt_section H sv jn jinv jlog w (upd_rt (track_tools event) w)"
| chunk: "appendChunk sv jn call event ob w = (r, w') \<Longrightarrow> rt_section H sv jn jinv jlog w w'"
| entries: "list_all fresh_entry es \<Longrightarrow> appendNonTerminalUntil sv jn deadline calls es w = (r, w') \<Longrightarrow> rt_section H sv jn jinv jlog w w'"
| finish_done: "finishDoneUntil sv jn call deadline fallback w = (r, w') \<Longrightarrow> rt_section H sv jn jinv jlog w w'"
| finish_error: "closeTerminalUntil sv jn call KindError cause guard deadline (build_error code message reason) w = (r, w') \<Longrightarrow>
    rt_section H sv jn jinv jlog w w'"
| stop_claim: "stop_begin w = (r, w') \<Longrightarrow> rt_section H sv jn jinv jlog w w'"
| stop_run: "stop_close sv jn call w = (r, w') \<Longrightarrow> rt_section H sv jn jinv jlog w w'"
| attach: "attachReader w = (r, w') \<Longrightarrow> rt_section H sv jn jinv jlog w w'"
| detach: "detachReader w = (r, w') \<Longrightarrow> rt_section H sv jn jinv jlog w w'"
| schedule: "rt_section H sv jn jinv jlog w (scheduleOrphanCheck delay w)"
| claim: "orphan_claim answer w = (r, w') \<Longrightarrow> rt_section H sv jn jinv jlog w w'"
| count: "orphan_count n w = (r, w') \<Longrightarrow> rt_section H sv jn jinv jlog w w'"
| settle: "orphan_settle claimID w = (r, w') \<Longrightarrow> rt_section H sv jn jinv jlog w w'"
| attempt: "rt_section H sv jn jinv jlog w (attempt_begin w)"
| stall: "rt_attemptCause (w_rt w) = None \<Longrightarrow>
    rt_section H sv jn jinv jlog w (upd_rt (\<lambda>rt. rt\<lparr>rt_attemptCause := Some \<lparr>mc_reason = ''stall'', mc_deadline = 0\<rparr>\<rparr>) w)"
| warned: "rt_section H sv jn jinv jlog w (upd_rt (\<lambda>rt. rt\<lparr>rt_estimateWarned := True\<rparr>) w)"
| exchange: "reserve_exchange failedLease targetLease target w = (r, w') \<Longrightarrow> rt_section H sv jn jinv jlog w w'"
| pend: "rt_section H sv jn jinv jlog w (reserve_pending reason targetLease now w)"
| trigger: "trigger_attempt reason i deadline w = (r, w') \<Longrightarrow> rt_section H sv jn jinv jlog w w'"
| refuse_begin: "Refusal \<in> H \<Longrightarrow> refusal_begin i w = (r, w') \<Longrightarrow> rt_section H sv jn jinv jlog w w'"
| refuse_commit: "Refusal \<in> H \<Longrightarrow> rt_terminating (w_rt w) \<Longrightarrow> list_all fresh_entry es \<Longrightarrow>
    refusal_commit sv jn calls es reason est deadline w = (r, w') \<Longrightarrow> rt_section H sv jn jinv jlog w w'"
| readers: "feed_client (rt_degradedFeed (w_rt w)) feed \<Longrightarrow> rt_section H sv jn jinv jlog w (upd_rt (\<lambda>rt. rt\<lparr>rt_degradedFeed := feed\<rparr>) w)"
| pool: "rt_section H sv jn jinv jlog w (w\<lparr>w_pool := p\<rparr>)"
| shutdown: "Shutdown \<in> H \<Longrightarrow> rt_section H sv jn jinv jlog w (upd_rt (rt_cancel ''context canceled'') w)"
| journal: "jinv j \<Longrightarrow> jlog j (rt_id (w_rt w)) = jlog (w_journal w) (rt_id (w_rt w)) \<Longrightarrow> rt_section H sv jn jinv jlog w (w\<lparr>w_journal := j\<rparr>)"

text \<open>Only the producer dispatches a continuation.\<close>

inductive rt_step :: "durableService \<Rightarrow> 'j Journal \<Rightarrow> ('j \<Rightarrow> bool) \<Rightarrow> ('j \<Rightarrow> StreamID \<Rightarrow> Entry list) \<Rightarrow> 'j world \<Rightarrow> 'j world \<Rightarrow> bool"
  for sv jn jinv jlog w where
  section_step: "rt_section UNIV sv jn jinv jlog w w' \<Longrightarrow> rt_step sv jn jinv jlog w w'"
| dispatch: "markAttemptDispatched w = (r, w') \<Longrightarrow> rt_step sv jn jinv jlog w w'"

text \<open>The world right after \<open>resolve\<close> opened the stream.\<close>

definition rt_start :: "durableService \<Rightarrow> ('j \<Rightarrow> bool) \<Rightarrow> ('j \<Rightarrow> StreamID \<Rightarrow> Entry list) \<Rightarrow> 'j world \<Rightarrow> bool" where
  "rt_start sv jinv jlog w \<longleftrightarrow>
     (\<exists>sid normalized policy endpoint lease now. w_rt w = newRuntime sv sid normalized policy endpoint lease now
        \<and> jinv (w_journal w) \<and> length (jlog (w_journal w) sid) = 1 \<and> w_sent w = [])"

inductive rt_run :: "durableService \<Rightarrow> 'j Journal \<Rightarrow> ('j \<Rightarrow> bool) \<Rightarrow> ('j \<Rightarrow> StreamID \<Rightarrow> Entry list) \<Rightarrow> 'j world \<Rightarrow> bool"
  for sv jn jinv jlog where
  run_start: "rt_start sv jinv jlog w \<Longrightarrow> rt_run sv jn jinv jlog w"
| run_step: "rt_run sv jn jinv jlog w \<Longrightarrow> rt_step sv jn jinv jlog w w' \<Longrightarrow> rt_run sv jn jinv jlog w'"

section \<open>The invariant\<close>

text \<open>An entry as it is relayed: with its number and without the time the journal stamped it with.\<close>

definition untimed :: "Entry \<Rightarrow> Entry" where
  "untimed e = e\<lparr>e_TS := 0\<rparr>"

abbreviation sequenced :: "degradedFrame \<Rightarrow> bool" where
  "sequenced f \<equiv> df_entry f \<noteq> None"

definition relayed :: "Entry list \<Rightarrow> degradedFrame list \<Rightarrow> bool" where
  "relayed es sent \<longleftrightarrow> filter sequenced sent = map (committed_frame \<circ> untimed) es"

text \<open>The first frame without a number is the warning, right after the frames of the first \<open>boundary\<close> entries (the open entry is not relayed).\<close>

definition warned_at :: "degradedFrame list \<Rightarrow> nat \<Rightarrow> bool" where
  "warned_at sent boundary \<longleftrightarrow>
     (\<exists>pre post. sent = pre @ degradedWarningFrame # post \<and> list_all sequenced pre \<and> Suc (length pre) = boundary)"

lemma warned_at_append: "warned_at sent boundary \<Longrightarrow> warned_at (sent @ fs) boundary"
  unfolding warned_at_def by (metis append_Cons append_assoc)

definition rt_ok :: "streamRuntime \<Rightarrow> Entry list \<Rightarrow> degradedFrame list \<Rightarrow> bool" where
  "rt_ok rt es sent \<longleftrightarrow>
     es \<noteq> [] \<and> rt_lastSeq rt = length es \<and> relayed (tl es) sent
   \<and> fd_active (rt_degradedFeed rt) = rt_degraded rt \<and> fd_closed (rt_degradedFeed rt) = (rt_terminal rt \<noteq> [])
   \<and> (rt_degraded rt \<longrightarrow> warned_at sent (fd_boundary (rt_degradedFeed rt)))
   \<and> (\<not> rt_degraded rt \<longrightarrow> list_all sequenced sent \<and> (rt_terminal rt \<noteq> [] \<longrightarrow> e_Kind (last es) = rt_terminal rt))
   \<and> rt_done rt = (if rt_terminal rt = [] then 0 else 1) \<and> (rt_currentLease rt = None) = (rt_terminal rt \<noteq> [])
   \<and> (rt_terminal rt \<noteq> [] \<longrightarrow> kind_terminal (rt_terminal rt) \<and> \<not> rt_terminating rt)"

text \<open>What the invariant reads of a runtime.\<close>

definition rt_core :: "streamRuntime \<Rightarrow> _" where
  "rt_core rt = (rt_lastSeq rt, fd_active (rt_degradedFeed rt), fd_closed (rt_degradedFeed rt), fd_boundary (rt_degradedFeed rt), rt_degraded rt,
     rt_terminal rt, rt_done rt, rt_currentLease rt = None)"

lemma rt_ok_core:
  assumes "rt_ok rt es sent" and "rt_core rt' = rt_core rt" and "rt_terminal rt \<noteq> [] \<Longrightarrow> \<not> rt_terminating rt'"
  shows "rt_ok rt' es sent"
  using assms by (simp add: rt_ok_def rt_core_def)

section \<open>Relaying keeps the feed's flags\<close>

definition feed_flags :: "degradedFeed \<Rightarrow> bool \<times> bool \<times> uint64" where
  "feed_flags feed = (fd_active feed, fd_closed feed, fd_boundary feed)"

lemma upd_sub_flags [simp]: "feed_flags (upd_sub i f feed) = feed_flags feed"
  by (simp add: feed_flags_def upd_sub_def split: option.split)

lemma enqueueSecondary_flags [simp]: "feed_flags (enqueueSecondary i frame feed) = feed_flags feed"
  by (simp add: enqueueSecondary_def)

lemma fold_enqueue_flags [simp]: "feed_flags (fold (\<lambda>i. enqueueSecondary i frame) is feed) = feed_flags feed"
  by (induction "is" arbitrary: feed) simp_all

lemma broadcast_flags: "broadcast ctx frame feed = (x, feed') \<Longrightarrow> feed_flags feed' = feed_flags feed"
  by (auto simp: broadcast_def split: if_splits)

lemma broadcast_all_flags: "broadcast_all ctx frames feed = (x, feed') \<Longrightarrow> feed_flags feed' = feed_flags feed"
  by (induction ctx frames feed arbitrary: x feed' rule: broadcast_all.induct)
     (auto split: prod.splits option.splits dest: broadcast_flags)

lemma feed_client_flags: "feed_client feed feed' \<Longrightarrow> feed_flags feed' = feed_flags feed"
  by (induction rule: feed_client.induct)
     (auto simp: feed_subscribe_def feed_acknowledge_def feed_next_def feed_unsubscribe_def feed_flags_def upd_sub_def Let_def
       split: if_splits option.splits list.splits)

lemma broadcast_live [simp]: "ctx \<noteq> NilContext \<Longrightarrow> fst (broadcast ctx frame feed) = None"
  by (simp add: broadcast_def)

lemma relay_committed_effect:
  assumes "relay_committed ctx entry w = (x, w')"
  obtains feed where "feed_flags feed = feed_flags (rt_degradedFeed (w_rt w))"
    and "w' = (upd_rt (\<lambda>rt. rt\<lparr>rt_degradedFeed := feed\<rparr>) w)\<lparr>w_sent := w_sent w @ [committed_frame entry]\<rparr>"
proof -
  obtain y feed where b: "broadcast ctx (committed_frame entry) (rt_degradedFeed (w_rt w)) = (y, feed)" by fastforce
  show thesis by (rule that [OF broadcast_flags [OF b]]) (use assms b in \<open>simp add: relay_committed_def publishCommitted_def\<close>)
qed

lemma relay_append_effect:
  assumes "relay_append ctx frames w = (x, w')" and "fd_active (rt_degradedFeed (w_rt w))" and "\<not> fd_closed (rt_degradedFeed (w_rt w))"
  obtains feed where "feed_flags feed = feed_flags (rt_degradedFeed (w_rt w))"
    and "w' = (upd_rt (\<lambda>rt. rt\<lparr>rt_degradedFeed := feed\<rparr>) w)\<lparr>w_sent := w_sent w @ frames\<rparr>"
proof -
  obtain y feed where b: "broadcast_all ctx frames (rt_degradedFeed (w_rt w)) = (y, feed)" by fastforce
  show thesis by (rule that [OF broadcast_all_flags [OF b]]) (use assms b in \<open>simp add: relay_append_def feed_append_def\<close>)
qed

lemma relay_activate_effect:
  assumes "relay_activate ctx boundary frames w = (x, w')" and "\<not> fd_active (rt_degradedFeed (w_rt w))" and "\<not> fd_closed (rt_degradedFeed (w_rt w))"
  obtains feed where "feed_flags feed = (True, False, boundary)"
    and "w' = (upd_rt (\<lambda>rt. rt\<lparr>rt_degradedFeed := feed\<rparr>) w)\<lparr>w_sent := w_sent w @ frames\<rparr>"
proof -
  let ?f = "(rt_degradedFeed (w_rt w))\<lparr>fd_active := True, fd_boundary := boundary, fd_activated := True\<rparr>"
  obtain y feed where b: "broadcast_all ctx frames ?f = (y, feed)" by fastforce
  have "feed_flags feed = (True, False, boundary)" using broadcast_all_flags [OF b] assms(3) by (simp add: feed_flags_def)
  then show thesis by (rule that) (use assms b in \<open>simp add: relay_activate_def feed_activate_def\<close>)
qed

lemma feed_close_flags: "feed_flags (feed_close feed) = (fd_active feed, True, fd_boundary feed)"
  by (simp add: feed_close_def feed_flags_def)

section \<open>How an accepted event changes the invariant\<close>

lemma relayed_commit: "relayed es sent \<Longrightarrow> untimed e' = e \<Longrightarrow> relayed (es @ [e']) (sent @ [committed_frame e])"
  by (auto simp: relayed_def committed_frame_def)

lemma relayed_frames: "relayed es sent \<Longrightarrow> list_all (\<lambda>f. \<not> sequenced f) fs \<Longrightarrow> relayed es (sent @ fs)"
  by (simp add: relayed_def list_all_iff)

lemma relayed_length: "relayed es sent \<Longrightarrow> list_all sequenced sent \<Longrightarrow> length sent = length es"
  by (metis (no_types, lifting) filter_True length_map list_all_iff relayed_def)

lemma ok_commit:
  assumes ok: "rt_ok rt es sent" and "rt_terminal rt = []" and "rt_core rt' = rt_core (rt\<lparr>rt_lastSeq := Suc (length es)\<rparr>)" and "untimed e' = e"
  shows "rt_ok rt' (es @ [e']) (sent @ [committed_frame e])"
proof -
  have "relayed (tl es @ [e']) (sent @ [committed_frame e])" using ok relayed_commit [OF _ assms(4)] by (simp add: rt_ok_def)
  moreover have "tl (es @ [e']) = tl es @ [e']" using ok by (simp add: rt_ok_def)
  moreover have "sequenced (committed_frame e)" by (simp add: committed_frame_def)
  ultimately show ?thesis using assms(1-3) warned_at_append by (auto simp: rt_ok_def rt_core_def)
qed

lemma ok_frames:
  assumes ok: "rt_ok rt es sent" and "rt_degraded rt" and "rt_terminal rt = []" and "rt_core rt' = rt_core rt" and "list_all (\<lambda>f. \<not> sequenced f) fs"
  shows "rt_ok rt' es (sent @ fs)"
  using assms relayed_frames [OF _ assms(5)] warned_at_append by (auto simp: rt_ok_def rt_core_def)

lemma ok_degrade:
  assumes ok: "rt_ok rt es sent" and "\<not> rt_degraded rt" and "rt_terminal rt = []" and "list_all (\<lambda>f. \<not> sequenced f) fs"
    and "rt_core rt' = (rt_lastSeq rt, True, False, rt_lastSeq rt, True, [], rt_done rt, rt_currentLease rt = None)"
  shows "rt_ok rt' es (sent @ degradedWarningFrame # fs)"
proof -
  have n: "\<not> sequenced degradedWarningFrame" by (simp add: degradedWarningFrame_def sized_frame_def)
  have "length sent = length (tl es)" using ok assms(2) by (intro relayed_length) (auto simp: rt_ok_def)
  then have "Suc (length sent) = rt_lastSeq rt" using ok by (auto simp: rt_ok_def)
  moreover have "relayed (tl es) (sent @ degradedWarningFrame # fs)" using ok assms(4) n by (intro relayed_frames) (auto simp: rt_ok_def)
  moreover have "warned_at (sent @ degradedWarningFrame # fs) (Suc (length sent))" using ok assms(2) by (auto simp: warned_at_def rt_ok_def)
  ultimately show ?thesis using assms by (simp add: rt_ok_def rt_core_def)
qed

lemma ok_close:
  assumes ok: "rt_ok rt es sent" and "rt_terminal rt = []" and "untimed e' = e" and "kind_terminal (e_Kind e')" and "\<not> rt_terminating rt'"
    and "rt_core rt' = (Suc (rt_lastSeq rt), rt_degraded rt, True, fd_boundary (rt_degradedFeed rt), rt_degraded rt, e_Kind e', Suc (rt_done rt), True)"
  shows "rt_ok rt' (es @ [e']) (sent @ [committed_frame e])"
proof -
  have k: "e_Kind e' \<noteq> []" using assms(4) by (auto simp: kind_terminal_def kind_defs)
  have "relayed (tl es @ [e']) (sent @ [committed_frame e])" using ok relayed_commit [OF _ assms(3)] by (simp add: rt_ok_def)
  moreover have "tl (es @ [e']) = tl es @ [e']" using ok by (simp add: rt_ok_def)
  moreover have "sequenced (committed_frame e)" by (simp add: committed_frame_def)
  ultimately show ?thesis using assms k warned_at_append by (auto simp: rt_ok_def rt_core_def)
qed

lemma ok_close_degraded:
  assumes ok: "rt_ok rt es sent" and "rt_terminal rt = []" and "rt_degraded rt" and "\<not> sequenced f" and "kind_terminal kind" and "\<not> rt_terminating rt'"
    and "rt_core rt' = (rt_lastSeq rt, True, True, fd_boundary (rt_degradedFeed rt), True, kind, Suc (rt_done rt), True)"
  shows "rt_ok rt' es (sent @ [f])"
proof -
  have k: "kind \<noteq> []" using assms(5) by (auto simp: kind_terminal_def kind_defs)
  have "relayed (tl es) (sent @ [f])" using ok assms(4) by (intro relayed_frames) (auto simp: rt_ok_def)
  then show ?thesis using assms k warned_at_append by (auto simp: rt_ok_def rt_core_def)
qed

lemma unsequenced_frames [simp]:
  "df_entry (degradedChunkFrame event) = None"
  "degradedEntryFrame e = Inr f \<Longrightarrow> df_entry f = None"
  "degradedTerminalFrame kind payload = Inr f \<Longrightarrow> df_entry f = None"
  by (auto simp: degradedChunkFrame_def sized_frame_def degradedEntryFrame_def degradedTerminalFrame_def Let_def split: option.splits sum.splits if_splits)

lemma unsequenced_entries: "degradedFramesForEntries es = Inr fs \<Longrightarrow> list_all (\<lambda>f. \<not> sequenced f) fs"
  by (induction es arbitrary: fs) (auto split: sum.splits)

section \<open>Sections that only touch other fields\<close>

definition rt_frame :: "'j world \<Rightarrow> _" where
  "rt_frame w = (rt_core (w_rt w), rt_id (w_rt w), w_journal w, w_sent w)"

lemma release_frame [simp]: "rt_frame (release_lease l w) = rt_frame w" "w_rt (release_lease l w) = w_rt w" "w_journal (release_lease l w) = w_journal w"
  "w_sent (release_lease l w) = w_sent w"
  by (simp_all add: rt_frame_def release_lease_def split: option.split)

lemma publishFirst_frame [simp]: "rt_frame (publishFirst e w) = rt_frame w" "w_journal (publishFirst e w) = w_journal w" "w_sent (publishFirst e w) = w_sent w"
  "rt_core (w_rt (publishFirst e w)) = rt_core (w_rt w)" "rt_id (w_rt (publishFirst e w)) = rt_id (w_rt w)" "rt_terminating (w_rt (publishFirst e w)) = rt_terminating (w_rt w)"
  by (simp_all add: rt_frame_def publishFirst_def upd_rt_def rt_core_def split: option.split)

lemma upd_rt_journal: "upd_rt f (w\<lparr>w_journal := j\<rparr>) = (upd_rt f w)\<lparr>w_journal := j\<rparr>"
  by (simp add: upd_rt_def)

lemma flags_core:
  "feed_flags feed = feed_flags (rt_degradedFeed rt) \<Longrightarrow> rt_core (rt\<lparr>rt_degradedFeed := feed\<rparr>) = rt_core rt"
  by (simp add: feed_flags_def rt_core_def)

lemma core_seq: "rt_core rt = rt_core rt' \<Longrightarrow> rt_core (rt\<lparr>rt_lastSeq := n\<rparr>) = rt_core (rt'\<lparr>rt_lastSeq := n\<rparr>)"
  by (simp add: rt_core_def)

lemma accept_core [simp]: "rt_core (accept_observation ob rt) = rt_core rt" "rt_id (accept_observation ob rt) = rt_id rt"
  "rt_terminating (accept_observation ob rt) = rt_terminating rt" "rt_terminal (accept_observation ob rt) = rt_terminal rt"
  "rt_degraded (accept_observation ob rt) = rt_degraded rt" "rt_degradedFeed (accept_observation ob rt) = rt_degradedFeed rt"
  by (simp_all add: accept_observation_def rt_core_def)

lemma track_core [simp]: "rt_core (track_tools event rt) = rt_core rt" "rt_id (track_tools event rt) = rt_id rt"
  "rt_terminating (track_tools event rt) = rt_terminating rt" "rt_terminal (track_tools event rt) = rt_terminal rt"
  by (simp_all add: track_tools_def rt_core_def split: prod.split)

lemma merge_core [simp]: "rt_core (mergePendingTriggerLocked reason deadline fallback rt) = rt_core rt"
  "rt_id (mergePendingTriggerLocked reason deadline fallback rt) = rt_id rt"
  "rt_terminating (mergePendingTriggerLocked reason deadline fallback rt) = rt_terminating rt"
  by (simp_all add: mergePendingTriggerLocked_def rt_core_def)

lemma cause_core [simp]: "rt_core (rt\<lparr>rt_attemptCause := c\<rparr>) = rt_core rt"
  by (simp add: rt_core_def)

lemma cancel_core [simp]: "rt_core (rt_cancel cause rt) = rt_core rt" "rt_id (rt_cancel cause rt) = rt_id rt"
  "rt_terminating (rt_cancel cause rt) = rt_terminating rt"
  by (simp_all add: rt_cancel_def rt_core_def)

lemma upd_frame: "rt_core (f (w_rt w)) = rt_core (w_rt w) \<Longrightarrow> rt_id (f (w_rt w)) = rt_id (w_rt w) \<Longrightarrow> rt_frame (upd_rt f w) = rt_frame w"
  by (simp add: rt_frame_def upd_rt_def)

lemma upd_rt_sel: "w_rt (upd_rt f w) = f (w_rt w)"
  by (simp add: upd_rt_def)

section \<open>The contract of a journal\<close>

locale journal_contract =
  fixes jn :: "'j Journal" and jinv :: "'j \<Rightarrow> bool" and jlog :: "'j \<Rightarrow> StreamID \<Rightarrow> Entry list"
  assumes append_law: "jinv j \<Longrightarrow> jn_Append jn ctx sid e now j = (r, j') \<Longrightarrow>
      jinv j' \<and> (case r of Inl _ \<Rightarrow> jlog j' sid = jlog j sid
                 | Inr n \<Rightarrow> n = Suc (length (jlog j sid)) \<and> jlog j' sid = jlog j sid @ [stamp e n now])"
    and close_law: "jinv j \<Longrightarrow> jn_Close jn ctx sid e now j = (x, j') \<Longrightarrow>
      jinv j' \<and> (case x of Some _ \<Rightarrow> jlog j' sid = jlog j sid
                 | None \<Rightarrow> jlog j' sid = jlog j sid @ [stamp e (Suc (length (jlog j sid))) now])"
begin

definition w_ok :: "'j world \<Rightarrow> bool" where
  "w_ok w \<longleftrightarrow> jinv (w_journal w) \<and> rt_ok (w_rt w) (jlog (w_journal w) (rt_id (w_rt w))) (w_sent w)"

lemma ok_frame:
  assumes "w_ok w" and "rt_frame w' = rt_frame w" and "rt_terminal (w_rt w) \<noteq> [] \<Longrightarrow> \<not> rt_terminating (w_rt w')"
  shows "w_ok w'"
  using assms rt_ok_core [of "w_rt w" _ _ "w_rt w'"] by (simp add: w_ok_def rt_frame_def)

lemma untimed_stamp: "fresh_entry e \<Longrightarrow> untimed (stamp e n now) = e\<lparr>e_Seq := n\<rparr>"
  by (cases e) (simp add: untimed_def stamp_def fresh_entry_def)

lemma commit_ok:
  assumes "w_ok w" and "rt_terminal (w_rt w) = []" and "fresh_entry e" and "jinv j"
    and "jlog j (rt_id (w_rt w)) = jlog (w_journal w) (rt_id (w_rt w)) @ [stamp e seq now]" and "seq = Suc (length (jlog (w_journal w) (rt_id (w_rt w))))"
    and "rt_core rt = rt_core (w_rt w)" and "rt_id rt = rt_id (w_rt w)" and "commit_entry e seq (w\<lparr>w_rt := rt, w_journal := j\<rparr>) = (r, w')"
  shows "w_ok w'" and "rt_degraded (w_rt w') = rt_degraded (w_rt w)" and "rt_terminal (w_rt w') = []" and "rt_id (w_rt w') = rt_id (w_rt w)"
    and "rt_terminating (w_rt w') = rt_terminating rt"
proof -
  define w1 where "w1 = upd_rt (\<lambda>rt. rt\<lparr>rt_lastSeq := seq\<rparr>) (w\<lparr>w_rt := rt, w_journal := j\<rparr>)"
  obtain x w2 where rel: "relay_committed (rt_context (w_rt w1)) (e\<lparr>e_Seq := seq\<rparr>) w1 = (x, w2)" by fastforce
  obtain feed where feed: "feed_flags feed = feed_flags (rt_degradedFeed (w_rt w1))"
    "w2 = (upd_rt (\<lambda>rt. rt\<lparr>rt_degradedFeed := feed\<rparr>) w1)\<lparr>w_sent := w_sent w1 @ [committed_frame (e\<lparr>e_Seq := seq\<rparr>)]\<rparr>"
    using relay_committed_effect [OF rel] by blast
  have w': "w' = (if x = None then publishFirst (e\<lparr>e_Seq := seq\<rparr>) w2 else w2)"
    using assms(9) rel by (auto simp: commit_entry_def w1_def [symmetric] Let_def split: option.splits)
  have core: "rt_core (w_rt w') = rt_core ((w_rt w)\<lparr>rt_lastSeq := seq\<rparr>)"
  proof -
    have "rt_core (w_rt w') = rt_core (w_rt w2)" unfolding w' by simp
    also have "\<dots> = rt_core (w_rt w1)" using flags_core [OF feed(1)] unfolding feed(2) by (simp add: upd_rt_def)
    also have "\<dots> = rt_core ((w_rt w)\<lparr>rt_lastSeq := seq\<rparr>)" using core_seq [OF assms(7)] by (simp add: w1_def upd_rt_def)
    finally show ?thesis .
  qed
  have rest: "rt_id (w_rt w') = rt_id (w_rt w)" "w_journal w' = j" "w_sent w' = w_sent w @ [committed_frame (e\<lparr>e_Seq := seq\<rparr>)]"
    "rt_terminating (w_rt w') = rt_terminating rt"
    using assms(8) feed(2) unfolding w' by (auto simp: w1_def upd_rt_def)
  show "w_ok w'"
    using ok_commit [OF _ assms(2), of "jlog (w_journal w) (rt_id (w_rt w))" "w_sent w" "w_rt w'" "stamp e seq now"] assms(1,3-6) core rest
    by (auto simp: w_ok_def untimed_stamp)
  show "rt_degraded (w_rt w') = rt_degraded (w_rt w)" "rt_terminal (w_rt w') = []" using core assms(2) by (auto simp: rt_core_def)
  show "rt_id (w_rt w') = rt_id (w_rt w)" "rt_terminating (w_rt w') = rt_terminating rt" using rest by simp_all
qed

lemma ok_journal: "w_ok w \<Longrightarrow> jinv j \<Longrightarrow> jlog j (rt_id (w_rt w)) = jlog (w_journal w) (rt_id (w_rt w)) \<Longrightarrow> w_ok (w\<lparr>w_journal := j\<rparr>)"
  by (simp add: w_ok_def)

lemma ok_core: "w_ok w \<Longrightarrow> rt_core rt = rt_core (w_rt w) \<Longrightarrow> rt_id rt = rt_id (w_rt w) \<Longrightarrow> (rt_terminal (w_rt w) \<noteq> [] \<Longrightarrow> \<not> rt_terminating rt) \<Longrightarrow> w_ok (w\<lparr>w_rt := rt\<rparr>)"
  by (rule ok_frame) (simp_all add: rt_frame_def)

text \<open>What an operation leaves alone that does not end the stream.\<close>

definition keeps :: "'j world \<Rightarrow> 'j world \<Rightarrow> bool" where
  "keeps w w' \<longleftrightarrow> rt_terminal (w_rt w') = rt_terminal (w_rt w) \<and> rt_id (w_rt w') = rt_id (w_rt w) \<and> rt_terminating (w_rt w') = rt_terminating (w_rt w)"

lemma frames_ok:
  assumes "w_ok w" and "rt_degraded (w_rt w)" and "rt_terminal (w_rt w) = []" and "list_all (\<lambda>f. \<not> sequenced f) fs"
    and "relay_append ctx fs w = (x, w')"
  shows "w_ok w'" and "keeps w w'" and "rt_degraded (w_rt w')"
proof -
  have a: "fd_active (rt_degradedFeed (w_rt w))" "\<not> fd_closed (rt_degradedFeed (w_rt w))" using assms(1-3) by (simp_all add: w_ok_def rt_ok_def)
  obtain feed where feed: "feed_flags feed = feed_flags (rt_degradedFeed (w_rt w))"
    "w' = (upd_rt (\<lambda>rt. rt\<lparr>rt_degradedFeed := feed\<rparr>) w)\<lparr>w_sent := w_sent w @ fs\<rparr>"
    using relay_append_effect [OF assms(5) a] by blast
  show "w_ok w'"
    using ok_frames [OF _ assms(2,3) flags_core [OF feed(1)] assms(4)] assms(1) unfolding feed(2) by (simp add: w_ok_def upd_rt_def)
  show "keeps w w'" "rt_degraded (w_rt w')" using assms(2) unfolding feed(2) by (simp_all add: keeps_def upd_rt_def)
qed

lemma enter_ok:
  assumes "w_ok w" and "rt_terminal (w_rt w) = []" and "list_all (\<lambda>f. \<not> sequenced f) fs"
  shows "w_ok (enterJournalDegradedLocked sv fs w)" and "keeps w (enterJournalDegradedLocked sv fs w)"
    and "rt_degraded (w_rt (enterJournalDegradedLocked sv fs w))"
proof -
  let ?w' = "enterJournalDegradedLocked sv fs w"
  have "w_ok ?w' \<and> keeps w ?w' \<and> rt_degraded (w_rt ?w')"
  proof (cases "rt_degraded (w_rt w)")
    case True
    obtain x w' where r: "relay_append (rt_context (w_rt w)) fs w = (x, w')" by fastforce
    then have "?w' = w'" using True by (simp add: enterJournalDegradedLocked_def)
    then show ?thesis using frames_ok [OF assms(1) True assms(2,3) r] by simp
  next
    case False
    define w1 where "w1 = upd_rt (\<lambda>rt. startJournalDegradedLease sv (rt\<lparr>rt_degraded := True\<rparr>)) w"
    have w1: "rt_degradedFeed (w_rt w1) = rt_degradedFeed (w_rt w)" "w_sent w1 = w_sent w" "w_journal w1 = w_journal w" "keeps w w1" "rt_degraded (w_rt w1)"
      "rt_lastSeq (w_rt w1) = rt_lastSeq (w_rt w)" "rt_done (w_rt w1) = rt_done (w_rt w)" "rt_currentLease (w_rt w1) = rt_currentLease (w_rt w)"
      by (simp_all add: w1_def upd_rt_def startJournalDegradedLease_def keeps_def)
    obtain x w' where r: "relay_activate (rt_context (w_rt w1)) (rt_lastSeq (w_rt w)) (degradedWarningFrame # fs) w1 = (x, w')" by fastforce
    have w': "?w' = w'" using False r by (simp add: enterJournalDegradedLocked_def w1_def Let_def)
    have a: "\<not> fd_active (rt_degradedFeed (w_rt w1))" "\<not> fd_closed (rt_degradedFeed (w_rt w1))"
      using assms(1,2) False w1(1) by (simp_all add: w_ok_def rt_ok_def)
    obtain feed where feed: "feed_flags feed = (True, False, rt_lastSeq (w_rt w))"
      "w' = (upd_rt (\<lambda>rt. rt\<lparr>rt_degradedFeed := feed\<rparr>) w1)\<lparr>w_sent := w_sent w1 @ degradedWarningFrame # fs\<rparr>"
      using relay_activate_effect [OF r a] by blast
    have core: "rt_core (w_rt w') = (rt_lastSeq (w_rt w), True, False, rt_lastSeq (w_rt w), True, [], rt_done (w_rt w), rt_currentLease (w_rt w) = None)"
      using feed w1 assms(2) by (simp add: rt_core_def feed_flags_def upd_rt_def keeps_def)
    have k: "keeps w w'" "rt_degraded (w_rt w')" "w_journal w' = w_journal w" "w_sent w' = w_sent w @ degradedWarningFrame # fs"
      using w1 feed(2) by (simp_all add: keeps_def upd_rt_def)
    then have "w_ok w'" using ok_degrade [OF _ False assms(2,3) core] assms(1) by (simp add: w_ok_def keeps_def)
    then show ?thesis using k w' by simp
  qed
  then show "w_ok ?w'" "keeps w ?w'" "rt_degraded (w_rt ?w')" by simp_all
qed

lemma chunk_ok:
  assumes "w_ok w" and "appendChunk sv jn call event ob w = (r, w')"
  shows "w_ok w'"
proof -
  define w1 where "w1 = upd_rt (track_tools event) w"
  have ok1: "w_ok w1" using assms(1) unfolding w1_def upd_rt_def by (rule ok_core) (use assms(1) in \<open>auto simp: w_ok_def rt_ok_def\<close>)
  define e where "e = new_entry KindChunk (chunk_payload (nonNil (ev_Data event)) (optionalString (ev_Type event) (ev_HasType event)))"
  have fe: "fresh_entry e" by (simp add: e_def new_entry_def fresh_entry_def)
  define w2 where "w2 = upd_rt (accept_observation ob) w1"
  have ok2: "w_ok w2" using ok1 unfolding w2_def upd_rt_def by (rule ok_core) (use ok1 in \<open>auto simp: w_ok_def rt_ok_def\<close>)
  have w2: "rt_terminal (w_rt w2) = rt_terminal (w_rt w1)" "rt_degraded (w_rt w2) = rt_degraded (w_rt w1)" "rt_id (w_rt w2) = rt_id (w_rt w1)"
    "w_journal w2 = w_journal w1" "rt_core (w_rt w2) = rt_core (w_rt w1)" "w_sent w2 = w_sent w1" by (simp_all add: w2_def upd_rt_def)
  show ?thesis
  proof (cases "rt_ended (w_rt w1)")
    case True
    then show ?thesis using assms(2) ok1 by (simp add: appendChunk_def w1_def [symmetric] Let_def)
  next
    case False
    then have t: "rt_terminal (w_rt w1) = []" by (simp add: rt_ended_def)
    show ?thesis
    proof (cases "rt_degraded (w_rt w1)")
      case True
      obtain x w3 where r: "relay_append (rt_context (w_rt w1)) [degradedChunkFrame event] w2 = (x, w3)" by fastforce
      have "w' = w3" using assms(2) False True r by (simp add: appendChunk_def w1_def [symmetric] w2_def [symmetric] Let_def)
      then show ?thesis using frames_ok [OF ok2 _ _ _ r] True t w2 by simp
    next
      case nd: False
      obtain y j where a: "jn_Append jn (journalMutationContextUntil sv call 0) (rt_id (w_rt w1)) e (cl_commit call) (w_journal w1) = (y, j)" by fastforce
      have law: "jinv j \<and> (case y of Inl _ \<Rightarrow> jlog j (rt_id (w_rt w1)) = jlog (w_journal w1) (rt_id (w_rt w1))
          | Inr n \<Rightarrow> n = Suc (length (jlog (w_journal w1) (rt_id (w_rt w1)))) \<and> jlog j (rt_id (w_rt w1)) = jlog (w_journal w1) (rt_id (w_rt w1)) @ [stamp e n (cl_commit call)])"
        using append_law [OF _ a] ok1 by (simp add: w_ok_def)
      show ?thesis
      proof (cases y)
        case (Inl x)
        then have "w' = enterJournalDegradedLocked sv [degradedChunkFrame event] (w2\<lparr>w_journal := j\<rparr>)"
          using assms(2) False nd a by (simp add: appendChunk_def w1_def [symmetric] e_def [symmetric] Let_def w2_def upd_rt_journal)
        moreover have "w_ok (w2\<lparr>w_journal := j\<rparr>)" using ok_journal [OF ok2] law Inl w2 by simp
        ultimately show ?thesis using enter_ok(1) [of "w2\<lparr>w_journal := j\<rparr>" "[degradedChunkFrame event]" sv] t w2 by simp
      next
        case (Inr n)
        then have "commit_entry e n (w2\<lparr>w_journal := j\<rparr>) = (r, w')"
          using assms(2) False nd a by (simp add: appendChunk_def w1_def [symmetric] e_def [symmetric] Let_def w2_def upd_rt_journal)
        then have c: "commit_entry e n (w1\<lparr>w_rt := w_rt w2, w_journal := j\<rparr>) = (r, w')" by (simp add: w2_def upd_rt_def)
        show ?thesis using commit_ok(1) [OF ok1 t fe _ _ _ _ _ c] law Inr w2 by simp
      qed
    qed
  qed
qed

lemma append_entries_ok:
  assumes "w_ok w" and "rt_terminal (w_rt w) = []" and "rt_degraded (w_rt w) = degraded" and "list_all fresh_entry es"
    and "append_entries sv jn deadline degraded calls es w = (r, w')"
  shows "w_ok w' \<and> keeps w w'"
  using assms
proof (induction es arbitrary: calls w r w')
  case Nil
  then show ?case by (simp add: keeps_def)
next
  case (Cons e es)
  note frames_simp = degradedFramesForEntries.simps
  show ?case
  proof (cases degraded)
    case True
    show ?thesis
    proof (cases "degradedFramesForEntries (e # es)")
      case (Inl x)
      then show ?thesis using Cons.prems True by (auto simp: keeps_def simp del: frames_simp)
    next
      case (Inr frames)
      obtain x w1 where rl: "relay_append (rt_context (w_rt w)) frames w = (x, w1)" by fastforce
      then have "w' = w1" using Cons.prems(5) True Inr by (simp del: frames_simp)
      then show ?thesis using frames_ok(1,2) [OF Cons.prems(1) _ Cons.prems(2) unsequenced_entries [OF Inr] rl] Cons.prems(3) True by simp
    qed
  next
    case False
    let ?ctx = "journalMutationContextUntil sv (calls 0) deadline"
    obtain y j where a: "jn_Append jn ?ctx (rt_id (w_rt w)) e (cl_commit (calls 0)) (w_journal w) = (y, j)" by fastforce
    note law = append_law [OF _ a]
    have jinv: "jinv (w_journal w)" using Cons.prems(1) by (simp add: w_ok_def)
    show ?thesis
    proof (cases y)
      case (Inl x)
      have ok: "w_ok (w\<lparr>w_journal := j\<rparr>)" using ok_journal [OF Cons.prems(1)] law [OF jinv] Inl by simp
      show ?thesis
      proof (cases "degradedFramesForEntries (e # es)")
        case (Inl z)
        then have "w' = w\<lparr>w_journal := j\<rparr>" using Cons.prems(5) False a \<open>y = Inl x\<close> by (simp del: frames_simp)
        then show ?thesis using ok by (simp add: keeps_def)
      next
        case (Inr frames)
        then have "w' = enterJournalDegradedLocked sv frames (w\<lparr>w_journal := j\<rparr>)" using Cons.prems(5) False a \<open>y = Inl x\<close> by (simp del: frames_simp)
        then show ?thesis using enter_ok(1,2) [OF ok _ unsequenced_entries [OF Inr], of sv] Cons.prems(2) by (simp add: keeps_def)
      qed
    next
      case (Inr n)
      obtain x w1 where c: "commit_entry e n (w\<lparr>w_journal := j\<rparr>) = (x, w1)" by fastforce
      then have c': "commit_entry e n (w\<lparr>w_rt := w_rt w, w_journal := j\<rparr>) = (x, w1)" by simp
      have fe: "fresh_entry e" "list_all fresh_entry es" using Cons.prems(4) by simp_all
      note k = commit_ok [OF Cons.prems(1,2) fe(1) _ _ _ refl refl c']
      have k: "w_ok w1" "rt_degraded (w_rt w1) = rt_degraded (w_rt w)" "rt_terminal (w_rt w1) = []" "keeps w w1"
        using k law [OF jinv] Inr Cons.prems(2) by (simp_all add: keeps_def)
      show ?thesis
      proof (cases x)
        case None
        then have "append_entries sv jn deadline degraded (\<lambda>k. calls (Suc k)) es w1 = (r, w')"
          using Cons.prems(5) False a Inr c by simp
        from Cons.IH [OF k(1,3) _ fe(2) this] show ?thesis using k Cons.prems(2,3) by (auto simp: keeps_def)
      next
        case (Some z)
        then show ?thesis using Cons.prems(5) False a Inr c k by simp
      qed
    qed
  qed
qed

lemma entries_ok:
  assumes "w_ok w" and "list_all fresh_entry es" and "appendNonTerminalUntil sv jn deadline calls es w = (r, w')"
  shows "w_ok w'"
  using assms append_entries_ok [OF assms(1) _ refl assms(2)] by (auto simp: appendNonTerminalUntil_def rt_ended_def split: if_splits)

lemma finishDegraded_ok:
  assumes "w_ok w" and "rt_terminal (w_rt w) = []" and "rt_degraded (w_rt w)" and "kind_terminal kind"
    and "finishDegradedLocked sv kind payload stopResult w = (r, w')"
  shows "w_ok w'"
proof (cases "degradedTerminalFrame kind payload")
  case (Inl x)
  then have "w' = failTerminalTransition w" using assms(5) by (simp add: finishDegradedLocked_def)
  then show ?thesis using ok_core [OF assms(1)] by (simp add: failTerminalTransition_def upd_rt_def rt_core_def)
next
  case (Inr f)
  define w1 where "w1 = settle_terminal kind stopResult (upd_rt (signalJournalDegradedTerminal sv) w)"
  obtain x w2 where rl: "relay_append (sv_rootContext sv) [f] w1 = (x, w2)" by fastforce
  have w': "w' = relay_close w2" using assms(5) Inr rl by (simp add: finishDegradedLocked_def w1_def Let_def)
  have w1: "rt_degradedFeed (w_rt w1) = rt_degradedFeed (w_rt w)" "rt_lastSeq (w_rt w1) = rt_lastSeq (w_rt w)" "rt_degraded (w_rt w1) = rt_degraded (w_rt w)"
    "rt_terminal (w_rt w1) = kind" "rt_done (w_rt w1) = Suc (rt_done (w_rt w))" "rt_currentLease (w_rt w1) = None" "\<not> rt_terminating (w_rt w1)"
    "rt_id (w_rt w1) = rt_id (w_rt w)" "w_journal w1 = w_journal w" "w_sent w1 = w_sent w"
    by (simp_all add: w1_def settle_terminal_def upd_rt_def signalJournalDegradedTerminal_def startJournalDegradedLease_def)
  have a: "fd_active (rt_degradedFeed (w_rt w1))" "\<not> fd_closed (rt_degradedFeed (w_rt w1))" using assms(1-3) w1 by (simp_all add: w_ok_def rt_ok_def)
  obtain feed where feed: "feed_flags feed = feed_flags (rt_degradedFeed (w_rt w1))"
    "w2 = (upd_rt (\<lambda>rt. rt\<lparr>rt_degradedFeed := feed\<rparr>) w1)\<lparr>w_sent := w_sent w1 @ [f]\<rparr>"
    using relay_append_effect [OF rl a] by blast
  have core: "rt_core (w_rt w') = (rt_lastSeq (w_rt w), True, True, fd_boundary (rt_degradedFeed (w_rt w)), True, kind, Suc (rt_done (w_rt w)), True)"
    using w1 feed a assms(3) feed_close_flags [of feed] unfolding w' by (simp add: relay_close_def upd_rt_def rt_core_def feed_flags_def)
  have "rt_ok (w_rt w') (jlog (w_journal w) (rt_id (w_rt w))) (w_sent w @ [f])"
    by (rule ok_close_degraded [OF _ assms(2,3) _ assms(4) _ core])
       (use assms(1) Inr w1 feed in \<open>simp_all add: w_ok_def w' relay_close_def upd_rt_def\<close>)
  then show ?thesis using assms(1) w1 feed(2) unfolding w' by (simp add: w_ok_def relay_close_def upd_rt_def)
qed

text \<open>The runtime after the journal closed the stream, before and after the terminal entry is relayed.\<close>

definition settled :: "'j world \<Rightarrow> 'j \<Rightarrow> EntryKind \<Rightarrow> 'j world \<Rightarrow> bool" where
  "settled w j kind w1 \<longleftrightarrow>
     rt_degradedFeed (w_rt w1) = rt_degradedFeed (w_rt w) \<and> rt_lastSeq (w_rt w1) = Suc (rt_lastSeq (w_rt w)) \<and> rt_degraded (w_rt w1) = rt_degraded (w_rt w)
   \<and> rt_terminal (w_rt w1) = kind \<and> rt_done (w_rt w1) = Suc (rt_done (w_rt w)) \<and> rt_currentLease (w_rt w1) = None \<and> \<not> rt_terminating (w_rt w1)
   \<and> rt_id (w_rt w1) = rt_id (w_rt w) \<and> w_journal w1 = j \<and> w_sent w1 = w_sent w"

lemma terminal_ok:
  assumes "w_ok w" and "rt_terminal (w_rt w) = []" and "kind_terminal kind" and "jinv j"
    and "jlog j (rt_id (w_rt w)) = jlog (w_journal w) (rt_id (w_rt w)) @ [stamp (new_entry kind payload) (Suc (length (jlog (w_journal w) (rt_id (w_rt w))))) now]"
    and w1: "settled w j kind w1" and rl: "relay_committed ctx ((new_entry kind payload)\<lparr>e_Seq := Suc (rt_lastSeq (w_rt w))\<rparr>) w1 = (x, w2)"
  shows "w_ok (relay_close w2)" and "\<not> rt_terminating (w_rt (relay_close w2))"
proof -
  let ?e = "(new_entry kind payload)\<lparr>e_Seq := Suc (rt_lastSeq (w_rt w))\<rparr>" and ?es = "jlog (w_journal w) (rt_id (w_rt w))"
  obtain feed where feed: "feed_flags feed = feed_flags (rt_degradedFeed (w_rt w1))"
    "w2 = (upd_rt (\<lambda>rt. rt\<lparr>rt_degradedFeed := feed\<rparr>) w1)\<lparr>w_sent := w_sent w1 @ [committed_frame ?e]\<rparr>"
    using relay_committed_effect [OF rl] by blast
  define e' where "e' = stamp (new_entry kind payload) (Suc (length ?es)) now"
  have len: "rt_lastSeq (w_rt w) = length ?es" using assms(1) by (simp add: w_ok_def rt_ok_def)
  have ue: "untimed e' = ?e" using len by (simp add: e'_def untimed_stamp fresh_entry_def new_entry_def)
  have k: "e_Kind e' = kind" by (simp add: e'_def stamp_def new_entry_def)
  have core: "rt_core (w_rt (relay_close w2)) = (Suc (rt_lastSeq (w_rt w)), rt_degraded (w_rt w), True, fd_boundary (rt_degradedFeed (w_rt w)),
      rt_degraded (w_rt w), e_Kind e', Suc (rt_done (w_rt w)), True)"
    using w1 feed feed_close_flags [of feed] k assms(1)
    by (simp add: settled_def relay_close_def upd_rt_def rt_core_def feed_flags_def w_ok_def rt_ok_def)
  show nt: "\<not> rt_terminating (w_rt (relay_close w2))" using w1 feed(2) by (simp add: settled_def relay_close_def upd_rt_def)
  have "rt_ok (w_rt (relay_close w2)) (?es @ [e']) (w_sent w @ [committed_frame ?e])"
    by (rule ok_close [OF _ assms(2) ue _ nt core]) (use assms(1,3) k in \<open>simp_all add: w_ok_def\<close>)
  then show "w_ok (relay_close w2)"
    using assms(4,5) w1 feed(2) by (simp add: settled_def w_ok_def relay_close_def upd_rt_def e'_def)
qed

text \<open>A payload builder touches nothing the invariant reads.\<close>

definition tame :: "(streamRuntime \<Rightarrow> streamRuntime \<times> bytes \<times> stopResponse option) \<Rightarrow> bool" where
  "tame build \<longleftrightarrow> (\<forall>rt. rt_core (fst (build rt)) = rt_core rt \<and> rt_id (fst (build rt)) = rt_id rt)"

lemma tame_builds: "tame (build_done fallback)" "tame (build_error code message reason)" "tame build_stopped"
  by (simp_all add: tame_def build_done_def build_error_def build_stopped_def Let_def rt_core_def split: prod.split)

lemma close_ok:
  assumes "w_ok w" and "kind_terminal kind" and "tame build" and "closeTerminalUntil sv jn call kind cause guard deadline build w = (r, w')"
  shows "w_ok w'"
proof (cases "rt_ended (w_rt w) \<or> \<not> guard (w_rt w)")
  case True
  then show ?thesis using assms(1,4) by (auto simp: closeTerminalUntil_def split: if_splits)
next
  case False
  obtain rt payload stopResult where b: "build (rt_cancel cause ((w_rt w)\<lparr>rt_terminating := True\<rparr>)) = (rt, payload, stopResult)"
    by (metis prod.exhaust)
  have "rt_core (fst (build (rt_cancel cause ((w_rt w)\<lparr>rt_terminating := True\<rparr>)))) = rt_core (rt_cancel cause ((w_rt w)\<lparr>rt_terminating := True\<rparr>))
      \<and> rt_id (fst (build (rt_cancel cause ((w_rt w)\<lparr>rt_terminating := True\<rparr>)))) = rt_id (rt_cancel cause ((w_rt w)\<lparr>rt_terminating := True\<rparr>))"
    using assms(3) unfolding tame_def by blast
  then have rt: "rt_core rt = rt_core (w_rt w)" "rt_id rt = rt_id (w_rt w)" using b by (simp_all add: rt_core_def [of "_\<lparr>rt_terminating := _\<rparr>"] rt_core_def [of "w_rt w"])
  have t: "rt_terminal (w_rt w) = []" using False by (simp add: rt_ended_def)
  have rt': "rt_degraded rt = rt_degraded (w_rt w)" "rt_terminal rt = []" "rt_lastSeq rt = rt_lastSeq (w_rt w)" "rt_done rt = rt_done (w_rt w)"
    "fd_active (rt_degradedFeed rt) = fd_active (rt_degradedFeed (w_rt w))" "fd_boundary (rt_degradedFeed rt) = fd_boundary (rt_degradedFeed (w_rt w))"
    using rt(1) t by (simp_all add: rt_core_def)
  have ok1: "w_ok (w\<lparr>w_rt := rt\<rparr>)" by (rule ok_core [OF assms(1) rt]) (use t in simp)
  let ?ctx = "boundedContext (cl_now call) (cl_polls call) (sv_ReadinessTimeout sv) deadline"
  show ?thesis
  proof (cases "rt_degraded rt")
    case True
    then have "finishDegradedLocked sv kind payload stopResult (w\<lparr>w_rt := rt\<rparr>) = (r, w')"
      using assms(4) False b by (simp add: closeTerminalUntil_def Let_def)
    then show ?thesis using finishDegraded_ok [OF ok1 _ _ assms(2)] True rt' by simp
  next
    case nd: False
    obtain y j where c: "jn_Close jn ?ctx (rt_id rt) (new_entry kind payload) (cl_commit call) (w_journal w) = (y, j)" by fastforce
    have jinv: "jinv (w_journal w)" using assms(1) by (simp add: w_ok_def)
    note law = close_law [OF jinv c]
    show ?thesis
    proof (cases y)
      case (Some x)
      let ?w2 = "(w\<lparr>w_rt := rt\<rparr>)\<lparr>w_journal := j\<rparr>"
      have ok2: "w_ok ?w2" by (rule ok_journal [OF ok1]) (use law Some rt in simp_all)
      have e: "w_ok (enterJournalDegradedLocked sv [] ?w2)" "keeps ?w2 (enterJournalDegradedLocked sv [] ?w2)" "rt_degraded (w_rt (enterJournalDegradedLocked sv [] ?w2))"
        using enter_ok [OF ok2, of "[]" sv] rt' by simp_all
      have "finishDegradedLocked sv kind payload stopResult (enterJournalDegradedLocked sv [] ?w2) = (r, w')"
        using assms(4) False b nd c Some by (simp add: closeTerminalUntil_def Let_def)
      from finishDegraded_ok [OF e(1) _ e(3) assms(2) this] show ?thesis using e(2) rt' by (simp add: keeps_def)
    next
      case None
      let ?w = "w\<lparr>w_rt := rt\<rparr>"
      define w1 where "w1 = settle_terminal kind stopResult (upd_rt (\<lambda>rt. rt\<lparr>rt_lastSeq := rt_lastSeq rt + 1\<rparr>) (w\<lparr>w_rt := rt, w_journal := j\<rparr>))"
      have w1: "settled ?w j kind w1" by (simp add: settled_def w1_def settle_terminal_def upd_rt_def)
      let ?e = "(new_entry kind payload)\<lparr>e_Seq := Suc (rt_lastSeq rt)\<rparr>"
      obtain x w2 where rl: "relay_committed (sv_rootContext sv) ?e w1 = (x, w2)" by fastforce
      have w': "w' = publishFirst ?e (relay_close w2)"
        using assms(4) False b nd c None rl by (simp add: closeTerminalUntil_def Let_def w1_def upd_rt_def)
      have "w_ok (relay_close w2)"
        by (rule terminal_ok(1) [OF ok1 _ assms(2) _ _ w1]) (use law None rt rt' rl in simp_all)
      then show ?thesis unfolding w' by (rule ok_frame) (use terminal_ok(2) [OF ok1 _ assms(2) _ _ w1] law None rt rt' rl in simp_all)
    qed
  qed
qed

lemma refusal_warnings_ok:
  assumes "w_ok w" and "rt_terminal (w_rt w) = []" and "list_all fresh_entry es" and "refusal_warnings sv jn deadline calls es w = (r, w')"
  shows "w_ok w' \<and> keeps w w'"
  using assms
proof (induction es arbitrary: calls w r w')
  case Nil
  then show ?case by (simp add: keeps_def)
next
  case (Cons e es)
  let ?ctx = "journalMutationContextUntil sv (calls 0) deadline"
  obtain y j where a: "jn_Append jn ?ctx (rt_id (w_rt w)) e (cl_commit (calls 0)) (w_journal w) = (y, j)" by fastforce
  have jinv: "jinv (w_journal w)" using Cons.prems(1) by (simp add: w_ok_def)
  note law = append_law [OF jinv a]
  show ?case
  proof (cases y)
    case (Inl x)
    then have "w' = w\<lparr>w_journal := j\<rparr>" using Cons.prems(4) a by simp
    then show ?thesis using ok_journal [OF Cons.prems(1)] law Inl by (simp add: keeps_def)
  next
    case (Inr n)
    define w1 where "w1 = upd_rt (\<lambda>rt. rt\<lparr>rt_lastSeq := n\<rparr>) (w\<lparr>w_journal := j\<rparr>)"
    obtain x w2 where rl: "relay_committed (rt_context (w_rt w1)) (e\<lparr>e_Seq := n\<rparr>) w1 = (x, w2)" by fastforce
    obtain r' w3 where c: "commit_entry e n (w\<lparr>w_rt := w_rt w, w_journal := j\<rparr>) = (r', w3)" by fastforce
    have fe: "fresh_entry e" "list_all fresh_entry es" using Cons.prems(3) by simp_all
    have k: "w_ok w3" "keeps w w3"
      using commit_ok [OF Cons.prems(1,2) fe(1) _ _ _ refl refl c] law Inr Cons.prems(2) by (simp_all add: keeps_def)
    have "rt_frame w2 = rt_frame w3" "rt_terminating (w_rt w2) = rt_terminating (w_rt w3)"
      using c rl by (auto simp: commit_entry_def w1_def [symmetric] Let_def split: option.splits)
    then have k2: "w_ok w2" "keeps w w2"
      using ok_frame [OF k(1), of w2] k Cons.prems(2) by (auto simp: keeps_def rt_frame_def rt_core_def)
    show ?thesis
    proof (cases x)
      case None
      obtain r2 where "refusal_warnings sv jn deadline (\<lambda>k. calls (Suc k)) es w2 = (r2, w')"
        using Cons.prems(4) a Inr rl None by (auto simp: w1_def [symmetric] Let_def apfst_def map_prod_def split: prod.splits)
      from Cons.IH [OF k2(1) _ fe(2) this] show ?thesis using k2 Cons.prems(2) by (auto simp: keeps_def)
    next
      case (Some z)
      then show ?thesis using Cons.prems(4) a Inr rl k2 by (simp add: w1_def [symmetric] Let_def)
    qed
  qed
qed

lemma fold_first_frame [simp]: "rt_frame (fold publishFirst es w) = rt_frame w" "rt_terminating (w_rt (fold publishFirst es w)) = rt_terminating (w_rt w)"
  by (induction es arbitrary: w) simp_all

lemma refusal_ok:
  assumes "w_ok w" and "rt_terminating (w_rt w)" and "list_all fresh_entry es" and "refusal_commit sv jn calls es reason est deadline w = (r, w')"
  shows "w_ok w'"
proof -
  have t: "rt_terminal (w_rt w) = []" using assms(1,2) by (auto simp: w_ok_def rt_ok_def)
  obtain y w1 where rw: "refusal_warnings sv jn deadline (\<lambda>k. calls (Suc k)) es w = (y, w1)" by fastforce
  have k: "w_ok w1" "keeps w w1" using refusal_warnings_ok [OF assms(1) t assms(3) rw] by simp_all
  have t1: "rt_terminal (w_rt w1) = []" using k(2) t by (simp add: keeps_def)
  have fail: "w_ok (failTerminalTransition v)" if "w_ok v" for v
    using ok_core [OF that] by (simp add: failTerminalTransition_def upd_rt_def rt_core_def)
  show ?thesis
  proof (cases y)
    case None
    then show ?thesis using assms(4) rw fail [OF k(1)] by (simp add: refusal_commit_def)
  next
    case (Some ws)
    define payload where "payload = error_payload ''migration_refused'' ''continuation is not safe'' reason (snd (progress_Snapshot (rt_progress (w_rt w1))))"
    let ?ctx = "boundedContext (cl_now (calls 0)) (cl_polls (calls 0)) (sv_ReadinessTimeout sv) deadline"
    obtain x j where c: "jn_Close jn ?ctx (rt_id (w_rt w1)) (new_entry KindError payload) (cl_commit (calls 0)) (w_journal w1) = (x, j)" by fastforce
    have jinv: "jinv (w_journal w1)" using k(1) by (simp add: w_ok_def)
    note law = close_law [OF jinv c]
    show ?thesis
    proof (cases x)
      case None
      let ?e = "(new_entry KindError payload)\<lparr>e_Seq := Suc (rt_lastSeq (w_rt w1))\<rparr>"
      define w2 where "w2 = upd_rt (\<lambda>rt. rt\<lparr>rt_lastSeq := Suc (rt_lastSeq (w_rt w1)), rt_terminal := KindError, rt_terminating := False, rt_currentLease := None,
                             rt_estimateWarned := (est \<or> rt_estimateWarned rt), rt_orphanTimer := None, rt_done := Suc (rt_done rt)\<rparr>) (w1\<lparr>w_journal := j\<rparr>)"
      have w2: "settled w1 j KindError w2" by (simp add: settled_def w2_def upd_rt_def)
      obtain z w3 where rl: "relay_committed (sv_rootContext sv) ?e w2 = (z, w3)" by fastforce
      have w': "w' = fold publishFirst (ws @ [?e]) (release_lease (rt_currentLease (w_rt w1)) (upd_rt (rt_cancel reason) (relay_close w3)))"
        using assms(4) rw Some c None rl by (simp add: refusal_commit_def payload_def [symmetric] w2_def [symmetric] Let_def)
      note ok = terminal_ok [OF k(1) t1 _ _ _ w2 rl]
      have ok: "w_ok (relay_close w3)" "\<not> rt_terminating (w_rt (relay_close w3))"
        using ok law None by (simp_all add: kind_terminal_def)
      show ?thesis
        unfolding w' by (rule ok_frame [OF ok(1)]) (use ok(2) in \<open>simp_all add: upd_frame upd_rt_sel\<close>)
    next
      case (Some z)
      then have "w' = failTerminalTransition (w1\<lparr>w_journal := j\<rparr>)"
        using assms(4) rw \<open>y = Some ws\<close> c by (simp add: refusal_commit_def payload_def [symmetric] Let_def)
      then show ?thesis using fail [OF ok_journal [OF k(1)]] law Some by simp
    qed
  qed
qed

lemma rt_section_ok:
  assumes "rt_section H sv jn jinv jlog w w'" and ok: "w_ok w"
  shows "w_ok w'"
  using assms(1)
proof cases
  have nt: "rt_terminal (w_rt w) \<noteq> [] \<Longrightarrow> \<not> rt_terminating (w_rt w)" using ok by (simp add: w_ok_def rt_ok_def)
  note same = ok_frame [OF ok]
  {
    case (tools event)
    then show ?thesis using same nt by (simp add: upd_frame upd_rt_sel)
  next
    case (chunk call event ob r)
    then show ?thesis using chunk_ok [OF ok] by simp
  next
    case (entries es deadline calls r)
    then show ?thesis using entries_ok [OF ok] by simp
  next
    case (finish_done call deadline fallback r)
    then show ?thesis by (intro close_ok [OF ok _ tame_builds(1)]) (auto simp: finishDoneUntil_def kind_terminal_def)
  next
    case (finish_error call cause guard deadline code message reason r)
    then show ?thesis by (intro close_ok [OF ok _ tame_builds(2)]) (auto simp: kind_terminal_def)
  next
    case (stop_claim r)
    have "rt_frame w' = rt_frame w \<and> rt_terminating (w_rt w') = rt_terminating (w_rt w)"
      using stop_claim by (auto simp: stop_begin_def Let_def rt_frame_def upd_rt_def rt_core_def split: if_splits)
    then show ?thesis using same nt by simp
  next
    case (stop_run call r)
    obtain x w1 where c: "closeTerminalUntil sv jn call KindStopped ''stream explicitly stopped'' (\<lambda>_. True) 0 build_stopped w = (x, w1)" by fastforce
    have ok1: "w_ok w1" using close_ok [OF ok _ tame_builds(3) c] by (simp add: kind_terminal_def)
    have "w' = upd_rt (\<lambda>rt. rt\<lparr>rt_stopWait := Suc (rt_stopWait rt), rt_stopRequested := False\<rparr>) w1" using stop_run c by (simp add: stop_close_def)
    then show ?thesis using ok1 by (intro ok_frame [OF ok1]) (auto simp: rt_frame_def upd_rt_def rt_core_def w_ok_def rt_ok_def)
  next
    case (attach r)
    have "rt_frame w' = rt_frame w \<and> rt_terminating (w_rt w') = rt_terminating (w_rt w)"
      using attach by (auto simp: attachReader_def Let_def rt_frame_def upd_rt_def rt_core_def split: if_splits)
    then show ?thesis using same nt by simp
  next
    case (detach r)
    have "rt_frame w' = rt_frame w \<and> rt_terminating (w_rt w') = rt_terminating (w_rt w)"
      using detach by (auto simp: detachReader_def Let_def rt_frame_def upd_rt_def rt_core_def split: if_splits)
    then show ?thesis using same nt by simp
  next
    case (schedule delay)
    have "rt_frame w' = rt_frame w \<and> rt_terminating (w_rt w') = rt_terminating (w_rt w)"
      using schedule by (auto simp: scheduleOrphanCheck_def Let_def rt_frame_def upd_rt_def rt_core_def split: if_splits)
    then show ?thesis using same nt by simp
  next
    case (claim answer r)
    have "rt_frame w' = rt_frame w \<and> rt_terminating (w_rt w') = rt_terminating (w_rt w)"
      using claim by (auto simp: orphan_claim_def Let_def rt_frame_def upd_rt_def rt_core_def split: if_splits orphan_answer.splits)
    then show ?thesis using same nt by simp
  next
    case (count n r)
    have "rt_frame w' = rt_frame w \<and> rt_terminating (w_rt w') = rt_terminating (w_rt w)"
      using count by (auto simp: orphan_count_def Let_def rt_frame_def upd_rt_def rt_core_def split: if_splits option.splits)
    then show ?thesis using same nt by simp
  next
    case (settle claimID r)
    have "rt_frame w' = rt_frame w \<and> rt_terminating (w_rt w') = rt_terminating (w_rt w)"
      using settle by (auto simp: orphan_settle_def Let_def rt_frame_def upd_rt_def rt_core_def split: if_splits)
    then show ?thesis using same nt by simp
  next
    case attempt
    then show ?thesis using same nt by (simp add: attempt_begin_def rt_frame_def upd_rt_def rt_core_def)
  next
    case stall
    then show ?thesis using same nt by (simp add: rt_frame_def upd_rt_def rt_core_def)
  next
    case warned
    then show ?thesis using same nt by (simp add: rt_frame_def upd_rt_def rt_core_def)
  next
    case (exchange failedLease targetLease target r)
    show ?thesis
    proof (cases "rt_ended (w_rt w) \<or> rt_currentLease (w_rt w) \<noteq> failedLease")
      case True
      then show ?thesis using exchange ok by (simp add: reserve_exchange_def)
    next
      case False
      then have t: "rt_terminal (w_rt w) = []" by (simp add: rt_ended_def)
      then have "rt_currentLease (w_rt w) \<noteq> None" using ok by (auto simp: w_ok_def rt_ok_def)
      then show ?thesis using exchange False same t
        by (auto simp: reserve_exchange_def rt_frame_def upd_rt_def rt_core_def)
    qed
  next
    case (pend reason targetLease now)
    have "rt_frame w' = rt_frame w \<and> rt_terminating (w_rt w') = rt_terminating (w_rt w)"
      using pend by (simp add: reserve_pending_def upd_frame upd_rt_sel)
    then show ?thesis using same nt by simp
  next
    case (trigger reason i deadline r)
    have "rt_frame w' = rt_frame w \<and> rt_terminating (w_rt w') = rt_terminating (w_rt w)"
      using trigger by (auto simp: trigger_attempt_def Let_def upd_frame upd_rt_sel split: if_splits option.splits)
    then show ?thesis using same nt by simp
  next
    case (refuse_begin i r)
    have "rt_frame w' = rt_frame w \<and> (rt_terminal (w_rt w) \<noteq> [] \<longrightarrow> \<not> rt_terminating (w_rt w'))"
      using refuse_begin nt by (auto simp: refusal_begin_def rt_frame_def upd_rt_def rt_core_def rt_ended_def split: if_splits)
    then show ?thesis using same by simp
  next
    case (refuse_commit es calls reason est deadline r)
    then show ?thesis using refusal_ok [OF ok] by simp
  next
    case (readers feed)
    then show ?thesis using same nt flags_core [OF feed_client_flags] by (simp add: upd_frame upd_rt_sel)
  next
    case (pool p)
    then show ?thesis using same nt by (simp add: rt_frame_def)
  next
    case shutdown
    then show ?thesis using same nt by (simp add: upd_frame upd_rt_sel)
  next
    case (journal j)
    then show ?thesis using ok_journal [OF ok] by simp
  }
qed

lemma rt_step_ok:
  assumes "rt_step sv jn jinv jlog w w'" and ok: "w_ok w"
  shows "w_ok w'"
  using assms(1)
proof cases
  case section_step
  then show ?thesis using rt_section_ok ok by blast
next
  case (dispatch r)
  then show ?thesis using ok
    by (intro ok_frame [OF ok]) (auto simp: markAttemptDispatched_def Let_def rt_frame_def upd_rt_def rt_core_def w_ok_def rt_ok_def split: if_splits)
qed

lemma rt_run_ok: "rt_run sv jn jinv jlog w \<Longrightarrow> w_ok w"
proof (induction rule: rt_run.induct)
  case (run_start w)
  then obtain sid normalized policy endpoint lease now where s: "w_rt w = newRuntime sv sid normalized policy endpoint lease now"
    "jinv (w_journal w)" "length (jlog (w_journal w) sid) = 1" "w_sent w = []" unfolding rt_start_def by blast
  obtain e where "jlog (w_journal w) sid = [e]" using s(3) by (cases "jlog (w_journal w) sid") auto
  then show ?case using s by (simp add: w_ok_def rt_ok_def newRuntime_def newDegradedFeed_def relayed_def)
next
  case (run_step w w')
  then show ?case using rt_step_ok by blast
qed

end

end
