(* ===== verification/Payload_Text.thy ===== *)
theory Payload_Text
  imports Runtime_Invariant
begin

text \<open>
  The payloads the runtime writes are valid JSON objects, so that the last frame of a stream can always be built: a
  stream that is asked to end does end, also when every call of the journal fails.
\<close>

section \<open>Texts that parse\<close>

text \<open>A text that parses in front of a comma or a closing brace, with fuel and depth \<open>k\<close>.\<close>

definition parses_text :: "nat \<Rightarrow> bytes \<Rightarrow> bool" where
  "parses_text k t \<longleftrightarrow> utf8_valid t \<and> (\<forall>r. skipWhitespace (t @ r) = t @ r)
     \<and> (\<forall>n d c r. k \<le> n \<and> d + k \<le> maxNestingDepth \<and> (c = CHR '','' \<or> c = CHR ''}'') \<longrightarrow> (\<exists>v. json_value n d (t @ c # r) = Some (v, c # r)))"

lemma parses_textD:
  assumes "parses_text k t"
  shows "utf8_valid t" and "skipWhitespace (t @ r) = t @ r"
    and "k \<le> n \<Longrightarrow> d + k \<le> maxNestingDepth \<Longrightarrow> c = CHR '','' \<or> c = CHR ''}'' \<Longrightarrow> \<exists>v. json_value n d (t @ c # r) = Some (v, c # r)"
  using assms unfolding parses_text_def by blast+

text \<open>Any bytes marshal to a valid string, since the encoder replaces what is not UTF-8.\<close>

lemma quote_body_parses:
  "utf8_valid (quote_body s) \<and> scan_string (quote_body s @ QUOTE # r) = Some (quote_body s, r)"
proof (induction s rule: length_induct)
  case (1 s)
  show ?case
  proof (cases s)
    case (Cons c cs)
    have tail: "utf8_valid (quote_body t)" "scan_string (quote_body t @ QUOTE # r) = Some (quote_body t, r)" if "length t \<le> length cs" for t
      using 1 that Cons by (simp_all add: less_Suc_eq_le)
    consider (ascii) "bv c < 0x80" | (bad) "\<not> bv c < 0x80" "rune_size s = 1" | (good) "rune_size s \<noteq> 1" by blast
    then show ?thesis
    proof cases
      case ascii
      then show ?thesis using tail [of cs] by (simp add: Cons quote_body_eqs quote_byte_valid utf8_valid_concat scan_quote_byte)
    next
      case bad
      then have "decode_rune s = (RuneError, 1)" by (auto simp: Cons decode_rune.simps(2) split: option.splits if_splits prod.splits)
      then have "quote_body s = BACKSLASH # ''ufffd'' @ quote_body cs" using bad quote_body.simps [of s] by (simp add: Cons)
      moreover have "utf8_valid ((BACKSLASH # ''ufffd'') @ quote_body cs)" by (rule utf8_valid_concat [OF utf8_valid_all_ascii tail(1)]) simp_all
      ultimately show ?thesis using tail [of cs] by (simp add: is_hex4_digits isHex_def)
    next
      case good
      let ?r = "take (rune_size s) s" and ?t = "drop (rune_size s) s"
      have e: "rune_enc ?r" "length ?r \<noteq> 1" using rune_enc_take [of s] good rune_size_le [of s] Cons by auto
      have "length ?t \<le> length cs" using rune_size_pos [of s] Cons by simp
      moreover have "quote_body s = quote_rune ?r @ quote_body ?t" using quote_body_rune [OF e, of ?t] by simp
      ultimately show ?thesis using tail [of ?t] e by (simp add: quote_rune_valid utf8_valid_concat quote_rune_roundtrip(2))
    qed
  qed (simp add: quote_body_eqs)
qed

lemma parses_text_string: "parses_text 1 (marshal_string s)"
proof -
  have "utf8_valid (marshal_string s)" using utf8_valid_concat [of "quote_body s" "[QUOTE]"] quote_body_parses [of s] by (simp add: marshal_string_def)
  moreover have "\<exists>v. json_value n d (marshal_string s @ r) = Some (v, r)" if "1 \<le> n" for n d r
    using that quote_body_parses [of s r] by (cases n) (simp_all add: json_value.simps scan_scalar_def marshal_string_def)
  ultimately show ?thesis unfolding parses_text_def by (simp add: marshal_string_def skipWhitespace_def isWhitespace_def)
qed

lemma parses_text_literal:
  "parses_text 1 (field_text None)" "parses_text 1 (bool_text b)"
  by (auto simp: parses_text_def field_text_def bool_text_def skipWhitespace_def isWhitespace_def Suc_le_eq gr0_conv_Suc json_value.simps scan_scalar_def
      scan_literal_def)

lemma parses_text_field: "parses_text 1 (field_text v)"
  using parses_text_string parses_text_literal(1) by (cases v) (auto simp: field_text_def)

lemma parses_text_dec: "parses_text 1 (append_dec n)"
proof -
  let ?s = "append_dec n"
  have d: "list_all isDigit ?s" "list_all (\<lambda>c. bv c < 0x80) ?s"
    using append_dec_props [of n] by (auto simp: list_all_iff dec_digit_def isDigit_def)
  obtain x xs where s: "?s = x # xs" using append_dec_props [of n] by (cases ?s) auto
  have x: "isDigit x" using d(1) by (simp add: s)
  then have nx: "x \<noteq> CHR ''-''" "x \<noteq> QUOTE" "x \<noteq> CHR ''t''" "x \<noteq> CHR ''f''" "x \<noteq> CHR ''n''" "x \<noteq> CHR ''{''" "x \<noteq> CHR ''[''" "\<not> isWhitespace x"
    by (auto simp: isDigit_def isWhitespace_def)
  have z: "xs = []" if "x = CHR ''0''"
  proof (cases "n = 0")
    case True
    then show ?thesis using s by (simp add: append_dec.simps [of 0])
  next
    case False
    then show ?thesis using append_dec_head [of n] s that by simp
  qed
  have p: "parseNumber (?s @ c # r) = (c # r, jsonPrefixComplete)" if c: "c = CHR '','' \<or> c = CHR ''}''" for c r
  proof -
    have nc: "\<not> isDigit c" "c \<noteq> CHR ''.''" "c \<noteq> CHR ''e''" "c \<noteq> CHR ''E''" using c by (auto simp: isDigit_def)
    have dw: "dropWhile isDigit (?s @ c # r) = c # r" using d(1) nc(1) by (simp add: dropWhile_append list_all_iff)
    show ?thesis
    proof (cases "x = CHR ''0''")
      case True
      then show ?thesis using z nc nx by (simp add: parseNumber_def number_integer_def number_fraction_def number_exponent_def s)
    next
      case False
      then show ?thesis using x dw nc nx by (simp add: parseNumber_def number_integer_def number_fraction_def number_exponent_def s)
    qed
  qed
  have "\<exists>v. json_value m depth (?s @ c # r) = Some (v, c # r)" if "1 \<le> m" "c = CHR '','' \<or> c = CHR ''}''" for m depth c r
    using that(1) p [OF that(2), of r] x nx by (cases m) (simp_all add: json_value.simps scan_scalar_def s)
  moreover have "skipWhitespace (?s @ r) = ?s @ r" for r using nx by (simp add: s skipWhitespace_def)
  moreover have "utf8_valid ?s" using d(2) by (rule utf8_valid_all_ascii)
  ultimately show ?thesis unfolding parses_text_def by blast
qed

lemma members_parse_texts:
  assumes "list_all (\<lambda>(k, t). utf8_valid k \<and> parses_text m t) kvs" and "kvs \<noteq> []" and "length kvs + m \<le> n" and "d + m \<le> maxNestingDepth"
  shows "\<exists>ms. json_members n d (json_members_text kvs @ CHR ''}'' # r) = Some (ms, r)"
  using assms
proof (induction kvs arbitrary: n rule: json_members_text.induct)
  case (2 k t)
  then obtain n' where n: "n = Suc n'" by (cases n) auto
  have t: "parses_text m t" and k: "utf8_valid k" using "2.prems"(1) by simp_all
  obtain v where v: "json_value n' d (t @ CHR ''}'' # r) = Some (v, CHR ''}'' # r)"
    using parses_textD(3) [OF t, of n' d "CHR ''}''" r] "2.prems" n by auto
  show ?case
    using v parses_textD(2) [OF t, of "CHR ''}'' # r"] by (simp add: n json_members.simps scan_key_marshal [OF k] scan_next_def skipWhitespace_def isWhitespace_def)
next
  case (3 k t kv kvs)
  then obtain n' where n: "n = Suc n'" by (cases n) auto
  have t: "parses_text m t" and k: "utf8_valid k" using "3.prems"(1) by simp_all
  let ?t = "json_members_text (kv # kvs) @ CHR ''}'' # r"
  obtain v where v: "json_value n' d (t @ CHR '','' # ?t) = Some (v, CHR '','' # ?t)"
    using parses_textD(3) [OF t, of n' d "CHR '',''" ?t] "3.prems" n by auto
  obtain ms where ms: "json_members n' d ?t = Some (ms, r)" using "3.IH" [of n'] "3.prems" n by auto
  have nx: "scan_next (CHR ''}'') (CHR '','' # ?t) = Some (Inr ?t)"
    by (cases "kv # kvs" rule: json_members_text.cases) (auto simp: scan_next_def skipWhitespace_def isWhitespace_def marshal_string_def)
  show ?case
    using v parses_textD(2) [OF t, of "CHR '','' # ?t"] ms nx by (simp add: n json_members.simps(2) [of n' d "marshal_string k @ _"] scan_key_marshal [OF k])
qed simp

lemma members_text_utf8: "list_all (\<lambda>(k, t). utf8_valid k \<and> parses_text m t) kvs \<Longrightarrow> utf8_valid (json_members_text kvs)"
  by (induction kvs rule: json_members_text.induct) (auto simp: marshal_string_valid utf8_valid_concat dest: parses_textD(1))

lemma object_value:
  assumes "list_all (\<lambda>(k, t). utf8_valid k \<and> parses_text m t) kvs" and "kvs \<noteq> []" and "length kvs + m < n" and "d + m < maxNestingDepth"
  shows "\<exists>v. json_value n d (json_object_text kvs @ r) = Some (v, r)"
proof -
  obtain n' where n: "n = Suc n'" using assms(3) by (cases n) auto
  obtain ms where ms: "json_members n' (Suc d) (json_members_text kvs @ CHR ''}'' # r) = Some (ms, r)"
    using members_parse_texts [OF assms(1,2), of n' "Suc d" r] assms(3,4) n by auto
  have hd: "skipWhitespace (json_members_text kvs @ CHR ''}'' # r) = json_members_text kvs @ CHR ''}'' # r"
    "json_members_text kvs @ CHR ''}'' # r \<noteq> [] \<and> hd (json_members_text kvs @ CHR ''}'' # r) = QUOTE"
    using assms(2) by (cases kvs rule: json_members_text.cases; simp add: marshal_string_def skipWhitespace_def isWhitespace_def)+
  then show ?thesis using ms assms(4) by (simp add: n json_value.simps json_object_text_def)
qed

lemma parses_text_object:
  assumes "list_all (\<lambda>(k, t). utf8_valid k \<and> parses_text m t) kvs" and "kvs \<noteq> []"
  shows "parses_text (Suc (length kvs + m)) (json_object_text kvs)"
  using object_value [OF assms] members_text_utf8 [OF assms(1)]
  by (auto simp: parses_text_def json_object_text_def utf8_valid_concat skipWhitespace_def isWhitespace_def)

lemma object_downstream:
  assumes "list_all (\<lambda>(k, t). utf8_valid k \<and> parses_text m t) kvs" and "kvs \<noteq> []" and "m + length kvs \<le> length (json_members_text kvs)" and "m < maxNestingDepth"
    and "e_Kind e \<noteq> KindChunk" and "e_Payload e = json_object_text kvs"
  shows "downstreamPayload e = Inr (e_Payload e)"
proof -
  let ?s = "json_object_text kvs"
  have tr: "trim_space ?s = ?s" by (rule trim_braces) (simp_all add: json_object_text_def)
  have sk: "skipWhitespace ?s = ?s" by (simp add: json_object_text_def skipWhitespace_def isWhitespace_def)
  obtain v where "json_value (Suc (2 * length ?s)) 0 (?s @ []) = Some (v, [])"
    using object_value [OF assms(1,2), of "Suc (2 * length ?s)" 0 "[]"] assms(3,4) by (auto simp: json_object_text_def)
  then have "json_valid ?s" using sk by (simp add: json_valid_def json_parse_def json_first_def skipWhitespace_def)
  moreover have "utf8_valid ?s" using members_text_utf8 [OF assms(1)] by (simp add: json_object_text_def utf8_valid_concat)
  ultimately show ?thesis using tr assms(5,6) by (simp add: downstreamPayload_def Let_def) (simp add: json_object_text_def)
qed

lemma parses_text_mono: "parses_text k t \<Longrightarrow> k \<le> m \<Longrightarrow> parses_text m t"
  by (auto simp: parses_text_def)

lemma parses_text_usage: "parses_text 6 (usage_text u)"
  using parses_text_object [of 1 "[(''prompt_tokens'', append_dec (u_PromptTokens u)), (''completion_tokens'', append_dec (u_CompletionTokens u)),
      (''total_tokens'', append_dec (u_TotalTokens u)), (''estimated'', bool_text (u_Estimated u))]"]
  by (simp add: usage_text_def parses_text_dec [unfolded One_nat_def] parses_text_literal [unfolded One_nat_def] utf8_valid_all_ascii eval_nat_numeral)

lemmas parses_texts = parses_text_mono [OF parses_text_string] parses_text_mono [OF parses_text_literal(2)] parses_text_mono [OF parses_text_usage]

lemma error_payload_downstream:
  assumes "e_Kind e \<noteq> KindChunk" and "e_Payload e = error_payload code message reason usage"
  shows "downstreamPayload e = Inr (e_Payload e)"
  by (rule object_downstream [of 6, OF _ _ _ _ assms(1) assms(2) [unfolded error_payload_def]])
    (simp_all add: parses_texts utf8_valid_all_ascii maxNestingDepth_def, simp_all add: marshal_string_def usage_text_def json_object_text_def)

lemma stopped_payload_downstream:
  assumes "e_Kind e \<noteq> KindChunk" and "e_Payload e = stopped_payload partialText usage"
  shows "downstreamPayload e = Inr (e_Payload e)"
  by (rule object_downstream [of 6, OF _ _ _ _ assms(1) assms(2) [unfolded stopped_payload_def]])
    (simp_all add: parses_texts utf8_valid_all_ascii maxNestingDepth_def, simp_all add: marshal_string_def usage_text_def json_object_text_def)

section \<open>Ending a stream succeeds\<close>

lemma entry_frame:
  assumes "kind = KindError \<or> kind = KindStopped"
    and "downstreamPayload \<lparr>e_Seq = 1, e_TS = 0, e_Kind = kind, e_Payload = payload, e_Err = None\<rparr> = Inr payload"
  shows "\<exists>f. degradedTerminalFrame kind payload = Inr f"
proof -
  have "\<exists>m. journalSSEMappings kind = Some m" "kind \<noteq> KindDone" using assms(1) by (auto simp: journalSSEMappings_def kind_defs)
  then show ?thesis using assms(2) by (auto simp: degradedTerminalFrame_def degradedEntryFrame_def)
qed

lemma terminal_frames:
  "\<exists>f. degradedTerminalFrame KindDone payload = Inr f"
  "\<exists>f. degradedTerminalFrame KindError (error_payload code message reason usage) = Inr f"
  "\<exists>f. degradedTerminalFrame KindStopped (stopped_payload partialText usage) = Inr f"
proof -
  have k: "KindError \<noteq> KindChunk" "KindStopped \<noteq> KindChunk" by (simp_all add: kind_defs)
  show "\<exists>f. degradedTerminalFrame KindDone payload = Inr f" by (simp add: degradedTerminalFrame_def)
  show "\<exists>f. degradedTerminalFrame KindError (error_payload code message reason usage) = Inr f"
    using k error_payload_downstream [of "\<lparr>e_Seq = 1, e_TS = 0, e_Kind = KindError, e_Payload = error_payload code message reason usage, e_Err = None\<rparr>"]
    by (intro entry_frame) simp_all
  show "\<exists>f. degradedTerminalFrame KindStopped (stopped_payload partialText usage) = Inr f"
    using k stopped_payload_downstream [of "\<lparr>e_Seq = 1, e_TS = 0, e_Kind = KindStopped, e_Payload = stopped_payload partialText usage, e_Err = None\<rparr>"]
    by (intro entry_frame) simp_all
qed

text \<open>
  The world after a successful terminal transition: what the runtime says, the lease given back to the pool, the feed
  closed, and the last frames relayed. The terminal entry is relayed if it was committed; otherwise its frame is,
  behind the warning if the stream degraded only now.
\<close>

definition settled_as :: "EntryKind \<Rightarrow> stopResponse option \<Rightarrow> 'j world \<Rightarrow> 'j world \<Rightarrow> bool" where
  "settled_as kind stopResult w w' \<longleftrightarrow> rt_terminal (w_rt w') = kind \<and> rt_stopResult (w_rt w') = stopResult \<and> \<not> rt_terminating (w_rt w')
     \<and> rt_done (w_rt w') = Suc (rt_done (w_rt w)) \<and> fd_closed (rt_degradedFeed (w_rt w')) \<and> rt_currentLease (w_rt w') = None
     \<and> w_pool w' = (case rt_currentLease (w_rt w) of None \<Rightarrow> w_pool w | Some l \<Rightarrow> snd (lease_Release l (w_pool w)))"

definition ended_as :: "EntryKind \<Rightarrow> bytes \<Rightarrow> stopResponse option \<Rightarrow> 'j world \<Rightarrow> 'j world \<Rightarrow> bool" where
  "ended_as kind payload stopResult w w' \<longleftrightarrow> settled_as kind stopResult w w'
     \<and> (\<exists>f. degradedTerminalFrame kind payload = Inr f
          \<and> w_sent w' = w_sent w @
              (if \<not> rt_degraded (w_rt w') then [committed_frame ((new_entry kind payload)\<lparr>e_Seq := rt_lastSeq (w_rt w) + 1\<rparr>)]
               else if rt_degraded (w_rt w) then [f] else [degradedWarningFrame, f]))"

text \<open>What a terminal transition reads of the runtime, and the state of the feed an open stream has.\<close>

definition rt_hold :: "streamRuntime \<Rightarrow> _" where
  "rt_hold rt = (rt_currentLease rt, rt_done rt, rt_degraded rt, rt_degradedFeed rt, rt_lastSeq rt)"

definition feed_ready :: "streamRuntime \<Rightarrow> bool" where
  "feed_ready rt \<longleftrightarrow> fd_active (rt_degradedFeed rt) = rt_degraded rt \<and> \<not> fd_closed (rt_degradedFeed rt)"

lemma settle_effect:
  "rt_terminal (w_rt (settle_terminal kind stopResult w)) = kind" "rt_stopResult (w_rt (settle_terminal kind stopResult w)) = stopResult"
  "\<not> rt_terminating (w_rt (settle_terminal kind stopResult w))" "rt_done (w_rt (settle_terminal kind stopResult w)) = Suc (rt_done (w_rt w))"
  "rt_currentLease (w_rt (settle_terminal kind stopResult w)) = None" "rt_degradedFeed (w_rt (settle_terminal kind stopResult w)) = rt_degradedFeed (w_rt w)"
  "rt_degraded (w_rt (settle_terminal kind stopResult w)) = rt_degraded (w_rt w)" "w_sent (settle_terminal kind stopResult w) = w_sent w"
  "w_pool (settle_terminal kind stopResult w) = (case rt_currentLease (w_rt w) of None \<Rightarrow> w_pool w | Some l \<Rightarrow> snd (lease_Release l (w_pool w)))"
  by (simp_all add: settle_terminal_def upd_rt_def) (simp add: release_lease_def split: option.split)

lemma cancel_hold: "rt_hold (rt_cancel cause (rt\<lparr>rt_terminating := t\<rparr>)) = rt_hold rt"
  by (simp add: rt_hold_def rt_cancel_def)

lemma signal_hold: "rt_hold (signalJournalDegradedTerminal sv rt) = rt_hold rt"
  by (simp add: rt_hold_def signalJournalDegradedTerminal_def startJournalDegradedLease_def)

lemma degraded_end:
  assumes f: "degradedTerminalFrame kind payload = Inr f" and a: "fd_active (rt_degradedFeed (w_rt w))" "\<not> fd_closed (rt_degradedFeed (w_rt w))"
  obtains w' where "finishDegradedLocked sv kind payload stopResult w = (None, w')" "settled_as kind stopResult w w'" "w_sent w' = w_sent w @ [f]"
    "rt_degraded (w_rt w') = rt_degraded (w_rt w)"
proof -
  define w0 where "w0 = upd_rt (signalJournalDegradedTerminal sv) w"
  define w1 where "w1 = settle_terminal kind stopResult w0"
  have "rt_hold (w_rt w0) = rt_hold (w_rt w)" "w_pool w0 = w_pool w" "w_sent w0 = w_sent w" by (simp_all add: w0_def upd_rt_def signal_hold)
  then have w0: "rt_currentLease (w_rt w0) = rt_currentLease (w_rt w)" "rt_done (w_rt w0) = rt_done (w_rt w)" "rt_degraded (w_rt w0) = rt_degraded (w_rt w)"
    "rt_degradedFeed (w_rt w0) = rt_degradedFeed (w_rt w)" "w_pool w0 = w_pool w" "w_sent w0 = w_sent w" by (simp_all add: rt_hold_def)
  obtain x w2 where rl: "relay_append (sv_rootContext sv) [f] w1 = (x, w2)" by fastforce
  obtain feed where feed: "w2 = (upd_rt (\<lambda>rt. rt\<lparr>rt_degradedFeed := feed\<rparr>) w1)\<lparr>w_sent := w_sent w1 @ [f]\<rparr>"
    using relay_append_effect [OF rl] a w0 by (metis w1_def settle_effect(6))
  have c: "fd_closed (feed_close feed)" using feed_close_flags [of feed] by (simp add: feed_flags_def)
  have "finishDegradedLocked sv kind payload stopResult w = (None, relay_close w2)"
    using f rl by (simp add: finishDegradedLocked_def w1_def w0_def Let_def)
  then show thesis
    by (rule that) (use c w0 settle_effect [of kind stopResult w0] in \<open>simp_all add: settled_as_def feed relay_close_def upd_rt_def flip: w1_def cong: option.case_cong\<close>)
qed

lemma enter_effect:
  assumes "\<not> rt_degraded (w_rt w)" "\<not> fd_active (rt_degradedFeed (w_rt w))" "\<not> fd_closed (rt_degradedFeed (w_rt w))"
  obtains w' where "enterJournalDegradedLocked sv [] w = w'" "fd_active (rt_degradedFeed (w_rt w'))" "\<not> fd_closed (rt_degradedFeed (w_rt w'))"
    "rt_degraded (w_rt w')" "w_sent w' = w_sent w @ [degradedWarningFrame]" "w_pool w' = w_pool w" "rt_currentLease (w_rt w') = rt_currentLease (w_rt w)"
    "rt_done (w_rt w') = rt_done (w_rt w)"
proof -
  define w1 where "w1 = upd_rt (\<lambda>rt. startJournalDegradedLease sv (rt\<lparr>rt_degraded := True\<rparr>)) w"
  have w1: "rt_degradedFeed (w_rt w1) = rt_degradedFeed (w_rt w)" "w_sent w1 = w_sent w" "w_pool w1 = w_pool w" "rt_degraded (w_rt w1)"
    "rt_done (w_rt w1) = rt_done (w_rt w)" "rt_currentLease (w_rt w1) = rt_currentLease (w_rt w)"
    by (simp_all add: w1_def upd_rt_def startJournalDegradedLease_def)
  obtain x w' where r: "relay_activate (rt_context (w_rt w1)) (rt_lastSeq (w_rt w)) [degradedWarningFrame] w1 = (x, w')" by fastforce
  obtain feed where feed: "feed_flags feed = (True, False, rt_lastSeq (w_rt w))"
    "w' = (upd_rt (\<lambda>rt. rt\<lparr>rt_degradedFeed := feed\<rparr>) w1)\<lparr>w_sent := w_sent w1 @ [degradedWarningFrame]\<rparr>"
    using relay_activate_effect [OF r] assms(2,3) w1(1) by metis
  have "enterJournalDegradedLocked sv [] w = w'" using assms(1) r by (simp add: enterJournalDegradedLocked_def w1_def Let_def)
  then show thesis by (rule that) (use feed w1 in \<open>simp_all add: upd_rt_def feed_flags_def\<close>)
qed

lemma committed_end:
  assumes w': "w' = publishFirst e (relay_close (snd (relay_committed ctx e (settle_terminal kind stopResult (upd_rt (\<lambda>rt. rt\<lparr>rt_lastSeq := n\<rparr>) w)))))"
  shows "settled_as kind stopResult w w'" and "w_sent w' = w_sent w @ [committed_frame e]" and "rt_degraded (w_rt w') = rt_degraded (w_rt w)"
proof -
  define w0 where "w0 = upd_rt (\<lambda>rt. rt\<lparr>rt_lastSeq := n\<rparr>) w"
  define w1 where "w1 = settle_terminal kind stopResult w0"
  have w0: "rt_currentLease (w_rt w0) = rt_currentLease (w_rt w)" "rt_done (w_rt w0) = rt_done (w_rt w)" "rt_degraded (w_rt w0) = rt_degraded (w_rt w)"
    "w_pool w0 = w_pool w" "w_sent w0 = w_sent w" by (simp_all add: w0_def upd_rt_def)
  obtain x w2 where rl: "relay_committed ctx e w1 = (x, w2)" by fastforce
  obtain feed where feed: "w2 = (upd_rt (\<lambda>rt. rt\<lparr>rt_degradedFeed := feed\<rparr>) w1)\<lparr>w_sent := w_sent w1 @ [committed_frame e]\<rparr>"
    using relay_committed_effect [OF rl] by metis
  have c: "fd_closed (feed_close feed)" using feed_close_flags [of feed] by (simp add: feed_flags_def)
  have w': "w' = publishFirst e (relay_close w2)" using rl by (simp add: w' w1_def w0_def)
  show "settled_as kind stopResult w w'" "w_sent w' = w_sent w @ [committed_frame e]" "rt_degraded (w_rt w') = rt_degraded (w_rt w)"
    using c w0 settle_effect [of kind stopResult w0]
    by (simp_all add: w' settled_as_def feed relay_close_def publishFirst_def upd_rt_def flip: w1_def split: option.split)
qed

lemma end_succeeds:
  assumes "\<not> rt_ended (w_rt w)" and "guard (w_rt w)" and ready: "feed_ready (w_rt w)"
    and hold: "\<And>rt. rt_hold (fst (build rt)) = rt_hold rt"
    and snd: "snd (build (rt_cancel cause ((w_rt w)\<lparr>rt_terminating := True\<rparr>))) = (payload, stopResult)"
    and frame: "\<exists>f. degradedTerminalFrame kind payload = Inr f"
  shows "\<exists>w'. closeTerminalUntil sv jn call kind cause guard deadline build w = (None, w') \<and> ended_as kind payload stopResult w w'"
proof -
  define rt where "rt = fst (build (rt_cancel cause ((w_rt w)\<lparr>rt_terminating := True\<rparr>)))"
  have b: "build (rt_cancel cause ((w_rt w)\<lparr>rt_terminating := True\<rparr>)) = (rt, payload, stopResult)" by (simp add: rt_def prod_eq_iff snd)
  have h: "rt_hold rt = rt_hold (w_rt w)" by (simp add: rt_def hold cancel_hold)
  obtain f where f: "degradedTerminalFrame kind payload = Inr f" using frame by blast
  let ?w = "w\<lparr>w_rt := rt\<rparr>"
  have rt: "rt_currentLease rt = rt_currentLease (w_rt w)" "rt_done rt = rt_done (w_rt w)" "rt_degraded rt = rt_degraded (w_rt w)"
    "rt_degradedFeed rt = rt_degradedFeed (w_rt w)" "rt_lastSeq rt = rt_lastSeq (w_rt w)" using h by (simp_all add: rt_hold_def)
  obtain x j where j: "jn_Close jn (boundedContext (cl_now call) (cl_polls call) (sv_ReadinessTimeout sv) deadline) (rt_id rt) (new_entry kind payload) (cl_commit call) (w_journal w) = (x, j)"
    by fastforce
  consider (degraded) "rt_degraded rt" | (failed) y where "\<not> rt_degraded rt" "x = Some y" | (closed) "\<not> rt_degraded rt" "x = None" by (cases x) auto
  then show ?thesis
  proof cases
    case degraded
    obtain w' where "finishDegradedLocked sv kind payload stopResult ?w = (None, w')" "settled_as kind stopResult ?w w'" "w_sent w' = w_sent ?w @ [f]"
      "rt_degraded (w_rt w') = rt_degraded (w_rt ?w)" using degraded_end [OF f, of ?w sv stopResult] ready degraded rt by (auto simp: feed_ready_def)
    then show ?thesis using assms(1,2) b degraded f rt by (simp add: closeTerminalUntil_def Let_def ended_as_def settled_as_def cong: option.case_cong)
  next
    case failed
    obtain w1 where w1: "enterJournalDegradedLocked sv [] (?w\<lparr>w_journal := j\<rparr>) = w1" "fd_active (rt_degradedFeed (w_rt w1))" "\<not> fd_closed (rt_degradedFeed (w_rt w1))"
      "rt_degraded (w_rt w1)" "w_sent w1 = w_sent w @ [degradedWarningFrame]" "w_pool w1 = w_pool w" "rt_currentLease (w_rt w1) = rt_currentLease (w_rt w)"
      "rt_done (w_rt w1) = rt_done (w_rt w)"
      using enter_effect [of "?w\<lparr>w_journal := j\<rparr>" sv] ready failed rt by (auto simp: feed_ready_def)
    obtain w' where "finishDegradedLocked sv kind payload stopResult w1 = (None, w')" "settled_as kind stopResult w1 w'" "w_sent w' = w_sent w1 @ [f]"
      "rt_degraded (w_rt w') = rt_degraded (w_rt w1)" using degraded_end [OF f w1(2,3)] by metis
    then show ?thesis using assms(1,2) b failed f rt j w1 by (simp add: closeTerminalUntil_def Let_def ended_as_def settled_as_def cong: option.case_cong)
  next
    case closed
    define e where "e = (new_entry kind payload)\<lparr>e_Seq := rt_lastSeq (w_rt w) + 1\<rparr>"
    define w' where "w' = publishFirst e (relay_close (snd (relay_committed (sv_rootContext sv) e
        (settle_terminal kind stopResult (upd_rt (\<lambda>rt. rt\<lparr>rt_lastSeq := rt_lastSeq (w_rt w) + 1\<rparr>) (?w\<lparr>w_journal := j\<rparr>))))))"
    have "closeTerminalUntil sv jn call kind cause guard deadline build w = (None, w')"
      using assms(1,2) b closed j rt by (simp add: closeTerminalUntil_def Let_def e_def w'_def)
    then show ?thesis using closed f rt committed_end [OF w'_def] by (simp add: ended_as_def settled_as_def e_def cong: option.case_cong)
  qed
qed

lemma build_hold:
  "rt_hold (fst (build_done fallback rt)) = rt_hold rt" "rt_hold (fst (build_error code message reason rt)) = rt_hold rt"
  "rt_hold (fst (build_stopped rt)) = rt_hold rt"
  by (simp_all add: rt_hold_def build_done_def build_error_def build_stopped_def Let_def split: prod.split)

lemma cancel_sel: "rt_progress (rt_cancel cause rt) = rt_progress rt" "rt_id (rt_cancel cause rt) = rt_id rt" "rt_finishReason (rt_cancel cause rt) = rt_finishReason rt"
  by (simp_all add: rt_cancel_def)

abbreviation rt_usage :: "streamRuntime \<Rightarrow> tokenUsage" where
  "rt_usage rt \<equiv> snd (progress_Snapshot (rt_progress rt))"

lemma done_succeeds:
  assumes "\<not> rt_ended (w_rt w)" and "feed_ready (w_rt w)"
  shows "\<exists>w'. finishDoneUntil sv jn call deadline reason w = (None, w')
    \<and> ended_as KindDone (done_payload (if rt_finishReason (w_rt w) = [] then reason else rt_finishReason (w_rt w)) (rt_usage (w_rt w))) None w w'"
  unfolding finishDoneUntil_def
  by (rule end_succeeds [OF assms(1) TrueI assms(2) build_hold(1) _ terminal_frames(1)]) (simp add: build_done_def Let_def cancel_sel)

lemma error_succeeds:
  assumes "\<not> rt_ended (w_rt w)" and "guard (w_rt w)" and "feed_ready (w_rt w)"
  shows "\<exists>w'. closeTerminalUntil sv jn call KindError cause guard deadline (build_error code message reason) w = (None, w')
    \<and> ended_as KindError (error_payload code message reason (rt_usage (w_rt w))) None w w'"
  by (rule end_succeeds [OF assms(1) _ assms(3) build_hold(2) _ terminal_frames(2)]) (simp_all add: build_error_def cancel_sel assms(2))

text \<open>The answer to a stop.\<close>

definition stop_answer :: "streamRuntime \<Rightarrow> stopResponse" where
  "stop_answer rt = \<lparr>st_StreamID = rt_id rt, st_Outcome = ''stopped'', st_PartialText = fst (progress_Snapshot (rt_progress rt)), st_Usage = rt_usage rt\<rparr>"

lemma stop_succeeds:
  assumes "\<not> rt_ended (w_rt w)" and "feed_ready (w_rt w)"
  shows "\<exists>w'. stop_close sv jn call w = (None, w') \<and> \<not> rt_stopRequested (w_rt w')
    \<and> ended_as KindStopped (stopped_payload (fst (progress_Snapshot (rt_progress (w_rt w)))) (rt_usage (w_rt w))) (Some (stop_answer (w_rt w))) w w'"
proof -
  have "\<exists>w'. closeTerminalUntil sv jn call KindStopped ''stream explicitly stopped'' (\<lambda>_. True) 0 build_stopped w = (None, w')
    \<and> ended_as KindStopped (stopped_payload (fst (progress_Snapshot (rt_progress (w_rt w)))) (rt_usage (w_rt w))) (Some (stop_answer (w_rt w))) w w'"
    by (rule end_succeeds [OF assms(1) TrueI assms(2) build_hold(3) _ terminal_frames(3)])
       (simp add: build_stopped_def cancel_sel stop_answer_def split: prod.split)
  then show ?thesis by (auto simp: stop_close_def ended_as_def settled_as_def upd_rt_def)
qed

text \<open>A runtime just opened, for the examples.\<close>

definition demoService :: durableService where
  "demoService = \<lparr>sv_ReadinessTimeout = 10, sv_DegradationMarker = False, sv_ReaderMaxLagBytes = 500, sv_rootContext = quietContext\<rparr>"

definition demoRuntime :: streamRuntime where
  "demoRuntime = newRuntime demoService demoId \<lparr>nr_Body = ''{}'', nr_Model = ''m'', nr_Stream = True\<rparr> demoPolicy ''/v1/completions''
     \<lparr>le_record = 0, le_id = 1, le_owner = demoId, le_backend = stateLocked (demoRecord ''a'') 0, le_released = False\<rparr> 0"

definition demoCall :: journal_call where
  "demoCall = \<lparr>cl_now = 0, cl_polls = (\<lambda>_. 0), cl_commit = 0\<rparr>"


text \<open>The journal fails every call: the stream ends degraded, with the warning and the sentinel relayed and its lease back in the pool.\<close>

definition failingJournal :: "unit Journal" where
  "failingJournal = \<lparr>jn_Append = \<lambda>ctx sid e now j. (Inl ErrCapacity, j), jn_Close = \<lambda>ctx sid e now j. (Some ErrCapacity, j)\<rparr>"

definition leasedPool :: Pool where
  "leasedPool = demoPool\<lparr>p_store := [(demoRecord ''a'')\<lparr>r_leases := [(1, demoId)]\<rparr>, demoRecord ''b'']\<rparr>"


end
