(* ===== verification/Runtime_Contract.thy ===== *)
theory Runtime_Contract
  imports Payload_Text
begin

text \<open>
  What the runtime promises on the memory journal: the sequence numbers it hands out are the journal's, attached
  readers are relayed exactly what was committed, a stream ends once and stays ended, and a request to end it
  succeeds whatever the journal does.
\<close>

section \<open>The memory journal obeys the contract\<close>

text \<open>The journal together with the log of everything ever committed, which the refinement of the memory journal keeps.\<close>

definition memJournal :: "(Memory \<times> history) Journal" where
  "memJournal =
     \<lparr>jn_Append = (\<lambda>ctx sid e now (m, h). case mem_Append ctx sid e now m of
         (r, m') \<Rightarrow> (r, m', case r of Inr _ \<Rightarrow> logged h sid e now | Inl _ \<Rightarrow> h)),
      jn_Close = (\<lambda>ctx sid e now (m, h). case mem_Close ctx sid e now m of
         (r, m') \<Rightarrow> (r, m', if r = None then logged h sid e now else h))\<rparr>"

definition mem_reached :: "Memory \<times> history \<Rightarrow> bool" where
  "mem_reached = (\<lambda>(m, h). \<exists>config. reach config m h)"

definition mem_log :: "Memory \<times> history \<Rightarrow> StreamID \<Rightarrow> Entry list" where
  "mem_log = snd"

interpretation memj: journal_contract memJournal mem_reached mem_log
proof
  fix j ctx sid e now r j'
  assume j: "mem_reached j" and a: "jn_Append memJournal ctx sid e now j = (r, j')"
  obtain m h where mh: "j = (m, h)" by fastforce
  obtain config where c: "reach config m h" using j by (auto simp: mem_reached_def mh)
  obtain q m' where q: "mem_Append ctx sid e now m = (q, m')" by fastforce
  have r: "r = q" "j' = (m', case q of Inr _ \<Rightarrow> logged h sid e now | Inl _ \<Rightarrow> h)" using a q by (auto simp: memJournal_def mh)
  have "mem_reached j'" unfolding r(2) mem_reached_def using do_step [OF c mem_step.append [OF q]] by auto
  moreover have "case q of Inl _ \<Rightarrow> True | Inr n \<Rightarrow> n = Suc (length (h sid))"
    using append_step [OF _ _ q, of h] reach_inv [OF c] by (auto split: sum.splits)
  ultimately show "mem_reached j' \<and> (case r of Inl _ \<Rightarrow> mem_log j' sid = mem_log j sid
      | Inr n \<Rightarrow> n = Suc (length (mem_log j sid)) \<and> mem_log j' sid = mem_log j sid @ [stamp e n now])"
    using r by (auto simp: mem_log_def mh logged_def split: sum.splits)
next
  fix j ctx sid e now x j'
  assume j: "mem_reached j" and a: "jn_Close memJournal ctx sid e now j = (x, j')"
  obtain m h where mh: "j = (m, h)" by fastforce
  obtain config where c: "reach config m h" using j by (auto simp: mem_reached_def mh)
  obtain q m' where q: "mem_Close ctx sid e now m = (q, m')" by fastforce
  have r: "x = q" "j' = (m', if q = None then logged h sid e now else h)" using a q by (auto simp: memJournal_def mh)
  have "mem_reached j'" unfolding r(2) mem_reached_def using do_step [OF c mem_step.close [OF q]] by auto
  then show "mem_reached j' \<and> (case x of Some _ \<Rightarrow> mem_log j' sid = mem_log j sid
      | None \<Rightarrow> mem_log j' sid = mem_log j sid @ [stamp e (Suc (length (mem_log j sid))) now])"
    using r by (auto simp: mem_log_def mh logged_def split: option.splits)
qed

text \<open>Example runs: a stream just opened on the memory journal, and one that then ended.\<close>

lemma demo_runtime:
  "\<exists>w. rt_start demoService mem_reached mem_log w \<and> w_rt w = demoRuntime \<and> length (mem_log (w_journal w) demoId) = 1"
proof -
  obtain m where m: "demo_state m [openEntry demoId demoMeta 0]" using demo_opened by blast
  let ?w = "\<lparr>w_rt = demoRuntime, w_journal = (m, demoLog [openEntry demoId demoMeta 0]), w_pool = demoPool, w_sent = []\<rparr>"
  have "rt_start demoService mem_reached mem_log ?w"
    unfolding rt_start_def using demo_stateD(5) [OF m] by (auto simp: demoRuntime_def mem_reached_def mem_log_def intro!: exI)
  then show ?thesis by (intro exI [of _ ?w]) (simp add: mem_log_def)
qed

lemma demo_ended:
  "\<exists>w w'. rt_run demoService memJournal mem_reached mem_log w \<and> rt_terminal (w_rt w) = KindDone \<and> attachReader w = (True, w')
     \<and> (rt_step demoService memJournal mem_reached mem_log)\<^sup>*\<^sup>* w w'"
proof -
  obtain w0 where w0: "rt_start demoService mem_reached mem_log w0" "w_rt w0 = demoRuntime" using demo_runtime by blast
  have o: "\<not> rt_ended (w_rt w0)" "feed_ready (w_rt w0)"
    by (simp_all add: w0(2) demoRuntime_def newRuntime_def rt_ended_def feed_ready_def newDegradedFeed_def)
  obtain w where w: "finishDoneUntil demoService memJournal demoCall 0 ''stop'' w0 = (None, w)" "settled_as KindDone None w0 w"
    using done_succeeds [OF o] unfolding ended_as_def by blast
  have r: "rt_run demoService memJournal mem_reached mem_log w"
    by (rule run_step [OF run_start [OF w0(1)]]) (rule rt_step.section_step [OF rt_section.finish_done [OF w(1)]])
  have t: "rt_terminal (w_rt w) = KindDone" using w(2) by (simp add: settled_as_def)
  obtain x w' where x: "attachReader w = (x, w')" by fastforce
  have "x = True" using x w(2) by (auto simp: attachReader_def Let_def settled_as_def kind_defs)
  moreover have "rt_step demoService memJournal mem_reached mem_log w w'" by (rule rt_step.section_step [OF rt_section.attach [OF x]])
  ultimately show ?thesis using r t x by blast
qed

text \<open>
  C34: The runtime mirrors the journal. However the producer, stops, orphan checks, readers, triggers and other streams
  interleave, the last sequence number of the runtime is the length of the stream's log, and the numbered frames
  relayed to readers are exactly the committed entries after the first, in order. As long as no journal call failed
  nothing else is relayed, and a stream that ended has its terminal entry last in the log; afterwards the first
  frame without a number is the warning, right behind the entries up to the boundary the feed announces.
\<close>
theorem runtime_mirrors_journal:
  assumes "rt_run sv memJournal mem_reached mem_log w"
  shows "rt_lastSeq (w_rt w) = length (mem_log (w_journal w) (rt_id (w_rt w)))
    \<and> filter (\<lambda>f. df_entry f \<noteq> None) (w_sent w) = map (committed_frame \<circ> untimed) (tl (mem_log (w_journal w) (rt_id (w_rt w))))
    \<and> (if rt_degraded (w_rt w) then fd_active (rt_degradedFeed (w_rt w)) \<and> warned_at (w_sent w) (fd_boundary (rt_degradedFeed (w_rt w)))
       else list_all (\<lambda>f. df_entry f \<noteq> None) (w_sent w)
         \<and> (rt_terminal (w_rt w) \<noteq> [] \<longrightarrow> e_Kind (last (mem_log (w_journal w) (rt_id (w_rt w)))) = rt_terminal (w_rt w)))"
  using memj.rt_run_ok [OF assms] by (simp add: memj.w_ok_def rt_ok_def relayed_def)

theorem runtime_mirrors_journal_witness:
  "\<exists>w :: (Memory \<times> history) world. rt_run demoService memJournal mem_reached mem_log w \<and> rt_terminal (w_rt w) = KindDone \<and> rt_lastSeq (w_rt w) = length (mem_log (w_journal w) (rt_id (w_rt w)))"
  using demo_ended runtime_mirrors_journal by blast

section \<open>The end of a stream\<close>

text \<open>What readers, callers of stop and the journal see of a stream that has ended.\<close>

definition ended_view :: "('j \<Rightarrow> StreamID \<Rightarrow> Entry list) \<Rightarrow> 'j world \<Rightarrow> _" where
  "ended_view jlog w =
     (rt_terminal (w_rt w), rt_stopResult (w_rt w), rt_progress (w_rt w), rt_lastSeq (w_rt w), rt_done (w_rt w), rt_currentLease (w_rt w), w_sent w, rt_id (w_rt w),
      jlog (w_journal w) (rt_id (w_rt w)))"

lemma release_views [simp]: "ended_view jlog (release_lease l w) = ended_view jlog w"
  by (simp add: ended_view_def release_lease_def split: option.split)

context journal_contract
begin

lemma section_frozen:
  assumes "rt_section H sv jn jinv jlog w w'" and ok: "w_ok w" and t: "rt_terminal (w_rt w) \<noteq> []"
  shows "ended_view jlog w' = ended_view jlog w"
proof -
  have e: "rt_ended (w_rt w)" using t by (simp add: rt_ended_def)
  have nt: "\<not> rt_terminating (w_rt w)" using ok t by (simp add: w_ok_def rt_ok_def)
  have close: "closeTerminalUntil sv jn call kind cause guard deadline build w = (Some (JournalFailed ErrTerminalState), w)" for call kind cause guard deadline build
    using e by (simp add: closeTerminalUntil_def)
  show ?thesis
    using assms(1)
  proof cases
    case (chunk call event ob r)
    have "rt_ended (track_tools event (w_rt w))" using e by (simp add: rt_ended_def)
    then have "w' = upd_rt (track_tools event) w" using chunk by (simp add: appendChunk_def Let_def upd_rt_def)
    then show ?thesis by (simp add: ended_view_def upd_rt_def track_tools_def split: prod.split)
  next
    case (stop_run call r)
    then show ?thesis using close by (auto simp: stop_close_def ended_view_def upd_rt_def)
  qed (use e nt close in \<open>auto simp: ended_view_def upd_rt_def track_tools_def appendNonTerminalUntil_def finishDoneUntil_def stop_begin_def attachReader_def detachReader_def
      scheduleOrphanCheck_def orphan_claim_def orphan_count_def orphan_settle_def attempt_begin_def reserve_exchange_def reserve_pending_def
      mergePendingTriggerLocked_def trigger_attempt_def refusal_begin_def rt_cancel_def Let_def split: if_splits option.splits prod.splits\<close>)
qed

lemma steps_frozen:
  assumes "(rt_step sv jn jinv jlog)\<^sup>*\<^sup>* w w'" and "w_ok w" and "rt_terminal (w_rt w) \<noteq> []"
  shows "ended_view jlog w' = ended_view jlog w"
  using assms(1)
proof (induction rule: rtranclp_induct)
  case (step w1 w2)
  have t: "rt_terminal (w_rt w1) \<noteq> []" using step.IH assms(3) by (simp add: ended_view_def)
  have ok: "w_ok w1" using step.hyps(1) assms(2) by (induction rule: rtranclp_induct) (auto intro: rt_step_ok)
  from step.hyps(2) have "ended_view jlog w2 = ended_view jlog w1"
  proof cases
    case section_step
    then show ?thesis using section_frozen [OF _ ok t] by blast
  next
    case (dispatch r)
    then show ?thesis using t by (auto simp: markAttemptDispatched_def rt_ended_def Let_def)
  qed
  then show ?case using step.IH by simp
qed simp

end

text \<open>
  C35: A stream ends once. Its done channel is closed by exactly one terminal transition, its lease on a backend is held
  until then and no longer, and from then on no section of anybody changes its outcome, its text, its sequence
  number, its log or what was relayed.
\<close>
theorem stream_ends_once:
  assumes "rt_run sv memJournal mem_reached mem_log w" and "(rt_step sv memJournal mem_reached mem_log)\<^sup>*\<^sup>* w w'"
  shows "(if rt_terminal (w_rt w) = [] then rt_done (w_rt w) = 0 \<and> rt_currentLease (w_rt w) \<noteq> None
          else rt_done (w_rt w) = 1 \<and> rt_currentLease (w_rt w) = None \<and> kind_terminal (rt_terminal (w_rt w)) \<and> ended_view mem_log w' = ended_view mem_log w)"
  using memj.rt_run_ok [OF assms(1)] memj.steps_frozen [OF assms(2) memj.rt_run_ok [OF assms(1)]]
  by (auto simp: memj.w_ok_def rt_ok_def)

text \<open>A reader attaches to a stream that has ended.\<close>
theorem stream_ends_once_witness:
  "\<exists>w w'. rt_terminal (w_rt w) = KindDone \<and> attachReader w = (True, w') \<and> rt_done (w_rt w) = 1 \<and> ended_view mem_log w' = ended_view mem_log w"
proof -
  obtain w w' where w: "rt_run demoService memJournal mem_reached mem_log w" "rt_terminal (w_rt w) = KindDone" "attachReader w = (True, w')"
    "(rt_step demoService memJournal mem_reached mem_log)\<^sup>*\<^sup>* w w'" using demo_ended by blast
  then show ?thesis using stream_ends_once [OF w(1,4)] by (auto simp: kind_defs)
qed

end
