(* ===== verification/Spec2Isabelle.thy ===== *)
theory Spec2Isabelle
  imports Utf8_Window Seam Json_Grammar Migration_Policy Sse Ulid Memory_Contract Pool_Contract Chunk Continuation Degraded_Feed Runtime_Contract
begin

text \<open>
  Streamweld is a proxy in front of language-model backends. It keeps every response stream in a journal, relays it as
  server-sent events, and when a backend fails or is drained it carries the stream on at another one, so that the client
  sees one uninterrupted text. This development models the Go packages below \<open>internal/\<close> that decide what a client
  gets, and proves that they do what they mean to.

  \<^bold>\<open>The parts and how they interact.\<close> A request is normalised, a stream identifier generated, a backend leased from
  the pool and a runtime created. The producer sends the request upstream and decodes the body into events; the runtime
  observes each chunk, appends it to the journal and relays it to the attached readers, who otherwise replay the
  journal. When the journal fails, the stream degrades and is relayed without sequence numbers. When an attempt fails,
  or a drain or a health check interferes, the producer asks the gates whether the text may be continued, leases a
  target, rewrites the request, and reconciles the first bytes of the continuation with the text already sent. The
  backends of the pool and the policies come from routes that a controller applies.

  \<^bold>\<open>The theories\<close>, each in the order of the code it models:

  \<^item> \<open>Prelude\<close>, \<open>Utf8\<close>, \<open>Go_Json\<close>: bytes, time, contexts, and the parts of \<open>unicode/utf8\<close>, \<open>unicode\<close>, \<open>strings\<close> and
    \<open>encoding/json\<close> that the sources use.
  \<^item> \<open>Utf8_Window\<close> (\<open>migrate/utf8buffer.go\<close>): the buffer that holds the first window of a continuation. The window is
    valid UTF-8, independent of the fragmentation, and short attempts are accepted exactly if they are valid.
  \<^item> \<open>Seam\<close> (\<open>migrate/seam.go\<close>): the overlap removed is the longest within the window that cuts no rune.
  \<^item> \<open>Json_Prefix\<close>, \<open>Json_Grammar\<close> (\<open>migrate/jsonprefix.go\<close>): the prefix validator, sound and complete for the
    grammar of RFC 8259, which is given as inductive predicates.
  \<^item> \<open>Migration_Policy\<close> (\<open>migrate/policy.go\<close>, \<open>eligibility.go\<close>, \<open>correctness.go\<close>, \<open>conformance/verdict.go\<close>,
    \<open>apis/v1alpha1\<close>): eligibility is exactly the conjunction of the protocol's predicates.
  \<^item> \<open>Tool_Call\<close>, \<open>Continuation\<close> (\<open>migrate/toolcall.go\<close>, \<open>migrate/continuation.go\<close>, \<open>proxy/normalize.go\<close>): the
    tracker agrees with a specification read off the whole history of each choice; a rewritten request is the original
    carried on, with its token limits reduced.
  \<^item> \<open>Sse\<close> (\<open>proxy/sse\<close>): the codec round trip, through the locale \<open>prefix_codec\<close>.
  \<^item> \<open>Ulid\<close> (\<open>journal/id.go\<close>): canonical identifiers that increase strictly.
  \<^item> \<open>Journal_Types\<close>, \<open>Memory_Journal\<close>, \<open>Journal_Payload\<close>, \<open>Memory_Invariant\<close>, \<open>Memory_Refinement\<close>, \<open>Memory_Runs\<close>,
    \<open>Memory_Contract\<close> (\<open>journal/types.go\<close>, \<open>owner.go\<close>, \<open>memory.go\<close>): the memory journal refines, for every stream, a
    log of all entries ever committed; bounds, finality, retention, and exactly when streams open and grow.
  \<^item> \<open>Backend_Pool\<close>, \<open>Pool_Invariant\<close>, \<open>Pool_Runs\<close>, \<open>Pool_Contract\<close> (\<open>backend/types.go\<close>, \<open>pool.go\<close>, \<open>health.go\<close>):
    leases, drains, wake-ups, selection, reconciliation and probes, over all interleavings of critical sections.
  \<^item> \<open>Routes\<close> (\<open>proxy/routes.go\<close>): routes program the pool, and the order of their updates.
  \<^item> \<open>Journal_Sse\<close>, \<open>Chunk\<close>, \<open>Degraded_Feed\<close> (\<open>proxy/journal_sse.go\<close>, \<open>chunk.go\<close>, \<open>degradation.go\<close>): what is written
    decodes to what was journaled, the token count never falls short, and the relay loses nothing unannounced.
  \<^item> \<open>Stream_Runtime\<close>, \<open>Producer\<close> (\<open>proxy/durable.go\<close>, \<open>degradation.go\<close>, \<open>producer.go\<close>): the runtime of a stream and
    its producer; \<open>Runtime_Invariant\<close>, \<open>Payload_Text\<close>, \<open>Runtime_Contract\<close>: for any journal that satisfies the locale
    \<open>journal_contract\<close>, interpreted by the memory journal, the runtime mirrors the journal and ends once, and ending
    it succeeds whatever the journal does.
  \<^item> This theory: the property that spans the gates, the pool and the producer, that a stream is migrated only when it
    is safe.

  \<^bold>\<open>How state and operations correspond to the code.\<close> A Go struct is a record with the fields the code reads, a Go map
  an association list, a heap object shared by pointers an element of a store named by its address, a channel that is
  replaced when it is closed a generation number. Errors are values of sums and options, with one constructor per error
  the code tells apart. An \<open>int\<close> is \<open>int\<close>, a \<open>uint64\<close> is a natural number, with the wrap-around or the guard of
  the code written out. Clock readings, polls of a context, entropy and HTTP responses are arguments. Tables of the Unicode
  version (\<open>unicode.IsUpper\<close>), \<open>url.Parse\<close>, \<open>time.ParseDuration\<close> and the SHA-256 digest are parameters of which nothing
  is assumed beyond what the statements say.

  A critical section is one function. The methods of the memory journal and of the pool hold one mutex throughout;
  where the pool, the runtime or the producer gives its lock up, the definition takes the interference of other goroutines as a
  parameter (\<open>interfere\<close>, \<open>at_between\<close>, \<open>ar_wait\<close>) or is split into its sections (\<open>stop_begin\<close> and \<open>stop_close\<close>,
  \<open>refusal_begin\<close> and \<open>refusal_commit\<close>), and the step relations \<open>mem_step\<close>, \<open>pool_step\<close> and \<open>rt_step\<close> interleave them
  freely. \<open>closeTerminalUntil\<close> is one section, although it takes \<open>mu\<close> several times: \<open>writeMu\<close>, held throughout, excludes
  every writer of the journal and of the feed, and \<open>terminating\<close>, set first, makes every other section that looks at the
  stream give up. The sections of readers and triggers that may still run between touch only the reader count,
  pending triggers and the subscriptions, which it does not read. Leases are compared by value where Go compares pointers
  (\<open>reserve_exchange\<close>); lease numbers are unique, so that is the same. A custom \<open>Choose\<close> of the pool is a function of the
  candidates, without state of its own. Telemetry calls are left out; nothing reads them back. The list
  \<open>w_sent\<close> of frames handed to the relay is the only ghost state of the runtime, and the logs that of the journal.

  \<^bold>\<open>Bounds and fuel.\<close> Recursions over input have termination proofs. The JSON parser of \<open>Go_Json\<close> recurses on fuel that
  is twice the length of the input plus one, more than the nesting and the elements it can meet together. \<open>acquire_loop\<close> makes 64
  attempts, as the code does. The loops that wait for other goroutines take the list of what happens in each round; where
  it ends before the loop, the result is \<open>None\<close>.

  \<^bold>\<open>What is not modelled.\<close> The Redis journal, whose behaviour is that of Lua scripts in a server outside the repository: what
  is proved of the runtime with a journal holds for the memory journal and for any other that satisfies
  \<open>journal_contract\<close>. The HTTP handlers, the pass-through relay, configuration, telemetry, the Kubernetes
  controllers, the command-line programs, the chaos tests and the TypeScript clients: they consist of calls of libraries
  around the modelled operations, whose arguments are arbitrary here.
\<close>

section \<open>The target of a migration\<close>

lemma acquire_commit_other:
  assumes "acquire_commit chosen owner model excluded now p = (Some (Inr l), p')"
  shows "b_ID (bst_Backend (le_backend l)) \<notin> set excluded"
proof -
  obtain a where a: "eligibleLocked (p_store p ! a) excluded now" "acquireLocked a owner now p = (Inr l, p')"
    using assms by (fastforce simp: acquire_commit_def apfst_def map_prod_def split: option.splits if_splits prod.splits)
  have "r_backend (p_store (upd_rec b f q) ! a) = r_backend (p_store q ! a)" if "\<And>r. r_backend (f r) = r_backend r" for b f and q :: Pool
    using that by (cases "b < length (p_store q)") (auto simp: upd_rec_def nth_list_update list_update_beyond)
  then have "bst_Backend (le_backend l) = r_backend (p_store p ! a)"
    using a(2) by (auto simp: acquireLocked_def Let_def notifyLocked_def stateLocked_def split: if_splits)
  then show ?thesis using a(1) by (simp add: eligibleLocked_def split: if_splits)
qed

lemma acquire_loop_other:
  "acquire_loop n k owner model excluded clock interfere p = (Inr l, p') \<Longrightarrow> b_ID (bst_Backend (le_backend l)) \<notin> set excluded"
proof (induction n arbitrary: k p)
  case (Suc n)
  obtain r q where q: "acquire_attempt owner model excluded (clock (2 * k)) (clock (2 * k + 1)) (interfere (2 * k)) p = (r, q)" by fastforce
  show ?case
  proof (cases r)
    case None
    then show ?thesis using Suc q by simp
  next
    case (Some x)
    then have "acquire_attempt owner model excluded (clock (2 * k)) (clock (2 * k + 1)) (interfere (2 * k)) p = (Some (Inr l), p')" using Suc.prems q by simp
    then show ?thesis using acquire_commit_other by (fastforce simp: acquire_attempt_def Let_def split: if_splits prod.splits)
  qed
qed simp

lemma target_other:
  "acquireMigrationTarget routes reason deadline excluded rounds w = Some (Inr l, w') \<Longrightarrow> b_ID (bst_Backend (le_backend l)) \<noteq> excluded"
proof (induction rounds arbitrary: w)
  case (Cons rd rounds)
  have other: "b_ID (bst_Backend (le_backend l)) \<noteq> excluded" if "pool_call (acquireBackend routes env owner model [excluded]) u = (Inr l, u')" for env owner model u u'
    using that acquire_loop_other [where excluded = "[excluded]"]
    by (fastforce simp: pool_call_def acquireBackend_def acquireModel_def pool_AcquireModel_def pool_acquire_def Let_def
        split: option.splits if_splits prod.splits sum.splits)
  obtain r w1 where "pool_call (acquireBackend routes (ar_env rd) (rt_id (w_rt w)) (rt_model (w_rt w)) [excluded]) w = (r, w1)" by fastforce
  then show ?case using Cons other by (auto simp: Let_def split: if_splits)
qed simp

text \<open>What a preparation that yields an attempt has gone through.\<close>

lemma prepared:
  assumes "prepareMigration sv jn routes env reason passive deadline w = Some (Some spec, w')" and rt: "rt = w_rt (me_interfere env 0 w)"
  obtains targetLease w1 where "migrate_to sv jn env rt (view_runtime rt) reason deadline targetLease w1 = (Some spec, w')"
    and "\<And>l. targetLease = Some l \<Longrightarrow> b_ID (bst_Backend (le_backend l)) \<noteq> b_ID (bst_Backend (rt_currentBackend rt))"
    and "\<not> rt_ended rt" and "rt_cause rt = None"
    and "completedGenerationReason (rt_finishReason rt) (mv_usage (view_runtime rt)) (mv_correctness (view_runtime rt)) (rewrite_error (view_runtime rt)) = None"
proof -
  have o: "\<not> rt_ended rt" "rt_cause rt = None"
    and c: "completedGenerationReason (rt_finishReason rt) (mv_usage (view_runtime rt)) (mv_correctness (view_runtime rt)) (rewrite_error (view_runtime rt)) = None"
    using assms(1) rt by (auto simp: prepareMigration_def Let_def split: if_splits option.splits)
  obtain deadline' w2 r w3 where a: "acquireMigrationTarget routes reason deadline' (b_ID (bst_Backend (rt_currentBackend rt))) (me_rounds env) w2 = Some (r, w3)"
    and m: "migrate_to sv jn env rt (view_runtime rt) reason deadline (case r of Inl _ \<Rightarrow> None | Inr l \<Rightarrow> Some l) (me_interfere env 3 w3) = (Some spec, w')"
    using assms(1) c o unfolding prepareMigration_def rt [symmetric] Let_def
    by (simp split: if_split_asm option.split_asm prod.split_asm)
  show thesis by (rule that [OF m _ o c]) (use a target_other in \<open>fastforce split: sum.splits\<close>)
qed

text \<open>What the gates of a granted migration let through.\<close>

lemma migrate_granted:
  assumes "migrate_to sv jn env rt v reason deadline targetLease w = (Some spec, w')"
  obtains l r where "targetLease = Some l" and "mv_correctness v = []" and "mv_rewritten v = Inr (as_body spec)" and "er_Eligible r"
    and "EvaluateEligibility (migrate_policy (rt_policy rt)) (eligibility_snapshot rt v (me_clock env 2) (b_TemplateVerdict (bst_Backend (le_backend l)))
      (b_ModelVersion (bst_Backend (rt_originBackend rt))) (b_ModelVersion (bst_Backend (le_backend l))) True) = Inr r"
    and "as_toBackend spec = b_ID (bst_Backend (le_backend l))" and "as_seamBase spec = mv_accumulated v"
    and "last (as_migrationEntries spec) = new_entry KindMigration (migration_payload (b_ID (bst_Backend (rt_currentBackend rt))) (as_toBackend spec)
      reason (u_CompletionTokens (mv_usage v)) (u_Estimated (mv_usage v)) (as_attempt spec))"
proof -
  let ?e = "EvaluateEligibility (migrate_policy (rt_policy rt)) (eligibility_snapshot rt v (me_clock env 2)
    (b_TemplateVerdict (case targetLease of None \<Rightarrow> bst_Backend (rt_currentBackend rt) | Some l \<Rightarrow> bst_Backend (le_backend l)))
    (b_ModelVersion (bst_Backend (rt_originBackend rt)))
    (b_ModelVersion (case targetLease of None \<Rightarrow> bst_Backend (rt_currentBackend rt) | Some l \<Rightarrow> bst_Backend (le_backend l))) (targetLease \<noteq> None))"
  obtain r where r: "?e = Inr r" using assms by (auto simp: migrate_to_def Let_def split: sum.splits)
  have g: "er_Eligible r" "mv_correctness v = []" using assms r by (auto simp: migrate_to_def Let_def split: if_splits)
  obtain body where b: "mv_rewritten v = Inr body" using assms r g by (auto simp: migrate_to_def Let_def split: sum.splits)
  obtain l where l: "targetLease = Some l" using eligible_iff(2) [OF r] g(1) by (auto simp: eligibility_snapshot_def)
  show thesis
    by (rule that [OF l g(2)]) (use assms r g b l in \<open>auto simp: migrate_to_def Let_def split: prod.splits bool.splits\<close>)
qed

section \<open>Migrating only when it is safe\<close>


text \<open>A stream on backend \<open>b\<close> whose attempt failed, and a pool in which \<open>a\<close> is healthy.\<close>

definition movingRuntime :: streamRuntime where
  "movingRuntime = demoRuntime\<lparr>rt_requestBody := demoRequest, rt_requestKind := RequestCompletion, rt_structured := False, rt_multipleChoice := False,
     rt_policy := demoPolicy\<lparr>po_AllowCrossVersion := True\<rparr>, rt_currentBackend := stateLocked (demoRecord ''b'') 0\<rparr>"

definition movingEnv :: "unit migration_env" where
  "movingEnv = \<lparr>me_calls = \<lambda>_. demoCall, me_clock = \<lambda>_. 0,
     me_rounds = [\<lparr>ar_env = \<lparr>ae_clock = \<lambda>_. 8, ae_interfere = \<lambda>_ p. p\<rparr>, ar_recheck = \<lparr>ae_clock = \<lambda>_. 8, ae_interfere = \<lambda>_ p. p\<rparr>, ar_now = 8, ar_wait = \<lambda>w. w\<rparr>],
     me_interfere = \<lambda>_ w. w\<rparr>"

definition movingWorld :: "unit world" where
  "movingWorld = \<lparr>w_rt = movingRuntime, w_journal = (), w_pool = healthyPool, w_sent = []\<rparr>"

lemma moving_sel: "rt_requestBody movingRuntime = demoRequest" "rt_requestKind movingRuntime = RequestCompletion" "rt_id movingRuntime = demoId" "rt_model movingRuntime = ''m''"
  "rt_policy movingRuntime = demoPolicy\<lparr>po_AllowCrossVersion := True\<rparr>" "rt_currentBackend movingRuntime = stateLocked (demoRecord ''b'') 0"
  "rt_cause movingRuntime = None" "\<not> rt_ended movingRuntime" "rt_finishReason movingRuntime = []" "rt_progress movingRuntime = zeroProgress"
  "rt_toolCalls movingRuntime = []" "\<not> rt_toolTrackFailed movingRuntime" "\<not> rt_multipleChoice movingRuntime" "\<not> rt_structured movingRuntime"
  "rt_createdAt movingRuntime = 0" "rt_migrationsUsed movingRuntime = 0" "rt_currentLease movingRuntime = rt_currentLease demoRuntime"
  by (simp_all add: movingRuntime_def demoRuntime_def newRuntime_def rt_ended_def)

lemma moving_target:
  obtains l w' where "acquireMigrationTarget None ''health'' 0 ''b'' (me_rounds movingEnv) movingWorld = Some (Inr l, w')"
    "bst_Backend (le_backend l) = demoBackend ''a''" "w_rt w' = movingRuntime"
proof -
  have c: "filterModelCandidates (candidatesLocked [''b''] 8 healthyPool) ''m'' = [stateLocked (p_store healthyPool ! 0) 8]"
    by (simp add: candidatesLocked_def map_records_def healthy_eval demoPool_def eligibleLocked_def demoRecord_def newRecord_def health_defs sort_states_def
        filterModelCandidates_def stateLocked_def backendServesModel_def demoBackend_def)
  let ?p = "healthyPool\<lparr>p_nextSelection := 1\<rparr>"
  have choose: "choose_index [state] healthyPool = (0, ?p)" for state
    by (simp add: choose_index_def healthy_eval demoPool_def demoPoolConfig_def configWithDefaults_def pool_DefaultConfig_def)
  have i: "b_ID (bst_Backend (stateLocked (p_store healthyPool ! 0) 8)) = ''a''" by (simp add: stateLocked_def healthy_eval)
  have "\<exists>l p'. acquire_commit ''a'' demoId (Some ''m'') [''b''] 8 ?p = (Some (Inr l), p') \<and> bst_Backend (le_backend l) = demoBackend ''a''"
    by (simp add: acquire_commit_def healthy_eval demoPool_def eligibleLocked_def demoRecord_def newRecord_def health_defs acquireLocked_def Let_def backendServesModel_def
        notifyLocked_def upd_rec_def stateLocked_def demoBackend_def)
  then have "\<exists>l p'. acquire_attempt demoId (Some ''m'') [''b''] 8 8 (\<lambda>p. p) healthyPool = (Some (Inr l), p') \<and> bst_Backend (le_backend l) = demoBackend ''a''"
    using i by (simp only: acquire_attempt_def c choose Let_def option.case) simp
  then obtain l p' where a: "acquire_attempt demoId (Some ''m'') [''b''] 8 8 (\<lambda>p. p) healthyPool = (Some (Inr l), p')" "bst_Backend (le_backend l) = demoBackend ''a''"
    by blast
  have "pool_AcquireModel demoId ''m'' [''b''] (\<lambda>_. 8) (\<lambda>_ p. p) healthyPool = (Inr l, p')"
    using acquire_first [of demoId "Some ''m''" "[''b'']" "\<lambda>_. 8" "\<lambda>_ p. p" healthyPool] a(1) letter_Validate [of "CHR ''b''"]
    by (simp add: pool_AcquireModel_def pool_acquire_def validateBackendMetadata_def trim_letter unicode_is_space_def runes_def unicode_is_control_def)
  then show thesis using a(2) by (intro that [of l "movingWorld\<lparr>w_pool := p'\<rparr>"]) (simp_all add: movingEnv_def movingWorld_def moving_sel pool_call_def acquireBackend_def Let_def)
qed

lemma zero_snapshot: "progress_Snapshot zeroProgress = ([], zeroUsage\<lparr>u_Estimated := True\<rparr>)"
  by (simp add: progress_Snapshot_def zeroProgress_def zeroUsage_def)

lemma moving_prepared:
  "\<exists>spec w'. prepareMigration demoService failingJournal None movingEnv ''health'' False 0 movingWorld = Some (Some spec, w')"
proof -
  obtain l w1 where l: "acquireMigrationTarget None ''health'' 0 ''b'' (me_rounds movingEnv) movingWorld = Some (Inr l, w1)"
    "bst_Backend (le_backend l) = demoBackend ''a''" "w_rt w1 = movingRuntime" by (rule moving_target)
  obtain body where body: "RewriteContinuation RequestCompletion demoRequest \<lparr>co_AccumulatedText = [], co_TokensAlreadyEmitted = 0\<rparr> = Inr body"
    using demo_rewrites [of "[]"] by (auto simp: utf8_valid_all_ascii)
  have v: "mv_correctness (view_runtime movingRuntime) = []" "mv_rewritten (view_runtime movingRuntime) = Inr body"
    "mv_usage (view_runtime movingRuntime) = zeroUsage\<lparr>u_Estimated := True\<rparr>"
    using body by (simp_all add: view_runtime_def zero_snapshot moving_sel EvaluateCorrectness_def InsideToolCall_def zeroUsage_def)
  have "\<exists>r. EvaluateEligibility (migrate_policy (rt_policy movingRuntime)) (eligibility_snapshot movingRuntime (view_runtime movingRuntime) 0 VerdictSafe
      (b_ModelVersion (bst_Backend (rt_originBackend movingRuntime))) [] True) = Inr r \<and> er_Eligible r"
    by (simp add: EvaluateEligibility_def policy_Validate_def mode_Validate_def migrate_policy_def eligibility_snapshot_def moving_sel v demoPolicy_def verdict_Valid_def
        verdict_defs er_Eligible_def eligibility_failures_def evaluateTemplate_def zeroUsage_def)
  then obtain r where r: "EvaluateEligibility (migrate_policy (rt_policy movingRuntime)) (eligibility_snapshot movingRuntime (view_runtime movingRuntime) 0 VerdictSafe
      (b_ModelVersion (bst_Backend (rt_originBackend movingRuntime))) [] True) = Inr r" "er_Eligible r" by blast
  have "\<exists>spec w'. migrate_to demoService failingJournal movingEnv movingRuntime (view_runtime movingRuntime) ''health'' 0 (Some l) w1 = (Some spec, w')"
    using r v l(2,3) by (simp add: migrate_to_def Let_def movingEnv_def demoBackend_def reserveMigrationTarget_def reserve_exchange_def moving_sel)
  moreover have i: "me_interfere movingEnv k w = w" for k w by (simp add: movingEnv_def)
  have c: "completedGenerationReason [] usage [] None = None" "rewrite_error (view_runtime movingRuntime) = None" for usage
    by (simp_all add: completedGenerationReason_def rewrite_error_def v)
  have b: "b_ID (bst_Backend (stateLocked (demoRecord ''b'') 0)) = ''b''" "w_rt movingWorld = movingRuntime" by (simp_all add: stateLocked_def movingWorld_def)
  have "prepareMigration demoService failingJournal None movingEnv ''health'' False 0 movingWorld
      = Some (migrate_to demoService failingJournal movingEnv movingRuntime (view_runtime movingRuntime) ''health'' 0 (Some l) w1)"
    using l(1) by (simp add: prepareMigration_def i moving_sel c v b Let_def)
  ultimately show ?thesis by simp
qed


end
